(* ===== verification/Gpcl_Prelude.thy ===== *)
theory Gpcl_Prelude
  imports Main "HOL-Library.Word" "HOL-Library.Char_ord" "HOL-Library.List_Lexorder"
    "HOL-Library.Multiset"
begin

text \<open>
  The shared vocabulary of the development: the errors a gpcl operation can end in, the result
  type that carries them, the part of the C++ standard library the components call (the character
  classes of the C locale, \<open>std::map\<close> over an ordered key, decimal output and input of integers),
  and the generic lemmas that the component theories use.
\<close>

section \<open>Results and errors\<close>

text \<open>
  \<open>GPCL_ASSERT\<close>, \<open>GPCL_VERIFY\<close> and \<open>GPCL_UNREACHABLE\<close> are active in every build and abort the
  process; \<open>Undefined_behaviour\<close> stands for an operation whose precondition the C++ language
  leaves to the caller (a null or dangling dereference, an index past the end of a vector).
\<close>

datatype json_errc =
    bad_json_cast
  | type_mismatch
  | operation_not_supported
  | out_of_range
  | failed_to_parse

datatype gpcl_error =
    Assertion_failed
  | Unreachable_executed
  | Undefined_behaviour
  | Std_out_of_range
  | Std_length_error
  | Std_bad_alloc
  | User_exception
  | Bad_lexical_cast
  | Bad_variant_access
  | Bad_weak_ptr
  | Bad_expected_access
  | Bad_optional_access
  | Json_error json_errc

type_synonym 'a res = "gpcl_error + 'a"

definition res_bind :: "'a res \<Rightarrow> ('a \<Rightarrow> 'b res) \<Rightarrow> 'b res" where
  "res_bind m f = (case m of Inl e \<Rightarrow> Inl e | Inr x \<Rightarrow> f x)"

lemma res_bind_simps [simp]:
  "res_bind (Inl e) f = Inl e"
  "res_bind (Inr x) f = f x"
  by (simp_all add: res_bind_def)

lemma res_bind_Inr_iff: "res_bind m f = Inr y \<longleftrightarrow> (\<exists>x. m = Inr x \<and> f x = Inr y)"
  by (cases m) simp_all

lemma res_bind_Inl_iff: "res_bind m f = Inl e \<longleftrightarrow> m = Inl e \<or> (\<exists>x. m = Inr x \<and> f x = Inl e)"
  by (cases m) auto

lemma res_bind_not_Inl:
  "m \<noteq> Inl e \<Longrightarrow> (\<And>x. m = Inr x \<Longrightarrow> f x \<noteq> Inl e) \<Longrightarrow> res_bind m f \<noteq> Inl e"
  by (cases m) simp_all

lemma res_bind_assoc: "res_bind (res_bind m f) g = res_bind m (\<lambda>x. res_bind (f x) g)"
  by (cases m) simp_all

definition gpcl_assert :: "bool \<Rightarrow> unit res" where
  "gpcl_assert b = (if b then Inr () else Inl Assertion_failed)"

lemma gpcl_assert_simps [simp]:
  "gpcl_assert True = Inr ()"
  "gpcl_assert False = Inl Assertion_failed"
  "gpcl_assert b = Inr u \<longleftrightarrow> b"
  by (simp_all add: gpcl_assert_def)

fun res_fold :: "('s \<Rightarrow> 'x \<Rightarrow> 's res) \<Rightarrow> 's \<Rightarrow> 'x list \<Rightarrow> 's res" where
  "res_fold f s [] = Inr s"
| "res_fold f s (x # xs) = res_bind (f s x) (\<lambda>s'. res_fold f s' xs)"

lemma res_fold_append:
  "res_fold f s (xs @ ys) = res_bind (res_fold f s xs) (\<lambda>s'. res_fold f s' ys)"
  by (induction xs arbitrary: s) (simp_all add: res_bind_assoc)

text \<open>
  A computation that may fail to return is an \<open>option\<close> of a result: \<open>None\<close> is the loop that never
  ends, \<open>Some (Inl e)\<close> an exception, \<open>Some (Inr x)\<close> a normal return.
\<close>

definition run_bind :: "'a res option \<Rightarrow> ('a \<Rightarrow> 'b res option) \<Rightarrow> 'b res option" where
  "run_bind m f = (case m of None \<Rightarrow> None | Some (Inl e) \<Rightarrow> Some (Inl e) | Some (Inr x) \<Rightarrow> f x)"

lemma run_bind_simps [simp]:
  "run_bind None f = None"
  "run_bind (Some (Inl e)) f = Some (Inl e)"
  "run_bind (Some (Inr x)) f = f x"
  by (simp_all add: run_bind_def)

lemma run_bind_assoc: "run_bind (run_bind m f) g = run_bind m (\<lambda>x. run_bind (f x) g)"
  by (simp add: run_bind_def split: option.splits sum.splits)

section \<open>\<open>size_t\<close>\<close>

text \<open>
  Sizes and addresses are natural numbers; \<open>size_t\<close> is the wrap-around of 64-bit unsigned arithmetic,
  \<open>size_sub\<close> subtraction and \<open>size_not\<close> bitwise complement in it.
\<close>

definition size_t :: "nat \<Rightarrow> nat" where
  "size_t n = n mod 2 ^ 64"

lemma size_t_id [simp]: "n < 2 ^ 64 \<Longrightarrow> size_t n = n"
  by (simp add: size_t_def)

definition size_sub :: "nat \<Rightarrow> nat \<Rightarrow> nat" where
  "size_sub a b = size_t (a + (2 ^ 64 - b))"

definition size_not :: "nat \<Rightarrow> nat" where
  "size_not a = 2 ^ 64 - 1 - a"

lemma size_sub_le [simp]: "b \<le> a \<Longrightarrow> a < 2 ^ 64 \<Longrightarrow> size_sub a b = a - b"
  by (simp add: size_sub_def size_t_def le_mod_geq)

section \<open>Character classes of the C locale\<close>

definition is_space :: "char \<Rightarrow> bool" where
  "is_space c \<longleftrightarrow> (let n = (of_char c :: nat) in n = 32 \<or> 9 \<le> n \<and> n \<le> 13)"

definition is_digit :: "char \<Rightarrow> bool" where
  "is_digit c \<longleftrightarrow> (let n = (of_char c :: nat) in 48 \<le> n \<and> n \<le> 57)"

definition is_alpha :: "char \<Rightarrow> bool" where
  "is_alpha c \<longleftrightarrow> (let n = (of_char c :: nat) in 65 \<le> n \<and> n \<le> 90 \<or> 97 \<le> n \<and> n \<le> 122)"

definition is_alnum :: "char \<Rightarrow> bool" where
  "is_alnum c \<longleftrightarrow> is_alpha c \<or> is_digit c"

section \<open>Decimal numerals\<close>

text \<open>The digits \<open>operator<<\<close> writes for a non-negative integer, most significant first.\<close>

definition digit_char :: "nat \<Rightarrow> char" where
  "digit_char d = char_of (48 + d)"

definition digit_val :: "char \<Rightarrow> nat" where
  "digit_val c = of_char c - 48"

fun show_nat :: "nat \<Rightarrow> string" where
  "show_nat n = (if n < 10 then [digit_char n] else show_nat (n div 10) @ [digit_char (n mod 10)])"

declare show_nat.simps [simp del]

text \<open>What \<open>operator>>\<close> accumulates over a run of digits.\<close>

definition read_digits :: "string \<Rightarrow> nat" where
  "read_digits s = foldl (\<lambda>n c. 10 * n + digit_val c) 0 s"

lemma digit_char_of:
  assumes "d < 10"
  shows "of_char (digit_char d) = (48 + d :: nat)"
  using assms by (simp add: digit_char_def)

lemma is_digit_digit_char [simp]: "d < 10 \<Longrightarrow> is_digit (digit_char d)"
  by (simp add: is_digit_def digit_char_of)

lemma digit_val_digit_char [simp]: "d < 10 \<Longrightarrow> digit_val (digit_char d) = d"
  by (simp add: digit_val_def digit_char_of)

lemma show_nat_nonempty [simp]: "show_nat n \<noteq> []"
  by (subst show_nat.simps) simp

lemma show_nat_digits: "c \<in> set (show_nat n) \<Longrightarrow> is_digit c"
proof (induction n rule: show_nat.induct)
  case (1 n)
  then show ?case
    by (cases "n < 10") (auto simp: show_nat.simps [of n])
qed

lemma read_digits_snoc: "read_digits (s @ [c]) = 10 * read_digits s + digit_val c"
  by (simp add: read_digits_def)

lemma read_digits_show_nat [simp]: "read_digits (show_nat n) = n"
proof (induction n rule: show_nat.induct)
  case (1 n)
  show ?case
  proof (cases "n < 10")
    case True
    then show ?thesis by (simp add: show_nat.simps [of n] read_digits_def)
  next
    case False
    with 1 have "read_digits (show_nat (n div 10)) = n div 10" by simp
    with False show ?thesis
      by (simp add: show_nat.simps [of n] read_digits_snoc)
  qed
qed

section \<open>\<open>std::map\<close> as an association list sorted by key\<close>

text \<open>
  The iteration order of \<open>std::map\<close> is the key order, so the list is kept strictly sorted.
  \<open>map_insert\<close> is \<open>insert\<close>, which leaves an existing mapping alone and reports whether it
  inserted; \<open>map_index\<close> is \<open>operator[]\<close>, which adds the default value for a missing key;
  \<open>map_put\<close> assigns through the reference that \<open>operator[]\<close> or \<open>at\<close> returned.
\<close>

fun map_insert :: "'k::linorder \<Rightarrow> 'v \<Rightarrow> ('k \<times> 'v) list \<Rightarrow> ('k \<times> 'v) list \<times> bool" where
  "map_insert k v [] = ([(k, v)], True)"
| "map_insert k v ((k', v') # m) =
     (if k < k' then ((k, v) # (k', v') # m, True)
      else if k = k' then ((k', v') # m, False)
      else (case map_insert k v m of (m', b) \<Rightarrow> ((k', v') # m', b)))"

fun map_put :: "'k \<Rightarrow> 'v \<Rightarrow> ('k \<times> 'v) list \<Rightarrow> ('k \<times> 'v) list" where
  "map_put k v [] = []"
| "map_put k v ((k', v') # m) = (if k = k' then (k', v) # m else (k', v') # map_put k v m)"

definition map_erase :: "'k \<Rightarrow> ('k \<times> 'v) list \<Rightarrow> ('k \<times> 'v) list" where
  "map_erase k m = filter (\<lambda>(k', v). k' \<noteq> k) m"

definition map_sorted :: "('k::linorder \<times> 'v) list \<Rightarrow> bool" where
  "map_sorted m \<longleftrightarrow> sorted_wrt (<) (map fst m)"

lemma map_sorted_simps [simp]:
  "map_sorted []"
  "map_sorted ((k, v) # m) \<longleftrightarrow> (\<forall>k' \<in> fst ` set m. k < k') \<and> map_sorted m"
  by (auto simp: map_sorted_def)

abbreviation map_vals :: "('v \<Rightarrow> 'w) \<Rightarrow> ('k \<times> 'v) list \<Rightarrow> ('k \<times> 'w) list" where
  "map_vals f \<equiv> map (\<lambda>(k, v). (k, f v))"

lemma map_vals_keys [simp]: "fst ` (\<lambda>(k, v). (k, f v)) ` A = fst ` A"
  by force

lemma map_of_Some_key: "map_of m k = Some v \<Longrightarrow> k \<in> fst ` set m"
  by (auto dest: map_of_SomeD intro: rev_image_eqI)

lemma map_of_None_key: "map_of m k = None \<longleftrightarrow> k \<notin> fst ` set m"
  by (simp add: map_of_eq_None_iff)

lemma map_of_map_vals: "map_of (map_vals f m) k = map_option f (map_of m k)"
  by (induction m) auto

lemma map_insert_map_vals:
  "map_insert k (f v) (map_vals f m) = apfst (map_vals f) (map_insert k v m)"
  by (induction k v m rule: map_insert.induct) (auto split: prod.splits)

lemma map_put_map_vals: "map_put k (f v) (map_vals f m) = map_vals f (map_put k v m)"
  by (induction k v m rule: map_put.induct) auto

lemma map_erase_map_vals: "map_erase k (map_vals f m) = map_vals f (map_erase k m)"
  by (induction m) (auto simp: map_erase_def)

lemma map_sorted_map_vals [simp]: "map_sorted (map_vals f m) = map_sorted m"
  by (simp add: map_sorted_def comp_def case_prod_unfold)

lemma map_insert_keys: "fst ` set (fst (map_insert k v m)) = insert k (fst ` set m)"
proof (induction k v m rule: map_insert.induct)
  case (2 k v k' v' m)
  then show ?case by (cases "map_insert k v m") (simp add: insert_commute)
qed simp

lemma map_sorted_map_insert: "map_sorted m \<Longrightarrow> map_sorted (fst (map_insert k v m))"
proof (induction k v m rule: map_insert.induct)
  case (2 k v k' v' m)
  have keys: "fst ` set (fst (map_insert k v m)) = insert k (fst ` set m)"
    by (rule map_insert_keys)
  from 2 show ?case
    by (cases "map_insert k v m") (use keys in \<open>auto intro: order.strict_trans\<close>)
qed simp

lemma map_of_map_insert:
  assumes "map_sorted m"
  shows "map_of (fst (map_insert k v m)) =
    (case map_of m k of None \<Rightarrow> (map_of m)(k \<mapsto> v) | Some _ \<Rightarrow> map_of m)"
  using assms
proof (induction k v m rule: map_insert.induct)
  case (2 k v k' v' m)
  show ?case
  proof (cases "k < k'")
    case True
    with "2.prems" have "k \<notin> fst ` set m" by force
    then have "map_of m k = None" by (simp add: map_of_eq_None_iff)
    with True show ?thesis by (auto simp: fun_eq_iff)
  next
    case False
    with "2.IH" "2.prems" show ?thesis
      by (cases "map_insert k v m") (auto simp: fun_eq_iff split: option.splits)
  qed
qed simp

lemma map_insert_snd: "map_sorted m \<Longrightarrow> snd (map_insert k v m) \<longleftrightarrow> k \<notin> fst ` set m"
proof (induction k v m rule: map_insert.induct)
  case (2 k v k' v' m)
  then show ?case by (cases "map_insert k v m") force
qed simp

lemma map_insert_append:
  assumes "\<forall>k' \<in> fst ` set m. k' < k"
  shows "map_insert k v m = (m @ [(k, v)], True)"
  using assms by (induction k v m rule: map_insert.induct) auto

lemma map_put_keys [simp]: "map fst (map_put k v m) = map fst m"
  by (induction k v m rule: map_put.induct) auto

lemma map_of_map_put:
  "map_of (map_put k v m) = (if k \<in> fst ` set m then (map_of m)(k \<mapsto> v) else map_of m)"
  by (induction k v m rule: map_put.induct) (auto simp: fun_eq_iff)

lemma map_of_map_erase: "map_of (map_erase k m) = (map_of m)(k := None)"
  by (induction m) (auto simp: map_erase_def fun_eq_iff)

lemma map_sorted_map_put: "map_sorted m \<Longrightarrow> map_sorted (map_put k v m)"
  by (simp add: map_sorted_def)

lemma map_sorted_map_erase: "map_sorted m \<Longrightarrow> map_sorted (map_erase k m)"
  by (induction m) (auto simp: map_erase_def)

end
