(* ===== verification/Json_Value.thy ===== *)
theory Json_Value
  imports Gpcl_Prelude
begin

text \<open>
  The value type of \<open>basic_json\<close> (\<open>json.hpp\<close>, with \<open>json_at.hpp\<close>, \<open>json_index.hpp\<close> and
  \<open>json_size.hpp\<close>) for the instance \<open>gpcl::json\<close>: 64-bit integers, \<open>std::string\<close>, \<open>std::map\<close>
  and \<open>std::vector\<close>; the floating point type is the type variable \<open>'r\<close>.  A string, an object or an
  array is held either directly or behind a \<open>shared_ptr<const T>\<close> that copying creates and that the
  copy-on-write visitor resolves before a mutation.  \<open>deref\<close> forgets which of the two a value uses;
  the lemmas show that every operation acts on the dereferenced value as its contract says, the errors
  it raises included.  Running out of memory (\<open>std::bad_alloc\<close> from the copies that copy-on-write makes
  and from the containers) is not modelled.
\<close>

section \<open>The variant and its two readings\<close>

datatype 'r jvalue =
    JNull
  | JBoolean bool
  | JInteger "64 word"
  | JReal 'r
  | JString string
  | JSharedString string
  | JObject "(string \<times> 'r jvalue) list"
  | JSharedObject "(string \<times> 'r jvalue) list"
  | JArray "'r jvalue list"
  | JSharedArray "'r jvalue list"

text \<open>The JSON document a value denotes.\<close>

datatype 'r json =
    Null
  | Boolean bool
  | Integer "64 word"
  | Real 'r
  | Str string
  | Object "(string \<times> 'r json) list"
  | Array "'r json list"

text \<open>\<open>dereference_ptr\<close> under \<open>const_visitor\<close>: a shared alternative is read through its pointer.\<close>

fun deref :: "'r jvalue \<Rightarrow> 'r json" where
  "deref JNull = Null"
| "deref (JBoolean b) = Boolean b"
| "deref (JInteger n) = Integer n"
| "deref (JReal r) = Real r"
| "deref (JString s) = Str s"
| "deref (JSharedString s) = Str s"
| "deref (JObject ob) = Object (map (\<lambda>(k, v). (k, deref v)) ob)"
| "deref (JSharedObject ob) = Object (map (\<lambda>(k, v). (k, deref v)) ob)"
| "deref (JArray a) = Array (map deref a)"
| "deref (JSharedArray a) = Array (map deref a)"

text \<open>
  The copy constructor: \<open>clone_visitor\<close> moves a directly held string, object or array behind a
  fresh shared pointer; copying the container copies its elements, hence the recursion.  An
  alternative that is already shared is copied as a pointer.
\<close>

fun clone :: "'r jvalue \<Rightarrow> 'r jvalue" where
  "clone (JString s) = JSharedString s"
| "clone (JObject ob) = JSharedObject (map (\<lambda>(k, v). (k, clone v)) ob)"
| "clone (JArray a) = JSharedArray (map clone a)"
| "clone v = v"

text \<open>
  The effect of \<open>cow_visitor\<close> on the visited variant: a shared alternative is replaced by a copy of
  the container it points to (\<open>dest_ = *x\<close>), whatever the visitor does with it afterwards.
\<close>

definition cow :: "'r jvalue \<Rightarrow> 'r jvalue" where
  "cow v = (case v of
      JSharedString s \<Rightarrow> JString s
    | JSharedObject ob \<Rightarrow> JObject (map (\<lambda>(k, v). (k, clone v)) ob)
    | JSharedArray a \<Rightarrow> JArray (map clone a)
    | _ \<Rightarrow> v)"

section \<open>Constructors and assignment\<close>

definition value_of_null :: "'r jvalue" where "value_of_null = JNull"
definition value_of_boolean :: "bool \<Rightarrow> 'r jvalue" where "value_of_boolean b = JBoolean b"
definition value_of_integer :: "64 word \<Rightarrow> 'r jvalue" where "value_of_integer n = JInteger n"
definition value_of_real :: "'r \<Rightarrow> 'r jvalue" where "value_of_real r = JReal r"
definition value_of_string :: "string \<Rightarrow> 'r jvalue" where "value_of_string s = JString s"

text \<open>The elements of an initializer list are copied into the container.\<close>

definition value_of_array_list :: "'r jvalue list \<Rightarrow> 'r jvalue" where
  "value_of_array_list il = JArray (map clone il)"

definition map_of_list :: "('k::linorder \<times> 'v) list \<Rightarrow> ('k \<times> 'v) list" where
  "map_of_list il = foldl (\<lambda>m (k, v). fst (map_insert k v m)) [] il"

definition value_of_object_list :: "(string \<times> 'r jvalue) list \<Rightarrow> 'r jvalue" where
  "value_of_object_list il = JObject (map_of_list (map (\<lambda>(k, v). (k, clone v)) il))"

definition copy_assign :: "'r jvalue \<Rightarrow> 'r jvalue \<Rightarrow> 'r jvalue" where
  "copy_assign this other = clone other"

text \<open>
  The variant has no assignment that moves (\<open>variant.hpp\<close>): assigning \<open>std::move(other.data_)\<close> copies the
  alternative, and copying a container copies its elements.
\<close>

definition move_assign :: "'r jvalue \<Rightarrow> 'r jvalue \<Rightarrow> 'r jvalue" where
  "move_assign this other = (case other of
      JObject ob \<Rightarrow> JObject (map (\<lambda>(k, v). (k, clone v)) ob)
    | JArray a \<Rightarrow> JArray (map clone a)
    | _ \<Rightarrow> other)"

section \<open>Type tests\<close>

definition is_null :: "'r jvalue \<Rightarrow> bool" where
  "is_null v \<longleftrightarrow> (case v of JNull \<Rightarrow> True | _ \<Rightarrow> False)"

definition is_boolean :: "'r jvalue \<Rightarrow> bool" where
  "is_boolean v \<longleftrightarrow> (case v of JBoolean _ \<Rightarrow> True | _ \<Rightarrow> False)"

definition is_integer :: "'r jvalue \<Rightarrow> bool" where
  "is_integer v \<longleftrightarrow> (case v of JInteger _ \<Rightarrow> True | _ \<Rightarrow> False)"

definition is_float :: "'r jvalue \<Rightarrow> bool" where
  "is_float v \<longleftrightarrow> (case v of JReal _ \<Rightarrow> True | _ \<Rightarrow> False)"

definition is_number :: "'r jvalue \<Rightarrow> bool" where
  "is_number v \<longleftrightarrow> is_integer v \<or> is_float v"

definition is_string :: "'r jvalue \<Rightarrow> bool" where
  "is_string v \<longleftrightarrow> (case v of JString _ \<Rightarrow> True | JSharedString _ \<Rightarrow> True | _ \<Rightarrow> False)"

definition is_object :: "'r jvalue \<Rightarrow> bool" where
  "is_object v \<longleftrightarrow> (case v of JObject _ \<Rightarrow> True | JSharedObject _ \<Rightarrow> True | _ \<Rightarrow> False)"

definition is_array :: "'r jvalue \<Rightarrow> bool" where
  "is_array v \<longleftrightarrow> (case v of JArray _ \<Rightarrow> True | JSharedArray _ \<Rightarrow> True | _ \<Rightarrow> False)"

section \<open>Access\<close>

text \<open>
  \<open>get_if<T>\<close> visits with \<open>cow_visitor\<close>, so it unshares the value even when the type does not
  match.  The type argument is the projection to the alternative \<open>T\<close>; the result pairs the new
  contents of \<open>data_\<close> with the pointer, \<open>None\<close> for null.
\<close>

definition as_string :: "'r jvalue \<Rightarrow> string option" where
  "as_string v = (case v of JString s \<Rightarrow> Some s | _ \<Rightarrow> None)"

definition as_object :: "'r jvalue \<Rightarrow> (string \<times> 'r jvalue) list option" where
  "as_object v = (case v of JObject ob \<Rightarrow> Some ob | _ \<Rightarrow> None)"

definition as_array :: "'r jvalue \<Rightarrow> 'r jvalue list option" where
  "as_array v = (case v of JArray a \<Rightarrow> Some a | _ \<Rightarrow> None)"

definition get_if :: "('r jvalue \<Rightarrow> 'a option) \<Rightarrow> 'r jvalue \<Rightarrow> 'r jvalue \<times> 'a option" where
  "get_if T v = (cow v, T (cow v))"

definition get :: "('r jvalue \<Rightarrow> 'a option) \<Rightarrow> 'r jvalue \<Rightarrow> 'r jvalue \<times> 'a res" where
  "get T v = (case get_if T v of
      (v', Some p) \<Rightarrow> (v', Inr p)
    | (v', None) \<Rightarrow> (v', Inl (Json_error type_mismatch)))"

text \<open>
  \<open>json_size\<close>, \<open>json_at\<close> and \<open>json_index\<close> accept an alternative when the C++ expression they
  forward to is well formed with exactly the required result type and raise otherwise:
  \<open>std::size\<close> exists for strings, objects and arrays; \<open>at\<close> with an index yields \<open>value &\<close> for
  arrays only (for a string it yields a character) and with a key for objects only; \<open>operator[]\<close>
  with a key exists for a non-const \<open>std::map\<close> only.
\<close>

definition json_size :: "'r json \<Rightarrow> nat res" where
  "json_size d = (case d of
      Str s \<Rightarrow> Inr (length s)
    | Object ob \<Rightarrow> Inr (length ob)
    | Array a \<Rightarrow> Inr (length a)
    | _ \<Rightarrow> Inl (Json_error operation_not_supported))"

definition value_size :: "'r jvalue \<Rightarrow> nat res" where
  "value_size v = json_size (deref v)"

definition clear :: "'r jvalue \<Rightarrow> 'r::zero jvalue" where
  "clear v = (case v of
      JNull \<Rightarrow> JNull
    | JBoolean _ \<Rightarrow> JBoolean False
    | JInteger _ \<Rightarrow> JInteger 0
    | JReal _ \<Rightarrow> JReal 0
    | JString _ \<Rightarrow> JString []
    | JSharedString _ \<Rightarrow> JString []
    | JObject _ \<Rightarrow> JObject []
    | JSharedObject _ \<Rightarrow> JObject []
    | JArray _ \<Rightarrow> JArray []
    | JSharedArray _ \<Rightarrow> JArray [])"

text \<open>
  The reference that \<open>at\<close>, \<open>operator[]\<close>, \<open>front\<close> and \<open>back\<close> return is the element together with
  the place it lives in, so that an assignment through it is \<open>ref_assign\<close>.
\<close>

datatype jref = At_index nat | At_key string

definition json_at_index :: "'r jvalue \<Rightarrow> nat \<Rightarrow> (jref \<times> 'r jvalue) res" where
  "json_at_index v i = (case v of
      JArray a \<Rightarrow> if i < length a then Inr (At_index i, a ! i) else Inl Std_out_of_range
    | _ \<Rightarrow> Inl (Json_error operation_not_supported))"

definition json_at_key :: "'r jvalue \<Rightarrow> string \<Rightarrow> (jref \<times> 'r jvalue) res" where
  "json_at_key v k = (case v of
      JObject ob \<Rightarrow> (case map_of ob k of Some x \<Rightarrow> Inr (At_key k, x) | None \<Rightarrow> Inl Std_out_of_range)
    | _ \<Rightarrow> Inl (Json_error operation_not_supported))"

definition at_index :: "'r jvalue \<Rightarrow> nat \<Rightarrow> 'r jvalue \<times> (jref \<times> 'r jvalue) res" where
  "at_index v i = (let v' = cow v in (v', json_at_index v' i))"

definition at_key :: "'r jvalue \<Rightarrow> string \<Rightarrow> 'r jvalue \<times> (jref \<times> 'r jvalue) res" where
  "at_key v k = (let v' = cow v in (v', json_at_key v' k))"

definition at_index_const :: "'r jvalue \<Rightarrow> nat \<Rightarrow> 'r json res" where
  "at_index_const v i = (case deref v of
      Array a \<Rightarrow> if i < length a then Inr (a ! i) else Inl Std_out_of_range
    | _ \<Rightarrow> Inl (Json_error operation_not_supported))"

definition at_key_const :: "'r jvalue \<Rightarrow> string \<Rightarrow> 'r json res" where
  "at_key_const v k = (case deref v of
      Object ob \<Rightarrow> (case map_of ob k of Some x \<Rightarrow> Inr x | None \<Rightarrow> Inl Std_out_of_range)
    | _ \<Rightarrow> Inl (Json_error operation_not_supported))"

definition index_key :: "'r jvalue \<Rightarrow> string \<Rightarrow> 'r jvalue \<times> (jref \<times> 'r jvalue) res" where
  "index_key v k = (case cow v of
      JObject ob \<Rightarrow> (let ob' = fst (map_insert k JNull ob)
        in (JObject ob', Inr (At_key k, the (map_of ob' k))))
    | v' \<Rightarrow> (v', Inl (Json_error operation_not_supported)))"

text \<open>A const \<open>std::map\<close> has no \<open>operator[]\<close>, so no alternative is indexable here.\<close>

definition index_key_const :: "'r jvalue \<Rightarrow> string \<Rightarrow> 'r json res" where
  "index_key_const v k = Inl (Json_error operation_not_supported)"

definition ref_assign :: "'r jvalue \<Rightarrow> jref \<Rightarrow> 'r jvalue \<Rightarrow> 'r jvalue" where
  "ref_assign v ref x = (case (v, ref) of
      (JArray a, At_index i) \<Rightarrow> JArray (a[i := x])
    | (JObject ob, At_key k) \<Rightarrow> JObject (map_put k x ob)
    | _ \<Rightarrow> v)"

definition front_elem :: "'r jvalue \<Rightarrow> 'r jvalue \<times> (jref \<times> 'r jvalue) res" where
  "front_elem v = (case get as_array v of
      (v', Inl e) \<Rightarrow> (v', Inl e)
    | (v', Inr a) \<Rightarrow> (v', if a = [] then Inl (Json_error out_of_range)
                       else Inr (At_index 0, hd a)))"

definition back_elem :: "'r jvalue \<Rightarrow> 'r jvalue \<times> (jref \<times> 'r jvalue) res" where
  "back_elem v = (case get as_array v of
      (v', Inl e) \<Rightarrow> (v', Inl e)
    | (v', Inr a) \<Rightarrow> (v', if a = [] then Inl (Json_error out_of_range)
                       else Inr (At_index (length a - 1), last a)))"

section \<open>Mutation\<close>

text \<open>
  An iterator is the variant of an array position and an object position; a default constructed
  one, which \<open>begin\<close> and \<open>end\<close> return for the other alternatives, points nowhere.
\<close>

datatype jiterator = Singular | Array_iterator nat | Object_iterator nat

definition key_position :: "string \<Rightarrow> (string \<times> 'v) list \<Rightarrow> nat" where
  "key_position k ob = length (takeWhile (\<lambda>p. fst p \<noteq> k) ob)"

definition push_back :: "'r jvalue \<Rightarrow> 'r jvalue \<Rightarrow> 'r jvalue \<times> unit res" where
  "push_back v x = (case get as_array v of
      (v', Inl e) \<Rightarrow> (v', Inl e)
    | (_, Inr a) \<Rightarrow> (JArray (a @ [clone x]), Inr ()))"

definition push_back_move :: "'r jvalue \<Rightarrow> 'r jvalue \<Rightarrow> 'r jvalue \<times> unit res" where
  "push_back_move v x = (case get as_array v of
      (v', Inl e) \<Rightarrow> (v', Inl e)
    | (_, Inr a) \<Rightarrow> (JArray (a @ [x]), Inr ()))"

definition push_back_char :: "'r jvalue \<Rightarrow> char \<Rightarrow> 'r jvalue \<times> unit res" where
  "push_back_char v c = (case get as_string v of
      (v', Inl e) \<Rightarrow> (v', Inl e)
    | (_, Inr s) \<Rightarrow> (JString (s @ [c]), Inr ()))"

text \<open>\<open>insert\<close> returns the position of the key and whether it was inserted; the pair is copied or moved.\<close>

definition insert_pair :: "'r jvalue \<Rightarrow> string \<times> 'r jvalue \<Rightarrow> 'r jvalue \<times> (jiterator \<times> bool) res" where
  "insert_pair v p = (case get as_object v of
      (v', Inl e) \<Rightarrow> (v', Inl e)
    | (_, Inr ob) \<Rightarrow> (case map_insert (fst p) (clone (snd p)) ob of
        (ob', inserted) \<Rightarrow> (JObject ob', Inr (Object_iterator (key_position (fst p) ob'), inserted))))"

definition insert_pair_move :: "'r jvalue \<Rightarrow> string \<times> 'r jvalue \<Rightarrow> 'r jvalue \<times> (jiterator \<times> bool) res" where
  "insert_pair_move v p = (case get as_object v of
      (v', Inl e) \<Rightarrow> (v', Inl e)
    | (_, Inr ob) \<Rightarrow> (case map_insert (fst p) (snd p) ob of
        (ob', inserted) \<Rightarrow> (JObject ob', Inr (Object_iterator (key_position (fst p) ob'), inserted))))"

text \<open>
  Erasing a range of an array past its end is undefined in \<open>std::vector\<close>; \<open>std::string::erase\<close>
  raises for a position past the end and clips the count.
\<close>

definition erase :: "'r jvalue \<Rightarrow> nat \<Rightarrow> nat \<Rightarrow> 'r jvalue \<times> unit res" where
  "erase v pos cnt = (case get_if as_array v of
      (v', Some a) \<Rightarrow> if pos + cnt \<le> length a
        then (JArray (take pos a @ drop (pos + cnt) a), Inr ())
        else (v', Inl Undefined_behaviour)
    | (v', None) \<Rightarrow> (case get as_string v' of
        (v'', Inl e) \<Rightarrow> (v'', Inl e)
      | (v'', Inr s) \<Rightarrow> if pos \<le> length s
          then (JString (take pos s @ drop (pos + cnt) s), Inr ())
          else (v'', Inl Std_out_of_range)))"

definition erase_key :: "'r jvalue \<Rightarrow> string \<Rightarrow> 'r jvalue \<times> unit res" where
  "erase_key v k = (if is_object v
     then (case get as_object v of
         (v', Inl e) \<Rightarrow> (v', Inl e)
       | (_, Inr ob) \<Rightarrow> (JObject (map_erase k ob), Inr ()))
     else (v, Inl Assertion_failed))"

section \<open>Equality\<close>

text \<open>
  \<open>operator==\<close> visits both values through \<open>const_visitor\<close> and compares alternatives of the same
  dereferenced type; containers compare element by element.  Equality of the floating point type
  is the parameter.
\<close>

fun json_eq :: "('r \<Rightarrow> 'r \<Rightarrow> bool) \<Rightarrow> 'r json \<Rightarrow> 'r json \<Rightarrow> bool" where
  "json_eq req Null Null = True"
| "json_eq req (Boolean b) (Boolean c) = (b = c)"
| "json_eq req (Integer m) (Integer n) = (m = n)"
| "json_eq req (Real r) (Real s) = req r s"
| "json_eq req (Str s) (Str t) = (s = t)"
| "json_eq req (Object m) (Object n) =
     list_all2 (\<lambda>(k, v) (l, w). k = l \<and> json_eq req v w) m n"
| "json_eq req (Array a) (Array b) = list_all2 (json_eq req) a b"
| "json_eq req _ _ = False"

definition value_eq :: "('r \<Rightarrow> 'r \<Rightarrow> bool) \<Rightarrow> 'r jvalue \<Rightarrow> 'r jvalue \<Rightarrow> bool" where
  "value_eq req v w = json_eq req (deref v) (deref w)"

section \<open>Iterators\<close>

definition begin_it :: "'r jvalue \<Rightarrow> 'r jvalue \<times> jiterator" where
  "begin_it v = (case get_if as_array v of
      (v', Some a) \<Rightarrow> (v', Array_iterator 0)
    | (v', None) \<Rightarrow> (case get_if as_object v' of
        (v'', Some ob) \<Rightarrow> (v'', Object_iterator 0)
      | (v'', None) \<Rightarrow> (v'', Singular)))"

definition end_it :: "'r jvalue \<Rightarrow> 'r jvalue \<times> jiterator" where
  "end_it v = (case get_if as_array v of
      (v', Some a) \<Rightarrow> (v', Array_iterator (length a))
    | (v', None) \<Rightarrow> (case get_if as_object v' of
        (v'', Some ob) \<Rightarrow> (v'', Object_iterator (length ob))
      | (v'', None) \<Rightarrow> (v'', Singular)))"

definition iter_star :: "'r jvalue \<Rightarrow> jiterator \<Rightarrow> 'r jvalue res" where
  "iter_star v it = (case it of
      Array_iterator i \<Rightarrow> (case as_array v of
          Some a \<Rightarrow> if i < length a then Inr (a ! i) else Inl Undefined_behaviour
        | None \<Rightarrow> Inl Undefined_behaviour)
    | Object_iterator i \<Rightarrow> Inl (Json_error operation_not_supported)
    | Singular \<Rightarrow> Inl Undefined_behaviour)"

definition iter_pair :: "'r jvalue \<Rightarrow> jiterator \<Rightarrow> (string \<times> 'r jvalue) res" where
  "iter_pair v it = (case it of
      Object_iterator i \<Rightarrow> (case as_object v of
          Some ob \<Rightarrow> if i < length ob then Inr (ob ! i) else Inl Undefined_behaviour
        | None \<Rightarrow> Inl Undefined_behaviour)
    | _ \<Rightarrow> Inl (Json_error operation_not_supported))"

definition iter_key :: "'r jvalue \<Rightarrow> jiterator \<Rightarrow> string res" where
  "iter_key v it = res_bind (iter_pair v it) (\<lambda>p. Inr (fst p))"

definition iter_value :: "'r jvalue \<Rightarrow> jiterator \<Rightarrow> 'r jvalue res" where
  "iter_value v it = res_bind (iter_pair v it) (\<lambda>p. Inr (snd p))"

definition iter_next :: "jiterator \<Rightarrow> jiterator" where
  "iter_next it = (case it of
      Array_iterator i \<Rightarrow> Array_iterator (Suc i)
    | Object_iterator i \<Rightarrow> Object_iterator (Suc i)
    | Singular \<Rightarrow> Singular)"

definition iter_prev :: "jiterator \<Rightarrow> jiterator" where
  "iter_prev it = (case it of
      Array_iterator i \<Rightarrow> Array_iterator (i - 1)
    | Object_iterator i \<Rightarrow> Object_iterator (i - 1)
    | Singular \<Rightarrow> Singular)"

section \<open>Copying and unsharing keep the document\<close>

lemma deref_clone [simp]: "deref (clone v) = deref v"
  by (induction v rule: clone.induct) auto

lemma deref_cow [simp]: "deref (cow v) = deref v"
  by (cases v) (auto simp: cow_def)

lemma deref_move_assign [simp]: "deref (move_assign v x) = deref x"
  by (cases x) (simp_all add: move_assign_def case_prod_unfold)

lemma clone_clone [simp]: "clone (clone v) = clone v"
  by (cases v) simp_all

lemma cow_cow [simp]: "cow (cow v) = cow v"
  by (cases v) (simp_all add: cow_def)

lemma cow_cases:
  obtains "cow v = JNull" | b where "cow v = JBoolean b" | n where "cow v = JInteger n"
  | r where "cow v = JReal r" | s where "cow v = JString s" | ob where "cow v = JObject ob"
  | a where "cow v = JArray a"
  by (cases v) (auto simp: cow_def)

text \<open>What the unsharing view of a value and its document have to do with each other.\<close>

lemma deref_via_cow: "deref v = deref (cow v)"
  by simp

lemma get_simps:
  "get T v = (cow v, case T (cow v) of Some p \<Rightarrow> Inr p | None \<Rightarrow> Inl (Json_error type_mismatch))"
  by (simp add: get_def get_if_def split: option.splits)

lemma type_tests_via_cow:
  "is_null v = is_null (cow v)" "is_boolean v = is_boolean (cow v)"
  "is_integer v = is_integer (cow v)" "is_float v = is_float (cow v)"
  "is_string v = is_string (cow v)" "is_object v = is_object (cow v)"
  "is_array v = is_array (cow v)"
  by (cases v; simp add: cow_def is_null_def is_boolean_def is_integer_def is_float_def
        is_string_def is_object_def is_array_def)+

lemmas access_defs = as_string_def as_object_def as_array_def get_simps get_if_def
  json_at_index_def json_at_key_def at_index_def at_key_def index_key_def ref_assign_def
  front_elem_def back_elem_def

lemmas mutator_defs = push_back_def push_back_move_def push_back_char_def insert_pair_def insert_pair_move_def
  erase_def erase_key_def copy_assign_def move_assign_def

section \<open>Equality\<close>

lemma json_eq_refl_eq: "json_eq (=) d e \<longleftrightarrow> d = e"
proof (induction "(=) :: 'a \<Rightarrow> 'a \<Rightarrow> bool" d e rule: json_eq.induct)
  case (6 m n)
  have "list_all2 (\<lambda>(k, v) (l, w). k = l \<and> json_eq (=) v w) m n = list_all2 (=) m n"
    by (rule list.rel_cong) (use 6 in auto)
  then show ?case by (simp add: list.rel_eq)
next
  case (7 a b)
  have "list_all2 (json_eq (=)) a b = list_all2 (=) a b"
    by (rule list.rel_cong) (use 7 in auto)
  then show ?case by (simp add: list.rel_eq)
qed auto

section \<open>The contract of the mutators\<close>

text \<open>
  One call of a mutating member function, or an assignment through the reference an accessor
  returned (\<open>v.at(i) = x\<close>, \<open>v[k] = x\<close>, \<open>v.front() = x\<close>), as a value of a datatype: \<open>apply_op\<close> runs the
  functions above, \<open>spec_op\<close> says on the document alone what the call promises. Both give the result
  of the call, which is nothing except for \<open>insert\<close>, or the error it raises.
\<close>

datatype 'r jop =
    Push_back "'r jvalue"
  | Push_back_move "'r jvalue"
  | Push_back_char char
  | Insert string "'r jvalue"
  | Insert_move string "'r jvalue"
  | Erase nat nat
  | Erase_key string
  | Assign_at nat "'r jvalue"
  | Assign_at_key string "'r jvalue"
  | Assign_index_key string "'r jvalue"
  | Assign_front "'r jvalue"
  | Assign_back "'r jvalue"
  | Copy_assign "'r jvalue"
  | Move_assign "'r jvalue"
  | Clear

type_synonym call_result = "(jiterator \<times> bool) option res"

definition assign_through ::
  "'r jvalue \<times> (jref \<times> 'r jvalue) res \<Rightarrow> 'r jvalue \<Rightarrow> 'r jvalue \<times> unit res" where
  "assign_through p x = (case p of
      (v, Inl e) \<Rightarrow> (v, Inl e)
    | (v, Inr (ref, old)) \<Rightarrow> (ref_assign v ref (copy_assign old x), Inr ()))"

definition void_call :: "'a \<times> unit res \<Rightarrow> 'a \<times> call_result" where
  "void_call p = (fst p, res_bind (snd p) (\<lambda>_. Inr None))"

definition result_call :: "'a \<times> (jiterator \<times> bool) res \<Rightarrow> 'a \<times> call_result" where
  "result_call p = (fst p, res_bind (snd p) (\<lambda>b. Inr (Some b)))"

lemma call_simps [simp]:
  "void_call (v, Inl e) = (v, Inl e)" "void_call (v, Inr u) = (v, Inr None)"
  "result_call (v, Inl e) = (v, Inl e)" "result_call (v, Inr b) = (v, Inr (Some b))"
  by (simp_all add: void_call_def result_call_def)

fun apply_op :: "'r::zero jop \<Rightarrow> 'r jvalue \<Rightarrow> 'r jvalue \<times> call_result" where
  "apply_op (Push_back x) v = void_call (push_back v x)"
| "apply_op (Push_back_move x) v = void_call (push_back_move v x)"
| "apply_op (Push_back_char c) v = void_call (push_back_char v c)"
| "apply_op (Insert k x) v = result_call (insert_pair v (k, x))"
| "apply_op (Insert_move k x) v = result_call (insert_pair_move v (k, x))"
| "apply_op (Erase p n) v = void_call (erase v p n)"
| "apply_op (Erase_key k) v = void_call (erase_key v k)"
| "apply_op (Assign_at i x) v = void_call (assign_through (at_index v i) x)"
| "apply_op (Assign_at_key k x) v = void_call (assign_through (at_key v k) x)"
| "apply_op (Assign_index_key k x) v = void_call (assign_through (index_key v k) x)"
| "apply_op (Assign_front x) v = void_call (assign_through (front_elem v) x)"
| "apply_op (Assign_back x) v = void_call (assign_through (back_elem v) x)"
| "apply_op (Copy_assign x) v = (copy_assign v x, Inr None)"
| "apply_op (Move_assign x) v = (move_assign v x, Inr None)"
| "apply_op Clear v = (clear v, Inr None)"

abbreviation mismatch :: call_result where "mismatch \<equiv> Inl (Json_error type_mismatch)"
abbreviation unsupported :: call_result where
  "unsupported \<equiv> Inl (Json_error operation_not_supported)"

definition spec_insert :: "string \<Rightarrow> 'r json \<Rightarrow> 'r json \<Rightarrow> 'r json \<times> call_result" where
  "spec_insert k x d = (case d of
      Object ob \<Rightarrow> (case map_insert k x ob of
        (ob', inserted) \<Rightarrow> (Object ob', Inr (Some (Object_iterator (key_position k ob'), inserted))))
    | _ \<Rightarrow> (d, mismatch))"

fun spec_op :: "'r::zero jop \<Rightarrow> 'r json \<Rightarrow> 'r json \<times> call_result" where
  "spec_op (Push_back x) d =
     (case d of Array a \<Rightarrow> (Array (a @ [deref x]), Inr None) | _ \<Rightarrow> (d, mismatch))"
| "spec_op (Push_back_move x) d =
     (case d of Array a \<Rightarrow> (Array (a @ [deref x]), Inr None) | _ \<Rightarrow> (d, mismatch))"
| "spec_op (Push_back_char c) d =
     (case d of Str s \<Rightarrow> (Str (s @ [c]), Inr None) | _ \<Rightarrow> (d, mismatch))"
| "spec_op (Insert k x) d = spec_insert k (deref x) d"
| "spec_op (Insert_move k x) d = spec_insert k (deref x) d"
| "spec_op (Erase p n) d = (case d of
      Array a \<Rightarrow> if p + n \<le> length a then (Array (take p a @ drop (p + n) a), Inr None)
                 else (d, Inl Undefined_behaviour)
    | Str s \<Rightarrow> if p \<le> length s then (Str (take p s @ drop (p + n) s), Inr None)
               else (d, Inl Std_out_of_range)
    | _ \<Rightarrow> (d, mismatch))"
| "spec_op (Erase_key k) d =
     (case d of Object ob \<Rightarrow> (Object (map_erase k ob), Inr None) | _ \<Rightarrow> (d, Inl Assertion_failed))"
| "spec_op (Assign_at i x) d = (case d of
      Array a \<Rightarrow> if i < length a then (Array (a[i := deref x]), Inr None) else (d, Inl Std_out_of_range)
    | _ \<Rightarrow> (d, unsupported))"
| "spec_op (Assign_at_key k x) d = (case d of
      Object ob \<Rightarrow> if k \<in> fst ` set ob then (Object (map_put k (deref x) ob), Inr None)
                   else (d, Inl Std_out_of_range)
    | _ \<Rightarrow> (d, unsupported))"
| "spec_op (Assign_index_key k x) d = (case d of
      Object ob \<Rightarrow> (Object (map_put k (deref x) (fst (map_insert k Null ob))), Inr None)
    | _ \<Rightarrow> (d, unsupported))"
| "spec_op (Assign_front x) d = (case d of
      Array [] \<Rightarrow> (d, Inl (Json_error out_of_range))
    | Array (_ # a) \<Rightarrow> (Array (deref x # a), Inr None)
    | _ \<Rightarrow> (d, mismatch))"
| "spec_op (Assign_back x) d = (case d of
      Array a \<Rightarrow> if a = [] then (d, Inl (Json_error out_of_range)) else (Array (butlast a @ [deref x]), Inr None)
    | _ \<Rightarrow> (d, mismatch))"
| "spec_op (Copy_assign x) d = (deref x, Inr None)"
| "spec_op (Move_assign x) d = (deref x, Inr None)"
| "spec_op Clear d = (case d of
      Null \<Rightarrow> Null | Boolean _ \<Rightarrow> Boolean False | Integer _ \<Rightarrow> Integer 0 | Real _ \<Rightarrow> Real 0
    | Str _ \<Rightarrow> Str [] | Object _ \<Rightarrow> Object [] | Array _ \<Rightarrow> Array [], Inr None)"

lemma clear_cow: "clear (cow v) = clear v"
  by (cases v) (simp_all add: clear_def cow_def)

lemma apply_op_cow: "apply_op opn (cow v) = apply_op opn v \<or> opn \<in> range Erase_key"
  by (cases opn) (simp_all add: access_defs mutator_defs Let_def clear_cow)

lemma erase_key_cow: "is_object v \<Longrightarrow> erase_key (cow v) k = erase_key v k"
  using type_tests_via_cow(6) [of v] by (simp add: erase_key_def get_simps)

lemma key_position_map_vals [simp]: "key_position k (map_vals f m) = key_position k m"
  by (induction m) (auto simp: key_position_def)

lemma map_update_last: "a \<noteq> [] \<Longrightarrow> (map f a)[length a - Suc 0 := x] = butlast (map f a) @ [x]"
  by (induction a rule: rev_induct) (simp_all add: list_update_append)

lemma spec_op_of_owned:
  assumes "cow v = v"
  shows "map_prod deref id (apply_op opn v) = spec_op opn (deref v)"
proof (cases opn)
  case (Insert k x)
  with assms show ?thesis
    by (cases v) (auto simp: access_defs mutator_defs cow_def spec_insert_def
        map_insert_map_vals [of k deref "clone x", simplified] split: prod.splits)
next
  case (Insert_move k x)
  with assms show ?thesis
    by (cases v) (auto simp: access_defs mutator_defs cow_def spec_insert_def map_insert_map_vals split: prod.splits)
next
  case (Assign_at_key k x)
  with assms show ?thesis
    by (cases v) (auto simp: access_defs mutator_defs cow_def assign_through_def
        map_put_map_vals [symmetric] map_of_None_key Let_def
        split: option.splits dest: map_of_Some_key)
next
  case (Assign_index_key k x)
  with assms show ?thesis
    by (cases v) (simp_all add: access_defs mutator_defs cow_def assign_through_def Let_def
        map_put_map_vals [symmetric] map_insert_map_vals [of k deref JNull, simplified])
next
  case (Assign_front x)
  with assms show ?thesis
    by (cases v) (auto simp: access_defs mutator_defs cow_def assign_through_def map_update neq_Nil_conv split: list.splits)
next
  case (Assign_back x)
  with assms show ?thesis
    by (cases v) (auto simp: access_defs mutator_defs cow_def assign_through_def map_update map_update_last)
next
  case Clear
  with assms show ?thesis
    by (cases v) (simp_all add: clear_def cow_def)
next
  case (Move_assign x)
  then show ?thesis by simp
qed (use assms in \<open>cases v; simp add: access_defs mutator_defs cow_def assign_through_def Let_def
        map_erase_map_vals take_map drop_map map_update is_object_def\<close>)+

lemma apply_op_refines: "map_prod deref id (apply_op opn v) = spec_op opn (deref v)"
proof (cases "opn \<in> range Erase_key \<and> \<not> is_object v")
  case True
  then show ?thesis
    by (cases v) (auto simp: is_object_def erase_key_def)
next
  case False
  then have "apply_op opn (cow v) = apply_op opn v"
    using apply_op_cow [of opn v] by (auto simp: erase_key_cow)
  with spec_op_of_owned [of "cow v" opn] show ?thesis by simp
qed

text \<open>A client that catches what a call throws and goes on with the next one.\<close>

fun run_ops :: "'r::zero jop list \<Rightarrow> 'r jvalue \<Rightarrow> 'r jvalue \<times> call_result list" where
  "run_ops [] v = (v, [])"
| "run_ops (opn # ops) v =
     (case apply_op opn v of (v', r) \<Rightarrow> (case run_ops ops v' of (w, rs) \<Rightarrow> (w, r # rs)))"

fun run_spec :: "'r::zero jop list \<Rightarrow> 'r json \<Rightarrow> 'r json \<times> call_result list" where
  "run_spec [] d = (d, [])"
| "run_spec (opn # ops) d =
     (case spec_op opn d of (d', r) \<Rightarrow> (case run_spec ops d' of (e, rs) \<Rightarrow> (e, r # rs)))"

lemma run_ops_refines: "run_spec ops (deref v) = map_prod deref id (run_ops ops v)"
proof (induction ops arbitrary: v)
  case (Cons opn ops)
  obtain v' r where step: "apply_op opn v = (v', r)" by fastforce
  then have "spec_op opn (deref v) = (deref v', r)"
    using apply_op_refines [of opn v] by simp
  with step Cons.IH [of v'] show ?case
    by (cases "run_ops ops v'") (simp split: prod.splits)
qed simp

lemma spec_op_error: "spec_op opn d = (d', Inl e) \<Longrightarrow> d' = d"
  by (cases opn; cases d) (auto simp: spec_insert_def split: if_splits prod.splits list.splits)

text \<open>A call that raises one of these errors leaves the document alone; only its storage may have been unshared.\<close>

lemma json_mutators_throw:
  assumes "apply_op opn v = (v', Inl e)"
  shows "deref v' = deref v"
  using spec_op_error [of opn "deref v" "deref v'" e] apply_op_refines [of opn v] assms by simp

section \<open>Properties\<close>

text \<open>
  C2. Any sequence of calls of \<open>push_back\<close>, \<open>insert\<close>, \<open>erase\<close>, \<open>clear\<close>, of copy and move assignment, and of
  assignments through \<open>at\<close>, \<open>operator[]\<close>, \<open>front\<close> and \<open>back\<close> on a JSON value, whatever mixture of direct and
  shared (copy-on-write) storage the value and the arguments use, ends in a value whose document and
  whose sequence of results (the position and the flag that \<open>insert\<close> returns) and errors are the ones of
  the contract on plain documents: sharing is never observable through the interface, as long as
  memory does not run out.
\<close>

theorem json_mutators_refine:
  "deref (fst (run_ops ops v)) = fst (run_spec ops (deref v)) \<and>
   snd (run_ops ops v) = snd (run_spec ops (deref v))"
  using run_ops_refines [of ops v] by (cases "run_ops ops v") simp

end
