(* ===== verification/Json_Parser.thy ===== *)
theory Json_Parser
  imports Json_Value
begin

text \<open>
  The event parser of \<open>basic_json\<close> (\<open>parser\<close>), the visitor that assembles a value from its events
  (\<open>value_builder\<close>) and \<open>parse\<close>, from \<open>json.hpp\<close>, with the conversion of a run of digits to an
  integer (\<open>json_cast\<close> over \<open>lexical_cast.hpp\<close>).  The parser is generic in its visitor; the locale
  \<open>rejecting_visitor\<close> states what it needs of one in order to return on every input, and
  \<open>value_builder\<close> is shown to provide it.  The conversion of a string to the floating point type is
  the parameter \<open>read_real\<close>.
\<close>

section \<open>Reading integers\<close>

text \<open>
  \<open>lexical_cast\<close> extracts from an input string stream and requires success at the end of the
  stream: leading white space, an optional sign, digits, nothing behind them, and a value the 64-bit
  type can hold.
\<close>

definition cast_integer :: "string \<Rightarrow> 64 word res" where
  "cast_integer s =
     (let t = dropWhile is_space s;
          neg = (t \<noteq> [] \<and> hd t = CHR ''-'');
          ds = (if t \<noteq> [] \<and> (hd t = CHR ''+'' \<or> hd t = CHR ''-'') then tl t else t)
      in if ds = [] \<or> \<not> list_all is_digit ds then Inl Bad_lexical_cast
         else if neg then (if read_digits ds \<le> 2 ^ 63 then Inr (- of_nat (read_digits ds))
                           else Inl Bad_lexical_cast)
         else (if read_digits ds < 2 ^ 63 then Inr (of_nat (read_digits ds))
               else Inl Bad_lexical_cast))"

section \<open>The parser\<close>

datatype 'r event =
    Error_event
  | Null_event
  | True_event
  | False_event
  | Integer_event "64 word"
  | Float_event 'r
  | String_event string
  | Start_array_event
  | End_array_event
  | Start_object_event
  | Object_key_event string
  | End_object_event

datatype parsing_state =
    Indeterminate
  | Parsing_literal string
  | Parsing_number string
  | Parsing_string string bool

type_synonym ('r, 'b) visitor = "'b \<Rightarrow> 'r event \<Rightarrow> 'b res"

text \<open>
  The four overloads of \<open>put\<close>: the new state, the visitor's state and whether the character was
  consumed.  The first disjunct of the number test is written as in the source, where \<open>'+'\<close> occurs
  twice and \<open>'-'\<close> not at all.
\<close>

definition put_indeterminate ::
  "('r, 'b) visitor \<Rightarrow> char \<Rightarrow> 'b \<Rightarrow> (parsing_state \<times> 'b \<times> bool) res" where
  "put_indeterminate visit ch b =
     (if is_space ch then Inr (Indeterminate, b, True)
      else if is_alpha ch then Inr (Parsing_literal [ch], b, True)
      else if is_digit ch \<or> ch = CHR ''+'' \<or> ch = CHR ''+'' then Inr (Parsing_number [ch], b, True)
      else if ch = CHR 0x22 then Inr (Parsing_string [] False, b, True)
      else if ch = CHR ''['' then res_bind (visit b Start_array_event) (\<lambda>b. Inr (Indeterminate, b, True))
      else if ch = CHR '','' then Inr (Indeterminate, b, True)
      else if ch = CHR '']'' then res_bind (visit b End_array_event) (\<lambda>b. Inr (Indeterminate, b, True))
      else if ch = CHR ''{'' then res_bind (visit b Start_object_event) (\<lambda>b. Inr (Indeterminate, b, True))
      else if ch = CHR ''}'' then res_bind (visit b End_object_event) (\<lambda>b. Inr (Indeterminate, b, True))
      else res_bind (visit b Error_event) (\<lambda>b. Inr (Indeterminate, b, False)))"

definition put_literal ::
  "('r, 'b) visitor \<Rightarrow> string \<Rightarrow> char \<Rightarrow> 'b \<Rightarrow> (parsing_state \<times> 'b \<times> bool) res" where
  "put_literal visit chars ch b =
     (if is_alnum ch then Inr (Parsing_literal (chars @ [ch]), b, True)
      else res_bind
        (if chars = ''null'' then visit b Null_event
         else if chars = ''true'' then visit b True_event
         else if chars = ''false'' then visit b False_event
         else visit b Error_event)
        (\<lambda>b. Inr (Indeterminate, b, False)))"

definition put_number ::
  "('r, 'b) visitor \<Rightarrow> (string \<Rightarrow> 'r res) \<Rightarrow> string \<Rightarrow> char \<Rightarrow> 'b
     \<Rightarrow> (parsing_state \<times> 'b \<times> bool) res" where
  "put_number visit read_real chars ch b =
     (if is_digit ch \<or> ch = CHR ''.'' then Inr (Parsing_number (chars @ [ch]), b, True)
      else res_bind
        (if CHR ''.'' \<in> set chars
         then res_bind (read_real chars) (\<lambda>r. visit b (Float_event r))
         else res_bind (cast_integer chars) (\<lambda>n. visit b (Integer_event n)))
        (\<lambda>b. Inr (Indeterminate, b, False)))"

definition put_string ::
  "('r, 'b) visitor \<Rightarrow> string \<Rightarrow> bool \<Rightarrow> char \<Rightarrow> 'b \<Rightarrow> (parsing_state \<times> 'b \<times> bool) res" where
  "put_string visit chars quote_closed ch b =
     (if \<not> quote_closed then
        (if ch \<noteq> CHR 0x22 then Inr (Parsing_string (chars @ [ch]) False, b, True)
         else Inr (Parsing_string chars True, b, True))
      else if is_space ch then Inr (Parsing_string chars True, b, True)
      else if ch = CHR '':'' then
        res_bind (visit b (Object_key_event chars)) (\<lambda>b. Inr (Indeterminate, b, True))
      else res_bind (visit b (String_event chars)) (\<lambda>b. Inr (Indeterminate, b, False)))"

definition put_once ::
  "('r, 'b) visitor \<Rightarrow> (string \<Rightarrow> 'r res) \<Rightarrow> parsing_state \<Rightarrow> char \<Rightarrow> 'b
     \<Rightarrow> (parsing_state \<times> 'b \<times> bool) res" where
  "put_once visit read_real st ch b = (case st of
      Indeterminate \<Rightarrow> put_indeterminate visit ch b
    | Parsing_literal chars \<Rightarrow> put_literal visit chars ch b
    | Parsing_number chars \<Rightarrow> put_number visit read_real chars ch b
    | Parsing_string chars closed \<Rightarrow> put_string visit chars closed ch b)"

text \<open>The \<open>do ... while (!consumed)\<close> loop over one character.\<close>

partial_function (option) put_char ::
  "('r, 'b) visitor \<Rightarrow> (string \<Rightarrow> 'r res) \<Rightarrow> parsing_state \<Rightarrow> char \<Rightarrow> 'b
     \<Rightarrow> (parsing_state \<times> 'b) res option" where
  "put_char visit read_real st ch b =
     (case put_once visit read_real st ch b of
        Inl e \<Rightarrow> Some (Inl e)
      | Inr (st', b', consumed) \<Rightarrow>
          if consumed then Some (Inr (st', b')) else put_char visit read_real st' ch b')"

text \<open>The loop over the input range.\<close>

fun put :: "('r, 'b) visitor \<Rightarrow> (string \<Rightarrow> 'r res) \<Rightarrow> parsing_state \<Rightarrow> string \<Rightarrow> 'b
     \<Rightarrow> (parsing_state \<times> 'b) res option" where
  "put visit read_real st [] b = Some (Inr (st, b))"
| "put visit read_real st (ch # chs) b =
     run_bind (put_char visit read_real st ch b) (\<lambda>(st', b'). put visit read_real st' chs b')"

section \<open>The value builder\<close>

text \<open>
  The stack of contexts, its back first.  The lambda of \<open>handle_value\<close> captures the value by copy,
  so what a context receives is a clone.  A moved-from key string is empty.
\<close>

datatype 'r json_context =
    Value_context "'r jvalue"
  | Array_context "'r jvalue list"
  | Object_context "(string \<times> 'r jvalue) list" string

type_synonym 'r builder = "'r json_context list"

definition value_builder_init :: "'r builder" where
  "value_builder_init = [Value_context JNull]"

definition handle_value_in :: "'r json_context \<Rightarrow> 'r jvalue \<Rightarrow> 'r json_context res" where
  "handle_value_in ctx v = (case ctx of
      Value_context _ \<Rightarrow> Inr (Value_context v)
    | Array_context a \<Rightarrow> Inr (Array_context (a @ [v]))
    | Object_context ob key \<Rightarrow>
        if key \<noteq> [] then Inr (Object_context (fst (map_insert key v ob)) [])
        else Inl Assertion_failed)"

definition handle_value :: "'r builder \<Rightarrow> 'r jvalue \<Rightarrow> 'r builder res" where
  "handle_value stack v = (case stack of
      [] \<Rightarrow> Inl Undefined_behaviour
    | ctx # ctxs \<Rightarrow> res_bind (handle_value_in ctx (clone v)) (\<lambda>ctx'. Inr (ctx' # ctxs)))"

definition handle_end_array :: "'r builder \<Rightarrow> 'r builder res" where
  "handle_end_array stack = (case stack of
      [] \<Rightarrow> Inl Undefined_behaviour
    | Array_context a # ctxs \<Rightarrow> handle_value ctxs (JArray a)
    | _ # ctxs \<Rightarrow> Inl Bad_variant_access)"

definition handle_end_object :: "'r builder \<Rightarrow> 'r builder res" where
  "handle_end_object stack = (case stack of
      [] \<Rightarrow> Inl Undefined_behaviour
    | Object_context ob key # ctxs \<Rightarrow> handle_value ctxs (JObject ob)
    | _ # ctxs \<Rightarrow> Inl Bad_variant_access)"

definition handle_object_key :: "'r builder \<Rightarrow> string \<Rightarrow> 'r builder res" where
  "handle_object_key stack key = (case stack of
      [] \<Rightarrow> Inl Undefined_behaviour
    | Object_context ob _ # ctxs \<Rightarrow> Inr (Object_context ob key # ctxs)
    | _ # ctxs \<Rightarrow> Inl Bad_variant_access)"

fun handle_event :: "'r builder \<Rightarrow> 'r event \<Rightarrow> 'r builder res" where
  "handle_event stack Error_event = Inl (Json_error failed_to_parse)"
| "handle_event stack Null_event = handle_value stack JNull"
| "handle_event stack True_event = handle_value stack (JBoolean True)"
| "handle_event stack False_event = handle_value stack (JBoolean False)"
| "handle_event stack (Integer_event n) = handle_value stack (JInteger n)"
| "handle_event stack (Float_event r) = handle_value stack (JReal r)"
| "handle_event stack (String_event s) = handle_value stack (JString s)"
| "handle_event stack Start_array_event = Inr (Array_context [] # stack)"
| "handle_event stack End_array_event = handle_end_array stack"
| "handle_event stack Start_object_event = Inr (Object_context [] [] # stack)"
| "handle_event stack (Object_key_event key) = handle_object_key stack key"
| "handle_event stack End_object_event = handle_end_object stack"

definition get_value :: "'r builder \<Rightarrow> 'r jvalue res" where
  "get_value stack = (case stack of
      [Value_context v] \<Rightarrow> Inr (clone v)
    | [_] \<Rightarrow> Inl Bad_variant_access
    | _ \<Rightarrow> Inl (Json_error failed_to_parse))"

definition parse :: "(string \<Rightarrow> 'r res) \<Rightarrow> string \<Rightarrow> 'r jvalue res option" where
  "parse read_real s =
     run_bind (put handle_event read_real Indeterminate s value_builder_init)
       (\<lambda>(st, stack). Some (get_value stack))"

section \<open>What the parser needs of a visitor\<close>

text \<open>
  A character that no state accepts is offered again and again as long as the visitor swallows the
  error event, so a visitor has to reject it.
\<close>

locale rejecting_visitor =
  fixes visit :: "'b \<Rightarrow> 'r event \<Rightarrow> 'b res"
  assumes rejects_error: "\<exists>e. visit b Error_event = Inl e"
begin

lemma put_indeterminate_consumes:
  "put_indeterminate visit ch b = Inr (st', b', c) \<Longrightarrow> c"
  using rejects_error [of b]
  by (auto simp: put_indeterminate_def res_bind_Inr_iff split: if_splits)

lemma put_char_indeterminate:
  "put_char visit rr Indeterminate ch b =
     Some (res_bind (put_indeterminate visit ch b) (\<lambda>(st', b', c). Inr (st', b')))"
  using put_indeterminate_consumes [of ch b]
  by (subst put_char.simps) (auto simp: put_once_def split: sum.splits)

lemma put_once_reverts:
  assumes "put_once visit rr st ch b = Inr (st', b', False)"
  shows "st' = Indeterminate"
  using assms
  by (cases st)
    (auto simp: put_once_def put_indeterminate_def put_literal_def put_number_def put_string_def
      res_bind_Inr_iff split: if_splits)

text \<open>A character is offered at most twice.\<close>

lemma put_char_eq:
  "put_char visit rr st ch b =
     Some (res_bind (put_once visit rr st ch b) (\<lambda>(st', b', c).
       if c then Inr (st', b')
       else res_bind (put_indeterminate visit ch b') (\<lambda>(st'', b'', c'). Inr (st'', b''))))"
proof (cases "put_once visit rr st ch b")
  case (Inl e)
  then show ?thesis by (subst put_char.simps) simp
next
  case (Inr p)
  obtain st' b' c where p: "p = (st', b', c)" by (cases p)
  have "\<not> c \<Longrightarrow> st' = Indeterminate"
    using Inr p by (intro put_once_reverts [of rr st ch b st' b']) simp
  with Inr p put_char_indeterminate [of rr ch b'] show ?thesis
    by (subst put_char.simps) simp
qed

lemma put_returns: "\<exists>r. put visit rr st s b = Some r"
proof (induction s arbitrary: st b)
  case (Cons ch s)
  then show ?case
    by (auto simp: put_char_eq res_bind_def split: sum.splits)
qed simp

end

interpretation vb: rejecting_visitor "handle_event :: 'r builder \<Rightarrow> 'r event \<Rightarrow> 'r builder res"
  by unfold_locales simp

section \<open>The shape of the builder's stack\<close>

text \<open>
  The bottom of the stack is the value context of the constructor and every other context is an
  open array or object: the builder never reads an empty stack.
\<close>

definition is_value_context :: "'r json_context \<Rightarrow> bool" where
  "is_value_context ctx = (case ctx of Value_context _ \<Rightarrow> True | _ \<Rightarrow> False)"

definition wf_builder :: "'r builder \<Rightarrow> bool" where
  "wf_builder stack \<longleftrightarrow> stack \<noteq> [] \<and> is_value_context (last stack) \<and>
     (\<forall>ctx \<in> set (butlast stack). \<not> is_value_context ctx)"

lemma wf_builder_Cons:
  "wf_builder (ctx # ctxs) \<longleftrightarrow>
     (if ctxs = [] then is_value_context ctx else \<not> is_value_context ctx \<and> wf_builder ctxs)"
  by (auto simp: wf_builder_def)

lemma wf_builder_Nil [simp]: "\<not> wf_builder []"
  by (simp add: wf_builder_def)

lemma is_value_context_simps [simp]:
  "is_value_context (Value_context v)"
  "\<not> is_value_context (Array_context a)"
  "\<not> is_value_context (Object_context ob k)"
  by (simp_all add: is_value_context_def)

lemma wf_handle_value:
  "wf_builder stack \<Longrightarrow> handle_value stack v = Inr stack' \<Longrightarrow> wf_builder stack'"
  by (cases stack)
    (auto simp: handle_value_def handle_value_in_def res_bind_Inr_iff wf_builder_Cons
      split: json_context.splits if_splits)

lemma handle_value_defined: "wf_builder stack \<Longrightarrow> handle_value stack v \<noteq> Inl Undefined_behaviour"
  by (cases stack)
    (auto simp: handle_value_def handle_value_in_def res_bind_def
      split: json_context.splits if_splits sum.splits)

lemma wf_builder_pop:
  "wf_builder (ctx # ctxs) \<Longrightarrow> \<not> is_value_context ctx \<Longrightarrow> wf_builder ctxs"
  by (auto simp: wf_builder_Cons split: if_splits)

lemmas handler_defs = handle_end_array_def handle_end_object_def handle_object_key_def

lemma wf_handle_event:
  assumes "wf_builder stack" and "handle_event stack e = Inr stack'"
  shows "wf_builder stack'"
  using assms
proof (cases e)
  case Start_array_event
  with assms show ?thesis by (cases stack) (auto simp: wf_builder_Cons)
next
  case Start_object_event
  with assms show ?thesis by (cases stack) (auto simp: wf_builder_Cons)
next
  case (Object_key_event key)
  with assms show ?thesis
    by (auto simp: handler_defs wf_builder_Cons split: list.splits json_context.splits if_splits)
qed (auto simp: handler_defs dest: wf_handle_value wf_builder_pop
      split: list.splits json_context.splits)

lemma handle_event_defined:
  assumes "wf_builder stack"
  shows "handle_event stack e \<noteq> Inl Undefined_behaviour"
  using assms
  by (cases e)
    (auto simp: handler_defs handle_value_defined dest: wf_builder_pop
      split: list.splits json_context.splits)

lemma wf_builder_init: "wf_builder value_builder_init"
  by (simp add: value_builder_init_def wf_builder_Cons)

section \<open>Visitors with an invariant\<close>

text \<open>
  A visitor that keeps an invariant of its own state and has no undefined behaviour under it hands
  both on to the whole parse.
\<close>

lemma cast_integer_defined: "cast_integer s \<noteq> Inl Undefined_behaviour"
  by (simp add: cast_integer_def Let_def)

locale invariant_visitor = rejecting_visitor visit
  for visit :: "'b \<Rightarrow> 'r event \<Rightarrow> 'b res" +
  fixes visitor_inv :: "'b \<Rightarrow> bool"
  assumes visit_inv: "visitor_inv b \<Longrightarrow> visit b e = Inr b' \<Longrightarrow> visitor_inv b'"
    and visit_defined: "visitor_inv b \<Longrightarrow> visit b e \<noteq> Inl Undefined_behaviour"
begin

lemma put_once_inv:
  assumes "visitor_inv b" and "put_once visit rr st ch b = Inr (st', b', c)"
  shows "visitor_inv b'"
  using assms
  by (cases st)
    (auto simp: put_once_def put_indeterminate_def put_literal_def put_number_def put_string_def
      res_bind_Inr_iff intro: visit_inv split: if_splits)

lemma put_once_defined:
  assumes "visitor_inv b" and rr: "\<forall>s. rr s \<noteq> Inl Undefined_behaviour"
  shows "put_once visit rr st ch b \<noteq> Inl Undefined_behaviour"
proof -
  have v: "visit b e \<noteq> Inl Undefined_behaviour" for e
    by (rule visit_defined) (rule assms(1))
  have "put_indeterminate visit ch b \<noteq> Inl Undefined_behaviour"
    by (simp add: put_indeterminate_def v res_bind_not_Inl)
  moreover have "put_literal visit s ch b \<noteq> Inl Undefined_behaviour" for s
    by (simp add: put_literal_def v res_bind_not_Inl)
  moreover have "put_number visit rr s ch b \<noteq> Inl Undefined_behaviour" for s
    by (simp add: put_number_def v rr cast_integer_defined res_bind_not_Inl)
  moreover have "put_string visit s q ch b \<noteq> Inl Undefined_behaviour" for s q
    by (simp add: put_string_def v res_bind_not_Inl)
  ultimately show ?thesis by (simp add: put_once_def split: parsing_state.splits)
qed

lemma put_char_inv:
  assumes "visitor_inv b" and "put_char visit rr st ch b = Some (Inr (st', b'))"
  shows "visitor_inv b'"
proof -
  from assms(2) obtain st1 b1 c where once: "put_once visit rr st ch b = Inr (st1, b1, c)"
    by (auto simp: put_char_eq res_bind_Inr_iff)
  then have b1: "visitor_inv b1" using assms(1) by (rule put_once_inv [rotated])
  show ?thesis
  proof (cases c)
    case True
    with once b1 assms(2) show ?thesis by (simp add: put_char_eq)
  next
    case False
    with once assms(2) obtain c' where "put_once visit rr Indeterminate ch b1 = Inr (st', b', c')"
      by (auto simp: put_char_eq res_bind_Inr_iff put_once_def)
    with b1 show ?thesis by (rule put_once_inv)
  qed
qed

lemma put_char_defined:
  assumes "visitor_inv b" and "\<forall>s. rr s \<noteq> Inl Undefined_behaviour"
  shows "put_char visit rr st ch b \<noteq> Some (Inl Undefined_behaviour)"
proof (cases "put_once visit rr st ch b")
  case (Inl e)
  then show ?thesis using put_once_defined [OF assms] by (auto simp: put_char_eq)
next
  case (Inr p)
  obtain st1 b1 c where p: "p = (st1, b1, c)" by (cases p)
  have "visitor_inv b1" using put_once_inv [OF assms(1)] Inr p by blast
  from put_once_defined [OF this assms(2), of Indeterminate ch] Inr p show ?thesis
    by (auto simp: put_char_eq put_once_def res_bind_def split: sum.splits)
qed

lemma put_inv:
  assumes "visitor_inv b" and "put visit rr st s b = Some (Inr (st', b'))"
  shows "visitor_inv b'"
  using assms
proof (induction s arbitrary: st b)
  case (Cons ch s)
  then show ?case
    by (auto simp: run_bind_def dest: put_char_inv split: option.splits sum.splits)
qed simp

lemma put_defined:
  assumes "visitor_inv b" and "\<forall>s. rr s \<noteq> Inl Undefined_behaviour"
  shows "put visit rr st s b \<noteq> Some (Inl Undefined_behaviour)"
  using assms(1)
proof (induction s arbitrary: st b)
  case (Cons ch s)
  then show ?case
    using put_char_defined [OF Cons.prems assms(2), of st ch]
    by (auto simp: run_bind_def dest: put_char_inv split: option.splits sum.splits)
qed simp

end

interpretation wb: invariant_visitor
  "handle_event :: 'r builder \<Rightarrow> 'r event \<Rightarrow> 'r builder res" wf_builder
  by unfold_locales (auto intro: wf_handle_event simp: handle_event_defined)

lemma wf_builder_single: "wf_builder [ctx] \<longleftrightarrow> is_value_context ctx"
  by (simp add: wf_builder_Cons)

lemma get_value_defined: "wf_builder stack \<Longrightarrow> get_value stack \<noteq> Inl Undefined_behaviour"
  by (auto simp: get_value_def split: list.splits json_context.splits)

lemma get_value_cases:
  assumes "wf_builder stack"
  shows "(\<exists>v. get_value stack = Inr v) \<or> get_value stack = Inl (Json_error failed_to_parse)"
  using assms
  by (auto simp: get_value_def wf_builder_single split: list.splits json_context.splits)

section \<open>Visitors that swallow the error event\<close>

definition swallows_errors :: "('r, 'b) visitor \<Rightarrow> bool" where
  "swallows_errors visit \<longleftrightarrow> (\<forall>b. \<exists>b'. visit b Error_event = Inr b')"

definition no_token_start :: "char \<Rightarrow> bool" where
  "no_token_start ch \<longleftrightarrow> \<not> is_space ch \<and> \<not> is_alnum ch \<and> ch \<notin> set ''+[,]{}'' \<and> ch \<noteq> CHR 0x22"

lemma put_once_bad_char:
  assumes "swallows_errors visit" and "no_token_start ch"
  shows "\<exists>b'. put_once visit rr Indeterminate ch b = Inr (Indeterminate, b', False)"
proof -
  from assms(1) obtain b' where "visit b Error_event = Inr b'"
    unfolding swallows_errors_def by blast
  with assms(2) show ?thesis
    by (auto simp: put_once_def put_indeterminate_def no_token_start_def is_alnum_def)
qed

lemma put_char_bad_char:
  fixes visit :: "('r, 'b) visitor"
  assumes "swallows_errors visit" and "no_token_start ch"
  shows "put_char visit rr Indeterminate ch b = None"
proof (rule ccontr)
  assume "put_char visit rr Indeterminate ch b \<noteq> None"
  then obtain r where ret: "put_char visit rr Indeterminate ch b = Some r" by auto
  have "\<not> (swallows_errors visit \<and> no_token_start ch \<and> Indeterminate = Indeterminate)"
  proof (rule put_char.raw_induct [where P = "\<lambda>v rr st ch b r.
        \<not> (swallows_errors v \<and> no_token_start ch \<and> st = Indeterminate)", OF _ ret])
    fix f :: "('r, 'b) visitor \<Rightarrow> (string \<Rightarrow> 'r res) \<Rightarrow> parsing_state \<Rightarrow> char \<Rightarrow> 'b
      \<Rightarrow> (parsing_state \<times> 'b) res option" and v rr st ch b r
    assume IH: "\<And>v rr st ch b r. f v rr st ch b = Some r \<Longrightarrow>
        \<not> (swallows_errors v \<and> no_token_start ch \<and> st = Indeterminate)"
      and eq: "(case put_once v rr st ch b of Inl e \<Rightarrow> Some (Inl e)
        | Inr (st', b', consumed) \<Rightarrow>
            if consumed then Some (Inr (st', b')) else f v rr st' ch b') = Some r"
    show "\<not> (swallows_errors v \<and> no_token_start ch \<and> st = Indeterminate)"
    proof
      assume h: "swallows_errors v \<and> no_token_start ch \<and> st = Indeterminate"
      then obtain b' where "put_once v rr Indeterminate ch b = Inr (Indeterminate, b', False)"
        using put_once_bad_char [of v ch rr b] by blast
      with eq h have "f v rr Indeterminate ch b' = Some r" by simp
      with IH h show False by blast
    qed
  qed
  with assms show False by simp
qed

section \<open>The errors of a parse\<close>

text \<open>
  An object that has been given no key, or an empty one, since its last member cannot take a value. A
  character affects at most the two innermost contexts.
\<close>

definition needs_key :: "'r json_context \<Rightarrow> bool" where
  "needs_key ctx = (case ctx of Object_context ob key \<Rightarrow> key = [] | _ \<Rightarrow> False)"

definition keyless :: "'r builder \<Rightarrow> bool" where
  "keyless stack = list_ex needs_key (take 2 stack)"

definition parse_error :: "gpcl_error \<Rightarrow> bool" where
  "parse_error e \<longleftrightarrow> e = Json_error failed_to_parse \<or> e = Bad_lexical_cast \<or> e = Bad_variant_access"

lemma keyless_simps [simp]:
  "keyless [] \<longleftrightarrow> False" "keyless [ctx] \<longleftrightarrow> needs_key ctx" "keyless (c1 # c2 # cs) \<longleftrightarrow> needs_key c1 \<or> needs_key c2"
  by (simp_all add: keyless_def numeral_2_eq_2)

lemma keyless_hd: "needs_key c \<Longrightarrow> keyless (c # cs)"
  by (cases cs) simp_all

lemma handle_value_error:
  assumes "wf_builder stack" "handle_value stack v = Inl e"
  shows "e = Assertion_failed \<and> (\<exists>c cs. stack = c # cs \<and> needs_key c)"
  using assms
  by (cases stack) (auto simp: handle_value_def handle_value_in_def needs_key_def res_bind_Inl_iff
      split: json_context.splits if_splits)

lemma handle_value_tl: "handle_value stack v = Inr stack' \<Longrightarrow> tl stack' = tl stack \<and> stack' \<noteq> [] \<and> stack \<noteq> []"
  by (cases stack) (auto simp: handle_value_def res_bind_Inr_iff)

text \<open>The events that open or close a container fail on the context below the innermost one.\<close>

definition bracket :: "'r event \<Rightarrow> bool" where
  "bracket ev = (case ev of Start_array_event \<Rightarrow> True | End_array_event \<Rightarrow> True | Start_object_event \<Rightarrow> True
     | End_object_event \<Rightarrow> True | Error_event \<Rightarrow> True | _ \<Rightarrow> False)"

lemma handle_bracket_error:
  assumes "wf_builder stack" "bracket ev" "handle_event stack ev = Inl e"
  shows "parse_error e \<or> e = Assertion_failed \<and> (\<exists>c1 c2 cs. stack = c1 # c2 # cs \<and> needs_key c2)"
proof -
  have "parse_error e \<or> (\<exists>c1 cs v. stack = c1 # cs \<and> wf_builder cs \<and> handle_value cs v = Inl e)"
    using assms by (cases ev) (auto simp: bracket_def handler_defs parse_error_def dest: wf_builder_pop
        split: list.splits json_context.splits)
  then show ?thesis
    using handle_value_error by blast
qed

lemma handle_event_error:
  assumes "wf_builder stack" "handle_event stack ev = Inl e"
  shows "parse_error e \<or> e = Assertion_failed \<and> keyless stack"
proof (cases "bracket ev")
  case True
  then show ?thesis
    using handle_bracket_error [OF assms(1) True assms(2)] by auto
next
  case False
  then have "parse_error e \<or> (\<exists>v. handle_value stack v = Inl e)"
    using assms by (cases ev) (auto simp: bracket_def handle_object_key_def parse_error_def
        split: list.splits json_context.splits)
  then show ?thesis
    using handle_value_error [OF assms(1)] keyless_hd by blast
qed

lemma put_indeterminate_error:
  assumes "put_indeterminate handle_event ch stack = Inl e"
  shows "\<exists>ev. bracket ev \<and> handle_event stack ev = Inl e"
proof -
  have "bracket Start_array_event" "bracket End_array_event" "bracket Start_object_event" "bracket End_object_event"
      "bracket Error_event"
    by (simp_all add: bracket_def)
  then show ?thesis
    using assms unfolding put_indeterminate_def by (auto simp: res_bind_Inl_iff split: if_splits)
qed

lemma cast_integer_error: "cast_integer s = Inl e \<Longrightarrow> e = Bad_lexical_cast"
  by (auto simp: cast_integer_def Let_def split: if_splits)

lemma put_once_error:
  assumes "wf_builder stack" and rr: "\<And>t e. rr t = Inl e \<Longrightarrow> e = Bad_lexical_cast"
    and "put_once handle_event rr st ch stack = Inl e"
  shows "parse_error e \<or> e = Assertion_failed \<and> keyless stack"
proof -
  have "e = Bad_lexical_cast \<or> (\<exists>ev. handle_event stack ev = Inl e)"
  proof (cases st)
    case Indeterminate
    then show ?thesis
      using assms(3) put_indeterminate_error [of ch stack e] by (auto simp: put_once_def)
  next
    case (Parsing_literal chars)
    then show ?thesis
      using assms(3) by (auto simp: put_once_def put_literal_def res_bind_Inl_iff simp del: handle_event.simps split: if_splits)
  next
    case (Parsing_number chars)
    then show ?thesis
      using assms(3) rr cast_integer_error
      by (auto simp: put_once_def put_number_def res_bind_Inl_iff simp del: handle_event.simps split: if_splits)
  next
    case (Parsing_string chars closed)
    then show ?thesis
      using assms(3) by (auto simp: put_once_def put_string_def res_bind_Inl_iff simp del: handle_event.simps split: if_splits)
  qed
  then show ?thesis
    using handle_event_error [OF assms(1)] by (auto simp: parse_error_def)
qed

lemma put_once_offers_again:
  assumes "put_once handle_event rr st ch stack = Inr (st', stack', False)"
  shows "\<exists>v. handle_value stack v = Inr stack'"
proof (cases st)
  case Indeterminate
  then show ?thesis
    using assms vb.put_indeterminate_consumes [of ch stack st' stack' False] by (simp add: put_once_def)
next
  case (Parsing_literal chars)
  then show ?thesis
    using assms by (auto simp: put_once_def put_literal_def res_bind_Inr_iff split: if_splits)
next
  case (Parsing_number chars)
  then show ?thesis
    using assms by (auto simp: put_once_def put_number_def res_bind_Inr_iff split: if_splits)
next
  case (Parsing_string chars closed)
  then show ?thesis
    using assms by (auto simp: put_once_def put_string_def res_bind_Inr_iff split: if_splits)
qed

lemma put_char_error:
  assumes "wf_builder stack" and rr: "\<And>t e. rr t = Inl e \<Longrightarrow> e = Bad_lexical_cast"
    and "put_char handle_event rr st ch stack = Some (Inl e)"
  shows "parse_error e \<or> e = Assertion_failed \<and> keyless stack"
proof (cases "put_once handle_event rr st ch stack")
  case (Inl e')
  then show ?thesis
    using assms put_once_error [OF assms(1) rr] by (auto simp: vb.put_char_eq)
next
  case (Inr p)
  then obtain st1 stack1 where once: "put_once handle_event rr st ch stack = Inr (st1, stack1, False)"
      "put_indeterminate handle_event ch stack1 = Inl e"
    using assms(3) by (cases p) (auto simp: vb.put_char_eq res_bind_Inl_iff split: if_splits)
  then obtain v where v: "handle_value stack v = Inr stack1"
    using put_once_offers_again by blast
  obtain ev where ev: "bracket ev" "handle_event stack1 ev = Inl e"
    using put_indeterminate_error [OF once(2)] by blast
  have "parse_error e \<or> e = Assertion_failed \<and> (\<exists>c1 c2 cs. stack1 = c1 # c2 # cs \<and> needs_key c2)"
    by (rule handle_bracket_error [OF wf_handle_value [OF assms(1) v] ev])
  then show ?thesis
    using handle_value_tl [OF v] by (cases stack) auto
qed

lemma put_error:
  assumes "wf_builder stack" and rr: "\<And>t e. rr t = Inl e \<Longrightarrow> e = Bad_lexical_cast"
    and "put handle_event rr st s stack = Some (Inl e)"
  shows "parse_error e \<or> e = Assertion_failed \<and> (\<exists>u ch w st' stack'. s = u @ ch # w \<and>
    put handle_event rr st u stack = Some (Inr (st', stack')) \<and> keyless stack')"
  using assms(1,3)
proof (induction s arbitrary: st stack)
  case (Cons ch s)
  show ?case
  proof (cases "\<exists>st1 stack1. put_char handle_event rr st ch stack = Some (Inr (st1, stack1))")
    case True
    then obtain st1 stack1 where one: "put_char handle_event rr st ch stack = Some (Inr (st1, stack1))"
      by blast
    then have "wf_builder stack1"
      using wb.put_char_inv [OF Cons.prems(1)] by blast
    moreover have "put handle_event rr st1 s stack1 = Some (Inl e)"
      using Cons.prems(2) one by simp
    ultimately have "parse_error e \<or> e = Assertion_failed \<and> (\<exists>u ch w st' stack'. s = u @ ch # w \<and>
        put handle_event rr st1 u stack1 = Some (Inr (st', stack')) \<and> keyless stack')"
      by (rule Cons.IH)
    moreover have "put handle_event rr st (ch # u) stack = put handle_event rr st1 u stack1" for u
      using one by simp
    ultimately show ?thesis
      by (metis append_Cons)
  next
    case False
    then have "put_char handle_event rr st ch stack = Some (Inl e)"
      using Cons.prems(2) vb.put_char_eq [of rr st ch stack]
      by (auto simp: run_bind_def split: option.splits sum.splits)
    then have "parse_error e \<or> e = Assertion_failed \<and> keyless stack"
      using put_char_error [OF Cons.prems(1), of rr st ch e] rr by blast
    moreover have "ch # s = [] @ ch # s" "put handle_event rr st [] stack = Some (Inr (st, stack))"
      by simp_all
    ultimately show ?thesis
      by blast
  qed
qed simp

section \<open>Properties\<close>


text \<open>The assertion does fail on some texts.\<close>

lemma parse_keyless: "parse (\<lambda>t. Inl Bad_lexical_cast :: nat res) ''{1}'' = Some (Inl Assertion_failed)"
  by (simp add: parse_def vb.put_char_eq put_once_def put_indeterminate_def put_number_def value_builder_init_def
      cast_integer_def is_space_def is_alpha_def is_digit_def handle_value_def handle_value_in_def Let_def read_digits_def digit_val_def)


text \<open>
  The termination of the parser rests on its visitor throwing: with any visitor that accepts the
  error event, a character that starts no token makes the loop over that character run forever, so
  \<open>put\<close> does not return on a text that reaches such a character between two tokens.
\<close>

lemma put_diverges_on_accepted_error:
  assumes "swallows_errors visit" and "no_token_start ch"
    and "put visit read_real Indeterminate s b = Some (Inr (Indeterminate, b'))"
  shows "put visit read_real Indeterminate (s @ ch # rest) b = None"
proof -
  have append: "put visit read_real st (s @ t) b =
      run_bind (put visit read_real st s b) (\<lambda>(st', b'). put visit read_real st' t b')" for st t b
    by (induction s arbitrary: st b) (auto simp: run_bind_assoc case_prod_unfold)
  show ?thesis
    using assms by (simp add: append put_char_bad_char)
qed

end
