(* ===== verification/Json_Serializer.thy ===== *)
theory Json_Serializer
  imports Json_Parser
begin

text \<open>
  The output side of \<open>basic_json\<close>: \<open>serializer\<close>, \<open>serializing_visitor\<close> with its indentation sentry,
  \<open>operator<<\<close> and the print styles of \<open>json_iomanip.hpp\<close>, over a stream that stays good.  The
  output of a floating point number is the parameter \<open>show_real\<close>.  The main result is the round
  trip: what the serializer writes for an array or an object, in either style, the parser reads back,
  for the documents whose scalars the parser understands.
\<close>

section \<open>The serializer\<close>

datatype print_style = Json_print_compressed | Json_print_pretty

definition quoted :: "string \<Rightarrow> string" where
  "quoted s = [CHR 0x22] @ concat (map (\<lambda>c. if c = CHR 0x22 \<or> c = CHR 0x5C then [CHR 0x5C, c] else [c]) s)
     @ [CHR 0x22]"

definition show_integer :: "64 word \<Rightarrow> string" where
  "show_integer n = (if sint n < 0 then CHR ''-'' # show_nat (nat (- sint n)) else show_nat (nat (sint n)))"

definition newline :: "print_style \<Rightarrow> nat \<Rightarrow> string" where
  "newline style indent = (case style of
      Json_print_compressed \<Rightarrow> []
    | Json_print_pretty \<Rightarrow> CHR 0x0A # concat (replicate indent ''    ''))"

definition space :: "print_style \<Rightarrow> string" where
  "space style = (case style of Json_print_compressed \<Rightarrow> [] | Json_print_pretty \<Rightarrow> '' '')"

text \<open>The items of a container inside the scope of the indentation sentry.\<close>

fun separated :: "string \<Rightarrow> string list \<Rightarrow> string" where
  "separated sep [] = []"
| "separated sep [x] = x"
| "separated sep (x # y # xs) = x @ sep @ separated sep (y # xs)"

definition enclosed :: "print_style \<Rightarrow> nat \<Rightarrow> string list \<Rightarrow> string" where
  "enclosed style indent items = (if items = [] then []
     else newline style (Suc indent) @ separated (CHR '','' # newline style (Suc indent)) items
       @ newline style indent)"

fun serializing_visitor :: "('r \<Rightarrow> string) \<Rightarrow> print_style \<Rightarrow> nat \<Rightarrow> 'r json \<Rightarrow> string" where
  "serializing_visitor show_real style indent Null = ''null''"
| "serializing_visitor show_real style indent (Integer n) = show_integer n"
| "serializing_visitor show_real style indent (Real r) = show_real r"
| "serializing_visitor show_real style indent (Str s) = quoted s"
| "serializing_visitor show_real style indent (Boolean b) = (if b then ''true'' else ''false'')"
| "serializing_visitor show_real style indent (Array a) =
     ''['' @ enclosed style indent (map (serializing_visitor show_real style (Suc indent)) a) @ '']''"
| "serializing_visitor show_real style indent (Object ob) =
     ''{'' @ enclosed style indent
        (map (\<lambda>(k, d). quoted k @ '':'' @ space style @ serializing_visitor show_real style (Suc indent) d) ob)
      @ ''}''"

definition serialize :: "('r \<Rightarrow> string) \<Rightarrow> print_style \<Rightarrow> 'r jvalue \<Rightarrow> string" where
  "serialize show_real style v = serializing_visitor show_real style 0 (deref v)"

section \<open>Documents the parser can read back\<close>

text \<open>
  A string must not contain a quote or a backslash, because the parser does not undo the escapes
  that \<open>std::quoted\<close> writes; an integer must not be negative, because the parser does not accept
  \<open>'-'\<close>; a floating point number must be written with digits and at least one dot, start with a
  digit and be read back; a key must be non-empty, because the builder asserts that.
\<close>

definition plain_string :: "string \<Rightarrow> bool" where
  "plain_string s \<longleftrightarrow> CHR 0x22 \<notin> set s \<and> CHR 0x5C \<notin> set s"

definition readable_real :: "('r \<Rightarrow> string) \<Rightarrow> (string \<Rightarrow> 'r res) \<Rightarrow> 'r \<Rightarrow> bool" where
  "readable_real show_real read_real r \<longleftrightarrow>
     (case show_real r of [] \<Rightarrow> False | c # cs \<Rightarrow> is_digit c \<and> (\<forall>d \<in> set cs. is_digit d \<or> d = CHR ''.'')
        \<and> CHR ''.'' \<in> set cs) \<and>
     read_real (show_real r) = Inr r"

fun readable :: "('r \<Rightarrow> string) \<Rightarrow> (string \<Rightarrow> 'r res) \<Rightarrow> 'r json \<Rightarrow> bool" where
  "readable show_real read_real Null = True"
| "readable show_real read_real (Boolean b) = True"
| "readable show_real read_real (Integer n) = (0 \<le> sint n)"
| "readable show_real read_real (Real r) = readable_real show_real read_real r"
| "readable show_real read_real (Str s) = plain_string s"
| "readable show_real read_real (Object ob) \<longleftrightarrow>
     map_sorted ob \<and> (\<forall>(k, d) \<in> set ob. k \<noteq> [] \<and> plain_string k \<and> readable show_real read_real d)"
| "readable show_real read_real (Array a) \<longleftrightarrow> (\<forall>d \<in> set a. readable show_real read_real d)"

text \<open>What the builder stores for a document: every string and container shared.\<close>

fun shared_of :: "'r json \<Rightarrow> 'r jvalue" where
  "shared_of Null = JNull"
| "shared_of (Boolean b) = JBoolean b"
| "shared_of (Integer n) = JInteger n"
| "shared_of (Real r) = JReal r"
| "shared_of (Str s) = JSharedString s"
| "shared_of (Object ob) = JSharedObject (map (\<lambda>(k, d). (k, shared_of d)) ob)"
| "shared_of (Array a) = JSharedArray (map shared_of a)"

lemma deref_shared_of [simp]: "deref (shared_of d) = d"
  by (induction d rule: shared_of.induct) (auto intro!: map_idI)

lemma clone_shared_of [simp]: "clone (shared_of d) = shared_of d"
  by (cases d) simp_all

lemma handle_value_shared_of:
  "handle_value (ctx # stack) (shared_of d) =
     res_bind (handle_value_in ctx (shared_of d)) (\<lambda>ctx'. Inr (ctx' # stack))"
  by (simp add: handle_value_def)

section \<open>Single tokens\<close>

abbreviation pb ::
  "(string \<Rightarrow> 'r res) \<Rightarrow> parsing_state \<Rightarrow> string \<Rightarrow> 'r builder \<Rightarrow> (parsing_state \<times> 'r builder) res option"
  where "pb \<equiv> put handle_event"

declare put.simps(2) [simp del]

lemmas put_unfold = put.simps(2) vb.put_char_eq put_once_def

text \<open>The characters that may follow an item in the serializer's output.\<close>

definition delimiter :: "char \<Rightarrow> bool" where
  "delimiter c \<longleftrightarrow> c \<in> set '',]}''"

lemma delimiter_facts:
  assumes "delimiter c"
  shows "\<not> is_space c" "\<not> is_alnum c" "\<not> is_alpha c" "\<not> is_digit c" "c \<noteq> CHR ''.''" "c \<noteq> CHR '':''"
  using assms
  by (auto simp: delimiter_def is_space_def is_alnum_def is_alpha_def is_digit_def)

lemma space_facts:
  assumes "is_space c"
  shows "\<not> is_alnum c" "\<not> is_alpha c" "\<not> is_digit c" "c \<noteq> CHR ''.''" "c \<noteq> CHR 0x22" "c \<noteq> CHR '':''"
  using assms by (auto simp: is_space_def is_alnum_def is_alpha_def is_digit_def Let_def)

lemma put_space:
  "is_space c \<Longrightarrow> pb rr Indeterminate (c # cs) b = pb rr Indeterminate cs b"
  by (simp add: put_unfold put_indeterminate_def)

lemma put_spaces:
  "list_all is_space ws \<Longrightarrow> pb rr Indeterminate (ws @ cs) b = pb rr Indeterminate cs b"
  by (induction ws) (simp_all add: put_space)

lemma put_comma: "pb rr Indeterminate (CHR '','' # cs) b = pb rr Indeterminate cs b"
  by (simp add: put_unfold put_indeterminate_def is_space_def is_alpha_def is_digit_def)

lemma newline_spaces [simp]: "list_all is_space (newline style n)"
  by (cases style) (auto simp: newline_def list_all_iff is_space_def)

lemma space_spaces [simp]: "list_all is_space (space style)"
  by (cases style) (auto simp: space_def is_space_def)

text \<open>What the parser does after a complete token, spelt with the visitor's answer.\<close>

definition after :: "(string \<Rightarrow> 'r res) \<Rightarrow> 'r builder res \<Rightarrow> string
    \<Rightarrow> (parsing_state \<times> 'r builder) res option" where
  "after rr m cs = run_bind (Some m) (\<lambda>b. pb rr Indeterminate cs b)"

lemma after_simps [simp]:
  "after rr (Inl e) cs = Some (Inl e)"
  "after rr (Inr b) cs = pb rr Indeterminate cs b"
  by (simp_all add: after_def)

lemma after_space: "is_space c \<Longrightarrow> after rr m (c # cs) = after rr m cs"
  by (cases m) (simp_all add: put_space)

lemma after_spaces: "list_all is_space ws \<Longrightarrow> after rr m (ws @ cs) = after rr m cs"
  by (induction ws) (simp_all add: after_space)

text \<open>A character that ends a literal or a number is offered again in the indeterminate state.\<close>

lemma put_reoffered:
  assumes "put_once handle_event rr st c b = res_bind m (\<lambda>b. Inr (Indeterminate, b, False))"
  shows "pb rr st (c # cs) b = after rr m (c # cs)"
proof (cases m)
  case (Inl e)
  with assms show ?thesis by (simp add: put.simps(2) vb.put_char_eq)
next
  case (Inr b')
  have "put_char handle_event rr st c b =
      Some (res_bind (put_indeterminate handle_event c b') (\<lambda>(st', b', c'). Inr (st', b')))"
    using assms Inr by (simp add: vb.put_char_eq)
  with Inr show ?thesis by (simp add: put.simps(2) vb.put_char_indeterminate)
qed

lemma put_literal_chars:
  "list_all is_alnum t \<Longrightarrow>
     pb rr (Parsing_literal s) (t @ cs) b = pb rr (Parsing_literal (s @ t)) cs b"
  by (induction t arbitrary: s) (simp_all add: put_unfold put_literal_def)

lemma put_number_chars:
  "list_all (\<lambda>c. is_digit c \<or> c = CHR ''.'') t \<Longrightarrow>
     pb rr (Parsing_number s) (t @ cs) b = pb rr (Parsing_number (s @ t)) cs b"
  by (induction t arbitrary: s) (simp_all add: put_unfold put_number_def)

lemma put_string_chars:
  "CHR 0x22 \<notin> set t \<Longrightarrow>
     pb rr (Parsing_string s False) (t @ cs) b = pb rr (Parsing_string (s @ t) False) cs b"
  by (induction t arbitrary: s) (auto simp: put_unfold put_string_def)

lemma put_string_spaces:
  "list_all is_space ws \<Longrightarrow>
     pb rr (Parsing_string s True) (ws @ cs) b = pb rr (Parsing_string s True) cs b"
  by (induction ws) (simp_all add: put_unfold put_string_def)

text \<open>Complete scalars, followed by white space and a delimiter.\<close>

lemma follow_cases:
  assumes "list_all is_space ws" and "delimiter c"
  obtains d ds where "ws @ c # cs = d # ds" and "\<not> is_alnum d" and "\<not> is_digit d" and "d \<noteq> CHR ''.''"
  using assms by (cases ws) (auto dest: delimiter_facts space_facts)

lemma put_start_literal:
  "is_alpha x \<Longrightarrow> pb rr Indeterminate (x # cs) b = pb rr (Parsing_literal [x]) cs b"
  using space_facts(2) [of x] by (auto simp: put_unfold put_indeterminate_def)

lemma put_start_number:
  "is_digit x \<Longrightarrow> pb rr Indeterminate (x # cs) b = pb rr (Parsing_number [x]) cs b"
  using space_facts(3) [of x]
  by (auto simp: put_unfold put_indeterminate_def is_alpha_def is_digit_def Let_def)

lemma put_start_string:
  "pb rr Indeterminate (CHR 0x22 # cs) b = pb rr (Parsing_string [] False) cs b"
  by (simp add: put_unfold put_indeterminate_def is_space_def is_alpha_def is_digit_def)

lemma put_close_string:
  "pb rr (Parsing_string s False) (CHR 0x22 # cs) b = pb rr (Parsing_string s True) cs b"
  by (simp add: put_unfold put_string_def)

lemma put_literal_token:
  assumes "list_all is_space ws" and "delimiter c" and "is_alpha x" and "list_all is_alnum xs"
  shows "pb rr Indeterminate (x # xs @ ws @ c # cs) b =
    after rr (if x # xs = ''null'' then handle_event b Null_event
              else if x # xs = ''true'' then handle_event b True_event
              else if x # xs = ''false'' then handle_event b False_event
              else handle_event b Error_event) (c # cs)" (is "_ = after rr ?m _")
proof -
  obtain d ds where d: "ws @ c # cs = d # ds" "\<not> is_alnum d"
    using follow_cases [OF assms(1,2)] by metis
  have "pb rr Indeterminate (x # xs @ ws @ c # cs) b = pb rr (Parsing_literal (x # xs)) (d # ds) b"
    by (simp add: put_start_literal [OF assms(3)] put_literal_chars [OF assms(4)] d(1))
  also have "\<dots> = after rr ?m (d # ds)"
    using d(2) by (intro put_reoffered) (simp add: put_once_def put_literal_def)
  also have "d # ds = ws @ c # cs" using d(1) by simp
  finally show ?thesis by (simp only: after_spaces [OF assms(1)])
qed

lemma put_number_token:
  assumes "list_all is_space ws" and "delimiter c" and "is_digit x"
    and "list_all (\<lambda>c. is_digit c \<or> c = CHR ''.'') xs"
  shows "pb rr Indeterminate (x # xs @ ws @ c # cs) b =
    after rr (if CHR ''.'' \<in> set (x # xs)
         then res_bind (rr (x # xs)) (\<lambda>r. handle_event b (Float_event r))
         else res_bind (cast_integer (x # xs)) (\<lambda>n. handle_event b (Integer_event n))) (c # cs)"
    (is "_ = after rr ?m _")
proof -
  obtain d ds where d: "ws @ c # cs = d # ds" "\<not> is_digit d" "d \<noteq> CHR ''.''"
    using follow_cases [OF assms(1,2)] by metis
  have "pb rr Indeterminate (x # xs @ ws @ c # cs) b = pb rr (Parsing_number (x # xs)) (d # ds) b"
    by (simp add: put_start_number [OF assms(3)] put_number_chars [OF assms(4)] d(1))
  also have "\<dots> = after rr ?m (d # ds)"
    using d(2,3) by (intro put_reoffered) (simp add: put_once_def put_number_def)
  also have "d # ds = ws @ c # cs" using d(1) by simp
  finally show ?thesis by (simp only: after_spaces [OF assms(1)])
qed

lemma quoted_plain: "plain_string s \<Longrightarrow> quoted s = CHR 0x22 # s @ [CHR 0x22]"
  unfolding plain_string_def quoted_def by (induction s) auto

lemma put_quoted:
  assumes "plain_string s"
  shows "pb rr Indeterminate (quoted s @ cs) b = pb rr (Parsing_string s True) cs b"
  using assms put_string_chars [of s rr "[]" "CHR 0x22 # cs" b]
  by (simp add: quoted_plain put_start_string put_close_string plain_string_def)

lemma put_string_token:
  assumes "list_all is_space ws" and "delimiter c" and "plain_string s"
  shows "pb rr Indeterminate (quoted s @ ws @ c # cs) b = after rr (handle_event b (String_event s)) (c # cs)"
proof -
  have "pb rr Indeterminate (quoted s @ ws @ c # cs) b = pb rr (Parsing_string s True) (c # cs) b"
    by (simp only: put_quoted [OF assms(3)] put_string_spaces [OF assms(1)])
  also have "\<dots> = after rr (handle_event b (String_event s)) (c # cs)"
    using delimiter_facts [OF assms(2)]
    by (intro put_reoffered) (simp add: put_once_def put_string_def)
  finally show ?thesis .
qed

lemma put_key_token:
  assumes "plain_string s"
  shows "pb rr Indeterminate (quoted s @ '':'' @ cs) b = after rr (handle_event b (Object_key_event s)) cs"
proof -
  have "pb rr Indeterminate (quoted s @ '':'' @ cs) b = pb rr (Parsing_string s True) ('':'' @ cs) b"
    by (rule put_quoted [OF assms])
  also have "\<dots> = after rr (handle_event b (Object_key_event s)) cs"
    by (cases "handle_event b (Object_key_event s)")
      (simp_all add: put_unfold put_string_def is_space_def)
  finally show ?thesis .
qed

lemma put_bracket:
  "pb rr Indeterminate (CHR ''['' # cs) b = after rr (handle_event b Start_array_event) cs"
  "pb rr Indeterminate (CHR '']'' # cs) b = after rr (handle_event b End_array_event) cs"
  "pb rr Indeterminate (CHR ''{'' # cs) b = after rr (handle_event b Start_object_event) cs"
  "pb rr Indeterminate (CHR ''}'' # cs) b = after rr (handle_event b End_object_event) cs"
  by (simp_all add: put.simps(2) vb.put_char_indeterminate put_indeterminate_def is_space_def is_alpha_def
      is_digit_def res_bind_assoc after_def)
    (simp_all add: res_bind_def run_bind_def split: sum.splits)

section \<open>The round trip\<close>

text \<open>Reading back one document, in front of white space and a delimiter.\<close>

definition reads_back ::
  "('r \<Rightarrow> string) \<Rightarrow> (string \<Rightarrow> 'r res) \<Rightarrow> print_style \<Rightarrow> nat \<Rightarrow> 'r json \<Rightarrow> bool" where
  "reads_back sr rr style ind d \<longleftrightarrow> (\<forall>ws c cs b. list_all is_space ws \<longrightarrow> delimiter c \<longrightarrow>
     pb rr Indeterminate (serializing_visitor sr style ind d @ ws @ c # cs) b =
       after rr (handle_value b (shared_of d)) (c # cs))"

lemma reads_backD:
  assumes "reads_back sr rr style ind d" and "list_all is_space ws" and "delimiter c"
  shows "pb rr Indeterminate (serializing_visitor sr style ind d @ ws @ c # cs) b =
    after rr (handle_value b (shared_of d)) (c # cs)"
  using assms unfolding reads_back_def by blast

lemma handle_value_clone: "clone v = clone w \<Longrightarrow> handle_value b v = handle_value b w"
  by (cases b) (simp_all add: handle_value_def)

lemma cast_show_nat:
  assumes "n < 2 ^ 63"
  shows "cast_integer (show_nat n) = Inr (of_nat n)"
proof -
  obtain x xs where x: "show_nat n = x # xs" by (cases "show_nat n") auto
  have digits: "is_digit y" if "y \<in> set (x # xs)" for y
    using that x show_nat_digits [of y n] by simp
  have "\<not> is_space x" "x \<noteq> CHR ''+''" "x \<noteq> CHR ''-''"
    using digits [of x] space_facts(3) by (auto simp: is_digit_def)
  moreover have "read_digits (x # xs) = n" using x read_digits_show_nat [of n] by simp
  ultimately show ?thesis
    using digits assms x by (simp add: cast_integer_def Let_def list_all_iff)
qed

lemma reads_back_integer:
  assumes "0 \<le> sint n"
  shows "reads_back sr rr style ind (Integer n)"
proof -
  have bound: "nat (sint n) < 2 ^ 63"
    using sint_lt [of n] assms by (simp add: nat_less_iff)
  have val: "of_nat (nat (sint n)) = n"
    using assms by simp
  obtain x xs where x: "show_nat (nat (sint n)) = x # xs" by (cases "show_nat (nat (sint n))") auto
  have digits: "is_digit y" if "y \<in> set (x # xs)" for y
    using that x show_nat_digits [of y "nat (sint n)"] by simp
  have "\<not> is_digit (CHR ''.'')" by (simp add: is_digit_def)
  with digits have "CHR ''.'' \<notin> set (x # xs)" by blast
  with digits cast_show_nat [OF bound] val assms x show ?thesis
    by (simp add: reads_back_def show_integer_def put_number_token list_all_iff)
qed

lemma reads_back_real:
  assumes "readable_real sr rr r"
  shows "reads_back sr rr style ind (Real r)"
proof -
  obtain x xs where x: "sr r = x # xs" "is_digit x" "\<forall>d \<in> set xs. is_digit d \<or> d = CHR ''.''"
    "CHR ''.'' \<in> set xs" "rr (x # xs) = Inr r"
    using assms by (auto simp: readable_real_def split: list.splits)
  then show ?thesis by (simp add: reads_back_def put_number_token list_all_iff)
qed

lemma put_keyword_tokens:
  assumes "list_all is_space ws" and "delimiter c"
  shows "pb rr Indeterminate (''null'' @ ws @ c # cs) b = after rr (handle_value b JNull) (c # cs)"
    and "pb rr Indeterminate (''true'' @ ws @ c # cs) b = after rr (handle_value b (JBoolean True)) (c # cs)"
    and "pb rr Indeterminate (''false'' @ ws @ c # cs) b = after rr (handle_value b (JBoolean False)) (c # cs)"
  using put_literal_token [OF assms, of "CHR ''n''" "''ull''" rr cs b]
    put_literal_token [OF assms, of "CHR ''t''" "''rue''" rr cs b]
    put_literal_token [OF assms, of "CHR ''f''" "''alse''" rr cs b]
  by (simp_all add: is_alnum_def is_alpha_def)

lemma reads_back_literals:
  "reads_back sr rr style ind Null" "reads_back sr rr style ind (Boolean b)"
  using put_keyword_tokens by (auto simp: reads_back_def simp del: append.simps)

lemma reads_back_string: "plain_string s \<Longrightarrow> reads_back sr rr style ind (Str s)"
  by (simp add: reads_back_def put_string_token handle_value_clone [of "JString s" "JSharedString s"])

lemma put_array_items:
  assumes "\<forall>d \<in> set a. reads_back sr rr style ind d" and "a \<noteq> []"
    and "list_all is_space ws" and "delimiter c" and "list_all is_space nl"
  shows "pb rr Indeterminate
      (separated (CHR '','' # nl) (map (serializing_visitor sr style ind) a) @ ws @ c # cs)
      (Array_context acc # stack) =
    pb rr Indeterminate (c # cs) (Array_context (acc @ map shared_of a) # stack)"
  using assms(1,2)
proof (induction a arbitrary: acc)
  case (Cons d a)
  have step: "after rr (handle_value (Array_context acc # stack) (shared_of d)) cs' =
      pb rr Indeterminate cs' (Array_context (acc @ [shared_of d]) # stack)" for cs'
    by (simp add: handle_value_shared_of handle_value_in_def)
  show ?case
  proof (cases a)
    case Nil
    with Cons.prems assms(3,4) show ?thesis by (simp add: reads_backD step)
  next
    case (Cons e es)
    have "delimiter (CHR '','')" by (simp add: delimiter_def)
    with \<open>\<forall>d \<in> set (d # a). _ d\<close> have "pb rr Indeterminate (serializing_visitor sr style ind d @ [] @ CHR '','' # cs')
        (Array_context acc # stack) =
      pb rr Indeterminate (CHR '','' # cs') (Array_context (acc @ [shared_of d]) # stack)" for cs'
      by (subst reads_backD) (simp_all add: step)
    with Cons Cons.IH [of "acc @ [shared_of d]"] Cons.prems assms(5) show ?thesis
      by (simp add: put_comma put_spaces)
  qed
qed simp

lemma put_object_items:
  assumes "\<forall>(k, d) \<in> set ob. k \<noteq> [] \<and> plain_string k \<and> reads_back sr rr style ind d" and "ob \<noteq> []"
    and "list_all is_space ws" and "delimiter c" and "list_all is_space nl"
    and "map_sorted (done @ ob)"
  shows "pb rr Indeterminate
      (separated (CHR '','' # nl)
        (map (\<lambda>(k, d). quoted k @ '':'' @ space style @ serializing_visitor sr style ind d) ob)
       @ ws @ c # cs)
      (Object_context (map_vals shared_of done) [] # stack) =
    pb rr Indeterminate (c # cs) (Object_context (map_vals shared_of (done @ ob)) [] # stack)"
  using assms(1,2,6)
proof (induction ob arbitrary: "done")
  case (Cons p ob)
  obtain k d where p: "p = (k, d)" by (cases p)
  from Cons.prems p have k: "k \<noteq> []" "plain_string k" "reads_back sr rr style ind d" by auto
  from Cons.prems(3) p have "\<forall>k' \<in> fst ` set done. k' < k"
    by (auto simp: map_sorted_def sorted_wrt_append)
  then have ins: "map_insert k (shared_of d) (map_vals shared_of done) =
      (map_vals shared_of (done @ [(k, d)]), True)"
    by (subst map_insert_append) auto
  have item: "pb rr Indeterminate
      (quoted k @ '':'' @ space style @ serializing_visitor sr style ind d @ ws' @ c' # cs')
      (Object_context (map_vals shared_of done) [] # stack) =
    pb rr Indeterminate (c' # cs') (Object_context (map_vals shared_of (done @ [(k, d)])) [] # stack)"
    if "list_all is_space ws'" "delimiter c'" for ws' c' cs'
  proof -
    have "pb rr Indeterminate
        (quoted k @ '':'' @ space style @ serializing_visitor sr style ind d @ ws' @ c' # cs')
        (Object_context (map_vals shared_of done) [] # stack) =
      pb rr Indeterminate (serializing_visitor sr style ind d @ ws' @ c' # cs')
        (Object_context (map_vals shared_of done) k # stack)"
      by (simp add: put_key_token [OF k(2), simplified] handle_object_key_def put_spaces)
    also have "\<dots> = after rr (handle_value (Object_context (map_vals shared_of done) k # stack) (shared_of d))
        (c' # cs')"
      by (rule reads_backD [OF k(3) that])
    also have "\<dots> = pb rr Indeterminate (c' # cs')
        (Object_context (map_vals shared_of (done @ [(k, d)])) [] # stack)"
      using k(1) ins by (simp add: handle_value_shared_of handle_value_in_def)
    finally show ?thesis .
  qed
  show ?case
  proof (cases ob)
    case Nil
    with item [OF assms(3,4)] p show ?thesis by simp
  next
    case (Cons q qs)
    have "delimiter (CHR '','')" by (simp add: delimiter_def)
    from item [of "[]", OF _ this] Cons Cons.IH [of "done @ [(k, d)]"] Cons.prems p assms(5)
    show ?thesis by (simp add: put_comma put_spaces)
  qed
qed simp

text \<open>A container ends with its own bracket, so that nothing needs to follow it.\<close>

lemma put_array:
  assumes "\<forall>d \<in> set a. reads_back sr rr style (Suc ind) d"
  shows "pb rr Indeterminate (serializing_visitor sr style ind (Array a) @ cs) b =
    after rr (handle_value b (shared_of (Array a))) cs"
proof -
  have eq: "handle_value b (JArray (map shared_of a)) = handle_value b (shared_of (Array a))"
    by (rule handle_value_clone) simp
  have close: "pb rr Indeterminate (CHR '']'' # cs) (Array_context (map shared_of a) # b) =
      after rr (handle_value b (shared_of (Array a))) cs"
    by (simp only: put_bracket handle_event.simps handle_end_array_def list.case json_context.case eq)
  have delim: "delimiter (CHR '']'')" by (simp add: delimiter_def)
  show ?thesis
  proof (cases "a = []")
    case True
    with close show ?thesis by (simp add: put_bracket(1) enclosed_def)
  next
    case False
    note items = put_array_items [OF assms False newline_spaces delim newline_spaces,
        of style "Suc ind" style ind cs "[]" b]
    from False show ?thesis
      using items close by (simp add: put_bracket(1) enclosed_def put_spaces)
  qed
qed

lemma put_object:
  assumes "\<forall>(k, d) \<in> set ob. k \<noteq> [] \<and> plain_string k \<and> reads_back sr rr style (Suc ind) d"
    and "map_sorted ob"
  shows "pb rr Indeterminate (serializing_visitor sr style ind (Object ob) @ cs) b =
    after rr (handle_value b (shared_of (Object ob))) cs"
proof -
  have eq: "handle_value b (JObject (map_vals shared_of ob)) = handle_value b (shared_of (Object ob))"
    by (rule handle_value_clone) (simp add: case_prod_unfold)
  have close: "pb rr Indeterminate (CHR ''}'' # cs) (Object_context (map_vals shared_of ob) [] # b) =
      after rr (handle_value b (shared_of (Object ob))) cs"
    by (simp only: put_bracket handle_event.simps handle_end_object_def list.case json_context.case eq)
  have delim: "delimiter (CHR ''}'')" by (simp add: delimiter_def)
  show ?thesis
  proof (cases "ob = []")
    case True
    with close show ?thesis by (simp add: put_bracket(3) enclosed_def)
  next
    case False
    note items = put_object_items [OF assms(1) False newline_spaces delim newline_spaces,
        of "[]" style "Suc ind" style ind cs b]
    from False assms(2) show ?thesis
      using items close by (simp add: put_bracket(3) enclosed_def put_spaces)
  qed
qed

lemma readable_reads_back: "readable sr rr d \<Longrightarrow> reads_back sr rr style ind d"
proof (induction d arbitrary: ind)
  case (Object ob)
  then have "\<forall>(k, d) \<in> set ob. k \<noteq> [] \<and> plain_string k \<and> reads_back sr rr style (Suc ind) d"
    by force
  with Object.prems show ?case
    unfolding reads_back_def [of _ _ _ _ "Object _"]
    by (auto simp only: put_object readable.simps after_spaces)
next
  case (Array a)
  then have "\<forall>d \<in> set a. reads_back sr rr style (Suc ind) d" by simp
  then show ?case
    unfolding reads_back_def [of _ _ _ _ "Array _"] by (auto simp only: put_array after_spaces)
qed (simp_all add: reads_back_literals reads_back_integer reads_back_real reads_back_string)

definition is_container :: "'r json \<Rightarrow> bool" where
  "is_container d \<longleftrightarrow> (case d of Array _ \<Rightarrow> True | Object _ \<Rightarrow> True | _ \<Rightarrow> False)"

lemma put_container:
  assumes "readable sr rr d" and "is_container d"
  shows "pb rr Indeterminate (serializing_visitor sr style ind d @ cs) b =
    after rr (handle_value b (shared_of d)) cs"
proof (cases d)
  case (Object ob)
  with assms(1) have "\<forall>(k, d) \<in> set ob. k \<noteq> [] \<and> plain_string k \<and> reads_back sr rr style (Suc ind) d"
    by (auto intro: readable_reads_back)
  with Object assms(1) show ?thesis by (simp only: put_object readable.simps)
next
  case (Array a)
  with assms(1) have "\<forall>d \<in> set a. reads_back sr rr style (Suc ind) d"
    by (auto intro: readable_reads_back)
  with Array show ?thesis by (simp only: put_array)
qed (use assms(2) in \<open>simp_all add: is_container_def\<close>)

text \<open>A scalar at the end of the input stays in the state of the parser.\<close>

lemma put_pending:
  assumes "readable sr rr d" and "\<not> is_container d"
  shows "\<exists>st. pb rr Indeterminate (serializing_visitor sr style ind d) b = Some (Inr (st, b))"
proof -
  have lit: "pb rr Indeterminate (x # xs) b = Some (Inr (Parsing_literal (x # xs), b))"
    if "is_alpha x" "list_all is_alnum xs" for x xs
    using that put_literal_chars [of xs rr "[x]" "[]" b] by (simp add: put_start_literal)
  have num: "pb rr Indeterminate (x # xs) b = Some (Inr (Parsing_number (x # xs), b))"
    if "is_digit x" "list_all (\<lambda>c. is_digit c \<or> c = CHR ''.'') xs" for x xs
    using that put_number_chars [of xs rr "[x]" "[]" b] by (simp add: put_start_number)
  show ?thesis
  proof (cases d)
    case (Integer n)
    obtain x xs where x: "show_nat (nat (sint n)) = x # xs" by (cases "show_nat (nat (sint n))") auto
    then have "is_digit y" if "y \<in> set (x # xs)" for y
      using that show_nat_digits [of y "nat (sint n)"] by simp
    with Integer assms x num [of x xs] show ?thesis by (simp add: show_integer_def list_all_iff)
  next
    case (Real r)
    with assms obtain x xs where "sr r = x # xs" "is_digit x" "\<forall>d \<in> set xs. is_digit d \<or> d = CHR ''.''"
      by (auto simp: readable_real_def split: list.splits)
    with Real num [of x xs] show ?thesis by (simp add: list_all_iff)
  next
    case (Str s)
    with assms put_quoted [of s rr "[]" b] show ?thesis by simp
  qed (use assms(2) in \<open>auto simp: is_container_def is_alpha_def is_alnum_def lit\<close>)
qed

section \<open>Properties\<close>

text \<open>
  C1. Round trip of arrays and objects: whatever the print style, and whether or not the parts of the
  value are shared, parsing the text that \<open>operator<<\<close> writes for an array or an object returns a
  value equal to the one written, provided the scalars and keys inside are ones the parser reads.
\<close>

theorem parse_serialize:
  assumes "readable show_real read_real (deref v)" and "is_container (deref v)"
  shows "\<exists>w. parse read_real (serialize show_real style v) = Some (Inr w) \<and> deref w = deref v"
proof -
  have "pb read_real Indeterminate (serialize show_real style v @ []) value_builder_init =
      after read_real (handle_value value_builder_init (shared_of (deref v))) []"
    unfolding serialize_def by (rule put_container [OF assms])
  then show ?thesis
    by (simp add: parse_def value_builder_init_def handle_value_shared_of handle_value_in_def
        get_value_def)
qed

theorem parse_serialize_witness:
  "\<exists>w. parse (\<lambda>s. Inl Bad_lexical_cast :: nat res)
        (serialize show_nat Json_print_pretty
          (JObject [(''a'', JArray [JInteger 1, JNull]), (''b'', JSharedString ''x y'')])) = Some (Inr w)
     \<and> deref w = Object [(''a'', Array [Integer 1, Null]), (''b'', Str ''x y'')]"
  using parse_serialize [of show_nat "\<lambda>s. Inl Bad_lexical_cast"
      "JObject [(''a'', JArray [JInteger 1, JNull]), (''b'', JSharedString ''x y'')]" Json_print_pretty]
  by (simp add: plain_string_def is_container_def map_sorted_def)

text \<open>
  The counterpart for scalars: what \<open>operator<<\<close> writes for a scalar ends without a delimiter,
  the parser never flushes its state at the end of the input, and \<open>parse\<close> returns the null value in
  place of the number, string or Boolean that was written.
\<close>

lemma parse_serialized_scalar:
  assumes "readable show_real read_real (deref v)" and "\<not> is_container (deref v)"
  shows "parse read_real (serialize show_real style v) = Some (Inr JNull)"
  using put_pending [OF assms, of style 0 value_builder_init]
  by (auto simp: parse_def serialize_def value_builder_init_def get_value_def)

text \<open>
  The serializer writes a negative integer with its sign, and the parser rejects the sign: the
  text of an array that holds just a negative integer throws \<open>failed_to_parse\<close>.
\<close>

lemma parse_negative_integer:
  assumes "deref v = Array [Integer n]" and "sint n < 0"
  shows "parse read_real (serialize show_real style v) = Some (Inl (Json_error failed_to_parse))"
proof -
  have minus: "pb read_real Indeterminate (CHR ''-'' # cs) b = Some (Inl (Json_error failed_to_parse))"
    for cs b
    by (simp add: put.simps(2) vb.put_char_indeterminate put_indeterminate_def is_space_def is_alpha_def
        is_digit_def)
  show ?thesis
    using assms
    by (simp add: parse_def serialize_def enclosed_def show_integer_def put_bracket(1) put_spaces minus)
qed

end
