(* ===== verification/Link_Ring.thy ===== *)
theory Link_Ring
  imports Gpcl_Prelude
begin

text \<open>
  Circular doubly linked lists through a sentinel node, the representation that \<open>gpcl::list\<close> and
  \<open>gpcl::intrusive_list\<close> share.  A heap of links maps every node address to its two pointer fields;
  \<open>ring h c xs\<close> says that following the links from the sentinel \<open>c\<close> visits exactly the nodes \<open>xs\<close>
  and comes back, in both directions.  Cutting a segment out of a ring and pasting one into a ring
  are proved once here; both containers' operations are instances of the two.
\<close>

record 'p links =
  prv :: "'p \<Rightarrow> 'p"
  nxt :: "'p \<Rightarrow> 'p"

definition set_prev :: "'p \<Rightarrow> 'p \<Rightarrow> ('p, 'z) links_scheme \<Rightarrow> ('p, 'z) links_scheme" where
  "set_prev p q h = h\<lparr>prv := (prv h)(p := q)\<rparr>"

definition set_next :: "'p \<Rightarrow> 'p \<Rightarrow> ('p, 'z) links_scheme \<Rightarrow> ('p, 'z) links_scheme" where
  "set_next p q h = h\<lparr>nxt := (nxt h)(p := q)\<rparr>"

lemma set_links_simps [simp]:
  "prv (set_prev p q h) = (prv h)(p := q)"
  "nxt (set_prev p q h) = nxt h"
  "prv (set_next p q h) = prv h"
  "nxt (set_next p q h) = (nxt h)(p := q)"
  "links.more (set_prev p q h) = links.more h"
  "links.more (set_next p q h) = links.more h"
  by (simp_all add: set_prev_def set_next_def)

definition linked :: "('p, 'z) links_scheme \<Rightarrow> 'p list \<Rightarrow> bool" where
  "linked h xs = successively (\<lambda>x y. nxt h x = y \<and> prv h y = x) xs"

definition ring :: "('p, 'z) links_scheme \<Rightarrow> 'p \<Rightarrow> 'p list \<Rightarrow> bool" where
  "ring h c xs \<longleftrightarrow> distinct (c # xs) \<and> linked h (c # xs @ [c])"

section \<open>Linked segments\<close>

lemma in_set_tlD: "x \<in> set (tl xs) \<Longrightarrow> x \<in> set xs"
  by (cases xs) auto

lemma linked_simps [simp]:
  "linked h []" "linked h [x]"
  "linked h (x # y # zs) \<longleftrightarrow> nxt h x = y \<and> prv h y = x \<and> linked h (y # zs)"
  by (auto simp: linked_def)

lemma linked_append:
  "linked h (xs @ y # zs) \<longleftrightarrow> linked h (xs @ [y]) \<and> linked h (y # zs)"
  by (auto simp: linked_def successively_append_iff)

lemma linked_glue:
  "linked h (xs @ x # y # ys) \<longleftrightarrow>
     linked h (xs @ [x]) \<and> nxt h x = y \<and> prv h y = x \<and> linked h (y # ys)"
  by (subst linked_append) auto

lemma linked_join:
  "linked h (xs @ ys) \<longleftrightarrow> linked h xs \<and> linked h ys \<and>
     (xs = [] \<or> ys = [] \<or> nxt h (last xs) = hd ys \<and> prv h (hd ys) = last xs)"
  by (auto simp: linked_def successively_append_iff)

lemma linked_cong:
  assumes "\<forall>p \<in> set (butlast xs). nxt h' p = nxt h p"
    and "\<forall>p \<in> set (tl xs). prv h' p = prv h p"
  shows "linked h' xs = linked h xs"
  using assms
proof (induction xs)
  case (Cons x xs)
  show ?case
  proof (cases xs)
    case (Cons y ys)
    have "\<forall>p \<in> set (tl xs). prv h' p = prv h p"
      using Cons.prems(2) Cons by simp
    with Cons.IH Cons.prems Cons show ?thesis by simp
  qed simp
qed simp

lemma linked_sub: "linked h (xs @ ys @ zs) \<Longrightarrow> linked h ys"
  by (auto simp: linked_def successively_append_iff)

text \<open>A ring seen at one of its cut points: the nodes up to \<open>a\<close>, and \<open>b\<close> and the nodes behind it.\<close>

lemma cut_point:
  obtains as a b bs where "c # xs = as @ [a]" "a = last (c # xs)"
    "ys @ [c] = b # bs" "b = hd (ys @ [c])"
proof -
  have "c # xs = butlast (c # xs) @ [last (c # xs)]" by simp
  moreover have "ys @ [c] = hd (ys @ [c]) # tl (ys @ [c])" by (cases ys) auto
  ultimately show thesis using that by blast
qed

lemma cut_distinct:
  assumes "distinct (c # xs @ ys)" and as: "c # xs = as @ [a]" and bs: "ys @ [c] = b # bs"
  shows "distinct (as @ [a])" "distinct (b # bs)" "b \<notin> set (tl (as @ [a]))" "a \<notin> set (butlast (b # bs))"
    "set (as @ [a]) = insert c (set xs)" "set (b # bs) = insert c (set ys)"
proof -
  show "distinct (as @ [a])" "set (as @ [a]) = insert c (set xs)"
    using assms(1) as [symmetric] by auto
  show "distinct (b # bs)" "set (b # bs) = insert c (set ys)"
    using assms(1) bs [symmetric] by auto
  show "b \<notin> set (tl (as @ [a]))"
    using assms(1) as [symmetric] bs by (cases ys) auto
  have "a \<in> insert c (set xs)" using as by (metis in_set_conv_decomp list.simps(15))
  moreover have "butlast (b # bs) = ys" using bs [symmetric] by simp
  ultimately show "a \<notin> set (butlast (b # bs))" using assms(1) by auto
qed

section \<open>Rings\<close>

lemma ring_cong:
  assumes "\<forall>p \<in> set (c # xs). nxt h' p = nxt h p" and "\<forall>p \<in> set (c # xs). prv h' p = prv h p"
  shows "ring h' c xs = ring h c xs"
proof -
  have "linked h' (c # xs @ [c]) = linked h (c # xs @ [c])"
    using assms by (intro linked_cong) (auto dest: in_set_butlastD)
  then show ?thesis by (simp add: ring_def)
qed

lemma ring_Nil: "ring h c [] \<longleftrightarrow> nxt h c = c \<and> prv h c = c"
  by (auto simp: ring_def)

lemma ring_distinct: "ring h c xs \<Longrightarrow> distinct xs \<and> c \<notin> set xs"
  by (simp add: ring_def)

lemma ring_next:
  assumes "ring h c (xs @ p # ys)"
  shows "nxt h p = hd (ys @ [c])" and "prv h p = last (c # xs)"
proof -
  obtain as a b bs where *: "c # xs = as @ [a]" "a = last (c # xs)" "ys @ [c] = b # bs" "b = hd (ys @ [c])"
    by (rule cut_point)
  have "linked h ((c # xs) @ p # ys @ [c])" using assms by (simp add: ring_def)
  then have "linked h (as @ a # p # b # bs)" using *(1,3) by simp
  then show "nxt h p = hd (ys @ [c])" "prv h p = last (c # xs)"
    using *(2,4) by (simp_all add: linked_glue [of h as])
qed

lemma ring_ends:
  assumes "ring h c xs"
  shows "nxt h c = hd (xs @ [c])" and "prv h c = last (c # xs)"
proof -
  obtain as a where *: "c # xs = as @ [a]" "a = last (c # xs)"
    by (meson cut_point)
  have "linked h ((c # xs) @ [c])" using assms by (simp add: ring_def)
  then have "linked h (as @ [a, c])" using *(1) by (metis append.assoc append_Cons append_Nil)
  then show "prv h c = last (c # xs)" using *(2) by (simp add: linked_glue)
  show "nxt h c = hd (xs @ [c])" using assms by (cases xs) (auto simp: ring_def)
qed

lemma ring_Cons:
  "ring h c (x # xs) \<longleftrightarrow> distinct (c # x # xs) \<and> linked h (x # xs) \<and> nxt h c = x \<and> prv h x = c \<and>
     nxt h (last (x # xs)) = c \<and> prv h c = last (x # xs)"
proof -
  have "linked h (c # (x # xs) @ [c]) \<longleftrightarrow> nxt h c = x \<and> prv h x = c \<and> linked h ((x # xs) @ [c])"
    by simp
  then show ?thesis unfolding ring_def linked_join [of h "x # xs" "[c]"] by auto
qed

text \<open>The node in front of a position, whether the position is a node or the sentinel.\<close>

lemma ring_prev_at:
  assumes "ring h c (xs @ ys)"
  shows "prv h (hd (ys @ [c])) = last (c # xs)"
  using assms ring_ends(2) [of h c xs] ring_next(2) [of h c xs] by (cases ys) auto

lemma ring_next_at:
  assumes "ring h c (xs @ ys)"
  shows "nxt h (last (c # xs)) = hd (ys @ [c])"
proof (cases xs rule: rev_cases)
  case Nil
  with assms ring_ends(1) [of h c ys] show ?thesis by simp
next
  case (snoc zs z)
  with assms ring_next(1) [of h c zs z ys] show ?thesis by simp
qed

lemma ring_cut:
  assumes r: "ring h c (xs @ zs @ ys)"
    and n: "nxt h' = (nxt h)(last (c # xs) := hd (ys @ [c]))"
    and p: "prv h' = (prv h)(hd (ys @ [c]) := last (c # xs))"
  shows "ring h' c (xs @ ys)" and "linked h' zs"
proof -
  obtain as a b bs where *: "c # xs = as @ [a]" "a = last (c # xs)" "ys @ [c] = b # bs" "b = hd (ys @ [c])"
    by (rule cut_point)
  have d: "distinct (c # xs @ zs @ ys)" and l: "linked h ((c # xs) @ zs @ ys @ [c])"
    using r by (simp_all add: ring_def)
  have np: "nxt h' = (nxt h)(a := b)" "prv h' = (prv h)(b := a)"
    using n p *(2,4) by simp_all
  have d': "distinct (c # xs @ ys)" using d by auto
  note cut = cut_distinct [OF d' *(1,3)]
  have "linked h' (as @ [a]) = linked h (as @ [a])"
    using np cut(1,3) by (intro linked_cong) auto
  moreover have "linked h' (b # bs) = linked h (b # bs)"
    using np cut(2,4) by (intro linked_cong) auto
  moreover have "linked h (as @ [a])" using l *(1) linked_sub [of h "[]" "c # xs"] by simp
  moreover have "linked h (b # bs)"
    using l *(3) linked_sub [of h "(c # xs) @ zs" "ys @ [c]" "[]"] by simp
  ultimately have "linked h' (as @ a # b # bs)" using np by (simp add: linked_glue)
  moreover have "as @ a # b # bs = c # xs @ ys @ [c]"
    using *(1,3) by (metis append_Cons append_assoc append_eq_append_conv2 append_self_conv2)
  ultimately show "ring h' c (xs @ ys)" using d by (auto simp: ring_def)
  have "a \<in> insert c (set xs)" "b \<in> insert c (set ys)" using cut(5,6) by auto
  then have "a \<notin> set zs" "b \<notin> set zs" using d by auto
  then have "linked h' zs = linked h zs"
    using np by (intro linked_cong) (auto dest: in_set_butlastD in_set_tlD)
  then show "linked h' zs" using linked_sub [OF l] by simp
qed

lemma ring_paste:
  assumes r: "ring h c (xs @ ys)" and z: "linked h zs" "zs \<noteq> []" "distinct zs"
    and disj: "set zs \<inter> set (c # xs @ ys) = {}"
    and n: "nxt h' = (nxt h)(last zs := hd (ys @ [c]), last (c # xs) := hd zs)"
    and p: "prv h' = (prv h)(hd zs := last (c # xs), hd (ys @ [c]) := last zs)"
  shows "ring h' c (xs @ zs @ ys)"
proof -
  obtain as a b bs where *: "c # xs = as @ [a]" "a = last (c # xs)" "ys @ [c] = b # bs" "b = hd (ys @ [c])"
    by (rule cut_point)
  have d: "distinct (c # xs @ ys)" and l: "linked h ((c # xs) @ ys @ [c])"
    using r by (simp_all add: ring_def)
  define y z where "y = hd zs" and "z = last zs"
  have yz: "y \<in> set zs" "z \<in> set zs" using z(2) by (simp_all add: y_def z_def)
  have np: "nxt h' = (nxt h)(z := b, a := y)" "prv h' = (prv h)(y := a, b := z)"
    using n p *(2,4) by (simp_all add: y_def z_def)
  note cut = cut_distinct [OF d *(1,3)]
  have "a \<in> insert c (set xs)" "b \<in> insert c (set ys)" using cut(5,6) by auto
  then have out: "a \<notin> set zs" "b \<notin> set zs" using disj by auto
  have out': "y \<notin> set (as @ [a])" "z \<notin> set (as @ [a])" "y \<notin> set (b # bs)" "z \<notin> set (b # bs)"
    using disj yz unfolding cut(5,6) by auto
  have "linked h' (as @ [a]) = linked h (as @ [a])"
  proof (intro linked_cong ballI)
    show "nxt h' q = nxt h q" if "q \<in> set (butlast (as @ [a]))" for q
      using that np(1) cut(1) out'(2) by auto
    show "prv h' q = prv h q" if "q \<in> set (tl (as @ [a]))" for q
    proof -
      have "q \<in> set (as @ [a])" using that by (rule in_set_tlD)
      with that cut(3) out'(1) show ?thesis unfolding np(2) by auto
    qed
  qed
  moreover have "linked h' (b # bs) = linked h (b # bs)"
  proof (intro linked_cong ballI)
    show "nxt h' q = nxt h q" if "q \<in> set (butlast (b # bs))" for q
      using that cut(4) out'(4) in_set_butlastD [OF that] unfolding np(1) by auto
    show "prv h' q = prv h q" if "q \<in> set (tl (b # bs))" for q
      using that cut(2) out'(3) unfolding np(2) by auto
  qed
  moreover have "linked h (as @ [a])" using l *(1) linked_sub [of h "[]" "c # xs"] by simp
  moreover have "linked h (b # bs)" using l *(3) linked_sub [of h "c # xs" "ys @ [c]" "[]"] by simp
  moreover have "linked h' zs = linked h zs"
  proof (intro linked_cong ballI)
    show "nxt h' q = nxt h q" if "q \<in> set (butlast zs)" for q
    proof -
      have "q \<noteq> z" using that z(2,3) by (cases zs rule: rev_cases) (auto simp: z_def)
      with that np out show ?thesis by (auto dest: in_set_butlastD)
    qed
    show "prv h' q = prv h q" if "q \<in> set (tl zs)" for q
      using that np out z(2,3) by (cases zs) (auto simp: y_def)
  qed
  moreover have "nxt h' a = y" "prv h' y = a" "nxt h' z = b" "prv h' b = z"
    using np out out' yz by auto
  ultimately have "linked h' ((as @ [a]) @ zs @ b # bs)"
    using z(1,2) by (simp only: linked_join) (simp add: y_def z_def)
  then have "linked h' (c # xs @ zs @ ys @ [c])"
    by (simp only: *(1,3) [symmetric] append_Cons append_assoc)
  moreover have "distinct (c # xs @ zs @ ys)" using d z(3) disj by auto
  ultimately show ?thesis by (simp add: ring_def)
qed

lemma ring_insert:
  assumes "ring h c (xs @ ys)" and "n \<notin> set (c # xs @ ys)"
    and "nxt h' = (nxt h)(n := hd (ys @ [c]), last (c # xs) := n)"
    and "prv h' = (prv h)(n := last (c # xs), hd (ys @ [c]) := n)"
  shows "ring h' c (xs @ n # ys)"
  using ring_paste [of h c xs ys "[n]" h'] assms by auto

lemma ring_frame:
  assumes "ring h c xs" and "\<forall>p. p \<in> set (c # xs) \<longrightarrow> nxt h' p = nxt h p \<and> prv h' p = prv h p"
  shows "ring h' c xs"
  using assms ring_cong [of c xs h' h] by simp

lemma ring_apart:
  assumes "ring h d ys" and "set (d # ys) \<inter> S = {}"
    and "\<And>p. p \<notin> S \<Longrightarrow> nxt h' p = nxt h p \<and> prv h' p = prv h p"
  shows "ring h' d ys"
  by (rule ring_frame [OF assms(1)]) (use assms(2,3) in blast)

section \<open>Walking along a ring\<close>

text \<open>
  Following the next pointers from one position until another is reached, collecting the nodes
  passed; a walk that never reaches its end does not return.
\<close>

partial_function (option) walk :: "('p, 'z) links_scheme \<Rightarrow> 'p \<Rightarrow> 'p \<Rightarrow> 'p list option" where
  "walk h p q = (if p = q then Some []
     else Option.bind (walk h (nxt h p) q) (\<lambda>ps. Some (p # ps)))"

lemma walk_ring:
  assumes "ring h c (xs @ zs @ ys)"
  shows "walk h (hd (zs @ ys @ [c])) (hd (ys @ [c])) = Some zs"
  using assms
proof (induction zs arbitrary: xs)
  case Nil
  then show ?case by (simp add: walk.simps)
next
  case (Cons z zs)
  have "z \<noteq> hd (ys @ [c])"
    using ring_distinct [OF Cons.prems(1)] by (cases ys) auto
  moreover have "nxt h z = hd (zs @ ys @ [c])"
    using ring_next(1) [of h c xs z "zs @ ys"] Cons.prems(1) by simp
  moreover have "walk h (hd (zs @ ys @ [c])) (hd (ys @ [c])) = Some zs"
    using Cons.IH [of "xs @ [z]"] Cons.prems(1) by simp
  ultimately show ?case by (simp add: walk.simps [of h z])
qed

lemma walk_all: "ring h c xs \<Longrightarrow> walk h (nxt h c) c = Some xs"
  using walk_ring [of h c "[]" xs "[]"] ring_ends(1) [of h c xs] by simp

end
