(* ===== verification/Back_Inserter.thy ===== *)
theory Back_Inserter
  imports Gpcl_Prelude
begin

text \<open>
  The contract of a container that appends at its back: what its clients (\<open>resize\<close>, the
  element-wise move constructors, \<open>std::back_inserter\<close>) rely on.  An append that throws leaves the
  contents alone; a loop of appends therefore always leaves the old contents with a prefix of the
  new elements behind them.
\<close>

fun push_all :: "('v \<Rightarrow> 's \<Rightarrow> unit res \<times> 's) \<Rightarrow> 'v list \<Rightarrow> 's \<Rightarrow> unit res \<times> 's" where
  "push_all push [] s = (Inr (), s)"
| "push_all push (v # vs) s =
     (case push v s of (Inl e, s') \<Rightarrow> (Inl e, s') | (Inr _, s') \<Rightarrow> push_all push vs s')"

locale back_inserter =
  fixes holds :: "'s \<Rightarrow> 'v list \<Rightarrow> bool"
    and push :: "'v \<Rightarrow> 's \<Rightarrow> unit res \<times> 's"
    and throwable :: "gpcl_error \<Rightarrow> bool"
  assumes push_ok: "holds s vs \<Longrightarrow> push v s = (Inr u, s') \<Longrightarrow> holds s' (vs @ [v])"
    and push_fails: "holds s vs \<Longrightarrow> push v s = (Inl e, s') \<Longrightarrow> holds s' vs \<and> throwable e"
begin

lemma push_all_ok:
  "holds s us \<Longrightarrow> push_all push vs s = (Inr u, s') \<Longrightarrow> holds s' (us @ vs)"
proof (induction vs arbitrary: s us)
  case (Cons v vs)
  then obtain s1 where "push v s = (Inr (), s1)" "push_all push vs s1 = (Inr u, s')"
    by (auto split: prod.splits sum.splits)
  with Cons.IH [of s1 "us @ [v]"] push_ok [OF Cons.prems(1)] show ?case by simp
qed simp

lemma push_all_fails:
  "holds s us \<Longrightarrow> push_all push vs s = (Inl e, s') \<Longrightarrow>
     throwable e \<and> (\<exists>k < length vs. holds s' (us @ take k vs))"
proof (induction vs arbitrary: s us)
  case (Cons v vs)
  show ?case
  proof (cases "push v s")
    case (Pair r s1)
    show ?thesis
    proof (cases r)
      case (Inl e')
      with Pair Cons.prems push_fails [OF Cons.prems(1), of v e' s1] show ?thesis
        by (auto intro: exI [of _ 0])
    next
      case (Inr u)
      with Pair Cons.prems(2) have "push_all push vs s1 = (Inl e, s')" by simp
      moreover have "holds s1 (us @ [v])" using push_ok [OF Cons.prems(1)] Pair Inr by simp
      ultimately obtain k where "throwable e" "k < length vs" "holds s' ((us @ [v]) @ take k vs)"
        using Cons.IH [of s1 "us @ [v]"] by auto
      then show ?thesis by (auto intro!: exI [of _ "Suc k"])
    qed
  qed
qed simp

end

end
