(* ===== verification/Allocation.thy ===== *)
theory Allocation
  imports Gpcl_Prelude
begin

text \<open>
  What the containers see of the world outside: an allocator that hands out fresh addresses or
  throws, and element constructors that return or throw.  Both are parameters of the containers.
\<close>

text \<open>
  The environment: what the allocator answers to the request made at a given time when a given set
  of addresses is occupied (\<open>None\<close>: \<open>std::bad_alloc\<close>), and whether the element constructor invoked
  at a given time returns normally.
\<close>

record 'p env =
  allocate :: "nat \<Rightarrow> 'p set \<Rightarrow> 'p option"
  constructs :: "nat \<Rightarrow> bool"

definition fresh_alloc :: "'p env \<Rightarrow> bool" where
  "fresh_alloc E \<longleftrightarrow> (\<forall>t L p. allocate E t L = Some p \<longrightarrow> p \<notin> L)"

text \<open>An allocator that never runs out as long as finitely many addresses are occupied.\<close>

definition total_alloc :: "'p env \<Rightarrow> bool" where
  "total_alloc E \<longleftrightarrow> (\<forall>t L. finite L \<longrightarrow> allocate E t L \<noteq> None)"

definition throwable :: "gpcl_error \<Rightarrow> bool" where
  "throwable e \<longleftrightarrow> e = Std_bad_alloc \<or> e = User_exception"

end
