(* ===== verification/Gpcl_List.thy ===== *)
theory Gpcl_List
  imports Link_Ring Back_Inserter Allocation
begin

text \<open>
  \<open>gpcl::list\<close> of \<open>list.hpp\<close>: an owning doubly linked list whose sentinel node is part of the list
  object.  The heap holds the pointer fields and the value of every node, the set of occupied node
  addresses and a clock; the answers of the allocator and of the element constructors are a
  parameter, so that every allocation and every construction may fail.  Several lists live in one
  heap.  Sizes are counted without wrap-around, since every element occupies a node.
\<close>

section \<open>State\<close>

text \<open>A node holds a value (\<open>Some\<close>) or is empty, like the sentinel and a destroyed node.\<close>

record ('p, 'v) lheap = "'p links" +
  val :: "'p \<Rightarrow> 'v option"
  live :: "'p set"
  clock :: nat

record 'p glist =
  sentinel :: 'p
  list_size :: nat
  alloc_id :: nat

type_synonym ('p, 'v) lstate = "('p, 'v) lheap \<times> 'p glist"

section \<open>Nodes\<close>

definition tick :: "('p, 'v) lheap \<Rightarrow> ('p, 'v) lheap" where
  "tick h = h\<lparr>clock := Suc (clock h)\<rparr>"

definition create_node ::
  "'p env \<Rightarrow> 'p \<Rightarrow> 'p \<Rightarrow> 'v \<Rightarrow> ('p, 'v) lheap \<Rightarrow> 'p res \<times> ('p, 'v) lheap" where
  "create_node E pv nx v h =
     (case allocate E (clock h) (live h) of
        None \<Rightarrow> (Inl Std_bad_alloc, tick h)
      | Some p \<Rightarrow>
          let h1 = tick h\<lparr>live := insert p (live h)\<rparr>
          in if constructs E (clock h)
             then (Inr p, set_next p nx (set_prev p pv (h1\<lparr>val := (val h1)(p := Some v)\<rparr>)))
             else (Inl User_exception, h1\<lparr>live := live h1 - {p}\<rparr>))"

definition destroy_node :: "'p \<Rightarrow> ('p, 'v) lheap \<Rightarrow> ('p, 'v) lheap res" where
  "destroy_node p h =
     (if p \<in> live h \<and> val h p \<noteq> None
      then Inr (h\<lparr>val := (val h)(p := None), live := live h - {p}\<rparr>)
      else Inl Undefined_behaviour)"

definition list_node_swap :: "'p \<Rightarrow> 'p \<Rightarrow> ('p, 'z) links_scheme \<Rightarrow> ('p, 'z) links_scheme" where
  "list_node_swap this other h =
     (if this = other then h
      else let pv = prv h this; nx = nxt h this; other_prev = prv h other; other_next = nxt h other;
               h = set_prev this other_prev h;
               h = set_next this other_next h;
               h = set_next pv other h;
               h = set_prev nx other h;
               h = set_next other_prev this h;
               h = set_prev other_next this h;
               h = set_prev other pv h
           in set_next other nx h)"

section \<open>Observers\<close>

definition begin_of :: "('p, 'v) lheap \<Rightarrow> 'p glist \<Rightarrow> 'p" where
  "begin_of h l = nxt h (sentinel l)"

definition end_of :: "'p glist \<Rightarrow> 'p" where
  "end_of l = sentinel l"

definition list_front :: "('p, 'v) lheap \<Rightarrow> 'p glist \<Rightarrow> 'v option" where
  "list_front h l = val h (begin_of h l)"

definition last_elem :: "('p, 'v) lheap \<Rightarrow> 'p glist \<Rightarrow> 'v option" where
  "last_elem h l = val h (prv h (end_of l))"

definition list_empty :: "('p, 'v) lheap \<Rightarrow> 'p glist \<Rightarrow> bool" where
  "list_empty h l \<longleftrightarrow> begin_of h l = end_of l"

text \<open>The values in an iterator range; \<open>None\<close> inside marks an empty node.\<close>

definition range_values :: "('p, 'v) lheap \<Rightarrow> 'p \<Rightarrow> 'p \<Rightarrow> 'v option list option" where
  "range_values h first stop = map_option (map (val h)) (walk h first stop)"

definition list_eq :: "('p, 'v) lheap \<Rightarrow> 'p glist \<Rightarrow> 'p glist \<Rightarrow> bool option" where
  "list_eq h x y =
     (if list_size x \<noteq> list_size y then Some False
      else Option.bind (range_values h (begin_of h x) (end_of x)) (\<lambda>vs.
           Option.bind (range_values h (begin_of h y) (end_of y)) (\<lambda>ws. Some (vs = ws))))"

section \<open>Insertion and removal\<close>

definition emplace ::
  "'p env \<Rightarrow> 'p \<Rightarrow> 'v \<Rightarrow> ('p, 'v) lstate \<Rightarrow> 'p res \<times> ('p, 'v) lstate" where
  "emplace E pos v s = (case s of (h, l) \<Rightarrow>
     case create_node E (prv h pos) pos v h of
       (Inl e, h1) \<Rightarrow> (Inl e, h1, l)
     | (Inr node, h1) \<Rightarrow>
         let h2 = set_next (prv h1 pos) node h1;
             h3 = set_prev pos node h2
         in (Inr node, h3, l\<lparr>list_size := Suc (list_size l)\<rparr>))"

definition emplace_front :: "'p env \<Rightarrow> 'v \<Rightarrow> ('p, 'v) lstate \<Rightarrow> 'p res \<times> ('p, 'v) lstate" where
  "emplace_front E v s = emplace E (begin_of (fst s) (snd s)) v s"

definition emplace_back :: "'p env \<Rightarrow> 'v \<Rightarrow> ('p, 'v) lstate \<Rightarrow> 'p res \<times> ('p, 'v) lstate" where
  "emplace_back E v s = emplace E (end_of (snd s)) v s"

definition erase_node :: "'p \<Rightarrow> ('p, 'v) lstate \<Rightarrow> ('p \<times> ('p, 'v) lstate) res" where
  "erase_node node s = (case s of (h, l) \<Rightarrow>
     let pv = prv h node; nx = nxt h node
     in res_bind (destroy_node node h) (\<lambda>h1.
          let h2 = set_next pv nx h1;
              h3 = set_prev nx pv h2
          in Inr (nx, h3, l\<lparr>list_size := list_size l - 1\<rparr>)))"

definition list_pop_front :: "('p, 'v) lstate \<Rightarrow> ('p, 'v) lstate res" where
  "list_pop_front s = res_bind (erase_node (begin_of (fst s) (snd s)) s) (\<lambda>(_, s'). Inr s')"

definition list_pop_back :: "('p, 'v) lstate \<Rightarrow> ('p, 'v) lstate res" where
  "list_pop_back s = res_bind (erase_node (prv (fst s) (end_of (snd s))) s) (\<lambda>(_, s'). Inr s')"

text \<open>The loop of the range \<open>erase\<close>, then the relinking of its ends.\<close>

partial_function (option) erase_loop :: "'p \<Rightarrow> 'p \<Rightarrow> ('p, 'v) lstate \<Rightarrow> ('p, 'v) lstate res option" where
  "erase_loop node nx s =
     (if node = nx then Some (Inr s)
      else case destroy_node node (fst s) of
             Inl e \<Rightarrow> Some (Inl e)
           | Inr h1 \<Rightarrow> erase_loop (nxt (fst s) node) nx
               (h1, (snd s)\<lparr>list_size := list_size (snd s) - 1\<rparr>))"

definition erase_range :: "'p \<Rightarrow> 'p \<Rightarrow> ('p, 'v) lstate \<Rightarrow> ('p \<times> ('p, 'v) lstate) res option" where
  "erase_range first stop s =
     (let pv = prv (fst s) first
      in run_bind (erase_loop first stop s) (\<lambda>(h1, l1).
           let h2 = set_next pv stop h1;
               h3 = set_prev stop pv h2
           in Some (Inr (stop, h3, l1))))"

definition clear_list :: "('p, 'v) lstate \<Rightarrow> ('p, 'v) lstate res option" where
  "clear_list s = run_bind (erase_range (begin_of (fst s) (snd s)) (end_of (snd s)) s)
     (\<lambda>(_, s'). Some (Inr s'))"

text \<open>
  Insertion of several elements: each one goes in front of the previous one, and when an insertion
  throws, the ones made so far are erased again before the exception is passed on.
\<close>

fun undo_inserts :: "nat \<Rightarrow> 'p \<Rightarrow> ('p, 'v) lstate \<Rightarrow> ('p, 'v) lstate res" where
  "undo_inserts 0 pos s = Inr s"
| "undo_inserts (Suc n) pos s = res_bind (erase_node pos s) (\<lambda>(pos', s'). undo_inserts n pos' s')"

fun insert_loop ::
  "'p env \<Rightarrow> 'v list \<Rightarrow> nat \<Rightarrow> 'p \<Rightarrow> ('p, 'v) lstate \<Rightarrow> 'p res \<times> ('p, 'v) lstate" where
  "insert_loop E [] n pos s = (Inr pos, s)"
| "insert_loop E (v # vs) n pos s =
     (case emplace E pos v s of
        (Inr pos', s') \<Rightarrow> insert_loop E vs (Suc n) pos' s'
      | (Inl e, s') \<Rightarrow> (case undo_inserts n pos s' of
                          Inl e' \<Rightarrow> (Inl e', s')
                        | Inr s'' \<Rightarrow> (Inl e, s'')))"

definition insert_n ::
  "'p env \<Rightarrow> 'p \<Rightarrow> nat \<Rightarrow> 'v \<Rightarrow> ('p, 'v) lstate \<Rightarrow> 'p res \<times> ('p, 'v) lstate" where
  "insert_n E pos cnt v s = insert_loop E (replicate cnt v) 0 pos s"

text \<open>The range is traversed from its last element to its first.\<close>

definition insert_range ::
  "'p env \<Rightarrow> 'p \<Rightarrow> 'v list \<Rightarrow> ('p, 'v) lstate \<Rightarrow> 'p res \<times> ('p, 'v) lstate" where
  "insert_range E pos vs s = insert_loop E (rev vs) 0 pos s"

fun pop_back_loop :: "nat \<Rightarrow> ('p, 'v) lstate \<Rightarrow> ('p, 'v) lstate res" where
  "pop_back_loop 0 s = Inr s"
| "pop_back_loop (Suc n) s = res_bind (list_pop_back s) (pop_back_loop n)"

definition resize_value ::
  "'p env \<Rightarrow> nat \<Rightarrow> 'v \<Rightarrow> ('p, 'v) lstate \<Rightarrow> unit res \<times> ('p, 'v) lstate" where
  "resize_value E cnt v s =
     (let (r, s') =
        (if cnt > list_size (snd s)
         then let (r, s') = insert_n E (end_of (snd s)) (cnt - list_size (snd s)) v s
              in (res_bind r (\<lambda>_. Inr ()), s')
         else case pop_back_loop (list_size (snd s) - cnt) s of
                Inl e \<Rightarrow> (Inl e, s)
              | Inr s' \<Rightarrow> (Inr (), s'))
      in (res_bind r (\<lambda>_. gpcl_assert (cnt = list_size (snd s'))), s'))"

section \<open>Splicing and sorting\<close>

definition splice_links :: "'p \<Rightarrow> 'p \<Rightarrow> 'p \<Rightarrow> ('p, 'z) links_scheme \<Rightarrow> ('p, 'z) links_scheme" where
  "splice_links pos first stop h =
     (let node = first; nx = stop; pv = prv h node; node_last = prv h nx;
          h = set_next pv nx h;
          h = set_prev nx pv h;
          pos_prev_node = prv h pos;
          h = set_prev node pos_prev_node h;
          h = set_next node_last pos h;
          h = set_next pos_prev_node node h
      in set_prev pos node_last h)"

text \<open>
  \<open>splice(pos, std::move(other), first, stop)\<close>: the heap and both lists afterwards.  The number of
  elements is counted before the links change, and only when the lists differ.
\<close>

definition splice ::
  "'p \<Rightarrow> 'p \<Rightarrow> 'p \<Rightarrow> ('p, 'v) lheap \<times> 'p glist \<times> 'p glist
     \<Rightarrow> (('p, 'v) lheap \<times> 'p glist \<times> 'p glist) res option" where
  "splice pos first stop s = (case s of (h, l, other) \<Rightarrow>
     if alloc_id l \<noteq> alloc_id other then Some (Inl Assertion_failed)
     else run_bind
       (if sentinel l \<noteq> sentinel other
        then Option.bind (walk h first stop) (\<lambda>ps.
               Some (Inr (l\<lparr>list_size := list_size l + length ps\<rparr>,
                          other\<lparr>list_size := list_size other - length ps\<rparr>)))
        else Some (Inr (l, other)))
       (\<lambda>(l', other'). Some (Inr (splice_links pos first stop h, l', other'))))"

definition splice_all ::
  "'p \<Rightarrow> ('p, 'v) lheap \<times> 'p glist \<times> 'p glist
     \<Rightarrow> (('p, 'v) lheap \<times> 'p glist \<times> 'p glist) res option" where
  "splice_all pos s = (case s of (h, l, other) \<Rightarrow>
     splice pos (begin_of h other) (end_of other) s)"

definition new_list :: "'p \<Rightarrow> nat \<Rightarrow> ('p, 'v) lheap \<Rightarrow> ('p, 'v) lstate" where
  "new_list c a h =
     (set_next c c (set_prev c c (h\<lparr>live := insert c (live h), val := (val h)(c := None)\<rparr>)),
      \<lparr>sentinel = c, list_size = 0, alloc_id = a\<rparr>)"

definition move_list ::
  "'p \<Rightarrow> ('p, 'v) lheap \<times> 'p glist \<Rightarrow> (('p, 'v) lheap \<times> 'p glist \<times> 'p glist) res option" where
  "move_list c s = (case s of (h, other) \<Rightarrow>
     case new_list c (alloc_id other) h of (h1, l) \<Rightarrow> splice_all (end_of l) (h1, l, other))"

text \<open>The selection pass of \<open>sort\<close>: \<open>i\<close> is the smallest element so far, \<open>j\<close> runs to the end.\<close>

partial_function (option) sort_inner ::
  "('v \<Rightarrow> 'v \<Rightarrow> bool) \<Rightarrow> 'p \<Rightarrow> 'p \<Rightarrow> 'p \<Rightarrow> ('p, 'v) lheap \<Rightarrow> ('p \<times> ('p, 'v) lheap) option" where
  "sort_inner lt i j stop h =
     (if j = stop then Some (i, h)
      else if lt (the (val h j)) (the (val h i))
           then sort_inner lt j (nxt h j) stop (splice_links i j (nxt h j) h)
           else sort_inner lt i (nxt h j) stop h)"

partial_function (option) sort_outer ::
  "('v \<Rightarrow> 'v \<Rightarrow> bool) \<Rightarrow> 'p \<Rightarrow> 'p \<Rightarrow> ('p, 'v) lheap \<Rightarrow> ('p, 'v) lheap option" where
  "sort_outer lt i stop h =
     (if i = stop then Some h
      else Option.bind (sort_inner lt i (nxt h i) stop h) (\<lambda>(i', h').
             sort_outer lt (nxt h' i') stop h'))"

definition sort_list :: "('v \<Rightarrow> 'v \<Rightarrow> bool) \<Rightarrow> ('p, 'v) lstate \<Rightarrow> ('p, 'v) lstate option" where
  "sort_list lt s = (case s of (h, l) \<Rightarrow>
     map_option (\<lambda>h'. (h', l)) (sort_outer lt (begin_of h l) (end_of l) h))"

definition swap_list ::
  "('p, 'v) lheap \<times> 'p glist \<times> 'p glist \<Rightarrow> (('p, 'v) lheap \<times> 'p glist \<times> 'p glist) res" where
  "swap_list s = (case s of (h, l, other) \<Rightarrow>
     res_bind (gpcl_assert (alloc_id l = alloc_id other)) (\<lambda>_.
       Inr (list_node_swap (sentinel l) (sentinel other) h,
            l\<lparr>list_size := list_size other\<rparr>, other\<lparr>list_size := list_size l\<rparr>)))"

section \<open>Whole-list operations\<close>

text \<open>\<open>push_back\<close>, the reference that \<open>emplace_back\<close> returns dropped.\<close>

definition list_push_back :: "'p env \<Rightarrow> 'v \<Rightarrow> ('p, 'v) lstate \<Rightarrow> unit res \<times> ('p, 'v) lstate" where
  "list_push_back E v s = (case emplace_back E v s of (r, s') \<Rightarrow> (res_bind r (\<lambda>_. Inr ()), s'))"

text \<open>\<open>resize(count)\<close>, with the value a default-constructed element has.\<close>

definition resize_default ::
  "'p env \<Rightarrow> 'v \<Rightarrow> nat \<Rightarrow> ('p, 'v) lstate \<Rightarrow> unit res \<times> ('p, 'v) lstate" where
  "resize_default E dflt cnt s =
     (let (r, s') =
        (if cnt > list_size (snd s)
         then push_all (list_push_back E) (replicate (cnt - list_size (snd s)) dflt) s
         else case pop_back_loop (list_size (snd s) - cnt) s of
                Inl e \<Rightarrow> (Inl e, s)
              | Inr s' \<Rightarrow> (Inr (), s'))
      in (res_bind r (\<lambda>_. gpcl_assert (cnt = list_size (snd s'))), s'))"

definition copy_list ::
  "'p env \<Rightarrow> 'p \<Rightarrow> nat \<Rightarrow> ('p, 'v) lheap \<times> 'p glist \<Rightarrow> ('p res \<times> ('p, 'v) lstate) option" where
  "copy_list E c a s = (case s of (h, other) \<Rightarrow>
     case new_list c a h of (h1, l) \<Rightarrow>
       Option.bind (range_values h1 (begin_of h1 other) (end_of other)) (\<lambda>vs.
         Some (insert_range E (end_of l) (map the vs) (h1, l))))"

text \<open>The element-wise part of the copy assignment; element assignments do not throw.\<close>

fun assign_values :: "'p list \<Rightarrow> 'v option list \<Rightarrow> ('p, 'v) lheap \<Rightarrow> ('p, 'v) lheap" where
  "assign_values (p # ps) (v # vs) h = assign_values ps vs (h\<lparr>val := (val h)(p := v)\<rparr>)"
| "assign_values _ _ h = h"

definition copy_assign_list ::
  "'p env \<Rightarrow> ('p, 'v) lheap \<times> 'p glist \<times> 'p glist \<Rightarrow> (unit res \<times> ('p, 'v) lstate) option" where
  "copy_assign_list E s = (case s of (h, l, other) \<Rightarrow>
     Option.bind (walk h (begin_of h l) (end_of l)) (\<lambda>ps.
     Option.bind (walk h (begin_of h other) (end_of other)) (\<lambda>qs.
       if list_size l < list_size other
       then let h1 = assign_values ps (map (val h) qs) h;
                (r, s') = insert_range E (end_of l) (map (the \<circ> val h1) (drop (length ps) qs)) (h1, l)
            in Some (res_bind r (\<lambda>_. Inr ()), s')
       else let h1 = assign_values ps (map (val h) qs) h
            in case erase_range (hd (drop (length qs) ps @ [end_of l])) (end_of l) (h1, l) of
                 None \<Rightarrow> None
               | Some (Inl e) \<Rightarrow> Some (Inl e, h1, l)
               | Some (Inr (_, s')) \<Rightarrow> Some (Inr (), s'))))"

section \<open>Well-formed lists\<close>

definition list_nodes :: "('p, 'v) lheap \<Rightarrow> 'p glist \<Rightarrow> 'p list \<Rightarrow> 'v list \<Rightarrow> bool" where
  "list_nodes h l ps vs \<longleftrightarrow>
     ring h (sentinel l) ps \<and> set (sentinel l # ps) \<subseteq> live h \<and> val h (sentinel l) = None \<and>
     map (val h) ps = map Some vs \<and> list_size l = length ps"

definition list_rep :: "('p, 'v) lheap \<Rightarrow> 'p glist \<Rightarrow> 'v list \<Rightarrow> bool" where
  "list_rep h l vs \<longleftrightarrow> (\<exists>ps. list_nodes h l ps vs)"

definition untouched :: "('p, 'v) lheap \<Rightarrow> ('p, 'v) lheap \<Rightarrow> 'p set \<Rightarrow> bool" where
  "untouched h h' S \<longleftrightarrow> (\<forall>p \<in> S. nxt h' p = nxt h p \<and> prv h' p = prv h p \<and> val h' p = val h p \<and>
     (p \<in> live h \<longrightarrow> p \<in> live h'))"

lemma list_nodes_length: "list_nodes h l ps vs \<Longrightarrow> length ps = length vs"
  unfolding list_nodes_def by (metis length_map)

lemma map_Some_val: "map f ps = map Some vs \<Longrightarrow> p \<in> set ps \<Longrightarrow> f p \<noteq> None"
  by (induction ps arbitrary: vs) (auto simp: Cons_eq_map_conv)

lemma map_Some_cong:
  "map f ps = map Some vs \<Longrightarrow> (\<And>p. p \<in> set ps \<Longrightarrow> g p = f p) \<Longrightarrow> map g ps = map Some vs"
  by (metis map_cong)

lemma tick_simps [simp]:
  "nxt (tick h) = nxt h" "prv (tick h) = prv h" "val (tick h) = val h" "live (tick h) = live h"
  by (simp_all add: tick_def)

lemma set_links_lheap [simp]:
  "val (set_prev p q h) = val h" "live (set_prev p q h) = live h"
  "val (set_next p q h) = val h" "live (set_next p q h) = live h"
  by (simp_all add: set_prev_def set_next_def)

lemma ring_ext: "nxt h' = nxt h \<Longrightarrow> prv h' = prv h \<Longrightarrow> ring h' c xs = ring h c xs"
  by (simp add: ring_cong)

lemma list_nodes_tick [simp]: "list_nodes (tick h) l ps vs = list_nodes h l ps vs"
  by (simp add: list_nodes_def ring_ext [of "tick h" h])

lemma list_nodes_untouched:
  assumes "list_nodes h m qs us" and "untouched h h' S" and "set (sentinel m # qs) \<subseteq> S"
  shows "list_nodes h' m qs us"
proof -
  have "ring h' (sentinel m) qs"
    using assms(1) unfolding list_nodes_def
    by (elim conjE ring_frame) (use assms(2,3) in \<open>auto simp: untouched_def\<close>)
  moreover have "map (val h') qs = map (val h) qs"
    using assms(2,3) by (auto simp: untouched_def)
  ultimately show ?thesis using assms by (auto simp: list_nodes_def untouched_def simp del: map_eq_conv)
qed

section \<open>Single insertions and removals\<close>

text \<open>
  An insertion in front of any position either succeeds, or leaves everything as it was but for the
  clock.
\<close>

lemma create_node_cases:
  assumes "fresh_alloc E"
  obtains (bad_alloc) "create_node E pv nx v h = (Inl Std_bad_alloc, tick h)"
  | (throws) "create_node E pv nx v h = (Inl User_exception, tick h)"
  | (created) n h' where "create_node E pv nx v h = (Inr n, h')" "n \<notin> live h"
      "live h' = insert n (live h)" "val h' = (val h)(n := Some v)"
      "nxt h' = (nxt h)(n := nx)" "prv h' = (prv h)(n := pv)"
proof (cases "allocate E (clock h) (live h)")
  case None
  with bad_alloc show thesis by (simp add: create_node_def)
next
  case (Some n)
  with assms have "n \<notin> live h" by (auto simp: fresh_alloc_def)
  then have "(tick h)\<lparr>live := insert n (live h) - {n}\<rparr> = tick h" by (simp add: tick_def)
  with Some \<open>n \<notin> live h\<close> throws created show thesis
    by (cases "constructs E (clock h)") (auto simp: create_node_def Let_def)
qed

lemma emplace_cases:
  assumes "fresh_alloc E" and rep: "list_nodes h l (xs @ ys) (vs @ ws)" and len: "length xs = length vs"
    and pos: "pos = hd (ys @ [sentinel l])"
  obtains (failed) e where "emplace E pos v (h, l) = (Inl e, tick h, l)"
      "e = Std_bad_alloc \<or> e = User_exception"
  | (inserted) n h' where "emplace E pos v (h, l) = (Inr n, h', l\<lparr>list_size := Suc (list_size l)\<rparr>)"
      "n \<notin> live h" "live h' = insert n (live h)"
      "list_nodes h' (l\<lparr>list_size := Suc (list_size l)\<rparr>) (xs @ n # ys) (vs @ v # ws)"
      "untouched h h' (live h - set (sentinel l # xs @ ys))"
  using assms(1)
proof (cases rule: create_node_cases [consumes 1, case_names bad_alloc throws created, of E "prv h pos" pos v h])
  case (created n h1)
  let ?c = "sentinel l" and ?a = "last (sentinel l # xs)"
  have ring: "ring h ?c (xs @ ys)" and live: "set (?c # xs @ ys) \<subseteq> live h"
    using rep by (auto simp: list_nodes_def)
  have prv: "prv h pos = ?a" using ring_prev_at [OF ring] pos by simp
  have "pos \<in> set (?c # xs @ ys)" "?a \<in> set (?c # xs @ ys)" using pos by (auto simp: hd_append)
  with live created(2) have ne: "pos \<noteq> n" "?a \<noteq> n" by auto
  define h' where "h' = set_prev pos n (set_next (prv h1 pos) n h1)"
  have links: "nxt h' = (nxt h)(n := pos, ?a := n)" "prv h' = (prv h)(n := ?a, pos := n)"
    using created(5,6) ne prv by (simp_all add: h'_def)
  have "ring h' ?c (xs @ n # ys)"
    using ring_insert [OF ring, of n h'] live created(2) links pos by auto
  moreover have v: "val h' = (val h)(n := Some v)" "live h' = insert n (live h)"
    using created(3,4) by (simp_all add: h'_def)
  moreover have "n \<notin> set xs" "n \<notin> set ys" "n \<noteq> ?c" using live created(2) by auto
  moreover from this have "map (val h') (xs @ n # ys) = map Some (vs @ v # ws)"
    using rep len v(1) by (simp add: list_nodes_def)
  ultimately have "list_nodes h' (l\<lparr>list_size := Suc (list_size l)\<rparr>) (xs @ n # ys) (vs @ v # ws)"
    using rep live by (auto simp: list_nodes_def)
  moreover have "untouched h h' (live h - set (?c # xs @ ys))"
    using links v created(2) \<open>pos \<in> _\<close> \<open>?a \<in> _\<close> by (auto simp: untouched_def)
  ultimately show thesis
    using inserted [of n h'] created(1,2) v(2) by (simp add: emplace_def h'_def Let_def)
qed (auto simp: emplace_def intro: failed)

lemma erase_node_ok:
  assumes rep: "list_nodes h l (xs @ p # ys) (vs @ v # ws)" and len: "length xs = length vs"
  obtains h' where "erase_node p (h, l) = Inr (hd (ys @ [sentinel l]), h', l\<lparr>list_size := list_size l - 1\<rparr>)"
    "list_nodes h' (l\<lparr>list_size := list_size l - 1\<rparr>) (xs @ ys) (vs @ ws)"
    "live h' = live h - {p}" "val h' = (val h)(p := None)"
    "untouched h h' (live h - set (sentinel l # xs @ p # ys))"
proof -
  let ?c = "sentinel l" and ?a = "last (sentinel l # xs)" and ?b = "hd (ys @ [sentinel l])"
  have ring: "ring h ?c (xs @ [p] @ ys)" and live: "set (?c # xs @ p # ys) \<subseteq> live h"
    using rep by (auto simp: list_nodes_def)
  have links: "nxt h p = ?b" "prv h p = ?a"
    using ring_next [of h ?c xs p ys] ring by simp_all
  have vp: "val h p = Some v"
    using rep len by (simp add: list_nodes_def)
  define h' where "h' = set_prev ?b ?a (set_next ?a ?b (h\<lparr>val := (val h)(p := None), live := live h - {p}\<rparr>))"
  have e: "erase_node p (h, l) = Inr (?b, h', l\<lparr>list_size := list_size l - 1\<rparr>)"
    using vp live by (simp add: erase_node_def destroy_node_def links h'_def Let_def)
  have "ring h' ?c (xs @ ys)" by (rule ring_cut [OF ring]) (simp_all add: h'_def)
  moreover have v: "val h' = (val h)(p := None)" "live h' = live h - {p}" by (simp_all add: h'_def)
  moreover have out: "p \<notin> set xs" "p \<notin> set ys" "p \<noteq> ?c"
    using ring_distinct [OF ring] by auto
  moreover from out have "map (val h') (xs @ ys) = map Some (vs @ ws)"
    using rep len v(1) by (simp add: list_nodes_def)
  ultimately have "list_nodes h' (l\<lparr>list_size := list_size l - 1\<rparr>) (xs @ ys) (vs @ ws)"
    using rep live by (auto simp: list_nodes_def)
  moreover have "?a \<in> set (?c # xs @ p # ys)" "?b \<in> set (?c # xs @ p # ys)" by (auto simp: hd_append)
  then have "untouched h h' (live h - set (?c # xs @ p # ys))"
    by (auto simp: untouched_def h'_def)
  ultimately show thesis using that e v by blast
qed

section \<open>Repeated insertions and removals\<close>

lemma untouched_trans:
  assumes "untouched h h1 S" and "untouched h1 h2 S'" and "T \<subseteq> S" and "T \<subseteq> S'"
  shows "untouched h h2 T"
  using assms unfolding untouched_def by (auto dest!: subsetD)

lemma untouched_refl [simp]: "untouched h h S"
  by (simp add: untouched_def)

lemma untouched_tick [simp]: "untouched h (tick h1) S = untouched h h1 S"
  by (simp add: untouched_def)

text \<open>The foreign nodes: everything occupied that does not belong to the list.\<close>

lemma undo_inserts_ok:
  assumes "list_nodes h l (xs @ zs @ ys) (vs @ us @ ws)" and "length xs = length vs"
    and "length zs = length us" and "pos = hd (zs @ ys @ [sentinel l])"
    and "S \<inter> set (sentinel l # xs @ zs @ ys) = {}" and "S \<subseteq> live h"
  shows "\<exists>h' l'. undo_inserts (length zs) pos (h, l) = Inr (h', l') \<and> list_nodes h' l' (xs @ ys) (vs @ ws) \<and>
    sentinel l' = sentinel l \<and> alloc_id l' = alloc_id l \<and> untouched h h' S"
  using assms
proof (induction zs arbitrary: us h l pos)
  case (Cons z zs)
  then obtain u us' where us: "us = u # us'" by (cases us) auto
  obtain h1 where h1: "erase_node z (h, l) = Inr (hd ((zs @ ys) @ [sentinel l]), h1, l\<lparr>list_size := list_size l - 1\<rparr>)"
    "list_nodes h1 (l\<lparr>list_size := list_size l - 1\<rparr>) (xs @ zs @ ys) (vs @ us' @ ws)"
    "live h1 = live h - {z}"
    "untouched h h1 (live h - set (sentinel l # xs @ z # zs @ ys))"
    using erase_node_ok [of h l xs z "zs @ ys" vs u "us' @ ws"] Cons.prems(1,2) us by auto
  let ?l1 = "l\<lparr>list_size := list_size l - 1\<rparr>"
  have live: "S \<subseteq> live h1" using Cons.prems(5,6) h1(3) by auto
  have "\<exists>h' l'. undo_inserts (length zs) (hd (zs @ ys @ [sentinel ?l1])) (h1, ?l1) = Inr (h', l') \<and>
      list_nodes h' l' (xs @ ys) (vs @ ws) \<and> sentinel l' = sentinel ?l1 \<and> alloc_id l' = alloc_id ?l1 \<and>
      untouched h1 h' S"
    by (rule Cons.IH [OF h1(2)]) (use Cons.prems us live in \<open>auto\<close>)
  then obtain h' l' where "undo_inserts (length zs) (hd (zs @ ys @ [sentinel l])) (h1, ?l1) = Inr (h', l')"
    "list_nodes h' l' (xs @ ys) (vs @ ws)" "sentinel l' = sentinel l" "alloc_id l' = alloc_id l" "untouched h1 h' S"
    by auto
  moreover have "untouched h h1 S"
    using h1(4) Cons.prems(5,6) by (auto simp: untouched_def)
  ultimately show ?case
    using h1(1) Cons.prems(4) untouched_trans [of h h1 S h' S S] by auto
qed auto

lemma insert_loop_cases:
  assumes "fresh_alloc E" and "list_nodes h l (xs @ zs @ ys) (vs @ us @ ws)" and "length xs = length vs"
    and "length zs = length us" and "pos = hd (zs @ ys @ [sentinel l])"
    and "S \<inter> set (sentinel l # xs @ zs @ ys) = {}" and "S \<subseteq> live h"
  shows "\<exists>r h' l'. insert_loop E ts (length zs) pos (h, l) = (r, h', l') \<and>
    sentinel l' = sentinel l \<and> alloc_id l' = alloc_id l \<and> untouched h h' S \<and>
    (case r of
       Inr q \<Rightarrow> \<exists>ns. list_nodes h' l' (xs @ ns @ ys) (vs @ (rev ts @ us) @ ws) \<and> length ns = length (ts @ us) \<and>
                  q = hd (ns @ ys @ [sentinel l])
     | Inl e \<Rightarrow> (e = Std_bad_alloc \<or> e = User_exception) \<and> list_nodes h' l' (xs @ ys) (vs @ ws))"
  using assms(2,4-)
proof (induction ts arbitrary: zs us h l pos)
  case (Cons t ts)
  have zs_nodes: "list_nodes h l (xs @ (zs @ ys)) (vs @ (us @ ws))" using Cons.prems by simp
  have p: "pos = hd ((zs @ ys) @ [sentinel l])" using Cons.prems by simp
  from assms(1) zs_nodes assms(3) p show ?case
  proof (cases rule: emplace_cases [consumes 4, case_names failed inserted, of _ _ _ _ _ _ _ _ t])
    case (failed e)
    obtain h' l' where "undo_inserts (length zs) pos (tick h, l) = Inr (h', l')"
      "list_nodes h' l' (xs @ ys) (vs @ ws)" "sentinel l' = sentinel l" "alloc_id l' = alloc_id l"
      "untouched (tick h) h' S"
      using undo_inserts_ok [of "tick h" l xs zs ys vs us ws pos S] Cons.prems assms(3) by auto
    with failed show ?thesis by (auto simp: untouched_def)
  next
    case (inserted n h1)
    let ?l1 = "l\<lparr>list_size := Suc (list_size l)\<rparr>"
    have nodes: "list_nodes h1 ?l1 (xs @ (n # zs) @ ys) (vs @ (t # us) @ ws)" using inserted(4) by simp
    have un: "untouched h h1 S" using inserted(5) Cons.prems(4,5) by (auto simp: untouched_def)
    have S: "S \<inter> set (sentinel ?l1 # xs @ (n # zs) @ ys) = {}" "S \<subseteq> live h1"
      using Cons.prems(4,5) inserted(2,3) by auto
    obtain r h' l' where "insert_loop E ts (length (n # zs)) n (h1, ?l1) = (r, h', l')"
      "sentinel l' = sentinel ?l1 \<and> alloc_id l' = alloc_id ?l1 \<and> untouched h1 h' S"
      "case r of
         Inr q \<Rightarrow> \<exists>ns. list_nodes h' l' (xs @ ns @ ys) (vs @ (rev ts @ t # us) @ ws) \<and>
                    length ns = length (ts @ t # us) \<and> q = hd (ns @ ys @ [sentinel ?l1])
       | Inl e \<Rightarrow> (e = Std_bad_alloc \<or> e = User_exception) \<and> list_nodes h' l' (xs @ ys) (vs @ ws)"
      using Cons.IH [OF nodes _ _ S, of n] Cons.prems(2) by auto
    then show ?thesis
      using inserted(1) untouched_trans [OF un, of h' S S] by (auto split: sum.splits)
  qed
qed (use assms in \<open>auto simp: list_nodes_length\<close>)

lemma erase_loop_ok:
  assumes "list_nodes h l (xs @ zs @ ys) (vs @ us @ ws)" and "length xs = length vs"
    and "length zs = length us"
  shows "\<exists>h'. erase_loop (hd (zs @ ys @ [sentinel l])) (hd (ys @ [sentinel l])) (h, l) =
      Some (Inr (h', l\<lparr>list_size := list_size l - length zs\<rparr>)) \<and>
    nxt h' = nxt h \<and> prv h' = prv h \<and> live h' = live h - set zs \<and>
    (\<forall>p. val h' p = (if p \<in> set zs then None else val h p))"
proof -
  have ring: "ring h (sentinel l) (xs @ zs @ ys)" and nodes: "set zs \<subseteq> live h" "\<forall>p \<in> set zs. val h p \<noteq> None"
    using assms(1) map_Some_val [of "val h" "xs @ zs @ ys" "vs @ us @ ws"]
    by (auto simp: list_nodes_def)
  show ?thesis
    using ring nodes
  proof (induction zs arbitrary: xs h l)
    case Nil
    then show ?case by (auto simp: erase_loop.simps)
  next
    case (Cons z zs)
    let ?h = "h\<lparr>val := (val h)(z := None), live := live h - {z}\<rparr>"
    let ?l = "l\<lparr>list_size := list_size l - 1\<rparr>"
    have d: "distinct (z # zs)" using Cons.prems(1) by (auto simp: ring_def)
    have ne: "z \<noteq> hd (ys @ [sentinel l])"
      using ring_distinct [OF Cons.prems(1)] by (cases ys) auto
    have "ring ?h (sentinel ?l) ((xs @ [z]) @ zs @ ys)"
      using Cons.prems(1) ring_ext [of ?h h] by simp
    from Cons.IH [OF this] Cons.prems(2,3) d obtain h' where
      "erase_loop (hd (zs @ ys @ [sentinel l])) (hd (ys @ [sentinel l])) (?h, ?l) =
         Some (Inr (h', l\<lparr>list_size := list_size l - length (z # zs)\<rparr>))"
      "nxt h' = nxt h" "prv h' = prv h" "live h' = live h - set (z # zs)"
      "\<forall>p. val h' p = (if p \<in> set (z # zs) then None else val h p)"
      by fastforce
    moreover have "nxt h z = hd (zs @ ys @ [sentinel l])"
      using ring_next(1) [of h "sentinel l" xs z "zs @ ys"] Cons.prems(1) by simp
    moreover have "destroy_node z h = Inr ?h" using Cons.prems(2,3) by (simp add: destroy_node_def)
    ultimately show ?case using ne by (subst erase_loop.simps) auto
  qed
qed

lemma erase_range_ok:
  assumes rep: "list_nodes h l (xs @ zs @ ys) (vs @ us @ ws)" and len: "length xs = length vs"
    "length zs = length us"
  shows "\<exists>h' l'. erase_range (hd (zs @ ys @ [sentinel l])) (hd (ys @ [sentinel l])) (h, l) =
      Some (Inr (hd (ys @ [sentinel l]), h', l')) \<and>
    list_nodes h' l' (xs @ ys) (vs @ ws) \<and> sentinel l' = sentinel l \<and> live h' = live h - set zs \<and>
    untouched h h' (live h - set (sentinel l # xs @ zs @ ys))"
proof -
  let ?c = "sentinel l" and ?a = "last (sentinel l # xs)" and ?b = "hd (ys @ [sentinel l])"
  have ring: "ring h ?c (xs @ zs @ ys)" using rep by (simp add: list_nodes_def)
  have pv: "prv h (hd (zs @ ys @ [?c])) = ?a"
    using ring_prev_at [of h ?c xs "zs @ ys"] ring by simp
  obtain h1 where h1: "erase_loop (hd (zs @ ys @ [?c])) ?b (h, l) =
      Some (Inr (h1, l\<lparr>list_size := list_size l - length zs\<rparr>))"
    "nxt h1 = nxt h" "prv h1 = prv h" "live h1 = live h - set zs"
    "\<forall>p. val h1 p = (if p \<in> set zs then None else val h p)"
    using erase_loop_ok [OF assms] by auto
  define h' where "h' = set_prev ?b ?a (set_next ?a ?b h1)"
  have "ring h' ?c (xs @ ys)" using ring_cut(1) [OF ring, of h'] h1(2,3) by (simp add: h'_def)
  moreover have "\<forall>p \<in> set (xs @ ys). val h' p = val h p" "?c \<notin> set zs"
    using ring_distinct [OF ring] h1(5) by (auto simp: h'_def)
  moreover have "map (val h) (xs @ ys) = map Some (vs @ ws)"
    using rep len by (simp add: list_nodes_def)
  then have "map (val h') (xs @ ys) = map Some (vs @ ws)"
    by (rule map_Some_cong) (use calculation(2) in blast)
  ultimately have "list_nodes h' (l\<lparr>list_size := list_size l - length zs\<rparr>) (xs @ ys) (vs @ ws)"
    using rep h1(4,5) ring_distinct [OF ring] by (auto simp: list_nodes_def h'_def)
  moreover have "?a \<in> set (?c # xs @ zs @ ys)" "?b \<in> set (?c # xs @ zs @ ys)" by (auto simp: hd_append)
  then have "untouched h h' (live h - set (?c # xs @ zs @ ys))"
    using h1 by (auto simp: untouched_def h'_def)
  ultimately show ?thesis
    using h1(1,4) pv by (auto simp: erase_range_def h'_def Let_def)
qed

section \<open>Splicing\<close>

lemma splice_links_lheap [simp]:
  "val (splice_links pos first stop h) = val h" "live (splice_links pos first stop h) = live h"
  by (simp_all add: splice_links_def Let_def)

text \<open>Moving a non-empty segment from one ring into another.\<close>

lemma splice_links_rings:
  assumes r: "ring h c (xs @ ys)" and q: "ring h d (us @ zs @ ws)" and "zs \<noteq> []"
    and disj: "set (c # xs @ ys) \<inter> set (d # us @ zs @ ws) = {}"
    and h': "h' = splice_links (hd (ys @ [c])) (hd zs) (hd (ws @ [d])) h"
  shows "ring h' c (xs @ zs @ ys)" and "ring h' d (us @ ws)"
    and "\<forall>p. p \<notin> set (c # xs @ ys) \<union> set (d # us @ zs @ ws) \<longrightarrow> nxt h' p = nxt h p \<and> prv h' p = prv h p"
proof -
  obtain a b e f y z where pts: "last (c # xs) = a" "hd (ys @ [c]) = b" "last (d # us) = e"
    "hd (ws @ [d]) = f" "hd zs = y" "last zs = z" by blast
  have mem: "e \<in> set (d # us @ zs @ ws)" "f \<in> set (d # us @ zs @ ws)"
    "a \<in> set (c # xs @ ys)" "b \<in> set (c # xs @ ys)" "y \<in> set zs" "z \<in> set zs"
    using assms(3) pts by (auto simp: hd_append split: if_splits)
  have prvs: "prv h y = e" "prv h f = z" "prv h b = a"
    using ring_prev_at [of h d us "zs @ ws"] ring_prev_at [of h d "us @ zs" ws] ring_prev_at [OF r]
      q assms(3) pts by (simp_all split: if_splits)
  define h1 where "h1 = set_prev f e (set_next e f h)"
  have cut: "ring h1 d (us @ ws)" "linked h1 zs"
    using ring_cut [OF q, of h1] pts by (simp_all add: h1_def)
  have ne: "p \<noteq> q" if "p \<in> set (c # xs @ ys)" "q \<in> set (d # us @ zs @ ws)" for p q
    using that disj by auto
  have h1_eq: "nxt h1 p = nxt h p \<and> prv h1 p = prv h p" if "p \<noteq> e" "p \<noteq> f" for p
    using that by (simp add: h1_def)
  have r1: "ring h1 c (xs @ ys)"
    using r by (rule ring_frame) (use ne mem(1,2) h1_eq in blast)
  have dz: "distinct zs" "set zs \<inter> set (d # us @ ws) = {}"
    using q by (auto simp: ring_def)
  have h'1: "nxt h' = (nxt h1)(z := b, a := y)" "prv h' = (prv h1)(y := a, b := z)"
    using prvs ne [OF mem(4,2)] pts by (simp_all add: h' splice_links_def h1_def Let_def)
  have h'_eq: "nxt h' p = nxt h1 p \<and> prv h' p = prv h1 p" if "p \<noteq> a" "p \<noteq> b" "p \<noteq> y" "p \<noteq> z" for p
    using that by (simp add: h'1)
  have "set zs \<inter> set (c # xs @ ys) = {}" using disj by auto
  then show "ring h' c (xs @ zs @ ys)"
    by (rule ring_paste [OF r1 cut(2) assms(3) dz(1)]) (simp_all only: h'1 pts)
  have "p \<noteq> a" "p \<noteq> b" "p \<noteq> y" "p \<noteq> z" if "p \<in> set (d # us @ ws)" for p
    using that ne [OF mem(3), of p] ne [OF mem(4), of p] dz(2) mem(5,6) by auto
  then show "ring h' d (us @ ws)"
    by (intro ring_frame [OF cut(1)]) (use h'_eq in blast)
  show "\<forall>p. p \<notin> set (c # xs @ ys) \<union> set (d # us @ zs @ ws) \<longrightarrow> nxt h' p = nxt h p \<and> prv h' p = prv h p"
  proof (intro allI impI)
    fix p assume "p \<notin> set (c # xs @ ys) \<union> set (d # us @ zs @ ws)"
    then have "p \<noteq> a" "p \<noteq> b" "p \<noteq> e" "p \<noteq> f" "p \<noteq> y" "p \<noteq> z" using mem by auto
    then show "nxt h' p = nxt h p \<and> prv h' p = prv h p" using h'_eq h1_eq by simp
  qed
qed

text \<open>Moving one node forward inside its own ring, the step of \<open>sort\<close>.\<close>

lemma splice_links_forward:
  assumes r: "ring h c (xs @ i # ms @ j # ys)"
    and h': "h' = splice_links i j (nxt h j) h"
  shows "ring h' c (xs @ j # i # ms @ ys)"
    and "\<forall>p. p \<notin> set (c # xs @ i # ms @ j # ys) \<longrightarrow> nxt h' p = nxt h p \<and> prv h' p = prv h p"
proof -
  let ?a = "last (c # xs)" and ?e = "last (i # ms)" and ?f = "hd (ys @ [c])"
  have nj: "nxt h j = ?f" "prv h j = ?e"
    using ring_next [of h c "xs @ i # ms" j ys] r by simp_all
  have pf: "prv h ?f = j"
    using ring_prev_at [of h c "xs @ i # ms @ [j]" ys] r by simp
  have pi: "prv h i = ?a" using ring_next(2) [of h c xs i "ms @ j # ys"] r by simp
  define h1 where "h1 = set_prev ?f ?e (set_next ?e ?f h)"
  have r': "ring h c ((xs @ i # ms) @ [j] @ ys)" using r by simp
  have cut: "ring h1 c ((xs @ i # ms) @ ys)"
    by (rule ring_cut(1) [OF r']) (simp_all add: h1_def)
  have d: "distinct (c # xs @ i # ms @ j # ys)" using r by (simp add: ring_def)
  then have ne: "?f \<noteq> i" "?f \<noteq> j" by (cases ys; auto)+
  have h'1: "nxt h' = (nxt h1)(j := i, ?a := j)" "prv h' = (prv h1)(j := ?a, i := j)"
    using nj pf pi ne by (simp_all add: h' splice_links_def h1_def Let_def fun_upd_twist)
  have "ring h' c (xs @ j # (i # ms @ ys))"
    by (rule ring_insert [of h1]) (use cut d h'1 in auto)
  then show "ring h' c (xs @ j # i # ms @ ys)" by simp
  have "?a \<in> set (c # xs @ i # ms @ j # ys)" "?e \<in> set (c # xs @ i # ms @ j # ys)"
    "?f \<in> set (c # xs @ i # ms @ j # ys)" by (auto simp: hd_append)
  then show "\<forall>p. p \<notin> set (c # xs @ i # ms @ j # ys) \<longrightarrow> nxt h' p = nxt h p \<and> prv h' p = prv h p"
    unfolding h'1 h1_def by (auto simp del: last.simps)
qed

section \<open>Sorting\<close>

text \<open>
  The selection pass and the whole sort on lists: \<open>m\<close> is the smallest element so far and \<open>ms\<close> what
  has been passed since.
\<close>

fun select_min :: "('v \<Rightarrow> 'v \<Rightarrow> bool) \<Rightarrow> 'v \<Rightarrow> 'v list \<Rightarrow> 'v list \<Rightarrow> 'v list" where
  "select_min lt m ms [] = m # ms"
| "select_min lt m ms (r # rs) =
     (if lt r m then select_min lt r (m # ms) rs else select_min lt m (ms @ [r]) rs)"

lemma length_select_min [simp]: "length (select_min lt m ms rs) = Suc (length ms + length rs)"
  by (induction rs arbitrary: m ms) auto

lemma select_min_nonempty [simp]: "select_min lt m ms rs \<noteq> []"
  by (metis length_select_min list.size(3) nat.distinct(1))

function sort_spec :: "('v \<Rightarrow> 'v \<Rightarrow> bool) \<Rightarrow> 'v list \<Rightarrow> 'v list" where
  "sort_spec lt [] = []"
| "sort_spec lt (x # xs) =
     hd (select_min lt x [] xs) # sort_spec lt (tl (select_min lt x [] xs))"
  by pat_completeness auto
termination
  by (relation "measure (length \<circ> snd)") auto

lemma set_select_min [simp]: "set (select_min lt m ms rs) = insert m (set ms \<union> set rs)"
  by (induction rs arbitrary: m ms) auto

lemma mset_select_min: "mset (select_min lt m ms rs) = add_mset m (mset ms + mset rs)"
  by (induction rs arbitrary: m ms) auto

lemma map_select_min:
  "map f (select_min (\<lambda>p q. lt (f p) (f q)) m ms rs) = select_min lt (f m) (map f ms) (map f rs)"
  by (induction rs arbitrary: m ms) auto

lemma mset_sort_spec: "mset (sort_spec lt xs) = mset xs"
proof (induction lt xs rule: sort_spec.induct)
  case (2 lt x xs)
  have "add_mset (hd (select_min lt x [] xs)) (mset (tl (select_min lt x [] xs))) =
      mset (select_min lt x [] xs)"
    by (metis list.collapse mset.simps(2) select_min_nonempty)
  with 2 show ?case by (simp add: mset_select_min)
qed simp

lemma map_sort_spec:
  "map f (sort_spec (\<lambda>p q. lt (f p) (f q)) ps) = sort_spec lt (map f ps)"
proof (induction "\<lambda>p q. lt (f p) (f q)" ps rule: sort_spec.induct)
  case (2 p ps)
  obtain m M where sel: "select_min (\<lambda>p q. lt (f p) (f q)) p [] ps = m # M"
    by (cases "select_min (\<lambda>p q. lt (f p) (f q)) p [] ps") auto
  then have "select_min lt (f p) [] (map f ps) = f m # map f M"
    using map_select_min [of f lt p "[]" ps] by simp
  with 2 sel show ?case by simp
qed simp

definition strict_weak :: "('v \<Rightarrow> 'v \<Rightarrow> bool) \<Rightarrow> bool" where
  "strict_weak lt \<longleftrightarrow> (\<forall>x. \<not> lt x x) \<and> (\<forall>x y z. lt x y \<longrightarrow> lt y z \<longrightarrow> lt x z) \<and>
     (\<forall>x y z. \<not> lt x y \<longrightarrow> \<not> lt y z \<longrightarrow> \<not> lt x z)"

definition equivalent :: "('v \<Rightarrow> 'v \<Rightarrow> bool) \<Rightarrow> 'v \<Rightarrow> 'v \<Rightarrow> bool" where
  "equivalent lt k x \<longleftrightarrow> \<not> lt x k \<and> \<not> lt k x"

lemma strict_weakD:
  assumes "strict_weak lt"
  shows "\<not> lt x x" and "lt x y \<Longrightarrow> \<not> lt y x" and "\<not> lt x y \<Longrightarrow> \<not> lt y z \<Longrightarrow> \<not> lt x z"
  using assms unfolding strict_weak_def by blast+

lemma new_minimum:
  assumes "strict_weak lt" and "\<forall>x \<in> set ms. \<not> lt x m" and "lt r m"
  shows "\<forall>x \<in> set (m # ms). lt r x \<and> \<not> lt x r"
proof
  fix x assume "x \<in> set (m # ms)"
  with assms(2) strict_weakD(1) [OF assms(1)] have "\<not> lt x m" by auto
  with strict_weakD(3) [OF assms(1), of r x m] assms(3) have "lt r x" by blast
  with strict_weakD(2) [OF assms(1)] show "lt r x \<and> \<not> lt x r" by blast
qed

lemma select_min_least:
  assumes "strict_weak lt" and "\<forall>x \<in> set ms. \<not> lt x m" and "y \<in> set (select_min lt m ms rs)"
  shows "\<not> lt y (hd (select_min lt m ms rs))"
  using assms(2,3)
proof (induction rs arbitrary: m ms)
  case Nil
  with strict_weakD(1) [OF assms(1), of m] show ?case by auto
next
  case (Cons r rs)
  show ?case
  proof (cases "lt r m")
    case True
    then have "\<forall>x \<in> set (m # ms). \<not> lt x r" using new_minimum [OF assms(1) Cons.prems(1)] by blast
    from Cons.IH [OF this] Cons.prems(2) True show ?thesis by simp
  next
    case False
    with Cons.prems show ?thesis using Cons.IH [of "ms @ [r]" m] by simp
  qed
qed

lemma select_min_stable:
  assumes "strict_weak lt" and "\<forall>x \<in> set ms. \<not> lt x m"
  shows "filter (equivalent lt k) (select_min lt m ms rs) = filter (equivalent lt k) (m # ms @ rs)"
  using assms(2)
proof (induction rs arbitrary: m ms)
  case (Cons r rs)
  show ?case
  proof (cases "lt r m")
    case True
    note new = new_minimum [OF assms(1) Cons.prems True]
    have "\<not> equivalent lt k x" if "equivalent lt k r" "x \<in> set (m # ms)" for x
    proof
      assume "equivalent lt k x"
      with that(1) strict_weakD(3) [OF assms(1), of r k x] have "\<not> lt r x" by (simp add: equivalent_def)
      with new that(2) show False by blast
    qed
    then have "equivalent lt k r \<Longrightarrow> filter (equivalent lt k) (m # ms) = []"
      by (simp add: filter_empty_conv)
    then have "filter (equivalent lt k) (r # m # ms) = filter (equivalent lt k) (m # ms @ [r])"
      by (cases "equivalent lt k r") auto
    moreover have "filter (equivalent lt k) (select_min lt m ms (r # rs)) =
        filter (equivalent lt k) (r # m # ms) @ filter (equivalent lt k) rs"
      using True Cons.IH [of "m # ms" r] new by auto
    ultimately show ?thesis by auto
  next
    case False
    with Cons.prems show ?thesis using Cons.IH [of "ms @ [r]" m] by auto
  qed
qed simp

lemma sort_spec_sorted:
  assumes "strict_weak lt"
  shows "sorted_wrt (\<lambda>x y. \<not> lt y x) (sort_spec lt xs)"
  using assms
proof (induction lt xs rule: sort_spec.induct)
  case (2 lt x xs)
  have "\<not> lt y (hd (select_min lt x [] xs))" if "y \<in> set (tl (select_min lt x [] xs))" for y
    using that select_min_least [OF 2(2), of "[]" x y xs] by (metis empty_iff list.set(1) list.set_sel(2) select_min_nonempty)
  moreover have "set (sort_spec lt (tl (select_min lt x [] xs))) = set (tl (select_min lt x [] xs))"
    by (metis mset_sort_spec set_mset_mset)
  ultimately show ?case using 2 by simp
qed simp

lemma sort_spec_stable:
  assumes "strict_weak lt"
  shows "filter (equivalent lt k) (sort_spec lt xs) = filter (equivalent lt k) xs"
  using assms
proof (induction lt xs rule: sort_spec.induct)
  case (2 lt x xs)
  obtain m M where sel: "select_min lt x [] xs = m # M"
    by (cases "select_min lt x [] xs") auto
  then have "filter (equivalent lt k) (sort_spec lt (x # xs)) = filter (equivalent lt k) (m # M)"
    using 2 by simp
  also have "\<dots> = filter (equivalent lt k) (x # xs)"
    using select_min_stable [OF 2(2), of "[]" x k xs] sel by (simp only: append_Nil empty_iff list.set ball_simps)
  finally show ?case .
qed simp

text \<open>The pointer program computes the specification.\<close>

lemma sort_inner_ok:
  assumes "ring h c (P @ m # M @ R)" and "f = (\<lambda>p. the (val h p))"
  shows "\<exists>h'. sort_inner lt m (hd (R @ [c])) c h = Some (hd (select_min (\<lambda>p q. lt (f p) (f q)) m M R), h') \<and>
    ring h' c (P @ select_min (\<lambda>p q. lt (f p) (f q)) m M R) \<and> val h' = val h \<and> live h' = live h \<and>
    (\<forall>p. p \<notin> set (c # P @ m # M @ R) \<longrightarrow> nxt h' p = nxt h p \<and> prv h' p = prv h p)"
  using assms
proof (induction R arbitrary: m M h)
  case Nil
  then show ?case by (simp add: sort_inner.simps)
next
  case (Cons r R)
  have ne: "r \<noteq> c" using ring_distinct [OF Cons.prems(1)] by auto
  have nx: "nxt h r = hd (R @ [c])"
    using ring_next(1) [of h c "P @ m # M" r R] Cons.prems(1) by simp
  show ?case
  proof (cases "lt (f r) (f m)")
    case True
    let ?h = "splice_links m r (hd (R @ [c])) h"
    have fwd: "ring ?h c (P @ r # (m # M) @ R)"
      "\<forall>p. p \<notin> set (c # P @ m # M @ r # R) \<longrightarrow> nxt ?h p = nxt h p \<and> prv ?h p = prv h p"
      using splice_links_forward [OF Cons.prems(1), of ?h] nx by auto
    have "f = (\<lambda>p. the (val ?h p))" using Cons.prems(2) by simp
    from Cons.IH [OF fwd(1) this] True ne nx Cons.prems(2) fwd(2) show ?thesis
      by (subst sort_inner.simps) auto
  next
    case False
    have "ring h c (P @ m # (M @ [r]) @ R)" using Cons.prems(1) by simp
    from Cons.IH [OF this Cons.prems(2)] False ne nx Cons.prems(2) show ?thesis
      by (subst sort_inner.simps) auto
  qed
qed

lemma sort_outer_ok:
  assumes "ring h c (P @ Q)" and "f = (\<lambda>p. the (val h p))"
  shows "\<exists>h'. sort_outer lt (hd (Q @ [c])) c h = Some h' \<and>
    ring h' c (P @ sort_spec (\<lambda>p q. lt (f p) (f q)) Q) \<and> val h' = val h \<and> live h' = live h \<and>
    (\<forall>p. p \<notin> set (c # P @ Q) \<longrightarrow> nxt h' p = nxt h p \<and> prv h' p = prv h p)"
  using assms
proof (induction "\<lambda>p q. lt (f p) (f q)" Q arbitrary: P h rule: sort_spec.induct)
  case 1
  then show ?case by (simp add: sort_outer.simps)
next
  case (2 q Q)
  let ?lt = "\<lambda>p q. lt (f p) (f q)"
  let ?m = "hd (select_min ?lt q [] Q)" and ?M = "tl (select_min ?lt q [] Q)"
  have sel: "select_min ?lt q [] Q = ?m # ?M" by simp
  have ne: "q \<noteq> c" using ring_distinct [OF 2(2)] by auto
  have nx: "nxt h q = hd (Q @ [c])" using ring_next(1) [OF 2(2)] .
  have "ring h c (P @ q # [] @ Q)" using 2(2) by simp
  from sort_inner_ok [OF this 2(3), of lt] obtain h1 where h1:
    "sort_inner lt q (hd (Q @ [c])) c h = Some (?m, h1)" "ring h1 c (P @ ?m # ?M)"
    "val h1 = val h" "live h1 = live h"
    "\<forall>p. p \<notin> set (c # P @ q # Q) \<longrightarrow> nxt h1 p = nxt h p \<and> prv h1 p = prv h p"
    by auto
  have nx1: "nxt h1 ?m = hd (?M @ [c])" using ring_next(1) [OF h1(2)] .
  have "ring h1 c ((P @ [?m]) @ ?M)" "f = (\<lambda>p. the (val h1 p))" using h1(2,3) 2(3) by simp_all
  from 2(1) [OF this] obtain h' where h':
    "sort_outer lt (hd (?M @ [c])) c h1 = Some h'" "ring h' c (P @ ?m # sort_spec ?lt ?M)"
    "val h' = val h1" "live h' = live h1"
    "\<forall>p. p \<notin> set (c # P @ ?m # ?M) \<longrightarrow> nxt h' p = nxt h1 p \<and> prv h' p = prv h1 p"
    by auto
  have "set (?m # ?M) = set (q # Q)" by (metis sel set_select_min list.set(1,2) sup_bot.left_neutral)
  then have "\<forall>p. p \<notin> set (c # P @ q # Q) \<longrightarrow> nxt h' p = nxt h p \<and> prv h' p = prv h p"
    using h1(5) h'(5) by auto
  with h' h1 ne nx nx1 show ?case by (subst sort_outer.simps) auto
qed

section \<open>Swapping\<close>

lemma list_node_swap_rings:
  assumes r: "ring h c (x # xs)" and q: "ring h d (y # ys)"
    and disj: "set (c # x # xs) \<inter> set (d # y # ys) = {}"
    and h': "h' = list_node_swap c d h"
  shows "ring h' c (y # ys)" and "ring h' d (x # xs)"
proof -
  have e: "nxt h c = x" "prv h c = last (x # xs)" "nxt h d = y" "prv h d = last (y # ys)"
    using ring_ends [OF r] ring_ends [OF q] by simp_all
  obtain a b where ends: "last (x # xs) = a" "last (y # ys) = b" by blast
  have in_rings: "a \<in> set (x # xs)" "b \<in> set (y # ys)" using ends by (metis last_in_set list.distinct(1))+
  have ne: "c \<noteq> d" "c \<noteq> a" "c \<noteq> b" "c \<noteq> x" "c \<noteq> y" "d \<noteq> a" "d \<noteq> b" "d \<noteq> x" "d \<noteq> y" "a \<noteq> b" "x \<noteq> y"
    using in_rings disj ring_distinct [OF r] ring_distinct [OF q] by (auto 4 3)
  have n': "nxt h' = (nxt h)(c := y, a := d, b := c, d := x)"
    and p': "prv h' = (prv h)(c := b, x := d, y := c, d := a)"
    using e ends ne by (auto simp: h' list_node_swap_def Let_def)
  have seg: "linked h' (z # zs)"
    if z: "ring h e (z # zs)" "e = c \<or> e = d" "z = x \<or> z = y" "last (z # zs) = a \<or> last (z # zs) = b"
      and sub: "set (z # zs) \<inter> {c, d} = {}" and
      own: "x \<notin> set zs" "y \<notin> set zs" "a \<notin> set (butlast (z # zs))" "b \<notin> set (butlast (z # zs))" for e z zs
  proof -
    have "linked h (z # zs)" using z(1) linked_sub [of h "[e]" "z # zs" "[e]"] by (simp add: ring_def)
    moreover have "linked h' (z # zs) = linked h (z # zs)"
    proof (intro linked_cong ballI)
      show "nxt h' p = nxt h p" if "p \<in> set (butlast (z # zs))" for p
        using that own sub in_set_butlastD [OF that] by (auto simp: n')
      show "prv h' p = prv h p" if "p \<in> set (tl (z # zs))" for p
        using that own sub by (auto simp: p')
    qed
    ultimately show ?thesis by simp
  qed
  have dx: "distinct (x # xs)" and dy: "distinct (y # ys)"
    using ring_distinct [OF r] ring_distinct [OF q] by simp_all
  have butl: "a \<notin> set (butlast (x # xs))" "b \<notin> set (butlast (y # ys))"
    using dx dy ends by (metis append_butlast_last_id distinct_append disjoint_insert(1) list.distinct(1) list.set(2))+
  have "a \<notin> set (butlast (y # ys))" "b \<notin> set (butlast (x # xs))"
    using in_rings disj by (auto dest: in_set_butlastD)
  with butl have lx: "linked h' (x # xs)" and ly: "linked h' (y # ys)"
    using seg [OF r] seg [OF q] disj dx dy ends ring_distinct [OF r] ring_distinct [OF q] by auto
  with n' p' ne ends disj dx dy show "ring h' c (y # ys)" "ring h' d (x # xs)"
    by (auto simp: ring_Cons simp del: last.simps)
qed

section \<open>Appending at the back\<close>

lemma list_push_back_cases:
  assumes "fresh_alloc E" and "list_rep h l vs"
  shows "\<exists>r h' l'. list_push_back E v (h, l) = (r, h', l') \<and>
    (case r of Inr _ \<Rightarrow> list_rep h' l' (vs @ [v]) | Inl e \<Rightarrow> throwable e \<and> list_rep h' l' vs)"
proof -
  obtain ps where ps: "list_nodes h l (ps @ []) (vs @ [])" using assms(2) by (auto simp: list_rep_def)
  then have len: "length ps = length vs" using list_nodes_length by fastforce
  have pos: "sentinel l = hd ([] @ [sentinel l])" by simp
  from assms(1) ps len pos show ?thesis
    by (cases rule: emplace_cases [consumes 4, case_names failed inserted, of _ _ _ _ _ _ _ _ v])
      (use ps in \<open>auto simp: list_push_back_def emplace_back_def end_of_def list_rep_def throwable_def\<close>)
qed

definition list_state :: "'p env \<Rightarrow> ('p, 'v) lstate \<Rightarrow> 'v list \<Rightarrow> bool" where
  "list_state E s vs \<longleftrightarrow> fresh_alloc E \<and> list_rep (fst s) (snd s) vs"

interpretation list_back: back_inserter
  "list_state E :: ('p, 'v) lstate \<Rightarrow> 'v list \<Rightarrow> bool" "list_push_back E" throwable
  for E :: "'p env"
proof unfold_locales
  fix s s' :: "('p, 'v) lstate" and vs v u e
  assume inv: "list_state E s vs"
  obtain h l where s: "s = (h, l)" by (cases s)
  note cases = list_push_back_cases [of E h l vs v]
  show "list_state E s' (vs @ [v])" if "list_push_back E v s = (Inr u, s')"
    using cases inv s that by (auto simp: list_state_def)
  show "list_state E s' vs \<and> throwable e" if "list_push_back E v s = (Inl e, s')"
    using cases inv s that by (auto simp: list_state_def)
qed

section \<open>Resizing and copying\<close>

lemma pop_back_loop_ok:
  assumes "list_rep h l vs" and "n \<le> length vs"
  shows "\<exists>h' l'. pop_back_loop n (h, l) = Inr (h', l') \<and> list_rep h' l' (take (length vs - n) vs)"
  using assms
proof (induction n arbitrary: h l vs)
  case (Suc n)
  obtain us v where vs: "vs = us @ [v]" using Suc.prems(2) by (cases vs rule: rev_cases) auto
  obtain ps where ps: "list_nodes h l ps (us @ [v])" using Suc.prems(1) vs by (auto simp: list_rep_def)
  then have "length ps = Suc (length us)" using list_nodes_length by fastforce
  then obtain qs q where q: "ps = qs @ [q]" "length qs = length us" by (cases ps rule: rev_cases) auto
  obtain h1 where h1: "erase_node q (h, l) = Inr (sentinel l, h1, l\<lparr>list_size := list_size l - 1\<rparr>)"
    "list_nodes h1 (l\<lparr>list_size := list_size l - 1\<rparr>) qs us"
    using erase_node_ok [of h l qs q "[]" us v "[]"] ps q by auto
  have "ring h (sentinel l) (qs @ [q])" using ps q by (simp add: list_nodes_def)
  then have "prv h (sentinel l) = q" using ring_ends(2) by fastforce
  with h1 have "list_pop_back (h, l) = Inr (h1, l\<lparr>list_size := list_size l - 1\<rparr>)"
    by (simp add: list_pop_back_def end_of_def)
  moreover have "list_rep h1 (l\<lparr>list_size := list_size l - 1\<rparr>) us" using h1(2) by (auto simp: list_rep_def)
  ultimately show ?case using Suc.IH [of h1 _ us] Suc.prems(2) vs by auto
qed auto

lemma list_rep_size: "list_rep h l vs \<Longrightarrow> list_size l = length vs"
  by (auto simp: list_rep_def list_nodes_def dest: list_nodes_length) (metis length_map)

lemma new_list_rep:
  assumes "c \<notin> live h"
  shows "list_nodes (fst (new_list c a h)) (snd (new_list c a h)) [] []"
    and "untouched h (fst (new_list c a h)) (live h)"
    and "sentinel (snd (new_list c a h)) = c"
  using assms by (auto simp: new_list_def list_nodes_def ring_Nil untouched_def)

lemma range_values_all:
  assumes "list_nodes h l ps vs"
  shows "range_values h (begin_of h l) (end_of l) = Some (map Some vs)" "walk h (begin_of h l) (end_of l) = Some ps"
  using assms walk_all [of h "sentinel l" ps]
  by (simp_all add: list_nodes_def range_values_def begin_of_def end_of_def)

lemma assign_values_links [simp]:
  "nxt (assign_values ps vs h) = nxt h" "prv (assign_values ps vs h) = prv h"
  "live (assign_values ps vs h) = live h"
  by (induction ps vs h rule: assign_values.induct) auto

lemma assign_values_other:
  "p \<notin> set (take (length vs) ps) \<Longrightarrow> val (assign_values ps vs h) p = val h p"
  by (induction ps vs h rule: assign_values.induct) auto

lemma assign_values_map:
  "distinct ps \<Longrightarrow> map (val (assign_values ps vs h)) (take (length vs) ps) = take (length ps) vs"
proof (induction ps vs h rule: assign_values.induct)
  case (1 p ps v vs h)
  have "p \<notin> set (take (length vs) ps)" using 1 by (auto dest: in_set_takeD)
  from assign_values_other [OF this] 1 show ?case by simp
qed auto

lemma assign_values_nodes:
  assumes "list_nodes h l ps us"
  shows "list_nodes (assign_values ps (map Some vs) h) l ps (take (length ps) vs @ drop (length vs) us)"
proof -
  let ?h = "assign_values ps (map Some vs) h"
  have ring: "ring h (sentinel l) ps" using assms by (simp add: list_nodes_def)
  have len: "length ps = length us" by (rule list_nodes_length [OF assms])
  have d: "distinct ps" "sentinel l \<notin> set ps" using ring_distinct [OF ring] by auto
  have "map (val ?h) (drop (length vs) ps) = map (val h) (drop (length vs) ps)"
    using d(1) set_take_disj_set_drop_if_distinct [of ps "length vs" "length vs"]
    by (intro map_cong) (auto intro!: assign_values_other)
  then have "map (val ?h) (drop (length vs) ps) = map Some (drop (length vs) us)"
    using assms by (simp add: list_nodes_def drop_map flip: drop_map)
  moreover have "map (val ?h) (take (length vs) ps) = map Some (take (length ps) vs)"
    using assign_values_map [OF d(1), of "map Some vs" h] by (simp add: take_map)
  moreover have "map (val ?h) ps = map (val ?h) (take (length vs) ps) @ map (val ?h) (drop (length vs) ps)"
    by (metis append_take_drop_id map_append)
  moreover have "val ?h (sentinel l) = None"
    using d(2) assms by (subst assign_values_other) (auto simp: list_nodes_def dest: in_set_takeD)
  ultimately show ?thesis
    using assms ring_ext [of ?h h] by (auto simp: list_nodes_def)
qed

end
