(* ===== verification/List_Properties.thy ===== *)
theory List_Properties
  imports Gpcl_List
begin

text \<open>
  The properties of \<open>gpcl::list\<close>, stated on the sequence of values a list holds; positions are
  counted from the front, position \<open>length ps\<close> being \<open>end()\<close>.
\<close>

section \<open>Positions\<close>

abbreviation position :: "'p glist \<Rightarrow> 'p list \<Rightarrow> nat \<Rightarrow> 'p" where
  "position l ps k \<equiv> (ps @ [sentinel l]) ! k"

lemma position_hd: "k \<le> length ps \<Longrightarrow> position l ps k = hd (drop k ps @ [sentinel l])"
  by (cases "k = length ps") (auto simp: nth_append hd_append hd_drop_conv_nth)

lemma list_nodes_split:
  assumes "list_nodes h l ps vs"
  shows "list_nodes h l (take k ps @ drop k ps) (take k vs @ drop k vs)"
    and "length (take k ps) = length (take k vs)"
  using assms list_nodes_length [OF assms] by simp_all

lemma list_nodes_split3:
  assumes "list_nodes h l ps vs" and "i \<le> j"
  shows "list_nodes h l (take i ps @ drop i (take j ps) @ drop j ps) (take i vs @ drop i (take j vs) @ drop j vs)"
    and "length (take i ps) = length (take i vs)" and "length (drop i (take j ps)) = length (drop i (take j vs))"
proof -
  have split: "take i xs @ drop i (take j xs) @ drop j xs = xs" for xs :: "'z list"
    using assms(2) append_take_drop_id [of j xs] append_take_drop_id [of i "take j xs"]
    by (metis append_assoc min_absorb1 take_take)
  show "list_nodes h l (take i ps @ drop i (take j ps) @ drop j ps) (take i vs @ drop i (take j vs) @ drop j vs)"
    using assms(1) by (simp only: split)
  show "length (take i ps) = length (take i vs)" "length (drop i (take j ps)) = length (drop i (take j vs))"
    using list_nodes_length [OF assms(1)] by simp_all
qed

definition fresh_env :: "nat env" where
  "fresh_env = \<lparr>allocate = (\<lambda>t L. if t \<in> L then None else Some t), constructs = (\<lambda>t. True)\<rparr>"

lemma fresh_env [simp]: "fresh_alloc fresh_env"
  by (auto simp: fresh_alloc_def fresh_env_def)

text \<open>A small heap with one list of two elements at nodes 3 and 4, and an empty list at 10.\<close>

definition small_heap :: "(nat, nat) lheap" where
  "small_heap = \<lparr>prv = id(0 := 4, 3 := 0, 4 := 3), nxt = id(0 := 3, 3 := 4, 4 := 0),
     val = [3 \<mapsto> 7, 4 \<mapsto> 5], live = {0, 3, 4, 10}, clock = 20\<rparr>"

definition small_list :: "nat glist" where
  "small_list = \<lparr>sentinel = 0, list_size = 2, alloc_id = 0\<rparr>"

definition empty_list :: "nat glist" where
  "empty_list = \<lparr>sentinel = 10, list_size = 0, alloc_id = 0\<rparr>"

lemma small_list [simp]: "list_nodes small_heap small_list [3, 4] [7, 5]"
  by (auto simp: list_nodes_def ring_def small_heap_def small_list_def)

lemma empty_list [simp]: "list_nodes small_heap empty_list [] []"
  by (auto simp: list_nodes_def ring_def small_heap_def empty_list_def)

section \<open>Insertion, removal, resizing\<close>

text \<open>
  C12. \<open>insert(pos, first, last)\<close> gives the strong exception guarantee: it either inserts the whole
  range, in order, in front of any position, or, if an allocation or an element constructor throws
  at any point, passes that exception on with the list holding exactly its old elements.
\<close>

theorem list_insert_strong:
  assumes "fresh_alloc E" and "list_nodes h l ps vs" and "k \<le> length ps"
  shows "case insert_range E (position l ps k) us (h, l) of
      (Inr p, h', l') \<Rightarrow> list_rep h' l' (take k vs @ us @ drop k vs)
    | (Inl e, h', l') \<Rightarrow> throwable e \<and> list_rep h' l' vs"
proof -
  have nodes: "list_nodes h l (take k ps @ [] @ drop k ps) (take k vs @ [] @ drop k vs)"
    using list_nodes_split(1) [OF assms(2)] by simp
  have len: "length (take k ps) = length (take k vs)" by (rule list_nodes_split(2) [OF assms(2)])
  have pos: "position l ps k = hd ([] @ drop k ps @ [sentinel l])" using position_hd [OF assms(3)] by simp
  from insert_loop_cases [OF assms(1) nodes len _ pos, of "{}" "rev us"] obtain r h' l' where
    "insert_range E (position l ps k) us (h, l) = (r, h', l')"
    "case r of
       Inr q \<Rightarrow> \<exists>ns. list_nodes h' l' (take k ps @ ns @ drop k ps) (take k vs @ us @ drop k vs)
     | Inl e \<Rightarrow> throwable e \<and> list_nodes h' l' ps vs"
    by (fastforce simp: insert_range_def throwable_def split: sum.splits)
  then show ?thesis by (auto simp: list_rep_def split: sum.splits)
qed

theorem list_insert_strong_witness:
  "case insert_range fresh_env 4 [6, 8, 9] (small_heap, small_list) of
      (Inr p, h', l') \<Rightarrow> list_rep h' l' [7, 6, 8, 9, 5]
    | (Inl e, h', l') \<Rightarrow> throwable e \<and> list_rep h' l' [7, 5]"
  using list_insert_strong [of fresh_env small_heap small_list "[3, 4]" "[7, 5]" 1 "[6, 8, 9]"]
  by (simp split: prod.splits sum.splits)

text \<open>
  \<open>erase(first, last)\<close> terminates for every range of a list, removes exactly the elements of
  the range, releases exactly their nodes and returns the position behind them; no node is
  destroyed twice and no node without a value is destroyed.
\<close>

lemma list_erase_range:
  assumes "list_nodes h l ps vs" and "i \<le> j" and "j \<le> length ps"
  shows "\<exists>h' l'. erase_range (position l ps i) (position l ps j) (h, l) =
      Some (Inr (position l ps j, h', l')) \<and>
    list_rep h' l' (take i vs @ drop j vs) \<and> live h' = live h - set (drop i (take j ps))"
proof -
  have "drop i ps = drop i (take j ps) @ drop j ps"
    using assms(2,3) drop_append [of i "take j ps" "drop j ps"] by simp
  then have "position l ps i = hd (drop i (take j ps) @ drop j ps @ [sentinel l])"
    using position_hd [of i ps l] assms(2,3) by simp
  moreover have "position l ps j = hd (drop j ps @ [sentinel l])" by (rule position_hd [OF assms(3)])
  ultimately show ?thesis
    using erase_range_ok [OF list_nodes_split3 [OF assms(1,2)]] by (auto simp: list_rep_def)
qed

text \<open>
  \<open>resize(count)\<close> from any list: on success the list has \<open>count\<close> elements, the old ones cut
  off or followed by default-constructed ones, and the final assertion holds; when an append throws,
  the list still holds all old elements with some default-constructed ones behind them.
\<close>

lemma list_resize:
  assumes "fresh_alloc E" and "list_rep h l vs"
  shows "case resize_default E d n (h, l) of
      (Inr _, h', l') \<Rightarrow> list_rep h' l' (take n vs @ replicate (n - length vs) d)
    | (Inl e, h', l') \<Rightarrow> throwable e \<and> (\<exists>k < n - length vs. list_rep h' l' (vs @ replicate k d))"
proof (cases "length vs < n")
  case True
  have inv: "list_state E (h, l) vs" using assms by (simp add: list_state_def)
  have size: "list_size l = length vs" by (rule list_rep_size [OF assms(2)])
  obtain r h' l' where run: "push_all (list_push_back E) (replicate (n - length vs) d) (h, l) = (r, h', l')"
    by (metis prod.exhaust)
  show ?thesis
  proof (cases r)
    case (Inl e)
    with run list_back.push_all_fails [OF inv, of "replicate (n - length vs) d" e "(h', l')"] True size
    show ?thesis by (auto simp: resize_default_def list_state_def)
  next
    case (Inr u)
    with run list_back.push_all_ok [OF inv, of "replicate (n - length vs) d" u "(h', l')"]
    have "list_rep h' l' (vs @ replicate (n - length vs) d)" by (simp add: list_state_def)
    with run Inr True size list_rep_size [OF this] show ?thesis
      by (simp add: resize_default_def)
  qed
next
  case False
  have size: "list_size l = length vs" by (rule list_rep_size [OF assms(2)])
  obtain h' l' where pops: "pop_back_loop (length vs - n) (h, l) = Inr (h', l')" "list_rep h' l' (take n vs)"
    using pop_back_loop_ok [OF assms(2), of "length vs - n"] False by auto
  with False size list_rep_size [OF pops(2)] show ?thesis by (simp add: resize_default_def)
qed

section \<open>Sorting\<close>

text \<open>
  C23. \<open>sort()\<close> terminates on every list and leaves it sorted, with the same elements, elements
  equivalent under \<open>operator<\<close> in their old order, whenever \<open>operator<\<close> is a strict weak ordering;
  it only relinks nodes: no value is copied and no node is allocated or released.
\<close>

theorem list_sort_correct:
  assumes "list_rep h l vs" and "strict_weak lt"
  shows "\<exists>h' us. sort_list lt (h, l) = Some (h', l) \<and> list_rep h' l us \<and> mset us = mset vs \<and>
    sorted_wrt (\<lambda>x y. \<not> lt y x) us \<and>
    (\<forall>k. filter (equivalent lt k) us = filter (equivalent lt k) vs) \<and>
    val h' = val h \<and> live h' = live h"
proof -
  obtain ps where ps: "list_nodes h l ps vs" using assms(1) by (auto simp: list_rep_def)
  let ?f = "\<lambda>p. the (val h p)" and ?c = "sentinel l"
  let ?qs = "sort_spec (\<lambda>p q. lt (?f p) (?f q)) ps"
  have ring: "ring h ?c ([] @ ps)" using ps by (simp add: list_nodes_def)
  obtain h' where h': "sort_outer lt (hd (ps @ [?c])) ?c h = Some h'" "ring h' ?c ?qs"
    "val h' = val h" "live h' = live h"
    using sort_outer_ok [OF ring refl, of lt] by auto
  have "map the (map (val h) ps) = map the (map Some vs)" using ps by (simp only: list_nodes_def)
  then have f: "map ?f ps = vs" by (simp add: comp_def)
  have map_f: "map ?f ?qs = sort_spec lt vs" using map_sort_spec [of ?f lt ps] f by simp
  have set_qs: "set ?qs = set ps" by (metis mset_sort_spec set_mset_mset)
  have "map (val h) ?qs = map Some (sort_spec lt vs)"
  proof -
    have "val h p = Some (?f p)" if "p \<in> set ?qs" for p
      using that set_qs ps map_Some_val [of "val h" ps vs p] by (auto simp: list_nodes_def)
    then have "map (val h) ?qs = map Some (map ?f ?qs)" by (simp add: comp_def)
    with map_f show ?thesis by simp
  qed
  moreover have "length ?qs = length ps" by (metis mset_sort_spec size_mset)
  ultimately have "list_nodes h' l ?qs (sort_spec lt vs)"
    using ps h'(2-4) set_qs by (auto simp: list_nodes_def)
  moreover have "begin_of h l = hd (ps @ [?c])"
    using ring_ends(1) [of h ?c ps] ring by (simp add: begin_of_def)
  ultimately show ?thesis
    using h' sort_spec_sorted [OF assms(2)] sort_spec_stable [OF assms(2)] mset_sort_spec
    by (intro exI [of _ h'] exI [of _ "sort_spec lt vs"]) (auto simp: sort_list_def end_of_def list_rep_def)
qed

theorem list_sort_correct_witness:
  "\<exists>h' us. sort_list (<) (small_heap, small_list) = Some (h', small_list) \<and> list_rep h' small_list us \<and>
     mset us = {#7, 5#} \<and> sorted_wrt (\<lambda>x y. \<not> y < x) us \<and>
     (\<forall>k. filter (equivalent (<) k) us = filter (equivalent (<) k) [7, 5]) \<and>
     val h' = val small_heap \<and> live h' = live small_heap"
proof -
  have "list_rep small_heap small_list [7, 5]" unfolding list_rep_def by (rule exI, rule small_list)
  from list_sort_correct [OF this, of "(<)"] show ?thesis by (auto simp: strict_weak_def)
qed

section \<open>Moving nodes between lists\<close>

definition separate :: "'p glist \<Rightarrow> 'p list \<Rightarrow> 'p glist \<Rightarrow> 'p list \<Rightarrow> bool" where
  "separate l ps m qs \<longleftrightarrow> set (sentinel l # ps) \<inter> set (sentinel m # qs) = {}"

lemma splice_nodes:
  assumes l: "list_nodes h l (xs @ ys) (us @ ws)" "length xs = length us"
    and m: "list_nodes h m (as @ zs @ bs) (as' @ zs' @ bs')" "length as = length as'" "length zs = length zs'"
    and "zs \<noteq> []" "separate l (xs @ ys) m (as @ zs @ bs)" "alloc_id l = alloc_id m"
  shows "\<exists>h' l' m'. splice (hd (ys @ [sentinel l])) (hd zs) (hd (bs @ [sentinel m])) (h, l, m) =
      Some (Inr (h', l', m')) \<and>
    list_nodes h' l' (xs @ zs @ ys) (us @ zs' @ ws) \<and> list_nodes h' m' (as @ bs) (as' @ bs') \<and>
    val h' = val h \<and> live h' = live h \<and> sentinel l' = sentinel l \<and> sentinel m' = sentinel m"
proof -
  let ?h = "splice_links (hd (ys @ [sentinel l])) (hd zs) (hd (bs @ [sentinel m])) h"
  let ?l = "l\<lparr>list_size := list_size l + length zs\<rparr>" and ?m = "m\<lparr>list_size := list_size m - length zs\<rparr>"
  have rl: "ring h (sentinel l) (xs @ ys)" and rm: "ring h (sentinel m) (as @ zs @ bs)"
    using l(1) m(1) by (simp_all add: list_nodes_def)
  note rings = splice_links_rings [OF rl rm assms(6) assms(7) [unfolded separate_def] refl]
  have "walk h (hd (zs @ bs @ [sentinel m])) (hd (bs @ [sentinel m])) = Some zs" by (rule walk_ring [OF rm])
  then have "walk h (hd zs) (hd (bs @ [sentinel m])) = Some zs" using assms(6) by simp
  moreover have "sentinel l \<noteq> sentinel m" using assms(7) by (auto simp: separate_def)
  ultimately have "splice (hd (ys @ [sentinel l])) (hd zs) (hd (bs @ [sentinel m])) (h, l, m) =
      Some (Inr (?h, ?l, ?m))"
    using assms(8) by (simp add: splice_def)
  moreover have "list_nodes ?h ?l (xs @ zs @ ys) (us @ zs' @ ws)" "list_nodes ?h ?m (as @ bs) (as' @ bs')"
    using rings(1,2) l m by (auto simp: list_nodes_def)
  ultimately show ?thesis by simp
qed

text \<open>
  \<open>splice(pos, other, first, last)\<close> of a non-empty range of another list with an equal
  allocator: the range disappears from the other list and appears, in order, in front of the
  position; both sizes are adjusted and no value is copied.
\<close>

lemma list_splice_range:
  assumes "list_nodes h l ps us" and "list_nodes h m qs vs" and "separate l ps m qs"
    and "alloc_id l = alloc_id m" and "k \<le> length ps" and "i < j" and "j \<le> length qs"
  shows "\<exists>h' l' m'. splice (position l ps k) (position m qs i) (position m qs j) (h, l, m) =
      Some (Inr (h', l', m')) \<and>
    list_rep h' l' (take k us @ drop i (take j vs) @ drop k us) \<and>
    list_rep h' m' (take i vs @ drop j vs) \<and> val h' = val h \<and> live h' = live h"
proof -
  have ij: "i \<le> j" using assms(6) by simp
  have ne: "drop i (take j qs) \<noteq> []" using assms(6,7) by simp
  have "drop i qs = drop i (take j qs) @ drop j qs"
    using assms(6,7) drop_append [of i "take j qs" "drop j qs"] by simp
  then have pi: "position m qs i = hd (drop i (take j qs))"
    using position_hd [of i qs m] assms(6,7) ne by simp
  have sep: "separate l (take k ps @ drop k ps) m (take i qs @ drop i (take j qs) @ drop j qs)"
    using assms(3) by (auto simp: separate_def dest: in_set_takeD in_set_dropD)
  show ?thesis
    using splice_nodes [OF list_nodes_split [OF assms(1)] list_nodes_split3 [OF assms(2) ij] ne sep assms(4)]
      pi position_hd [OF assms(5), of l] position_hd [OF assms(7), of m]
    by (auto simp: list_rep_def)
qed

text \<open>
  Moving a list that has elements transfers all of them and leaves the source empty.
\<close>

lemma list_move_nonempty:
  assumes "list_rep h m vs" and "vs \<noteq> []" and "c \<notin> live h"
  shows "\<exists>h' l' m'. move_list c (h, m) = Some (Inr (h', l', m')) \<and> list_rep h' l' vs \<and> list_rep h' m' []"
proof -
  obtain qs where qs: "list_nodes h m qs vs" using assms(1) by (auto simp: list_rep_def)
  obtain h1 l where new: "new_list c (alloc_id m) h = (h1, l)" by (cases "new_list c (alloc_id m) h")
  note new_rep = new_list_rep [OF assms(3), of "alloc_id m", unfolded new fst_conv snd_conv]
  have live: "set (sentinel m # qs) \<subseteq> live h" using qs by (simp add: list_nodes_def)
  have m1: "list_nodes h1 m qs vs" by (rule list_nodes_untouched [OF qs new_rep(2) live])
  have "qs \<noteq> []" using assms(2) list_nodes_length [OF qs] by auto
  moreover have "separate l [] m qs" using live assms(3) new_rep(3) by (auto simp: separate_def)
  moreover have "alloc_id l = alloc_id m" using new by (auto simp: new_list_def)
  ultimately obtain h' l' m' where "splice (sentinel l) (hd qs) (sentinel m) (h1, l, m) = Some (Inr (h', l', m'))"
    "list_nodes h' l' qs vs" "list_nodes h' m' [] []"
    using splice_nodes [of h1 l "[]" "[]" "[]" "[]" m "[]" qs "[]" "[]" vs "[]"] new_rep(1) m1 list_nodes_length [OF qs]
    by auto
  moreover have "begin_of h1 m = hd qs"
    using m1 ring_ends(1) [of h1 "sentinel m" qs] \<open>qs \<noteq> []\<close> by (simp add: list_nodes_def begin_of_def)
  ultimately show ?thesis
    using new by (auto simp: move_list_def splice_all_def end_of_def list_rep_def)
qed

text \<open>
  Moving an empty list does not give an empty list: the range to splice is empty, the pointer
  assignments link the sentinel of the source into the new list, and the new list, of size zero,
  then has the source's sentinel as its first node, so \<open>empty()\<close> is false and \<open>begin()\<close> points to a
  node without a value.
\<close>

lemma list_move_empty_corrupt:
  assumes "list_rep h m []" and "c \<notin> live h"
  shows "\<exists>h' l' m'. move_list c (h, m) = Some (Inr (h', l', m')) \<and> list_size l' = 0 \<and>
    \<not> list_empty h' l' \<and> begin_of h' l' = sentinel m \<and> list_front h' l' = None"
proof -
  have m: "nxt h (sentinel m) = sentinel m" "prv h (sentinel m) = sentinel m" "sentinel m \<in> live h"
    "val h (sentinel m) = None"
    using assms(1) by (auto simp: list_rep_def list_nodes_def ring_Nil)
  then have ne: "c \<noteq> sentinel m" using assms(2) by auto
  show ?thesis
    using m ne
    by (simp add: move_list_def new_list_def splice_all_def splice_def begin_of_def end_of_def walk.simps
        splice_links_def Let_def list_empty_def list_front_def)
qed

text \<open>
  \<open>swap\<close> of two lists that both have elements exchanges their contents by relinking the two
  sentinels; the sizes follow.
\<close>

lemma list_swap_nonempty:
  assumes "list_nodes h l ps us" and "list_nodes h m qs vs" and "separate l ps m qs"
    and "alloc_id l = alloc_id m" and "us \<noteq> []" and "vs \<noteq> []"
  shows "\<exists>h' l' m'. swap_list (h, l, m) = Inr (h', l', m') \<and> sentinel l' = sentinel l \<and>
    sentinel m' = sentinel m \<and> list_rep h' l' vs \<and> list_rep h' m' us"
proof -
  obtain x xs y ys where ne: "ps = x # xs" "qs = y # ys"
    using assms(5,6) list_nodes_length [OF assms(1)] list_nodes_length [OF assms(2)]
    by (cases ps; cases qs) auto
  let ?h = "list_node_swap (sentinel l) (sentinel m) h"
  have keep: "val ?h = val h" "live ?h = live h" by (auto simp: list_node_swap_def Let_def)
  have "ring ?h (sentinel l) qs" "ring ?h (sentinel m) ps"
    using list_node_swap_rings [of h "sentinel l" x xs "sentinel m" y ys ?h] assms(1,2,3) ne
    by (simp_all add: list_nodes_def separate_def)
  with assms(1,2,4) keep show ?thesis
    by (auto simp: swap_list_def list_nodes_def list_rep_def)
qed

section \<open>Copying\<close>

text \<open>Appending a range at the end, with a second list in the same heap left alone.\<close>

lemma append_range:
  assumes "fresh_alloc E" and l: "list_nodes h l ps us" and m: "list_nodes h m qs vs" and "separate l ps m qs"
  shows "case insert_range E (sentinel l) ws (h, l) of
      (Inr p, h', l') \<Rightarrow> list_rep h' l' (us @ ws) \<and> list_nodes h' m qs vs
    | (Inl e, h', l') \<Rightarrow> throwable e \<and> list_rep h' l' us \<and> list_nodes h' m qs vs"
proof -
  let ?S = "set (sentinel m # qs)"
  have nodes: "list_nodes h l (ps @ [] @ []) (us @ [] @ [])" using l by simp
  have len: "length ps = length us" by (rule list_nodes_length [OF l])
  have S: "?S \<inter> set (sentinel l # ps @ [] @ []) = {}" "?S \<subseteq> live h"
    using assms(4) m by (auto simp: separate_def list_nodes_def)
  have pos: "sentinel l = hd ([] @ [] @ [sentinel l])" by simp
  from insert_loop_cases [OF assms(1) nodes len _ pos S, of "rev ws"] obtain r h' l' where
    run: "insert_range E (sentinel l) ws (h, l) = (r, h', l')" "untouched h h' ?S"
    "case r of Inr q \<Rightarrow> list_rep h' l' (us @ ws) | Inl e \<Rightarrow> throwable e \<and> list_rep h' l' us"
    by (fastforce simp: insert_range_def throwable_def list_rep_def split: sum.splits)
  moreover have "list_nodes h' m qs vs" by (rule list_nodes_untouched [OF m run(2)]) simp
  ultimately show ?thesis by (auto split: sum.splits)
qed

text \<open>
  The copy constructor yields a list with the source's elements, or, if an allocation or an
  element copy throws, passes the exception on with the list under construction empty again; the
  source is intact in both cases.
\<close>

lemma list_copy:
  assumes "fresh_alloc E" and "list_rep h m vs" and "c \<notin> live h"
  shows "\<exists>r h' l'. copy_list E c a (h, m) = Some (r, h', l') \<and> list_rep h' m vs \<and>
    (case r of Inr _ \<Rightarrow> list_rep h' l' vs | Inl e \<Rightarrow> throwable e \<and> list_rep h' l' [])"
proof -
  obtain qs where qs: "list_nodes h m qs vs" using assms(2) by (auto simp: list_rep_def)
  obtain h1 l where new: "new_list c a h = (h1, l)" by (cases "new_list c a h")
  note new_rep = new_list_rep [OF assms(3), of a, unfolded new fst_conv snd_conv]
  have live: "set (sentinel m # qs) \<subseteq> live h" using qs by (simp add: list_nodes_def)
  have m1: "list_nodes h1 m qs vs" by (rule list_nodes_untouched [OF qs new_rep(2) live])
  have sep: "separate l [] m qs" using live assms(3) new_rep(3) by (auto simp: separate_def)
  obtain r h' l' where run: "insert_range E (sentinel l) vs (h1, l) = (r, h', l')" by (metis prod.exhaust)
  have "copy_list E c a (h, m) = Some (r, h', l')"
    using run new range_values_all(1) [OF m1] by (simp add: copy_list_def end_of_def comp_def)
  with append_range [OF assms(1) new_rep(1) m1 sep, of vs] run show ?thesis
    by (auto simp: list_rep_def split: sum.splits)
qed

text \<open>
  Copy assignment between two lists (without allocator propagation): afterwards both hold the
  source's elements, whichever list was longer; if an allocation throws, the target still is a
  well-formed list, holding the part of the source that fitted into its nodes.
\<close>

lemma list_copy_assign:
  assumes "fresh_alloc E" and "list_nodes h l ps us" and "list_nodes h m qs vs" and "separate l ps m qs"
  shows "\<exists>r h' l'. copy_assign_list E (h, l, m) = Some (r, h', l') \<and> list_rep h' m vs \<and>
    (case r of Inr _ \<Rightarrow> list_rep h' l' vs | Inl e \<Rightarrow> throwable e \<and> list_rep h' l' (take (length us) vs))"
proof -
  let ?h = "assign_values ps (map Some vs) h"
  have len: "length ps = length us" "length qs = length vs" "list_size l = length ps" "list_size m = length qs"
    using list_nodes_length assms(2,3) by (auto simp: list_nodes_def)
  note walks = range_values_all(2) [OF assms(2)] range_values_all(2) [OF assms(3)]
  have vals: "map (val h) qs = map Some vs" using assms(3) by (simp add: list_nodes_def)
  have l1: "list_nodes ?h l ps (take (length ps) vs @ drop (length vs) us)"
    by (rule assign_values_nodes [OF assms(2)])
  have "untouched h ?h (set (sentinel m # qs))"
    using assms(4) by (auto simp: untouched_def separate_def intro!: assign_values_other dest: in_set_takeD)
  then have m1: "list_nodes ?h m qs vs" by (rule list_nodes_untouched [OF assms(3)]) simp
  show ?thesis
  proof (cases "length us < length vs")
    case True
    have "map (val ?h) qs = map Some vs" using m1 by (simp only: list_nodes_def)
    then have "map the (drop (length ps) (map (val ?h) qs)) = map the (drop (length ps) (map Some vs))"
      by (simp only:)
    then have rest: "map (the \<circ> val ?h) (drop (length ps) qs) = drop (length ps) vs"
      by (simp add: drop_map comp_def)
    obtain r h' l' where run: "insert_range E (sentinel l) (drop (length ps) vs) (?h, l) = (r, h', l')"
      by (metis prod.exhaust)
    have "copy_assign_list E (h, l, m) = Some (res_bind r (\<lambda>_. Inr ()), h', l')"
      using walks vals len True run rest by (simp add: copy_assign_list_def end_of_def)
    with append_range [OF assms(1) l1 m1 assms(4), of "drop (length ps) vs"] run len True show ?thesis
      by (auto simp: list_rep_def split: sum.splits)
  next
    case False
    let ?k = "length vs"
    obtain h' l' where er: "erase_range (position l ps ?k) (sentinel l) (?h, l) =
        Some (Inr (sentinel l, h', l'))" "list_nodes h' l' (take ?k ps) vs"
      "untouched ?h h' (live ?h - set (sentinel l # ps))"
      using erase_range_ok [of ?h l "take ?k ps" "drop ?k ps" "[]" vs "drop ?k us" "[]"] l1 len False
        position_hd [of ?k ps l] by auto
    have "set (sentinel m # qs) \<subseteq> live ?h - set (sentinel l # ps)"
      using m1 assms(4) by (auto simp: separate_def list_nodes_def)
    then have "list_nodes h' m qs vs" by (rule list_nodes_untouched [OF m1 er(3)])
    moreover have "copy_assign_list E (h, l, m) = Some (Inr (), h', l')"
      using walks vals len False er(1) position_hd [of ?k ps l] by (simp add: copy_assign_list_def end_of_def)
    ultimately show ?thesis using er(2) by (auto simp: list_rep_def)
  qed
qed

end
