(* ===== verification/Intrusive_List.thy ===== *)
theory Intrusive_List
  imports Link_Ring
begin

text \<open>
  \<open>gpcl::intrusive_list\<close> of \<open>intrusive_list.hpp\<close>: a circular list through nodes that the elements
  own.  A list is its head node; a node that is in no list is a ring of its own, which is what
  \<open>push_back\<close> and \<open>push_front\<close> rely on when they unlink the node first.
\<close>

section \<open>Nodes\<close>

definition node_init :: "'p \<Rightarrow> ('p, 'z) links_scheme \<Rightarrow> ('p, 'z) links_scheme" where
  "node_init p h = set_next p p (set_prev p p h)"

definition in_list :: "('p, 'z) links_scheme \<Rightarrow> 'p \<Rightarrow> bool" where
  "in_list h p \<longleftrightarrow> \<not> (prv h p = p \<and> nxt h p = p)"

definition node_swap :: "'p \<Rightarrow> 'p \<Rightarrow> ('p, 'z) links_scheme \<Rightarrow> ('p, 'z) links_scheme" where
  "node_swap x y h =
     (let px = prv h x; py = prv h y; h1 = set_prev y px (set_prev x py h);
          nx = nxt h1 x; ny = nxt h1 y
      in set_next y nx (set_next x ny h1))"

definition insert_between :: "'p \<Rightarrow> 'p \<Rightarrow> 'p \<Rightarrow> ('p, 'z) links_scheme \<Rightarrow> ('p, 'z) links_scheme" where
  "insert_between node pv nx h =
     set_next pv node (set_prev node pv (set_next node nx (set_prev nx node h)))"

definition delete_between :: "'p \<Rightarrow> 'p \<Rightarrow> ('p, 'z) links_scheme \<Rightarrow> ('p, 'z) links_scheme" where
  "delete_between pv nx h = set_next pv nx (set_prev nx pv h)"

definition delete_entry :: "'p \<Rightarrow> ('p, 'z) links_scheme \<Rightarrow> ('p, 'z) links_scheme" where
  "delete_entry entry h = delete_between (prv h entry) (nxt h entry) h"

definition replace_entry :: "'p \<Rightarrow> 'p \<Rightarrow> ('p, 'z) links_scheme \<Rightarrow> ('p, 'z) links_scheme" where
  "replace_entry old node h =
     (let h1 = set_next node (nxt h old) h;
          h2 = set_prev (nxt h1 node) node h1;
          h3 = set_prev node (prv h2 old) h2;
          h4 = set_next (prv h3 node) node h3
      in node_init old h4)"

section \<open>The list\<close>

definition ilist_empty :: "('p, 'z) links_scheme \<Rightarrow> 'p \<Rightarrow> bool" where
  "ilist_empty h c \<longleftrightarrow> nxt h c = c"

definition ilist_front :: "('p, 'z) links_scheme \<Rightarrow> 'p \<Rightarrow> 'p res" where
  "ilist_front h c = res_bind (gpcl_assert (\<not> ilist_empty h c)) (\<lambda>_. Inr (nxt h c))"

definition ilist_back :: "('p, 'z) links_scheme \<Rightarrow> 'p \<Rightarrow> 'p res" where
  "ilist_back h c = res_bind (gpcl_assert (\<not> ilist_empty h c)) (\<lambda>_. Inr (prv h c))"

definition is_singular :: "('p, 'z) links_scheme \<Rightarrow> 'p \<Rightarrow> bool" where
  "is_singular h c \<longleftrightarrow> \<not> ilist_empty h c \<and> nxt h c = prv h c"

definition ilist_push_front :: "'p \<Rightarrow> 'p \<Rightarrow> ('p, 'z) links_scheme \<Rightarrow> ('p, 'z) links_scheme" where
  "ilist_push_front c node h =
     (let h1 = delete_entry node h in insert_between node c (nxt h1 c) h1)"

definition ilist_push_back :: "'p \<Rightarrow> 'p \<Rightarrow> ('p, 'z) links_scheme \<Rightarrow> ('p, 'z) links_scheme" where
  "ilist_push_back c node h =
     (let h1 = delete_entry node h in insert_between node (prv h1 c) c h1)"

definition ilist_erase :: "'p \<Rightarrow> ('p, 'z) links_scheme \<Rightarrow> ('p, 'z) links_scheme" where
  "ilist_erase node h = node_init node (delete_entry node h)"

definition ilist_pop_front :: "'p \<Rightarrow> ('p, 'z) links_scheme \<Rightarrow> ('p, 'z) links_scheme res" where
  "ilist_pop_front c h = res_bind (gpcl_assert (\<not> ilist_empty h c)) (\<lambda>_.
     res_bind (ilist_front h c) (\<lambda>x. Inr (ilist_erase x h)))"

definition ilist_pop_back :: "'p \<Rightarrow> ('p, 'z) links_scheme \<Rightarrow> ('p, 'z) links_scheme res" where
  "ilist_pop_back c h = res_bind (gpcl_assert (\<not> ilist_empty h c)) (\<lambda>_.
     res_bind (ilist_back h c) (\<lambda>x. Inr (ilist_erase x h)))"

partial_function (option) ilist_clear ::
  "'p \<Rightarrow> ('p, 'z) links_scheme \<Rightarrow> ('p, 'z) links_scheme res option" where
  "ilist_clear c h =
     (if ilist_empty h c then Some (Inr h)
      else case ilist_pop_back c h of Inl e \<Rightarrow> Some (Inl e) | Inr h' \<Rightarrow> ilist_clear c h')"

definition ilist_move :: "'p \<Rightarrow> 'p \<Rightarrow> ('p, 'z) links_scheme \<Rightarrow> ('p, 'z) links_scheme" where
  "ilist_move c other h =
     (let h1 = node_init c h in if \<not> ilist_empty h1 other then replace_entry other c h1 else h1)"

definition ilist_move_assign ::
  "'p \<Rightarrow> 'p \<Rightarrow> ('p, 'z) links_scheme \<Rightarrow> ('p, 'z) links_scheme res option" where
  "ilist_move_assign c other h =
     (if c = other then Some (Inr h)
      else run_bind (ilist_clear c h) (\<lambda>h1.
        Some (Inr (if \<not> ilist_empty h1 other then replace_entry other c h1 else h1))))"

text \<open>\<open>reverse\<close> moves the elements to a local list and back; \<open>stk\<close> is that list's head.\<close>

partial_function (option) reverse_out ::
  "'p \<Rightarrow> 'p \<Rightarrow> ('p, 'z) links_scheme \<Rightarrow> ('p, 'z) links_scheme res option" where
  "reverse_out c stk h =
     (if ilist_empty h c then Some (Inr h)
      else case ilist_front h c of
             Inl e \<Rightarrow> Some (Inl e)
           | Inr entry \<Rightarrow> reverse_out c stk (ilist_push_back stk entry (ilist_erase entry h)))"

partial_function (option) reverse_in ::
  "'p \<Rightarrow> 'p \<Rightarrow> ('p, 'z) links_scheme \<Rightarrow> ('p, 'z) links_scheme res option" where
  "reverse_in c stk h =
     (if ilist_empty h stk then Some (Inr h)
      else case ilist_back h stk of
             Inl e \<Rightarrow> Some (Inl e)
           | Inr entry \<Rightarrow> reverse_in c stk (ilist_push_back c entry (ilist_erase entry h)))"

definition ilist_reverse ::
  "'p \<Rightarrow> 'p \<Rightarrow> ('p, 'z) links_scheme \<Rightarrow> ('p, 'z) links_scheme res option" where
  "ilist_reverse c stk h =
     run_bind (reverse_out c stk (node_init stk h)) (\<lambda>h1.
     run_bind (reverse_in c stk h1) (\<lambda>h2. ilist_clear stk h2))"

definition exchange :: "'p \<Rightarrow> 'p \<Rightarrow> ('p, 'z) links_scheme \<Rightarrow> ('p, 'z) links_scheme" where
  "exchange x y h = node_swap x y h"

section \<open>Effect on rings\<close>

lemma node_init_links [simp]:
  "nxt (node_init p h) = (nxt h)(p := p)" "prv (node_init p h) = (prv h)(p := p)"
  by (simp_all add: node_init_def)

lemma ilist_empty_ring: "ring h c xs \<Longrightarrow> ilist_empty h c \<longleftrightarrow> xs = []"
  using ring_ends(1) [of h c xs] ring_distinct [of h c xs]
  by (cases xs) (auto simp: ilist_empty_def)

lemma ring_node_init: "ring h c xs \<Longrightarrow> p \<notin> set (c # xs) \<Longrightarrow> ring (node_init p h) c xs"
  by (erule ring_frame) auto

lemma ring_node_init_self: "ring (node_init p h) p []"
  by (simp add: ring_Nil)

lemma delete_entry_links:
  assumes "ring h c (xs @ x # ys)"
  shows "nxt (delete_entry x h) = (nxt h)(last (c # xs) := hd (ys @ [c]))"
    and "prv (delete_entry x h) = (prv h)(hd (ys @ [c]) := last (c # xs))"
  using ring_next [OF assms] by (simp_all add: delete_entry_def delete_between_def)

lemma delete_entry_ring:
  assumes "ring h c (xs @ x # ys)"
  shows "ring (delete_entry x h) c (xs @ ys)"
  using ring_cut(1) [of h c xs "[x]" ys] delete_entry_links [OF assms] assms by simp

lemma delete_entry_frame:
  assumes "ring h c (xs @ x # ys)" and "p \<notin> set (c # xs @ x # ys)"
  shows "nxt (delete_entry x h) p = nxt h p" "prv (delete_entry x h) p = prv h p"
proof -
  have "last (c # xs) \<in> set (c # xs @ x # ys)" "hd (ys @ [c]) \<in> set (c # xs @ x # ys)"
    by (auto simp: hd_append)
  with assms(2) have "p \<noteq> last (c # xs)" "p \<noteq> hd (ys @ [c])" by blast+
  then show "nxt (delete_entry x h) p = nxt h p" "prv (delete_entry x h) p = prv h p"
    unfolding delete_entry_links [OF assms(1)] by simp_all
qed

lemma delete_entry_single [simp]: "ring h x [] \<Longrightarrow> nxt (delete_entry x h) = nxt h \<and> prv (delete_entry x h) = prv h"
  by (auto simp: ring_Nil delete_entry_def delete_between_def)

lemma ilist_erase_ring:
  assumes "ring h c (xs @ x # ys)"
  shows "ring (ilist_erase x h) c (xs @ ys)" and "ring (ilist_erase x h) x []"
    and "p \<notin> set (c # xs @ x # ys) \<Longrightarrow> nxt (ilist_erase x h) p = nxt h p \<and> prv (ilist_erase x h) p = prv h p"
proof -
  have "x \<notin> set (c # xs @ ys)" using ring_distinct [OF assms] by auto
  then show "ring (ilist_erase x h) c (xs @ ys)"
    unfolding ilist_erase_def by (rule ring_node_init [OF delete_entry_ring [OF assms]])
  show "ring (ilist_erase x h) x []" by (simp add: ilist_erase_def ring_node_init_self)
  show "nxt (ilist_erase x h) p = nxt h p \<and> prv (ilist_erase x h) p = prv h p"
    if "p \<notin> set (c # xs @ x # ys)"
    using that delete_entry_frame [OF assms that] by (auto simp: ilist_erase_def)
qed

lemma insert_between_ring:
  assumes "ring h c (xs @ ys)" and "x \<notin> set (c # xs @ ys)"
  shows "ring (insert_between x (last (c # xs)) (hd (ys @ [c])) h) c (xs @ x # ys)"
proof -
  obtain a b where ab: "last (c # xs) = a" "hd (ys @ [c]) = b" by blast
  have "a \<in> set (c # xs @ ys)" "b \<in> set (c # xs @ ys)" using ab by (auto simp: hd_append split: if_splits)
  then have ne: "x \<noteq> a" "x \<noteq> b" using assms(2) by blast+
  show ?thesis
    by (rule ring_insert [OF assms]) (use ab ne in \<open>auto simp: insert_between_def\<close>)
qed

lemma insert_between_frame:
  assumes "p \<notin> {x, a, b}"
  shows "nxt (insert_between x a b h) p = nxt h p" "prv (insert_between x a b h) p = prv h p"
  using assms by (simp_all add: insert_between_def)

text \<open>Appending a node that is in no list.\<close>

lemma push_back_free:
  assumes "ring h c xs" and "ring h x []" and "x \<notin> set (c # xs)"
  shows "ring (ilist_push_back c x h) c (xs @ [x])"
    and "p \<notin> set (c # x # xs) \<Longrightarrow> nxt (ilist_push_back c x h) p = nxt h p \<and> prv (ilist_push_back c x h) p = prv h p"
proof -
  let ?h = "delete_entry x h"
  have same: "nxt ?h = nxt h" "prv ?h = prv h" using delete_entry_single [OF assms(2)] by auto
  have r: "ring ?h c (xs @ [])" using assms(1) same ring_cong [of c xs ?h h] by simp
  have e: "prv ?h c = last (c # xs)" using ring_ends(2) [OF assms(1)] same by simp
  show "ring (ilist_push_back c x h) c (xs @ [x])"
    using insert_between_ring [OF r, of x] assms(3) e by (simp add: ilist_push_back_def Let_def)
  show "nxt (ilist_push_back c x h) p = nxt h p \<and> prv (ilist_push_back c x h) p = prv h p"
    if "p \<notin> set (c # x # xs)"
  proof -
    have "last (c # xs) \<in> set (c # xs)" by (rule last_in_set) simp
    with that have "p \<notin> {x, last (c # xs), c}" by auto
    then show ?thesis
      unfolding ilist_push_back_def Let_def e using insert_between_frame [of p x _ c ?h] same by simp
  qed
qed

text \<open>Loops that empty one list.\<close>

lemma ilist_clear_ok:
  assumes "ring h c xs"
  shows "\<exists>h'. ilist_clear c h = Some (Inr h') \<and> ring h' c [] \<and> (\<forall>x \<in> set xs. ring h' x []) \<and>
    (\<forall>p. p \<notin> set (c # xs) \<longrightarrow> nxt h' p = nxt h p \<and> prv h' p = prv h p)"
  using assms
proof (induction xs arbitrary: h rule: rev_induct)
  case Nil
  then show ?case by (subst ilist_clear.simps) (simp add: ilist_empty_ring)
next
  case (snoc x xs)
  have ne: "\<not> ilist_empty h c" using ilist_empty_ring [OF snoc.prems] by simp
  have "prv h c = x" using ring_ends(2) [OF snoc.prems] by simp
  with ne have pop: "ilist_pop_back c h = Inr (ilist_erase x h)"
    by (simp add: ilist_pop_back_def ilist_back_def)
  note er = ilist_erase_ring [of h c xs x "[]"]
  have r1: "ring (ilist_erase x h) c xs" and x1: "ring (ilist_erase x h) x []"
    using er(1,2) snoc.prems by simp_all
  obtain h' where h': "ilist_clear c (ilist_erase x h) = Some (Inr h')" "ring h' c []"
    "\<forall>y \<in> set xs. ring h' y []"
    "\<forall>p. p \<notin> set (c # xs) \<longrightarrow> nxt h' p = nxt (ilist_erase x h) p \<and> prv h' p = prv (ilist_erase x h) p"
    using snoc.IH [OF r1] by blast
  have "x \<notin> set (c # xs)" using ring_distinct [OF snoc.prems] by auto
  then have "ring h' x []" using x1 h'(4) by (auto simp: ring_Nil)
  with h' er(3) snoc.prems ne pop show ?case
    by (subst ilist_clear.simps) auto
qed

lemma reverse_out_ok:
  assumes "ring h c xs" and "ring h s ys" and "set (c # xs) \<inter> set (s # ys) = {}"
  shows "\<exists>h'. reverse_out c s h = Some (Inr h') \<and> ring h' c [] \<and> ring h' s (ys @ xs) \<and>
    (\<forall>p. p \<notin> set (c # xs) \<union> set (s # ys) \<longrightarrow> nxt h' p = nxt h p \<and> prv h' p = prv h p)"
  using assms
proof (induction xs arbitrary: h ys)
  case Nil
  then show ?case by (subst reverse_out.simps) (simp add: ilist_empty_ring)
next
  case (Cons x xs)
  let ?h1 = "ilist_erase x h" and ?h2 = "ilist_push_back s x (ilist_erase x h)"
  have front: "\<not> ilist_empty h c" "ilist_front h c = Inr x"
    using ilist_empty_ring [OF Cons.prems(1)] ring_ends(1) [OF Cons.prems(1)] by (simp_all add: ilist_front_def)
  note er = ilist_erase_ring [of h c "[]" x xs, simplified, OF Cons.prems(1)]
  have s1: "ring ?h1 s ys"
    by (rule ring_apart [OF Cons.prems(2), of "set (c # x # xs)"]) (use er(3) Cons.prems(3) in auto)
  have x_out: "x \<notin> set (s # ys)" using Cons.prems(3) by auto
  note push = push_back_free [OF s1 er(2) x_out]
  have x_c: "x \<notin> set (c # xs)" using ring_distinct [OF Cons.prems(1)] by auto
  have "ring ?h2 c xs"
    by (rule ring_apart [OF er(1), of "set (s # x # ys)"]) (use push(2) Cons.prems(3) x_c in auto)
  from Cons.IH [OF this push(1)] Cons.prems(3) x_c obtain h' where
    "reverse_out c s ?h2 = Some (Inr h')" "ring h' c []" "ring h' s (ys @ x # xs)"
    "\<forall>p. p \<notin> set (c # xs) \<union> set (s # ys @ [x]) \<longrightarrow> nxt h' p = nxt ?h2 p \<and> prv h' p = prv ?h2 p"
    by auto
  with front push(2) er(3) show ?case by (subst reverse_out.simps) auto
qed

lemma reverse_in_ok:
  assumes "ring h c xs" and "ring h s ys" and "set (c # xs) \<inter> set (s # ys) = {}"
  shows "\<exists>h'. reverse_in c s h = Some (Inr h') \<and> ring h' c (xs @ rev ys) \<and> ring h' s [] \<and>
    (\<forall>p. p \<notin> set (c # xs) \<union> set (s # ys) \<longrightarrow> nxt h' p = nxt h p \<and> prv h' p = prv h p)"
  using assms
proof (induction ys arbitrary: h xs rule: rev_induct)
  case Nil
  then show ?case by (subst reverse_in.simps) (simp add: ilist_empty_ring)
next
  case (snoc y ys)
  let ?h1 = "ilist_erase y h" and ?h2 = "ilist_push_back c y (ilist_erase y h)"
  have rear: "\<not> ilist_empty h s" "ilist_back h s = Inr y"
    using ilist_empty_ring [OF snoc.prems(2)] ring_ends(2) [OF snoc.prems(2)] by (simp_all add: ilist_back_def)
  note er = ilist_erase_ring [of h s ys y "[]", simplified, OF snoc.prems(2)]
  have c1: "ring ?h1 c xs"
    by (rule ring_apart [OF snoc.prems(1), of "set (s # y # ys)"]) (use er(3) snoc.prems(3) in auto)
  have y_out: "y \<notin> set (c # xs)" using snoc.prems(3) by auto
  note push = push_back_free [OF c1 er(2) y_out]
  have y_s: "y \<notin> set (s # ys)" using ring_distinct [OF snoc.prems(2)] by auto
  have "ring ?h2 s ys"
    by (rule ring_apart [OF er(1), of "set (c # y # xs)"]) (use push(2) snoc.prems(3) y_s in auto)
  from snoc.IH [OF push(1) this] snoc.prems(3) y_s obtain h' where
    "reverse_in c s ?h2 = Some (Inr h')" "ring h' c (xs @ y # rev ys)" "ring h' s []"
    "\<forall>p. p \<notin> set (c # xs @ [y]) \<union> set (s # ys) \<longrightarrow> nxt h' p = nxt ?h2 p \<and> prv h' p = prv ?h2 p"
    by auto
  with rear push(2) er(3) show ?case by (subst reverse_in.simps) auto
qed

lemma replace_head_ring:
  assumes "ring h d (y # ys)" and "c \<notin> set (d # y # ys)"
  shows "ring (replace_entry d c h) c (y # ys)" and "ring (replace_entry d c h) d []"
    and "p \<notin> set (c # d # y # ys) \<Longrightarrow>
      nxt (replace_entry d c h) p = nxt h p \<and> prv (replace_entry d c h) p = prv h p"
proof -
  obtain b where b: "last (y # ys) = b" by blast
  then have b_in: "b \<in> set (y # ys)" by (metis last_in_set list.distinct(1))
  have e: "nxt h d = y" "prv h d = b" using ring_ends [OF assms(1)] b by simp_all
  have ne: "d \<noteq> y" "d \<noteq> b" "c \<noteq> y" "c \<noteq> b" "c \<noteq> d"
    using ring_distinct [OF assms(1)] assms(2) b_in by auto
  have n: "nxt (replace_entry d c h) = (nxt h)(c := y, b := c, d := d)"
    and p: "prv (replace_entry d c h) = (prv h)(y := c, c := b, d := d)"
    using e ne by (auto simp: replace_entry_def Let_def)
  have old: "distinct (d # y # ys)" "linked h (y # ys)" "nxt h b = d" "prv h y = d"
    using assms(1) b unfolding ring_Cons by simp_all
  have b_but: "b \<notin> set (butlast (y # ys))"
    using old(1) b by (cases ys rule: rev_cases) auto
  have "linked (replace_entry d c h) (y # ys) = linked h (y # ys)"
  proof (intro linked_cong ballI)
    show "nxt (replace_entry d c h) q = nxt h q" if "q \<in> set (butlast (y # ys))" for q
      using in_set_butlastD [OF that] that b_but assms(2) old(1) by (auto simp: n)
    show "prv (replace_entry d c h) q = prv h q" if "q \<in> set (tl (y # ys))" for q
      using that assms(2) old(1) by (auto simp: p)
  qed
  with old assms(2) ne b show "ring (replace_entry d c h) c (y # ys)"
    unfolding ring_Cons by (auto simp: n p simp del: last.simps)
  show "ring (replace_entry d c h) d []" by (simp add: ring_Nil n p)
  show "nxt (replace_entry d c h) p = nxt h p \<and> prv (replace_entry d c h) p = prv h p"
    if "p \<notin> set (c # d # y # ys)"
    using that b_in by (auto simp: n p)
qed

section \<open>Properties\<close>

definition two_lists :: "nat links" where
  "two_lists = \<lparr>prv = id(10 := 12, 11 := 10, 12 := 11, 20 := 21, 21 := 20),
     nxt = id(10 := 11, 11 := 12, 12 := 10, 20 := 21, 21 := 20)\<rparr>"

lemma two_lists [simp]: "ring two_lists 10 [11, 12]" "ring two_lists 20 [21]" "ring two_lists 30 []"
  by (simp_all add: ring_def two_lists_def)

text \<open>
  \<open>push_back\<close> of a node that currently is in another list takes it out of that list and appends
  it here; both lists stay well formed.
\<close>

lemma ilist_push_back_moves:
  assumes "ring h c xs" and "ring h d (as @ x # bs)" and "set (c # xs) \<inter> set (d # as @ x # bs) = {}"
  shows "ring (ilist_push_back c x h) c (xs @ [x]) \<and> ring (ilist_push_back c x h) d (as @ bs)"
proof -
  let ?h = "delete_entry x h"
  note frame = delete_entry_frame [OF assms(2)]
  have "ring ?h c xs"
    by (rule ring_apart [OF assms(1), of "set (d # as @ x # bs)"]) (use frame assms(3) in auto)
  then have c1: "ring ?h c (xs @ [])" by simp
  have d1: "ring ?h d (as @ bs)" by (rule delete_entry_ring [OF assms(2)])
  have e: "prv ?h c = last (c # xs)" using ring_ends(2) [OF c1] by simp
  have x: "x \<notin> set (c # xs @ [])" using assms(3) by auto
  have "last (c # xs) \<in> set (c # xs)" by (rule last_in_set) simp
  then have "set (d # as @ bs) \<inter> {x, last (c # xs), c} = {}"
    using assms(3) ring_distinct [OF assms(2)] by (auto simp del: last.simps)
  then have "ring (insert_between x (last (c # xs)) c ?h) d (as @ bs)"
    by (rule ring_apart [OF d1]) (simp add: insert_between_frame)
  then show ?thesis
    using insert_between_ring [OF c1 x] e by (simp add: ilist_push_back_def Let_def)
qed

text \<open>
  \<open>reverse\<close> terminates, reverses the list in place and leaves its local list empty, so that the
  destructor of that list finds nothing linked; nodes outside the list are not touched.
\<close>

lemma ilist_reverse_correct:
  assumes "ring h c xs" and "s \<notin> set (c # xs)"
  shows "\<exists>h'. ilist_reverse c s h = Some (Inr h') \<and> ring h' c (rev xs) \<and> ring h' s [] \<and>
    (\<forall>p. p \<notin> set (s # c # xs) \<longrightarrow> nxt h' p = nxt h p \<and> prv h' p = prv h p)"
proof -
  have c0: "ring (node_init s h) c xs" by (rule ring_node_init [OF assms])
  obtain h1 where h1: "reverse_out c s (node_init s h) = Some (Inr h1)" "ring h1 c []" "ring h1 s xs"
    "\<forall>p. p \<notin> set (c # xs) \<union> {s} \<longrightarrow> nxt h1 p = nxt h p \<and> prv h1 p = prv h p"
    using reverse_out_ok [OF c0 ring_node_init_self [of s h]] assms(2) by auto
  obtain h2 where h2: "reverse_in c s h1 = Some (Inr h2)" "ring h2 c (rev xs)" "ring h2 s []"
    "\<forall>p. p \<notin> {c} \<union> set (s # xs) \<longrightarrow> nxt h2 p = nxt h1 p \<and> prv h2 p = prv h1 p"
    using reverse_in_ok [OF h1(2,3)] assms ring_distinct [OF assms(1)] by auto
  have "ilist_clear s h2 = Some (Inr h2)"
    using h2(3) by (subst ilist_clear.simps) (simp add: ilist_empty_ring)
  with h1 h2 show ?thesis by (auto simp: ilist_reverse_def)
qed

text \<open>
  Move assignment between two different lists: the elements the target had are unlinked one by
  one and end up in no list, the target then has the source's elements, and the source is empty.
\<close>

lemma ilist_move_assign_correct:
  assumes "ring h c xs" and "ring h d ys" and "set (c # xs) \<inter> set (d # ys) = {}"
  shows "\<exists>h'. ilist_move_assign c d h = Some (Inr h') \<and> ring h' c ys \<and> ring h' d [] \<and>
    (\<forall>x \<in> set xs. \<not> in_list h' x)"
proof -
  obtain h1 where h1: "ilist_clear c h = Some (Inr h1)" "ring h1 c []" "\<forall>x \<in> set xs. ring h1 x []"
    "\<forall>p. p \<notin> set (c # xs) \<longrightarrow> nxt h1 p = nxt h p \<and> prv h1 p = prv h p"
    using ilist_clear_ok [OF assms(1)] by blast
  have d1: "ring h1 d ys"
    by (rule ring_apart [OF assms(2), of "set (c # xs)"]) (use h1(4) assms(3) in auto)
  have ne: "c \<noteq> d" "c \<notin> set (d # ys)" using assms(3) by auto
  show ?thesis
  proof (cases ys)
    case Nil
    have "ilist_move_assign c d h = Some (Inr h1)"
      using h1(1) ne(1) d1 Nil by (simp add: ilist_move_assign_def ilist_empty_ring)
    moreover have "\<forall>x \<in> set xs. \<not> in_list h1 x" using h1(3) by (simp add: in_list_def ring_Nil)
    ultimately show ?thesis using h1(2) d1 Nil by blast
  next
    case (Cons y zs)
    have out: "x \<notin> set (c # d # y # zs)" if "x \<in> set xs" for x
      using that assms(3) Cons ring_distinct [OF assms(1)] by auto
    note rep = replace_head_ring [OF d1 [unfolded Cons] ne(2) [unfolded Cons]]
    have "ilist_move_assign c d h = Some (Inr (replace_entry d c h1))"
      using h1(1) ne(1) ilist_empty_ring [OF d1] Cons by (simp add: ilist_move_assign_def)
    moreover have "\<forall>x \<in> set xs. \<not> in_list (replace_entry d c h1) x"
      using rep(3) [OF out] h1(3) by (simp add: in_list_def ring_Nil)
    ultimately show ?thesis using rep(1,2) Cons by blast
  qed
qed

text \<open>
  \<open>exchange\<close> of two elements swaps the pointers inside the two nodes but not the pointers of
  their neighbours, so that the list it is applied to is no longer well formed, whatever sequence of
  elements one expects it to hold.
\<close>

lemma ilist_exchange_breaks:
  assumes "ring h c (xs @ x # ms @ y # ys)"
  shows "\<nexists>zs. ring (exchange x y h) c zs"
proof
  assume "\<exists>zs. ring (exchange x y h) c zs"
  then obtain zs where zs: "ring (exchange x y h) c zs" ..
  let ?h = "exchange x y h" and ?a = "last (c # xs)"
  have d: "distinct (c # xs @ x # ms @ y # ys)" using assms by (simp add: ring_def)
  have nx: "nxt ?h p = nxt h p" if "p \<noteq> x" "p \<noteq> y" for p
    using that by (simp add: exchange_def node_swap_def Let_def)
  have px: "prv ?h x = last (x # ms)"
    using ring_next(2) [of h c "xs @ x # ms" y ys] assms d by (auto simp: exchange_def node_swap_def Let_def)
  have closed: "p \<in> set (c # zs) \<Longrightarrow> nxt ?h p \<in> set (c # zs) \<and> prv ?h (nxt ?h p) = p" for p
  proof -
    assume p: "p \<in> set (c # zs)"
    obtain as bs where "c # zs = as @ p # bs" using split_list [OF p] by blast
    then show "nxt ?h p \<in> set (c # zs) \<and> prv ?h (nxt ?h p) = p"
    proof (cases as)
      case Nil
      with \<open>c # zs = as @ p # bs\<close> have "p = c" "zs = bs" by auto
      then show ?thesis using ring_next_at [of ?h c "[]" zs] ring_prev_at [of ?h c "[]" zs] zs
        by (cases zs) auto
    next
      case (Cons a as')
      with \<open>c # zs = as @ p # bs\<close> have "zs = (as' @ [p]) @ bs" by simp
      then show ?thesis
        using ring_next_at [of ?h c "as' @ [p]" bs] ring_prev_at [of ?h c "as' @ [p]" bs] zs
        by (cases bs) auto
    qed
  qed
  have "last (c # us) \<in> set (c # zs)" if "\<exists>vs. xs = us @ vs" for us
    using that
  proof (induction us rule: rev_induct)
    case (snoc u us)
    then obtain vs where vs: "xs = us @ u # vs" by auto
    have "nxt h (last (c # us)) = u"
      using ring_next_at [of h c us "u # vs @ x # ms @ y # ys"] assms vs by simp
    moreover have "last (c # us) \<noteq> x" "last (c # us) \<noteq> y"
      using d vs by (cases us rule: rev_cases; auto)+
    ultimately show ?case using closed [of "last (c # us)"] snoc.IH vs nx by auto
  qed simp
  then have "?a \<in> set (c # zs)" by simp
  moreover have "?a \<noteq> x" "?a \<noteq> y" using d by (cases xs rule: rev_cases; auto)+
  moreover have "nxt h ?a = x" using ring_next_at [of h c xs "x # ms @ y # ys"] assms by simp
  ultimately have "prv ?h x = ?a" using closed [of ?a] nx by auto
  with px have "last (x # ms) = ?a" by simp
  moreover have "last (x # ms) \<in> set (x # ms)" "?a \<in> set (c # xs)" by (rule last_in_set; simp)+
  ultimately show False using d by auto
qed

end
