(* ===== verification/Dynarray.thy ===== *)
theory Dynarray
  imports Allocation Back_Inserter
begin

text \<open>
  \<open>gpcl::dynarray\<close> of \<open>dynarray.hpp\<close>: a growing array over raw storage.  A block of storage is a list
  of slots, each raw (\<open>None\<close>) or holding an element; constructing outside a block, destroying or
  reading a raw slot, and deallocating a block with the wrong capacity are undefined behaviour.
  Every allocation and every construction may throw, as the environment says; moving an element may
  throw unless its type says otherwise, and leaves the source changed.  Capacities are counted without
  wrap-around.
\<close>

section \<open>Storage\<close>

record ('b, 'v) bheap =
  slots :: "'b \<Rightarrow> 'v option list"
  blocks :: "'b set"
  bclock :: nat

record 'b dynarray =
  buf :: "'b option"
  dsize :: nat
  dcap :: nat

type_synonym ('b, 'v) dstate = "('b, 'v) bheap \<times> 'b dynarray"

definition btick :: "('b, 'v) bheap \<Rightarrow> ('b, 'v) bheap" where
  "btick m = m\<lparr>bclock := Suc (bclock m)\<rparr>"

definition alloc_block :: "'b env \<Rightarrow> nat \<Rightarrow> ('b, 'v) bheap \<Rightarrow> 'b res \<times> ('b, 'v) bheap" where
  "alloc_block E n m = (case allocate E (bclock m) (blocks m) of
      None \<Rightarrow> (Inl Std_bad_alloc, btick m)
    | Some b \<Rightarrow> (Inr b, btick m\<lparr>slots := (slots m)(b := replicate n None), blocks := insert b (blocks m)\<rparr>))"

text \<open>Deallocating the null pointer has no effect.\<close>

definition dealloc_block :: "'b option \<Rightarrow> nat \<Rightarrow> ('b, 'v) bheap \<Rightarrow> ('b, 'v) bheap res" where
  "dealloc_block p n m = (case p of
      None \<Rightarrow> Inr m
    | Some b \<Rightarrow> if b \<in> blocks m \<and> length (slots m b) = n then Inr (m\<lparr>blocks := blocks m - {b}\<rparr>)
               else Inl Undefined_behaviour)"

definition construct_at :: "'b env \<Rightarrow> 'b option \<Rightarrow> nat \<Rightarrow> 'v \<Rightarrow> ('b, 'v) bheap \<Rightarrow> unit res \<times> ('b, 'v) bheap" where
  "construct_at E p i v m = (case p of
      None \<Rightarrow> (Inl Undefined_behaviour, m)
    | Some b \<Rightarrow>
        if b \<in> blocks m \<and> i < length (slots m b)
        then if constructs E (bclock m)
             then (Inr (), btick m\<lparr>slots := (slots m)(b := (slots m b)[i := Some v])\<rparr>)
             else (Inl User_exception, btick m)
        else (Inl Undefined_behaviour, m))"

definition destroy_at :: "'b option \<Rightarrow> nat \<Rightarrow> ('b, 'v) bheap \<Rightarrow> ('b, 'v) bheap res" where
  "destroy_at p i m = (case p of
      None \<Rightarrow> Inl Undefined_behaviour
    | Some b \<Rightarrow>
        if b \<in> blocks m \<and> i < length (slots m b) \<and> slots m b ! i \<noteq> None
        then Inr (m\<lparr>slots := (slots m)(b := (slots m b)[i := None])\<rparr>)
        else Inl Undefined_behaviour)"

definition read_at :: "'b option \<Rightarrow> nat \<Rightarrow> ('b, 'v) bheap \<Rightarrow> 'v res" where
  "read_at p i m = (case p of
      None \<Rightarrow> Inl Undefined_behaviour
    | Some b \<Rightarrow>
        if b \<in> blocks m \<and> i < length (slots m b)
        then (case slots m b ! i of None \<Rightarrow> Inl Undefined_behaviour | Some v \<Rightarrow> Inr v)
        else Inl Undefined_behaviour)"

section \<open>Removal\<close>

text \<open>Destroying the elements of a buffer from index \<open>n - 1\<close> down, \<open>k\<close> of them.\<close>

fun destroy_down :: "'b option \<Rightarrow> nat \<Rightarrow> nat \<Rightarrow> ('b, 'v) bheap \<Rightarrow> ('b, 'v) bheap res" where
  "destroy_down p n 0 m = Inr m"
| "destroy_down p n (Suc k) m = res_bind (destroy_at p (n - 1) m) (destroy_down p (n - 1) k)"

definition keep_first_n :: "nat \<Rightarrow> ('b, 'v) dstate \<Rightarrow> ('b, 'v) dstate res" where
  "keep_first_n num_to_keep s = (case s of (m, a) \<Rightarrow>
     res_bind (gpcl_assert (dsize a \<ge> num_to_keep)) (\<lambda>_.
     res_bind (destroy_down (buf a) (dsize a) (dsize a - num_to_keep) m) (\<lambda>m'.
       Inr (m', a\<lparr>dsize := num_to_keep\<rparr>))))"

definition dclear :: "('b, 'v) dstate \<Rightarrow> ('b, 'v) dstate res" where
  "dclear s = keep_first_n 0 s"

definition release :: "('b, 'v) dstate \<Rightarrow> ('b, 'v) dstate res" where
  "release s = res_bind (dclear s) (\<lambda>(m, a).
     res_bind (dealloc_block (buf a) (dcap a) m) (\<lambda>m'. Inr (m', a\<lparr>buf := None, dcap := 0\<rparr>)))"

section \<open>Construction loops\<close>

text \<open>
  \<open>construct_loop\<close> constructs the given values at the indices from \<open>size\<close> on and counts in \<open>dsize\<close>
  how many are done, as the loops of the constructors and of \<open>resize\<close> do.
\<close>

fun construct_loop :: "'b env \<Rightarrow> 'v list \<Rightarrow> ('b, 'v) dstate \<Rightarrow> unit res \<times> ('b, 'v) dstate" where
  "construct_loop E [] s = (Inr (), s)"
| "construct_loop E (v # vs) (m, a) =
     (case construct_at E (buf a) (dsize a) v m of
        (Inl e, m') \<Rightarrow> (Inl e, m', a)
      | (Inr _, m') \<Rightarrow> construct_loop E vs (m', a\<lparr>dsize := Suc (dsize a)\<rparr>))"

text \<open>A clean-up in a catch block, after which the exception is rethrown.\<close>

definition rethrow :: "gpcl_error \<Rightarrow> ('s \<Rightarrow> 's res) \<Rightarrow> 's \<Rightarrow> unit res \<times> 's" where
  "rethrow e cleanup s = (case cleanup s of Inl e' \<Rightarrow> (Inl e', s) | Inr s' \<Rightarrow> (Inl e, s'))"

text \<open>The constructor from a range of \<open>n\<close> values.\<close>

definition from_range :: "'b env \<Rightarrow> 'v list \<Rightarrow> ('b, 'v) bheap \<Rightarrow> unit res \<times> ('b, 'v) dstate" where
  "from_range E vs m =
     (case alloc_block E (length vs) m of
        (Inl e, m1) \<Rightarrow> (Inl e, m1, \<lparr>buf = None, dsize = 0, dcap = 0\<rparr>)
      | (Inr b, m1) \<Rightarrow>
          (case construct_loop E vs (m1, \<lparr>buf = Some b, dsize = 0, dcap = length vs\<rparr>) of
             (Inl e, s) \<Rightarrow> rethrow e release s
           | (Inr _, s) \<Rightarrow> (Inr (), s)))"

section \<open>Growth\<close>

definition elements_of :: "('b, 'v) bheap \<Rightarrow> 'b dynarray \<Rightarrow> 'v option list" where
  "elements_of m a = (case buf a of None \<Rightarrow> [] | Some b \<Rightarrow> take (dsize a) (slots m b))"

text \<open>
  What \<open>reserve\<close> has to know of the element type: whether its move constructor is declared not to throw,
  whether it can be copied, and what a move leaves in its source, when it succeeds and when it throws.
  \<open>std::move_if_noexcept\<close> copies if moving could throw and copying is possible.
\<close>

record 'v element_traits =
  nothrow_move :: bool
  copyable :: bool
  moved_from :: "'v \<Rightarrow> 'v"
  spoiled :: "'v \<Rightarrow> 'v"

definition move_if_noexcept :: "'v element_traits \<Rightarrow> bool" where
  "move_if_noexcept R \<longleftrightarrow> nothrow_move R \<or> \<not> copyable R"

definition relocation_env :: "'b env \<Rightarrow> 'v element_traits \<Rightarrow> 'b env" where
  "relocation_env E R = (if nothrow_move R then E\<lparr>constructs := (\<lambda>t. True)\<rparr> else E)"

definition set_source :: "'v element_traits \<Rightarrow> 'b option \<Rightarrow> nat \<Rightarrow> 'v \<Rightarrow> ('b, 'v) bheap \<Rightarrow> ('b, 'v) bheap" where
  "set_source R p i v m = (case p of
      Some b \<Rightarrow> if move_if_noexcept R then m\<lparr>slots := (slots m)(b := (slots m b)[i := Some v])\<rparr> else m
    | None \<Rightarrow> m)"

text \<open>The first loop of \<open>reserve\<close>, with \<open>k\<close> elements of the old buffer \<open>p\<close> to go.\<close>

fun relocate :: "'b env \<Rightarrow> 'v element_traits \<Rightarrow> 'b option \<Rightarrow> nat \<Rightarrow> ('b, 'v) dstate \<Rightarrow> unit res \<times> ('b, 'v) dstate" where
  "relocate E R p 0 s = (Inr (), s)"
| "relocate E R p (Suc k) (m, a) =
     (case read_at p (dsize a) m of
        Inl e \<Rightarrow> (Inl e, m, a)
      | Inr v \<Rightarrow>
          (case construct_at (relocation_env E R) (buf a) (dsize a) v m of
             (Inl e, m') \<Rightarrow> (Inl e, set_source R p (dsize a) (spoiled R v) m', a)
           | (Inr _, m') \<Rightarrow>
               relocate E R p k (set_source R p (dsize a) (moved_from R v) m', a\<lparr>dsize := Suc (dsize a)\<rparr>)))"

definition reserve :: "'b env \<Rightarrow> 'v element_traits \<Rightarrow> nat \<Rightarrow> ('b, 'v) dstate \<Rightarrow> unit res \<times> ('b, 'v) dstate" where
  "reserve E R n s = (case s of (m, a) \<Rightarrow>
     if n \<le> dcap a then (Inr (), s)
     else let backup = a; a1 = a\<lparr>dcap := n, dsize := 0\<rparr>
          in case alloc_block E n m of
               (Inl e, m1) \<Rightarrow> (Inl e, m1, a1)
             | (Inr b, m1) \<Rightarrow>
                 (case relocate E R (buf backup) (dsize backup) (m1, a1\<lparr>buf := Some b\<rparr>) of
                    (Inl e, s2) \<Rightarrow> rethrow e (\<lambda>s. res_bind (release s) (\<lambda>(m3, a3). Inr (m3, backup))) s2
                  | (Inr _, m2, a2) \<Rightarrow>
                      (case res_bind (destroy_down (buf backup) (dsize backup) (dsize backup) m2)
                              (dealloc_block (buf backup) (dcap backup)) of
                         Inl e \<Rightarrow> (Inl e, m2, a2)
                       | Inr m3 \<Rightarrow> (gpcl_assert (dcap a2 \<ge> n), m3, a2))))"

definition grow :: "'b env \<Rightarrow> 'v element_traits \<Rightarrow> nat \<Rightarrow> ('b, 'v) dstate \<Rightarrow> unit res \<times> ('b, 'v) dstate" where
  "grow E R n s =
     (let (r, s') =
        (if dcap (snd s) = 0 \<and> n \<noteq> 0 then reserve E R n s
         else if dcap (snd s) < n
              then reserve E R ((n + dcap (snd s) - 1) div dcap (snd s) * dcap (snd s)) s
              else (Inr (), s))
      in (res_bind r (\<lambda>_. gpcl_assert (dcap (snd s') \<ge> n)), s'))"

definition dresize :: "'b env \<Rightarrow> 'v element_traits \<Rightarrow> nat \<Rightarrow> 'v \<Rightarrow> ('b, 'v) dstate \<Rightarrow> unit res \<times> ('b, 'v) dstate" where
  "dresize E R n x s =
     (case reserve E R n s of
        (Inl e, s1) \<Rightarrow> (Inl e, s1)
      | (Inr _, s1) \<Rightarrow>
          if n \<le> dsize (snd s1)
          then (case keep_first_n n s1 of Inl e \<Rightarrow> (Inl e, s1) | Inr s2 \<Rightarrow> (Inr (), s2))
          else (case construct_loop E (replicate (n - dsize (snd s1)) x) s1 of
                  (Inl e, s2) \<Rightarrow> rethrow e (keep_first_n (dsize (snd s1))) s2
                | (Inr _, s2) \<Rightarrow> (Inr (), s2)))"

section \<open>Element access, appending, popping\<close>

definition dat :: "nat \<Rightarrow> ('b, 'v) dstate \<Rightarrow> 'v res" where
  "dat i s = (if i < dsize (snd s) then read_at (buf (snd s)) i (fst s) else Inl Std_out_of_range)"

definition dindex :: "nat \<Rightarrow> ('b, 'v) dstate \<Rightarrow> 'v res" where
  "dindex i s = res_bind (gpcl_assert (i < dsize (snd s))) (\<lambda>_. read_at (buf (snd s)) i (fst s))"

text \<open>
  The argument of \<open>push_back\<close> is a reference: to a temporary, or to a slot of some block, whose
  element is read only when the new element is constructed.
\<close>

datatype ('b, 'v) arg = Temporary 'v | Reference 'b nat

definition read_arg :: "('b, 'v) arg \<Rightarrow> ('b, 'v) bheap \<Rightarrow> 'v res" where
  "read_arg x m = (case x of Temporary v \<Rightarrow> Inr v | Reference b i \<Rightarrow> read_at (Some b) i m)"

definition dpush_back :: "'b env \<Rightarrow> 'v element_traits \<Rightarrow> ('b, 'v) arg \<Rightarrow> ('b, 'v) dstate \<Rightarrow> unit res \<times> ('b, 'v) dstate" where
  "dpush_back E R x s =
     (case grow E R (dsize (snd s) + 1) s of
        (Inl e, s1) \<Rightarrow> (Inl e, s1)
      | (Inr _, m1, a1) \<Rightarrow>
          (case read_arg x m1 of
             Inl e \<Rightarrow> (Inl e, m1, a1)
           | Inr v \<Rightarrow>
               (case construct_at E (buf a1) (dsize a1) v m1 of
                  (Inl e, m2) \<Rightarrow> (Inl e, m2, a1)
                | (Inr _, m2) \<Rightarrow> (Inr (), m2, a1\<lparr>dsize := Suc (dsize a1)\<rparr>))))"

text \<open>\<open>pop_back\<close> constructs a default element at the index \<open>size_\<close> instead of destroying the last one.\<close>

definition dpop_back :: "'b env \<Rightarrow> 'v \<Rightarrow> ('b, 'v) dstate \<Rightarrow> unit res \<times> ('b, 'v) dstate" where
  "dpop_back E dflt s = (case s of (m, a) \<Rightarrow>
     case construct_at E (buf a) (dsize a) dflt m of
       (Inl e, m') \<Rightarrow> (Inl e, m', a)
     | (Inr _, m') \<Rightarrow> (Inr (), m', a\<lparr>dsize := dsize a - 1\<rparr>))"

section \<open>Assignment\<close>

definition dswap :: "'b dynarray \<Rightarrow> 'b dynarray \<Rightarrow> 'b dynarray \<times> 'b dynarray" where
  "dswap x y = (y, x)"

text \<open>A temporary array is built, swapped with the target and destroyed with the old contents.\<close>

definition assign_by_swap :: "'b env \<Rightarrow> 'v list \<Rightarrow> ('b, 'v) dstate \<Rightarrow> unit res \<times> ('b, 'v) dstate" where
  "assign_by_swap E vs s = (case s of (m, a) \<Rightarrow>
     case from_range E vs m of
       (Inl e, m1, _) \<Rightarrow> (Inl e, m1, a)
     | (Inr _, m1, tmp) \<Rightarrow>
         (case dswap tmp a of (tmp', a') \<Rightarrow>
            (case release (m1, tmp') of Inl e \<Rightarrow> (Inl e, m1, a') | Inr (m2, _) \<Rightarrow> (Inr (), m2, a'))))"

fun write_elements :: "'b \<Rightarrow> nat \<Rightarrow> 'v list \<Rightarrow> ('b, 'v) bheap \<Rightarrow> ('b, 'v) bheap" where
  "write_elements b i [] m = m"
| "write_elements b i (v # vs) m = write_elements b (Suc i) vs (m\<lparr>slots := (slots m)(b := (slots m b)[i := Some v])\<rparr>)"

definition dassign :: "'b env \<Rightarrow> bool \<Rightarrow> 'v list \<Rightarrow> ('b, 'v) dstate \<Rightarrow> unit res \<times> ('b, 'v) dstate" where
  "dassign E nothrow_assignable vs s =
     (if length vs > dsize (snd s) \<or> \<not> nothrow_assignable then assign_by_swap E vs s
      else case keep_first_n (length vs) s of
             Inl e \<Rightarrow> (Inl e, s)
           | Inr (m, a) \<Rightarrow> (case buf a of
                 None \<Rightarrow> (Inr (), m, a)
               | Some b \<Rightarrow> (Inr (), write_elements b 0 vs m, a)))"

definition shrink_to_fit :: "'b env \<Rightarrow> ('b, 'v) dstate \<Rightarrow> unit res \<times> ('b, 'v) dstate" where
  "shrink_to_fit E s = assign_by_swap E (map the (elements_of (fst s) (snd s))) s"

section \<open>Well-formed arrays\<close>

definition dyn_rep :: "('b, 'v) bheap \<Rightarrow> 'b dynarray \<Rightarrow> 'v list \<Rightarrow> bool" where
  "dyn_rep m a vs \<longleftrightarrow> dsize a = length vs \<and> (case buf a of
      None \<Rightarrow> dcap a = 0 \<and> vs = []
    | Some b \<Rightarrow> b \<in> blocks m \<and> length vs \<le> dcap a \<and>
        slots m b = map Some vs @ replicate (dcap a - length vs) None)"

definition same_blocks :: "('b, 'v) bheap \<Rightarrow> ('b, 'v) bheap \<Rightarrow> 'b set \<Rightarrow> bool" where
  "same_blocks m m' S \<longleftrightarrow> (\<forall>b \<in> S. slots m' b = slots m b)"

lemma btick_simps [simp]: "slots (btick m) = slots m" "blocks (btick m) = blocks m"
  by (simp_all add: btick_def)

lemma dyn_rep_btick [simp]: "dyn_rep (btick m) a vs = dyn_rep m a vs"
  by (auto simp: dyn_rep_def split: option.splits)

lemma dyn_rep_frame:
  assumes "dyn_rep m a vs" and "\<And>b. buf a = Some b \<Longrightarrow> slots m' b = slots m b \<and> b \<in> blocks m'"
  shows "dyn_rep m' a vs"
  using assms by (auto simp: dyn_rep_def split: option.splits)

lemma dyn_rep_elements: "dyn_rep m a vs \<Longrightarrow> elements_of m a = map Some vs"
  by (auto simp: dyn_rep_def elements_of_def split: option.splits)

lemma map_the_Some [simp]: "map the (map Some vs) = vs"
  by (simp add: comp_def)

lemma list_update_raw:
  "(map Some us @ None # rest)[length us := Some v] = map Some (us @ [v]) @ rest"
  by (simp add: list_update_append)

lemma construct_loop_cases:
  assumes "buf a = Some b" and "b \<in> blocks m" and "slots m b = map Some us @ replicate k None"
    and "dsize a = length us" and "length vs \<le> k"
  shows "\<exists>r j m'. construct_loop E vs (m, a) = (r, m', a\<lparr>dsize := length us + j\<rparr>) \<and>
    slots m' = (slots m)(b := map Some (us @ take j vs) @ replicate (k - j) None) \<and> blocks m' = blocks m \<and>
    (r = Inr () \<and> j = length vs \<or> r = Inl User_exception \<and> j < length vs)"
  using assms
proof (induction vs arbitrary: us k m a)
  case Nil
  then show ?case by (intro exI [of _ "Inr ()"] exI [of _ 0] exI [of _ m]) (auto simp: fun_upd_idem)
next
  case (Cons v vs)
  obtain k' where k: "k = Suc k'" using Cons.prems(5) by (cases k) auto
  have i: "dsize a < length (slots m b)" using Cons.prems k by simp
  show ?case
  proof (cases "constructs E (bclock m)")
    case True
    let ?m = "btick m\<lparr>slots := (slots m)(b := (slots m b)[dsize a := Some v])\<rparr>"
    let ?a = "a\<lparr>dsize := Suc (dsize a)\<rparr>"
    have "slots ?m b = map Some (us @ [v]) @ replicate k' None"
      using Cons.prems k list_update_raw [of us "replicate k' None" v] by simp
    from Cons.IH [of ?a ?m, OF _ _ this] Cons.prems k
    obtain r j m' where "construct_loop E vs (?m, ?a) = (r, m', ?a\<lparr>dsize := length (us @ [v]) + j\<rparr>)"
      "slots m' = (slots ?m)(b := map Some ((us @ [v]) @ take j vs) @ replicate (k' - j) None)" "blocks m' = blocks ?m"
      "r = Inr () \<and> j = length vs \<or> r = Inl User_exception \<and> j < length vs"
      by (auto simp del: fun_upd_apply)
    with True i Cons.prems k show ?thesis
      by (intro exI [of _ r] exI [of _ "Suc j"] exI [of _ m']) (auto simp: construct_at_def)
  next
    case False
    with i Cons.prems show ?thesis
      by (intro exI [of _ "Inl User_exception"] exI [of _ 0] exI [of _ "btick m"])
        (auto simp: construct_at_def fun_upd_idem)
  qed
qed

lemma destroy_down_ok:
  assumes "b \<in> blocks m" and "slots m b = map Some us @ rest" and "n = length us" and "k \<le> n"
  shows "\<exists>m'. destroy_down (Some b) n k m = Inr m' \<and> blocks m' = blocks m \<and>
    slots m' = (slots m)(b := map Some (take (n - k) us) @ replicate k None @ rest)"
  using assms
proof (induction k arbitrary: n us rest m)
  case 0
  then show ?case by (intro exI [of _ m]) (auto simp: fun_upd_idem)
next
  case (Suc k)
  then obtain ws w where us: "us = ws @ [w]" by (cases us rule: rev_cases) auto
  let ?m = "m\<lparr>slots := (slots m)(b := (slots m b)[n - 1 := None])\<rparr>"
  have upd: "slots ?m b = map Some ws @ None # rest"
    using Suc.prems us by (simp add: list_update_append)
  have "destroy_at (Some b) (n - 1) m = Inr ?m"
    using Suc.prems us by (simp add: destroy_at_def nth_append)
  moreover obtain m' where "destroy_down (Some b) (n - 1) k ?m = Inr m'" "blocks m' = blocks ?m"
    "slots m' = (slots ?m)(b := map Some (take (n - 1 - k) ws) @ replicate k None @ None # rest)"
    using Suc.IH [OF _ upd, of "n - 1"] Suc.prems us by (auto simp del: fun_upd_apply)
  ultimately show ?case
    using Suc.prems us by (auto simp: replicate_append_same simp flip: replicate_Suc)
qed

lemma keep_first_n_ok:
  assumes "dyn_rep m a vs" and "n \<le> length vs"
  shows "\<exists>m'. keep_first_n n (m, a) = Inr (m', a\<lparr>dsize := n\<rparr>) \<and> dyn_rep m' (a\<lparr>dsize := n\<rparr>) (take n vs) \<and>
    blocks m' = blocks m \<and> (\<forall>b. buf a \<noteq> Some b \<longrightarrow> slots m' b = slots m b)"
proof (cases "buf a")
  case None
  with assms show ?thesis by (auto simp: dyn_rep_def keep_first_n_def)
next
  case (Some b)
  with assms(1) have b: "b \<in> blocks m" "length vs \<le> dcap a" "dsize a = length vs"
    "slots m b = map Some vs @ replicate (dcap a - length vs) None"
    by (auto simp: dyn_rep_def)
  obtain m' where "destroy_down (Some b) (length vs) (length vs - n) m = Inr m'" "blocks m' = blocks m"
    "slots m' = (slots m)(b := map Some (take n vs) @ replicate (length vs - n) None @
       replicate (dcap a - length vs) None)"
    using destroy_down_ok [OF b(1,4) refl, of "length vs - n"] assms(2) by auto
  with Some b assms(2) show ?thesis
    by (auto simp: dyn_rep_def keep_first_n_def simp flip: replicate_add)
qed

lemma release_ok:
  assumes "dyn_rep m a vs"
  shows "\<exists>m'. release (m, a) = Inr (m', \<lparr>buf = None, dsize = 0, dcap = 0\<rparr>) \<and>
    blocks m' = blocks m - set_option (buf a) \<and> (\<forall>b. buf a \<noteq> Some b \<longrightarrow> slots m' b = slots m b)"
proof -
  obtain m1 where m1: "keep_first_n 0 (m, a) = Inr (m1, a\<lparr>dsize := 0\<rparr>)" "dyn_rep m1 (a\<lparr>dsize := 0\<rparr>) []"
    "blocks m1 = blocks m" "\<forall>b. buf a \<noteq> Some b \<longrightarrow> slots m1 b = slots m b"
    using keep_first_n_ok [OF assms, of 0] by auto
  then show ?thesis
    by (cases "buf a") (auto simp: release_def dclear_def dealloc_block_def dyn_rep_def)
qed

section \<open>Growth\<close>

lemma alloc_block_cases:
  assumes "fresh_alloc E"
  obtains (failed) "alloc_block E n m = (Inl Std_bad_alloc, btick m)" "allocate E (bclock m) (blocks m) = None"
  | (allocated) b m' where "alloc_block E n m = (Inr b, m')" "b \<notin> blocks m"
      "blocks m' = insert b (blocks m)" "slots m' = (slots m)(b := replicate n None)"
proof (cases "allocate E (bclock m) (blocks m)")
  case (Some b)
  with assms have "b \<notin> blocks m" by (auto simp: fresh_alloc_def)
  with Some allocated show ?thesis by (simp add: alloc_block_def)
qed (simp add: alloc_block_def failed)

text \<open>Building a fresh array: all or nothing.\<close>

lemma construct_fresh:
  assumes "b \<in> blocks m" and "slots m b = replicate n None" and "length vs \<le> n"
  shows "\<exists>r j m'. construct_loop E vs (m, \<lparr>buf = Some b, dsize = 0, dcap = n\<rparr>) =
      (r, m', \<lparr>buf = Some b, dsize = j, dcap = n\<rparr>) \<and>
    dyn_rep m' \<lparr>buf = Some b, dsize = j, dcap = n\<rparr> (take j vs) \<and> blocks m' = blocks m \<and>
    (\<forall>b'. b' \<noteq> b \<longrightarrow> slots m' b' = slots m b') \<and>
    (r = Inr () \<and> j = length vs \<or> r = Inl User_exception \<and> j < length vs)"
proof -
  let ?a = "\<lparr>buf = Some b, dsize = 0, dcap = n\<rparr>"
  obtain r j m' where "construct_loop E vs (m, ?a) = (r, m', ?a\<lparr>dsize := j\<rparr>)"
    "slots m' = (slots m)(b := map Some (take j vs) @ replicate (n - j) None)" "blocks m' = blocks m"
    "r = Inr () \<and> j = length vs \<or> r = Inl User_exception \<and> j < length vs"
    using construct_loop_cases [of ?a b m "[]" n vs E] assms by (auto simp del: fun_upd_apply)
  with assms(1,3) show ?thesis
    by (intro exI [of _ r] exI [of _ j] exI [of _ m']) (auto simp: dyn_rep_def)
qed

lemma from_range_cases:
  assumes "fresh_alloc E"
  shows "\<exists>r m' a'. from_range E vs m = (r, m', a') \<and> (\<forall>b' \<in> blocks m. slots m' b' = slots m b') \<and>
    (case r of
       Inr _ \<Rightarrow> dyn_rep m' a' vs \<and> dcap a' = length vs \<and>
         (\<exists>b. buf a' = Some b \<and> b \<notin> blocks m \<and> blocks m' = insert b (blocks m))
     | Inl e \<Rightarrow> throwable e \<and> blocks m' = blocks m)"
  using assms
proof (cases rule: alloc_block_cases [consumes 1, case_names failed allocated, of E "length vs" m])
  case failed
  then show ?thesis by (simp add: from_range_def throwable_def)
next
  case (allocated b m1)
  let ?a = "\<lambda>j. \<lparr>buf = Some b, dsize = j, dcap = length vs\<rparr>"
  obtain r j m2 where loop: "construct_loop E vs (m1, ?a 0) = (r, m2, ?a j)"
    "dyn_rep m2 (?a j) (take j vs)" "blocks m2 = blocks m1" "\<forall>b'. b' \<noteq> b \<longrightarrow> slots m2 b' = slots m1 b'"
    "r = Inr () \<and> j = length vs \<or> r = Inl User_exception \<and> j < length vs"
    using construct_fresh [of b m1 "length vs" vs E] allocated(3,4) by auto
  from loop(5) show ?thesis
  proof
    assume "r = Inr () \<and> j = length vs"
    with allocated loop show ?thesis by (auto simp: from_range_def)
  next
    assume r: "r = Inl User_exception \<and> j < length vs"
    obtain m3 where "release (m2, ?a j) = Inr (m3, \<lparr>buf = None, dsize = 0, dcap = 0\<rparr>)"
      "blocks m3 = blocks m2 - {b}" "\<forall>b'. b' \<noteq> b \<longrightarrow> slots m3 b' = slots m2 b'"
      using release_ok [OF loop(2)] by auto
    with allocated loop r show ?thesis by (auto simp: from_range_def rethrow_def throwable_def)
  qed
qed

text \<open>The old elements after the loop has thrown at index \<open>j\<close>, or has ended (\<open>j\<close> is the length).\<close>

definition left_behind :: "'v element_traits \<Rightarrow> nat \<Rightarrow> 'v list \<Rightarrow> 'v list" where
  "left_behind R j vs = (if move_if_noexcept R
     then map (moved_from R) (take j vs) @ (case drop j vs of [] \<Rightarrow> [] | v # ws \<Rightarrow> spoiled R v # ws)
     else vs)"

lemma left_behind_simps [simp]:
  "left_behind R j [] = []" "length (left_behind R j vs) = length vs"
  "left_behind R 0 (v # vs) = (if move_if_noexcept R then spoiled R v else v) # vs"
  "left_behind R (Suc j) (v # vs) = (if move_if_noexcept R then moved_from R v else v) # left_behind R j vs"
  by (auto simp: left_behind_def split: list.split dest: arg_cong [of _ _ length])

lemma left_behind_throw:
  "\<not> nothrow_move R \<Longrightarrow> j < length vs \<Longrightarrow> left_behind R j vs =
    (if copyable R then vs else map (moved_from R) (take j vs) @ spoiled R (vs ! j) # drop (Suc j) vs)"
  by (simp add: left_behind_def move_if_noexcept_def Cons_nth_drop_Suc [symmetric])

lemma relocate_cases:
  assumes "buf a = Some b" "b \<in> blocks m" "slots m b = map Some us @ replicate k None" "dsize a = length us"
    and "length vs \<le> k" "b0 \<noteq> b" "b0 \<in> blocks m" "slots m b0 = map Some (ws @ vs) @ rest" "length ws = length us"
  shows "\<exists>r j m'. relocate E R (Some b0) (length vs) (m, a) = (r, m', a\<lparr>dsize := length us + j\<rparr>) \<and>
    slots m' = (slots m)(b := map Some (us @ take j vs) @ replicate (k - j) None,
      b0 := map Some (ws @ left_behind R j vs) @ rest) \<and> blocks m' = blocks m \<and>
    (r = Inr () \<and> j = length vs \<or> r = Inl User_exception \<and> j < length vs \<and> \<not> nothrow_move R)"
  using assms
proof (induction vs arbitrary: us ws k m a)
  case Nil
  then show ?case
    by (intro exI [of _ "Inr ()"] exI [of _ 0] exI [of _ m]) (auto simp: fun_upd_idem fun_upd_twist)
next
  case (Cons v vs)
  obtain k' where k: "k = Suc k'" using Cons.prems(5) by (cases k) auto
  have i: "dsize a < length (slots m b)" using Cons.prems k by simp
  have src: "read_at (Some b0) (dsize a) m = Inr v"
    using Cons.prems by (simp add: read_at_def nth_append)
  have upd: "(map Some (ws @ v # vs) @ rest)[dsize a := Some x] = map Some ((ws @ [x]) @ vs) @ rest" for x
    using Cons.prems by (simp add: list_update_append)
  show ?case
  proof (cases "constructs (relocation_env E R) (bclock m)")
    case True
    let ?m1 = "btick m\<lparr>slots := (slots m)(b := (slots m b)[dsize a := Some v])\<rparr>"
    let ?m = "set_source R (Some b0) (dsize a) (moved_from R v) ?m1"
    let ?a = "a\<lparr>dsize := Suc (dsize a)\<rparr>"
    let ?x = "if move_if_noexcept R then moved_from R v else v"
    have s: "slots ?m = (slots m)(b := map Some (us @ [v]) @ replicate k' None, b0 := map Some ((ws @ [?x]) @ vs) @ rest)"
      "blocks ?m = blocks m"
      using Cons.prems k list_update_raw [of us "replicate k' None" v] upd [of "moved_from R v"]
      by (auto simp: set_source_def fun_upd_idem)
    then have sb: "slots ?m b = map Some (us @ [v]) @ replicate k' None" "slots ?m b0 = map Some ((ws @ [?x]) @ vs) @ rest"
      using Cons.prems(6) by simp_all
    obtain r j m' where "relocate E R (Some b0) (length vs) (?m, ?a) = (r, m', ?a\<lparr>dsize := length (us @ [v]) + j\<rparr>)"
      "slots m' = (slots ?m)(b := map Some ((us @ [v]) @ take j vs) @ replicate (k' - j) None,
        b0 := map Some ((ws @ [?x]) @ left_behind R j vs) @ rest)" "blocks m' = blocks ?m"
      "r = Inr () \<and> j = length vs \<or> r = Inl User_exception \<and> j < length vs \<and> \<not> nothrow_move R"
      using Cons.IH [of ?a ?m "us @ [v]" k' "ws @ [?x]"] Cons.prems k s(2) sb by (auto simp del: fun_upd_apply)
    with True i Cons.prems k src s show ?thesis
      by (intro exI [of _ r] exI [of _ "Suc j"] exI [of _ m']) (auto simp: construct_at_def fun_upd_twist)
  next
    case False
    then have "\<not> nothrow_move R"
      by (auto simp: relocation_env_def)
    with False i Cons.prems src upd [of "spoiled R v"] show ?thesis
      by (intro exI [of _ "Inl User_exception"] exI [of _ 0]
          exI [of _ "set_source R (Some b0) (dsize a) (spoiled R v) (btick m)"])
        (auto simp: construct_at_def fun_upd_idem set_source_def)
  qed
qed

text \<open>The loop of \<open>reserve\<close>, from the old array \<open>a\<close> into a fresh block.\<close>

lemma relocate_fresh:
  assumes rep: "dyn_rep m a vs" and "b \<in> blocks m" "slots m b = replicate n None" "length vs \<le> n" "buf a \<noteq> Some b"
  shows "\<exists>r j m'. relocate E R (buf a) (length vs) (m, \<lparr>buf = Some b, dsize = 0, dcap = n\<rparr>) =
      (r, m', \<lparr>buf = Some b, dsize = j, dcap = n\<rparr>) \<and>
    dyn_rep m' \<lparr>buf = Some b, dsize = j, dcap = n\<rparr> (take j vs) \<and> dyn_rep m' a (left_behind R j vs) \<and> blocks m' = blocks m \<and>
    (r = Inr () \<and> j = length vs \<or> r = Inl User_exception \<and> j < length vs \<and> \<not> nothrow_move R)"
proof (cases "buf a")
  case None
  with assms show ?thesis
    by (intro exI [of _ "Inr ()"] exI [of _ 0] exI [of _ m]) (auto simp: dyn_rep_def)
next
  case (Some b0)
  let ?a = "\<lparr>buf = Some b, dsize = 0, dcap = n\<rparr>"
  have b0: "b0 \<noteq> b" "b0 \<in> blocks m" "slots m b0 = map Some ([] @ vs) @ replicate (dcap a - length vs) None"
    using Some assms by (auto simp: dyn_rep_def)
  obtain r j m' where "relocate E R (Some b0) (length vs) (m, ?a) = (r, m', ?a\<lparr>dsize := j\<rparr>)"
    "slots m' = (slots m)(b := map Some (take j vs) @ replicate (n - j) None,
      b0 := map Some (left_behind R j vs) @ replicate (dcap a - length vs) None)" "blocks m' = blocks m"
    "r = Inr () \<and> j = length vs \<or> r = Inl User_exception \<and> j < length vs \<and> \<not> nothrow_move R"
    using relocate_cases [of ?a b m "[]" n vs b0 "[]" _ E R, OF _ _ _ _ _ b0] assms by (auto simp del: fun_upd_apply)
  with Some assms b0 show ?thesis
    by (intro exI [of _ r] exI [of _ j] exI [of _ m']) (auto simp: dyn_rep_def)
qed

lemma reserve_cases:
  assumes "fresh_alloc E" and rep: "dyn_rep m a vs"
  obtains (enough) "n \<le> dcap a" "reserve E R n (m, a) = (Inr (), m, a)"
  | (bad_alloc) "dcap a < n" "allocate E (bclock m) (blocks m) = None"
      "reserve E R n (m, a) = (Inl Std_bad_alloc, btick m, a\<lparr>dcap := n, dsize := 0\<rparr>)"
  | (threw) m' j where "dcap a < n" "reserve E R n (m, a) = (Inl User_exception, m', a)" "\<not> nothrow_move R" "j < length vs"
      "dyn_rep m' a (left_behind R j vs)" "blocks m' = blocks m"
  | (moved) m' b where "dcap a < n" "reserve E R n (m, a) = (Inr (), m', \<lparr>buf = Some b, dsize = length vs, dcap = n\<rparr>)"
      "dyn_rep m' \<lparr>buf = Some b, dsize = length vs, dcap = n\<rparr> vs" "b \<notin> blocks m"
      "blocks m' = insert b (blocks m - set_option (buf a))"
proof (cases "n \<le> dcap a")
  case True
  with enough show thesis by (simp add: reserve_def)
next
  case False
  let ?a1 = "a\<lparr>dcap := n, dsize := 0\<rparr>"
  have len: "length vs \<le> n" "dsize a = length vs"
    using rep False by (auto simp: dyn_rep_def split: option.splits)
  from assms(1) show thesis
  proof (cases rule: alloc_block_cases [consumes 1, case_names failed allocated, of E n m])
    case failed
    with False bad_alloc show thesis by (simp add: reserve_def)
  next
    case (allocated b m1)
    let ?a = "\<lambda>j. \<lparr>buf = Some b, dsize = j, dcap = n\<rparr>"
    have a1: "?a1\<lparr>buf := Some b\<rparr> = ?a 0" by simp
    have other: "buf a \<noteq> Some b" and rep1: "dyn_rep m1 a vs"
      using rep allocated by (auto simp: dyn_rep_def split: option.splits)
    obtain r j m2 where loop: "relocate E R (buf a) (length vs) (m1, ?a 0) = (r, m2, ?a j)"
      "dyn_rep m2 (?a j) (take j vs)" "dyn_rep m2 a (left_behind R j vs)" "blocks m2 = blocks m1"
      "r = Inr () \<and> j = length vs \<or> r = Inl User_exception \<and> j < length vs \<and> \<not> nothrow_move R"
      using relocate_fresh [OF rep1 _ _ len(1) other, of E R] allocated(3,4) by auto
    have old: "b' \<in> blocks m" if "buf a = Some b'" for b'
      using that rep by (auto simp: dyn_rep_def)
    from loop(5) show thesis
    proof
      assume r: "r = Inr () \<and> j = length vs"
      obtain m3 where m3: "res_bind (destroy_down (buf a) (dsize a) (dsize a) m2) (dealloc_block (buf a) (dcap a)) = Inr m3"
        "blocks m3 = blocks m2 - set_option (buf a)" "\<forall>b. buf a \<noteq> Some b \<longrightarrow> slots m3 b = slots m2 b"
        using release_ok [OF loop(3)] by (auto simp: release_def dclear_def keep_first_n_def res_bind_Inr_iff)
      have "reserve E R n (m, a) = (Inr (), m3, ?a (length vs))"
        using False allocated(1) loop(1) r m3(1) len(2) by (simp add: reserve_def Let_def a1)
      moreover have "dyn_rep m3 (?a (length vs)) vs"
      proof (rule dyn_rep_frame [of m2])
        show "dyn_rep m2 (?a (length vs)) vs" using loop(2) r by simp
        have "b \<in> blocks m2" using loop(4) allocated(3) by simp
        then show "slots m3 b' = slots m2 b' \<and> b' \<in> blocks m3" if "buf (?a (length vs)) = Some b'" for b'
          using that m3(2,3) other by auto
      qed
      moreover have "blocks m3 = insert b (blocks m - set_option (buf a))"
        using m3(2) loop(4) allocated(3) other by auto
      ultimately show thesis
        using moved [of m3 b] False allocated(2) len by simp
    next
      assume r: "r = Inl User_exception \<and> j < length vs \<and> \<not> nothrow_move R"
      obtain m3 where m3: "release (m2, ?a j) = Inr (m3, \<lparr>buf = None, dsize = 0, dcap = 0\<rparr>)"
        "blocks m3 = blocks m2 - {b}" "\<forall>b'. b' \<noteq> b \<longrightarrow> slots m3 b' = slots m2 b'"
        using release_ok [OF loop(2)] by auto
      have "reserve E R n (m, a) = (Inl User_exception, m3, a)"
        using False allocated(1) loop(1) r m3(1) len(2) by (simp add: reserve_def Let_def rethrow_def a1)
      moreover have "dyn_rep m3 a (left_behind R j vs)"
        by (rule dyn_rep_frame [OF loop(3)]) (use other m3 old loop(4) allocated(2,3) in auto)
      moreover have "blocks m3 = blocks m" using m3(2) loop(4) allocated(2,3) by auto
      ultimately show thesis using threw [of m3 j] False r by simp
    qed
  qed
qed

lemma grow_bound: "0 < c \<Longrightarrow> c < n \<Longrightarrow> c < (n + c - 1) div c * c \<and> n \<le> (n + c - 1) div c * (c :: nat)"
proof -
  assume "0 < c" "c < n"
  have "(n + c - 1) mod c < c" using \<open>0 < c\<close> by simp
  moreover have "(n + c - 1) div c * c + (n + c - 1) mod c = n + c - 1" by simp
  ultimately have "n \<le> (n + c - 1) div c * c" using \<open>c < n\<close> by linarith
  with \<open>c < n\<close> show ?thesis by (meson less_le_trans)
qed

lemma grow_cases:
  assumes "fresh_alloc E" and rep: "dyn_rep m a vs"
  obtains (enough) "n \<le> dcap a" "grow E R n (m, a) = (Inr (), m, a)"
  | (bad_alloc) k where "dcap a < n" "allocate E (bclock m) (blocks m) = None"
      "grow E R n (m, a) = (Inl Std_bad_alloc, btick m, a\<lparr>dcap := k, dsize := 0\<rparr>)"
  | (threw) m' j where "dcap a < n" "grow E R n (m, a) = (Inl User_exception, m', a)" "\<not> nothrow_move R" "j < length vs"
      "dyn_rep m' a (left_behind R j vs)" "blocks m' = blocks m"
  | (moved) m' b k where "dcap a < n" "n \<le> k" "grow E R n (m, a) = (Inr (), m', \<lparr>buf = Some b, dsize = length vs, dcap = k\<rparr>)"
      "dyn_rep m' \<lparr>buf = Some b, dsize = length vs, dcap = k\<rparr> vs" "b \<notin> blocks m"
      "blocks m' = insert b (blocks m - set_option (buf a))"
proof (cases "n \<le> dcap a")
  case True
  then have "grow E R n (m, a) = (Inr (), m, a)" by (cases "dcap a = 0") (simp_all add: grow_def)
  with True enough show thesis by simp
next
  case False
  define k where "k = (if dcap a = 0 then n else (n + dcap a - 1) div dcap a * dcap a)"
  have k: "n \<le> k" "dcap a < k" using False grow_bound [of "dcap a" n] by (auto simp: k_def)
  have g: "grow E R n (m, a) =
      (case reserve E R k (m, a) of (r, s') \<Rightarrow> (res_bind r (\<lambda>_. gpcl_assert (n \<le> dcap (snd s'))), s'))"
    using False by (auto simp: grow_def k_def)
  from assms show thesis
  proof (cases rule: reserve_cases [consumes 2, case_names enough bad_alloc threw moved, of _ _ _ _ k R])
    case enough
    with k show thesis by simp
  next
    case bad_alloc
    with g False that(2) show thesis by simp
  next
    case (threw m' j)
    with g False that(3) show thesis by simp
  next
    case (moved m' b)
    with g False k that(4) show thesis by simp
  qed
qed

section \<open>Appending\<close>

text \<open>Once the array has room, the construction of the new element decides.\<close>

lemma append_in_place:
  assumes "dyn_rep m a vs" and "length vs < dcap a"
  shows "\<exists>m'. blocks m' = blocks m \<and>
    (construct_at E (buf a) (dsize a) v m = (Inr (), m') \<and> dyn_rep m' (a\<lparr>dsize := Suc (dsize a)\<rparr>) (vs @ [v]) \<or>
     construct_at E (buf a) (dsize a) v m = (Inl User_exception, m') \<and> dyn_rep m' a vs)"
proof -
  obtain b k where b: "buf a = Some b" "b \<in> blocks m" "dsize a = length vs" "dcap a - length vs = Suc k"
    "slots m b = map Some vs @ None # replicate k None"
    using assms by (cases "dcap a - length vs") (auto simp: dyn_rep_def split: option.splits)
  show ?thesis
  proof (cases "constructs E (bclock m)")
    case True
    let ?m = "btick m\<lparr>slots := (slots m)(b := (slots m b)[dsize a := Some v])\<rparr>"
    have "slots ?m b = map Some (vs @ [v]) @ replicate k None"
      using b list_update_raw [of vs "replicate k None" v] by simp
    moreover have "dcap a - length (vs @ [v]) = k" using b(4) by simp
    ultimately have "dyn_rep ?m (a\<lparr>dsize := Suc (dsize a)\<rparr>) (vs @ [v])"
      using b assms(2) by (simp add: dyn_rep_def)
    with True b show ?thesis by (intro exI [of _ ?m]) (simp add: construct_at_def)
  next
    case False
    with b assms(1) show ?thesis by (intro exI [of _ "btick m"]) (simp add: construct_at_def)
  qed
qed

definition dyn_state :: "'b env \<Rightarrow> 'v element_traits \<Rightarrow> ('b, 'v) dstate \<Rightarrow> 'v list \<Rightarrow> bool" where
  "dyn_state E R s vs \<longleftrightarrow> (nothrow_move R \<or> copyable R) \<and> fresh_alloc E \<and> total_alloc E \<and> finite (blocks (fst s)) \<and> dyn_rep (fst s) (snd s) vs"

lemma dpush_back_temporary:
  assumes "dyn_state E R (m, a) vs"
  shows "\<exists>r m' a'. dpush_back E R (Temporary v) (m, a) = (r, m', a') \<and>
    (case r of Inr _ \<Rightarrow> dyn_state E R (m', a') (vs @ [v]) | Inl e \<Rightarrow> throwable e \<and> dyn_state E R (m', a') vs)"
proof -
  have env: "fresh_alloc E" "total_alloc E" "finite (blocks m)" and keeps: "nothrow_move R \<or> copyable R"
    and rep: "dyn_rep m a vs"
    using assms by (simp_all add: dyn_state_def)
  have len: "dsize a = length vs" using rep by (simp add: dyn_rep_def)
  have alloc: "allocate E (bclock m) (blocks m) \<noteq> None" using env(2,3) by (simp add: total_alloc_def)
  have room: ?thesis
    if g: "grow E R (dsize a + 1) (m, a) = (Inr (), m1, a1)" and r1: "dyn_rep m1 a1 vs" "length vs < dcap a1"
      and fin: "finite (blocks m1)" for m1 a1
    using append_in_place [OF r1, of E v] g env fin keeps
    by (auto simp: dpush_back_def read_arg_def dyn_state_def throwable_def)
  from env(1) rep show ?thesis
  proof (cases rule: grow_cases [consumes 2, case_names enough bad_alloc threw moved, of _ _ _ _ "dsize a + 1" R])
    case enough
    with room rep env(3) len show ?thesis by auto
  next
    case bad_alloc
    with alloc show ?thesis by simp
  next
    case (threw m' j)
    then have "left_behind R j vs = vs"
      using keeps left_behind_throw [of R j vs] by auto
    with threw env keeps show ?thesis by (auto simp: dpush_back_def dyn_state_def throwable_def)
  next
    case (moved m' b k)
    with room env(3) len show ?thesis by auto
  qed
qed

interpretation dyn_back: back_inserter
  "dyn_state E R :: ('b, 'v) dstate \<Rightarrow> 'v list \<Rightarrow> bool" "\<lambda>v. dpush_back E R (Temporary v)" throwable
  for E :: "'b env" and R :: "'v element_traits"
proof unfold_locales
  fix s s' :: "('b, 'v) dstate" and vs v u e
  assume inv: "dyn_state E R s vs"
  obtain m a where s: "s = (m, a)" by (cases s)
  note cases = dpush_back_temporary [of E R m a vs v]
  show "dyn_state E R s' (vs @ [v])" if "dpush_back E R (Temporary v) s = (Inr u, s')"
    using cases inv s that by auto
  show "dyn_state E R s' vs \<and> throwable e" if "dpush_back E R (Temporary v) s = (Inl e, s')"
    using cases inv s that by auto
qed

section \<open>Properties\<close>

definition max_env :: "nat env" where
  "max_env = \<lparr>allocate = (\<lambda>t L. if Suc (Max (insert 0 L)) \<in> L then None else Some (Suc (Max (insert 0 L)))),
     constructs = (\<lambda>t. True)\<rparr>"

lemma max_env [simp]: "fresh_alloc max_env" "total_alloc max_env"
proof -
  show "fresh_alloc max_env" by (auto simp: fresh_alloc_def max_env_def split: if_splits)
  have "Suc (Max (insert 0 L)) \<notin> L" if "finite L" for L
  proof
    assume "Suc (Max (insert 0 L)) \<in> L"
    then have "Suc (Max (insert 0 L)) \<le> Max (insert 0 L)" using that by (intro Max_ge) auto
    then show False by simp
  qed
  then show "total_alloc max_env" by (auto simp: total_alloc_def max_env_def)
qed

definition small_bheap :: "(nat, nat) bheap" where
  "small_bheap = \<lparr>slots = (\<lambda>b. [Some 7, Some 8]), blocks = {5}, bclock = 0\<rparr>"

definition full_array :: "nat dynarray" where
  "full_array = \<lparr>buf = Some 5, dsize = 2, dcap = 2\<rparr>"

lemma full_array [simp]: "dyn_rep small_bheap full_array [7, 8]"
  by (simp add: dyn_rep_def small_bheap_def full_array_def)

text \<open>A request that the allocator refuses leaves the state of no array: its capacity exceeds its storage.\<close>

lemma lost_array:
  assumes "dyn_rep m a vs" "dcap a < n"
  shows "\<not> dyn_rep (btick m) (a\<lparr>dcap := n, dsize := 0\<rparr>) ws"
  using assms by (cases "buf a") (auto simp: dyn_rep_def dest!: arg_cong [where f = length])

text \<open>
  C25. What \<open>reserve\<close> does, in every case. If the capacity is sufficient, nothing. Otherwise, on success,
  all elements are in a new block of exactly the requested capacity and the old block, and nothing else,
  has been released. If an element constructor throws, which a move constructor declared \<open>noexcept\<close>
  does not, the new block is released and the array has its old block, size and capacity; its elements
  are unchanged if the type can be copied, and otherwise those before the one that threw are in their
  moved-from state and that one is as the constructor left it. If the allocator throws, the array is
  lost: size and capacity have been overwritten before, and the state is not that of any array.
\<close>

theorem dyn_reserve:
  assumes "fresh_alloc E" and "dyn_rep m a vs"
  shows "case reserve E R n (m, a) of
      (Inr _, m', a') \<Rightarrow> dyn_rep m' a' vs \<and>
        (if n \<le> dcap a then m' = m \<and> a' = a
         else dcap a' = n \<and>
           (\<exists>b. b \<notin> blocks m \<and> buf a' = Some b \<and> blocks m' = insert b (blocks m - set_option (buf a))))
    | (Inl e, m', a') \<Rightarrow> dcap a < n \<and> blocks m' = blocks m \<and>
        (e = User_exception \<and> \<not> nothrow_move R \<and> a' = a \<and>
           (if copyable R then dyn_rep m' a vs
            else \<exists>j < length vs. dyn_rep m' a (map (moved_from R) (take j vs) @ spoiled R (vs ! j) # drop (Suc j) vs)) \<or>
         e = Std_bad_alloc \<and> allocate E (bclock m) (blocks m) = None \<and>
           dsize a' = 0 \<and> dcap a' = n \<and> buf a' = buf a \<and> (\<nexists>ws. dyn_rep m' a' ws))"
  using assms
proof (cases rule: reserve_cases [consumes 2, case_names enough bad_alloc threw moved, of _ _ _ _ n R])
  case enough
  with assms(2) show ?thesis by simp
next
  case bad_alloc
  with lost_array [OF assms(2)] show ?thesis by simp
next
  case (threw m' j)
  then show ?thesis using left_behind_throw [of R j vs] by auto
next
  case (moved m' b)
  then show ?thesis by simp
qed

definition copied_ints :: "nat element_traits" where
  "copied_ints = \<lparr>nothrow_move = False, copyable = True, moved_from = (\<lambda>_. 0), spoiled = (\<lambda>_. 1)\<rparr>"

theorem dyn_reserve_witness:
  "\<exists>m' a' b. reserve max_env copied_ints 4 (small_bheap, full_array) = (Inr (), m', a') \<and> dyn_rep m' a' [7, 8] \<and>
     dcap a' = 4 \<and> b \<noteq> 5 \<and> buf a' = Some b \<and> blocks m' = {b}"
proof -
  let ?r = "reserve max_env copied_ints 4 (small_bheap, full_array)"
  have "fst ?r = Inr ()"
    by (simp add: reserve_def full_array_def small_bheap_def alloc_block_def max_env_def Let_def numeral_2_eq_2 read_at_def
        construct_at_def relocation_env_def set_source_def copied_ints_def move_if_noexcept_def btick_def
        destroy_at_def dealloc_block_def numeral_eq_Suc)
  then obtain m' a' where run: "?r = (Inr (), m', a')"
    by (cases ?r) auto
  from dyn_reserve [OF max_env(1) full_array, of 4 copied_ints] run show ?thesis
    by (auto simp: full_array_def small_bheap_def)
qed

text \<open>
  Appending a sequence of values one by one, with an allocator that does not run out and elements that
  can be copied or moved without throwing: afterwards
  the array holds the old elements followed by all the new ones, or, when an element constructor
  threw, by those appended before it; the array is well formed in either case.
\<close>

lemma dyn_push_all:
  assumes "fresh_alloc E" and "total_alloc E" and "finite (blocks m)" and "dyn_rep m a us" and "nothrow_move R \<or> copyable R"
  shows "case push_all (\<lambda>v. dpush_back E R (Temporary v)) vs (m, a) of
      (Inr _, m', a') \<Rightarrow> dyn_rep m' a' (us @ vs)
    | (Inl e, m', a') \<Rightarrow> throwable e \<and> (\<exists>k < length vs. dyn_rep m' a' (us @ take k vs))"
proof -
  have inv: "dyn_state E R (m, a) us" using assms by (simp add: dyn_state_def)
  obtain r s where run: "push_all (\<lambda>v. dpush_back E R (Temporary v)) vs (m, a) = (r, s)"
    by (metis prod.exhaust)
  show ?thesis
  proof (cases r)
    case (Inl e)
    with run dyn_back.push_all_fails [OF inv, of vs e s] show ?thesis
      by (auto simp: dyn_state_def split: prod.splits)
  next
    case (Inr u)
    with run dyn_back.push_all_ok [OF inv, of vs u s] show ?thesis
      by (auto simp: dyn_state_def split: prod.splits)
  qed
qed

text \<open>
  \<open>push_back(a[i])\<close>, appending an element of the array itself to a full array, reads a released
  block: whenever growing succeeds, the reference is followed only after the elements have moved.
\<close>

lemma dyn_push_back_own_element:
  assumes "fresh_alloc E" and "dyn_rep m a vs" and "buf a = Some b" and "length vs = dcap a"
    and "fst (grow E R (dsize a + 1) (m, a)) = Inr ()"
  shows "\<exists>m' a'. dpush_back E R (Reference b i) (m, a) = (Inl Undefined_behaviour, m', a')"
proof -
  have len: "dsize a = length vs" and old: "b \<in> blocks m" using assms(2,3) by (simp_all add: dyn_rep_def)
  from assms(1,2) show ?thesis
  proof (cases rule: grow_cases [consumes 2, case_names enough bad_alloc threw moved, of _ _ _ _ "dsize a + 1" R])
    case (moved m' b' k)
    then have "b \<notin> blocks m'" using old assms(3) by auto
    with moved show ?thesis by (auto simp: dpush_back_def read_arg_def read_at_def)
  qed (use assms len in auto)
qed

text \<open>
  \<open>pop_back\<close> constructs an element behind the last one instead of destroying the last one: on a
  full array that writes past the end of the storage, and otherwise it leaves two elements alive in
  slots the array takes to be raw.
\<close>

lemma dyn_pop_back_wrong:
  assumes "dyn_rep m a vs" and "vs \<noteq> []" and "\<forall>t. constructs E t"
  shows "if length vs = dcap a then dpop_back E d (m, a) = (Inl Undefined_behaviour, m, a)
    else \<exists>m' a' b. dpop_back E d (m, a) = (Inr (), m', a') \<and> buf a' = Some b \<and> dsize a' = length vs - 1 \<and>
      slots m' b ! (length vs - 1) = Some (last vs) \<and> slots m' b ! length vs = Some d"
proof -
  obtain b where b: "buf a = Some b" "b \<in> blocks m" "length vs \<le> dcap a" "dsize a = length vs"
    "slots m b = map Some vs @ replicate (dcap a - length vs) None"
    using assms(1,2) by (auto simp: dyn_rep_def split: option.splits)
  show ?thesis
  proof (cases "length vs = dcap a")
    case True
    with b show ?thesis by (simp add: dpop_back_def construct_at_def)
  next
    case False
    with b(3) have lt: "length vs < dcap a" by simp
    have "(slots m b)[length vs := Some d] ! (length vs - 1) = Some (last vs)"
      using assms(2) b(5) by (cases vs rule: rev_cases) (simp_all add: nth_append list_update_append)
    with False lt b assms(3) show ?thesis by (simp add: dpop_back_def construct_at_def)
  qed
qed

text \<open>
  Assignment from a range has the strong guarantee against every exception when it builds a
  temporary: it either leaves the array with exactly the new elements and the old storage released,
  or throws with the array and the set of allocated blocks unchanged.  \<open>shrink_to_fit\<close> is the same
  operation on the array's own elements.
\<close>

lemma dyn_assign_by_swap:
  assumes "fresh_alloc E" and "dyn_rep m a us"
  shows "case assign_by_swap E vs (m, a) of
      (Inr _, m', a') \<Rightarrow> dyn_rep m' a' vs \<and> dcap a' = length vs \<and>
        blocks m' = (blocks m - set_option (buf a)) \<union> set_option (buf a')
    | (Inl e, m', a') \<Rightarrow> throwable e \<and> a' = a \<and> dyn_rep m' a us \<and> blocks m' = blocks m"
proof -
  obtain r m1 tmp where new: "from_range E vs m = (r, m1, tmp)" "\<forall>b' \<in> blocks m. slots m1 b' = slots m b'"
    "case r of Inr _ \<Rightarrow> dyn_rep m1 tmp vs \<and> dcap tmp = length vs \<and>
         (\<exists>b. buf tmp = Some b \<and> b \<notin> blocks m \<and> blocks m1 = insert b (blocks m))
     | Inl e \<Rightarrow> throwable e \<and> blocks m1 = blocks m"
    using from_range_cases [OF assms(1), of vs m] by blast
  have owned: "b \<in> blocks m" if "buf a = Some b" for b using that assms(2) by (simp add: dyn_rep_def)
  show ?thesis
  proof (cases r)
    case (Inl e)
    have "dyn_rep m1 a us"
      by (rule dyn_rep_frame [OF assms(2)]) (use new owned Inl in auto)
    with new Inl show ?thesis by (simp add: assign_by_swap_def)
  next
    case (Inr u)
    then obtain b where b: "dyn_rep m1 tmp vs" "dcap tmp = length vs" "buf tmp = Some b" "b \<notin> blocks m"
      "blocks m1 = insert b (blocks m)"
      using new by auto
    have old: "dyn_rep m1 a us"
      by (rule dyn_rep_frame [OF assms(2)]) (use new b owned in auto)
    obtain m2 where m2: "release (m1, a) = Inr (m2, \<lparr>buf = None, dsize = 0, dcap = 0\<rparr>)"
      "blocks m2 = blocks m1 - set_option (buf a)" "\<forall>b. buf a \<noteq> Some b \<longrightarrow> slots m2 b = slots m1 b"
      using release_ok [OF old] by blast
    have ne: "buf a \<noteq> Some b" using owned b(4) by blast
    have "dyn_rep m2 tmp vs"
      by (rule dyn_rep_frame [OF b(1)]) (use m2 b ne in \<open>auto split: option.splits\<close>)
    moreover have "blocks m2 = (blocks m - set_option (buf a)) \<union> {b}" using m2(2) b(5) ne by auto
    ultimately show ?thesis using new(1) Inr m2(1) b(2,3) by (simp add: assign_by_swap_def dswap_def)
  qed
qed

end
