(* ===== verification/Threads.thy ===== *)
theory Threads
  imports Gpcl_Prelude
begin

text \<open>
  What the models of concurrent components share: the threads of a system are a list, one of them
  takes a step at a time, and invariants speak about the sum of a weight over all threads.
\<close>

definition tally :: "('t \<Rightarrow> nat) \<Rightarrow> 't list \<Rightarrow> nat" where
  "tally f ts = sum_list (map f ts)"

lemma tally_update:
  assumes "i < length ts"
  shows "tally f (ts[i := t]) + f (ts ! i) = tally f ts + f t"
proof -
  have "sum_list (map f ts) \<ge> f (ts ! i)" using assms by (simp add: member_le_sum_list)
  then show ?thesis using assms by (simp add: tally_def map_update sum_list_update)
qed

lemma tally_le: "i < length ts \<Longrightarrow> f (ts ! i) \<le> tally f ts"
  by (simp add: tally_def member_le_sum_list)

lemma tally_mono: "(\<And>t. f t \<le> g t) \<Longrightarrow> tally f ts \<le> tally g ts"
  by (induction ts) (auto simp: tally_def intro: add_mono)

lemma tally_split: "i < length ts \<Longrightarrow> tally f ts = (tally f ts - f (ts ! i)) + f (ts ! i)"
  using tally_le [of i ts f] by simp

lemma tally_update_split: "i < length ts \<Longrightarrow> tally f (ts[i := t]) = (tally f ts - f (ts ! i)) + f t"
  using tally_update [of i ts f t] tally_le [of i ts f] by linarith

lemma tally_rest_mono:
  assumes "i < length ts" and "\<And>t. f t \<le> g t"
  shows "tally f ts - f (ts ! i) \<le> tally g ts - g (ts ! i)"
proof -
  have "tally h ts - h (ts ! i) = tally h (take i ts @ drop (Suc i) ts)" for h
    using arg_cong [OF id_take_nth_drop [OF assms(1)], of "tally h"] by (simp add: tally_def)
  then show ?thesis using tally_mono [OF assms(2)] by simp
qed

lemma tally_const: "(\<And>t. t \<in> set ts \<Longrightarrow> f t = 0) \<Longrightarrow> tally f ts = 0"
  by (simp add: tally_def)

lemma tally_zero_iff: "tally f ts = 0 \<longleftrightarrow> (\<forall>t \<in> set ts. f t = 0)"
  by (simp add: tally_def sum_list_eq_0_iff)

lemma tally_positive: "0 < tally f ts \<longleftrightarrow> (\<exists>i < length ts. 0 < f (ts ! i))"
  using tally_zero_iff [of f ts] by (auto simp: all_set_conv_all_nth)

lemma tally_map: "tally f (map g ts) = tally (f \<circ> g) ts"
  by (simp add: tally_def)

lemma tally_one:
  assumes "tally f ts \<le> 1" "i < length ts" "j < length ts" "0 < f (ts ! i)" "0 < f (ts ! j)"
  shows "i = j"
proof (rule ccontr)
  assume ne: "i \<noteq> j"
  let ?g = "\<lambda>k. f (ts ! k)"
  have "?g i + ?g j = sum ?g {i, j}" using ne by simp
  also have "\<dots> \<le> sum ?g {0..<length ts}" using assms(2,3) by (intro sum_mono2) auto
  also have "\<dots> = tally f ts" by (simp add: tally_def sum_list_sum_nth)
  finally show False using assms by simp
qed

end
