(* ===== verification/Ref_Count.thy ===== *)
theory Ref_Count
  imports Threads
begin

text \<open>
  The control block behind \<open>shared_ptr\<close> and \<open>weak_ptr\<close> (\<open>detail/ref_count_base.hpp\<close>): two atomic
  counters and the operations on them.  The operations are given twice: as functions for the
  sequential components, and as sequences of atomic steps executed by any number of threads, each
  atomic load, read-modify-write, destruction and deletion being one step, with spurious failures of
  the weak compare-and-exchange.  Steps interleave in any order (sequential consistency); the
  \<open>long\<close> counters are unbounded integers, since every count is backed by an object in memory.
\<close>

record cblock =
  use :: int
  weak :: int
  destroyed :: bool
  deleted :: bool
  destructions :: nat
  deletions :: nat

definition new_cblock :: cblock where
  "new_cblock = \<lparr>use = 1, weak = 1, destroyed = False, deleted = False, destructions = 0, deletions = 0\<rparr>"

section \<open>Sequential operations\<close>

text \<open>
  \<open>destroy_managed_object\<close> invokes the deleter if the pointer is not null and then clears the pointer
  (\<open>destroyed\<close> is the cleared pointer); \<open>delete_control_block\<close> checks both counters, runs the destructor of
  the block, which does the same, and releases the memory. How often the deleter has run and the memory
  has been released is counted in \<open>destructions\<close> and \<open>deletions\<close>.
\<close>

definition destroy_object :: "cblock \<Rightarrow> cblock res" where
  "destroy_object b = (if deleted b then Inl Undefined_behaviour
     else res_bind (gpcl_assert (use b = 0)) (\<lambda>_.
       if \<not> destroyed b then Inr (b\<lparr>destroyed := True, destructions := destructions b + 1\<rparr>) else Inr b))"

definition delete_block :: "cblock \<Rightarrow> cblock res" where
  "delete_block b = (if deleted b then Inl Undefined_behaviour
     else res_bind (gpcl_assert (use b = 0)) (\<lambda>_.
          res_bind (gpcl_assert (weak b = 0)) (\<lambda>_.
          res_bind (destroy_object b) (\<lambda>b1. Inr (b1\<lparr>deleted := True, deletions := deletions b1 + 1\<rparr>)))))"

definition rc_get :: "cblock \<Rightarrow> cblock res" where
  "rc_get b = (if deleted b then Inl Undefined_behaviour
     else res_bind (gpcl_assert (use b > 0)) (\<lambda>_. Inr (b\<lparr>use := use b + 1\<rparr>)))"

definition rc_put :: "cblock \<Rightarrow> cblock res" where
  "rc_put b = (if deleted b then Inl Undefined_behaviour
     else res_bind (gpcl_assert (use b > 0)) (\<lambda>_.
       let b1 = b\<lparr>use := use b - 1\<rparr>
       in if use b = 1
          then res_bind (destroy_object b1) (\<lambda>b2.
                 let b3 = b2\<lparr>weak := weak b2 - 1\<rparr>
                 in if weak b2 = 1 then delete_block b3 else Inr b3)
          else Inr b1))"

definition rc_weak_get :: "cblock \<Rightarrow> cblock res" where
  "rc_weak_get b = (if deleted b then Inl Undefined_behaviour
     else res_bind (gpcl_assert (weak b > 0)) (\<lambda>_. Inr (b\<lparr>weak := weak b + 1\<rparr>)))"

definition rc_weak_put :: "cblock \<Rightarrow> cblock res" where
  "rc_weak_put b = (if deleted b then Inl Undefined_behaviour
     else res_bind (gpcl_assert (weak b > 0)) (\<lambda>_.
       let b1 = b\<lparr>weak := weak b - 1\<rparr>
       in if weak b = 1 then res_bind (gpcl_assert (use b1 = 0)) (\<lambda>_. delete_block b1) else Inr b1))"

definition rc_lock :: "cblock \<Rightarrow> (bool \<times> cblock) res" where
  "rc_lock b = (if deleted b then Inl Undefined_behaviour
     else res_bind (gpcl_assert (weak b > 0)) (\<lambda>_.
       if use b > 0 then Inr (True, b\<lparr>use := use b + 1\<rparr>) else Inr (False, b)))"

section \<open>Atomic steps\<close>

text \<open>Where a thread is inside an operation; \<open>Lock2 old\<close> is the loop head with its local variable.\<close>

datatype pc =
    Idle
  | Get0 | Get1
  | Put0 | Put1 | Put2 | Put3 | Put4
  | Wget0 | Wget1
  | Wput0 | Wput1 | Wput2 | Wput3
  | Lock0 | Lock1 | Lock2 int

text \<open>A thread owns strong and weak handles (\<open>shared_ptr\<close> and \<open>weak_ptr\<close> objects).\<close>

record thread =
  pos :: pc
  strong :: nat
  weaks :: nat

definition goto :: "pc \<Rightarrow> thread \<Rightarrow> cblock \<Rightarrow> (thread \<times> cblock) res" where
  "goto q t b = Inr (t\<lparr>pos := q\<rparr>, b)"

text \<open>One step of a thread; \<open>spurious\<close> makes the compare-and-exchange fail.\<close>

fun exec :: "bool \<Rightarrow> pc \<Rightarrow> thread \<Rightarrow> cblock \<Rightarrow> (thread \<times> cblock) res" where
  "exec spurious Idle t b = Inr (t, b)"
| "exec spurious Get0 t b = res_bind (gpcl_assert (use b > 0)) (\<lambda>_. goto Get1 t b)"
| "exec spurious Get1 t b = goto Idle (t\<lparr>strong := strong t + 1\<rparr>) (b\<lparr>use := use b + 1\<rparr>)"
| "exec spurious Put0 t b = res_bind (gpcl_assert (use b > 0)) (\<lambda>_. goto Put1 t b)"
| "exec spurious Put1 t b =
     goto (if use b = 1 then Put2 else Idle) (t\<lparr>strong := strong t - 1\<rparr>) (b\<lparr>use := use b - 1\<rparr>)"
| "exec spurious Put2 t b = res_bind (destroy_object b) (goto Put3 t)"
| "exec spurious Put3 t b = goto (if weak b = 1 then Put4 else Idle) t (b\<lparr>weak := weak b - 1\<rparr>)"
| "exec spurious Put4 t b = res_bind (delete_block b) (goto Idle t)"
| "exec spurious Wget0 t b = res_bind (gpcl_assert (weak b > 0)) (\<lambda>_. goto Wget1 t b)"
| "exec spurious Wget1 t b = goto Idle (t\<lparr>weaks := weaks t + 1\<rparr>) (b\<lparr>weak := weak b + 1\<rparr>)"
| "exec spurious Wput0 t b = res_bind (gpcl_assert (weak b > 0)) (\<lambda>_. goto Wput1 t b)"
| "exec spurious Wput1 t b =
     goto (if weak b = 1 then Wput2 else Idle) (t\<lparr>weaks := weaks t - 1\<rparr>) (b\<lparr>weak := weak b - 1\<rparr>)"
| "exec spurious Wput2 t b = res_bind (gpcl_assert (use b = 0)) (\<lambda>_. goto Wput3 t b)"
| "exec spurious Wput3 t b = res_bind (delete_block b) (goto Idle t)"
| "exec spurious Lock0 t b = res_bind (gpcl_assert (weak b > 0)) (\<lambda>_. goto Lock1 t b)"
| "exec spurious Lock1 t b = goto (Lock2 (use b)) t b"
| "exec spurious (Lock2 old) t b =
     (if old > 0
      then if use b = old \<and> \<not> spurious
           then goto Idle (t\<lparr>strong := strong t + 1\<rparr>) (b\<lparr>use := use b + 1\<rparr>)
           else goto (Lock2 (use b)) t b
      else goto Idle t b)"

text \<open>Touching the counters of a deleted control block is undefined behaviour.\<close>

definition thread_step :: "bool \<Rightarrow> thread \<Rightarrow> cblock \<Rightarrow> (thread \<times> cblock) res" where
  "thread_step spurious t b = (if deleted b then Inl Undefined_behaviour else exec spurious (pos t) t b)"

text \<open>
  What a thread may begin: it copies or drops a \<open>shared_ptr\<close> it owns, makes a \<open>weak_ptr\<close> from a handle
  it owns, drops or locks a \<open>weak_ptr\<close> it owns.
\<close>

definition may_start :: "thread \<Rightarrow> pc \<Rightarrow> bool" where
  "may_start t q \<longleftrightarrow> pos t = Idle \<and>
     (q = Get0 \<and> strong t > 0 \<or> q = Put0 \<and> strong t > 0 \<or>
      q = Wget0 \<and> (strong t > 0 \<or> weaks t > 0) \<or>
      q = Wput0 \<and> weaks t > 0 \<or> q = Lock0 \<and> weaks t > 0)"

type_synonym system = "thread list \<times> cblock"

text \<open>Handles may also be passed from an idle thread to another one (moves).\<close>

inductive sys_step :: "system \<Rightarrow> system res \<Rightarrow> bool" where
  start: "i < length ts \<Longrightarrow> may_start (ts ! i) q \<Longrightarrow>
    sys_step (ts, b) (Inr (ts[i := (ts ! i)\<lparr>pos := q\<rparr>], b))"
| run: "i < length ts \<Longrightarrow> pos (ts ! i) \<noteq> Idle \<Longrightarrow> thread_step spurious (ts ! i) b = Inr (t', b') \<Longrightarrow>
    sys_step (ts, b) (Inr (ts[i := t'], b'))"
| fault: "i < length ts \<Longrightarrow> pos (ts ! i) \<noteq> Idle \<Longrightarrow> thread_step spurious (ts ! i) b = Inl e \<Longrightarrow>
    sys_step (ts, b) (Inl e)"
| give_strong: "i < length ts \<Longrightarrow> j < length ts \<Longrightarrow> i \<noteq> j \<Longrightarrow> pos (ts ! i) = Idle \<Longrightarrow> strong (ts ! i) > 0 \<Longrightarrow>
    sys_step (ts, b) (Inr (ts[i := (ts ! i)\<lparr>strong := strong (ts ! i) - 1\<rparr>,
                             j := (ts ! j)\<lparr>strong := strong (ts ! j) + 1\<rparr>], b))"
| give_weak: "i < length ts \<Longrightarrow> j < length ts \<Longrightarrow> i \<noteq> j \<Longrightarrow> pos (ts ! i) = Idle \<Longrightarrow> weaks (ts ! i) > 0 \<Longrightarrow>
    sys_step (ts, b) (Inr (ts[i := (ts ! i)\<lparr>weaks := weaks (ts ! i) - 1\<rparr>,
                             j := (ts ! j)\<lparr>weaks := weaks (ts ! j) + 1\<rparr>], b))"

inductive reachable :: "system \<Rightarrow> bool" where
  init: "i < n \<Longrightarrow>
    reachable (map (\<lambda>k. \<lparr>pos = Idle, strong = (if k = i then 1 else 0), weaks = 0\<rparr>) [0..<n], new_cblock)"
| step: "reachable s \<Longrightarrow> sys_step s (Inr s') \<Longrightarrow> reachable s'"

inductive_cases sys_step_Inr [consumes 1, case_names start run give_strong give_weak]:
  "sys_step (ts, b) (Inr s')"
inductive_cases sys_step_Inl: "sys_step s (Inl e)"

text \<open>A thread that runs an operation to its end without interference.\<close>

fun run_alone :: "nat \<Rightarrow> thread \<Rightarrow> cblock \<Rightarrow> (thread \<times> cblock) res" where
  "run_alone 0 t b = Inr (t, b)"
| "run_alone (Suc n) t b =
     (if pos t = Idle then Inr (t, b)
      else res_bind (thread_step False t b) (\<lambda>(t', b'). run_alone n t' b'))"

definition seq_op :: "pc \<Rightarrow> cblock \<Rightarrow> cblock res" where
  "seq_op q b = (case q of
      Get0 \<Rightarrow> rc_get b | Put0 \<Rightarrow> rc_put b | Wget0 \<Rightarrow> rc_weak_get b | Wput0 \<Rightarrow> rc_weak_put b
    | Lock0 \<Rightarrow> res_bind (rc_lock b) (\<lambda>(_, b'). Inr b') | _ \<Rightarrow> Inr b)"

section \<open>The invariant\<close>

text \<open>A thread on its way from the last decrement of the use count to the decrement of the weak count.\<close>

definition finishing :: "thread \<Rightarrow> nat" where
  "finishing t = (if pos t = Put2 \<or> pos t = Put3 then 1 else 0)"

definition destroying :: "thread \<Rightarrow> nat" where
  "destroying t = (if pos t = Put2 then 1 else 0)"

definition deleting :: "thread \<Rightarrow> nat" where
  "deleting t = (if pos t = Put4 \<or> pos t = Wput2 \<or> pos t = Wput3 then 1 else 0)"

definition pos_ok :: "thread \<Rightarrow> bool" where
  "pos_ok t \<longleftrightarrow> (case pos t of
      Get0 \<Rightarrow> strong t > 0 | Get1 \<Rightarrow> strong t > 0
    | Put0 \<Rightarrow> strong t > 0 | Put1 \<Rightarrow> strong t > 0
    | Wget0 \<Rightarrow> strong t > 0 \<or> weaks t > 0 | Wget1 \<Rightarrow> strong t > 0 \<or> weaks t > 0
    | Wput0 \<Rightarrow> weaks t > 0 | Wput1 \<Rightarrow> weaks t > 0
    | Lock0 \<Rightarrow> weaks t > 0 | Lock1 \<Rightarrow> weaks t > 0 | Lock2 old \<Rightarrow> weaks t > 0
    | _ \<Rightarrow> True)"

text \<open>
  The use count is the number of strong handles.  The weak count is the number of weak handles plus
  one for all strong handles together, which the thread that destroys the object gives up.
\<close>

definition counts_ok :: "nat \<Rightarrow> nat \<Rightarrow> nat \<Rightarrow> nat \<Rightarrow> nat \<Rightarrow> cblock \<Rightarrow> bool" where
  "counts_ok S W F D X b \<longleftrightarrow>
     use b = int S \<and> weak b = int W + (if use b > 0 then 1 else int F) \<and>
     F \<le> (if use b > 0 then 0 else 1) \<and> D \<le> F \<and>
     (destroyed b \<longleftrightarrow> use b = 0 \<and> D = 0) \<and>
     destructions b = (if destroyed b then 1 else 0) \<and> deletions b = (if deleted b then 1 else 0) \<and>
     X + (if deleted b then 1 else 0) = (if weak b = 0 then 1 else 0)"

definition sys_inv :: "system \<Rightarrow> bool" where
  "sys_inv s \<longleftrightarrow> (case s of (ts, b) \<Rightarrow>
     (\<forall>t \<in> set ts. pos_ok t) \<and>
     counts_ok (tally strong ts) (tally weaks ts) (tally finishing ts) (tally destroying ts) (tally deleting ts) b)"

lemma finishing_destroying: "destroying t \<le> finishing t"
  by (simp add: finishing_def destroying_def)

text \<open>
  One step of one thread, with the contributions of all other threads (\<open>S\<close>, \<open>W\<close>, \<open>F\<close>, \<open>D\<close>, \<open>X\<close>)
  kept abstract: it does not fault and re-establishes the counting equations.
\<close>

lemmas exec_simps = goto_def destroy_object_def delete_block_def thread_step_def

lemma exec_ok:
  assumes "counts_ok (S + strong t) (W + weaks t) (F + finishing t) (D + destroying t) (X + deleting t) b"
    and "pos_ok t" and "pos t \<noteq> Idle" and "D \<le> F"
  shows "case thread_step sp t b of Inl e \<Rightarrow> False | Inr (t', b') \<Rightarrow> pos_ok t' \<and>
    counts_ok (S + strong t') (W + weaks t') (F + finishing t') (D + destroying t') (X + deleting t') b'"
proof (cases "pos t")
  case Idle
  with assms(3) show ?thesis by simp
qed (use assms in \<open>auto simp: exec_simps counts_ok_def pos_ok_def finishing_def destroying_def deleting_def
      split: if_splits\<close>)

lemma run_ok:
  assumes "sys_inv (ts, b)" and i: "i < length ts" and "pos (ts ! i) \<noteq> Idle"
  shows "case thread_step sp (ts ! i) b of Inl e \<Rightarrow> False | Inr (t', b') \<Rightarrow> sys_inv (ts[i := t'], b')"
proof -
  let ?r = "\<lambda>f. tally f ts - f (ts ! i)"
  have ok: "pos_ok (ts ! i)" using assms(1) i by (simp add: sys_inv_def)
  have inv: "counts_ok (?r strong + strong (ts ! i)) (?r weaks + weaks (ts ! i)) (?r finishing + finishing (ts ! i))
      (?r destroying + destroying (ts ! i)) (?r deleting + deleting (ts ! i)) b"
    using assms(1) by (simp add: sys_inv_def tally_split [OF i, symmetric])
  have "?r destroying \<le> ?r finishing" by (rule tally_rest_mono [OF i finishing_destroying])
  from exec_ok [OF inv ok assms(3) this, of sp] show ?thesis
    using assms(1)
    by (auto simp: sys_inv_def tally_update_split [OF i] dest!: set_update_subset_insert [THEN subsetD]
        split: sum.splits)
qed

lemma start_ok:
  assumes "sys_inv (ts, b)" and i: "i < length ts" and "may_start (ts ! i) q"
  shows "sys_inv (ts[i := (ts ! i)\<lparr>pos := q\<rparr>], b)"
proof -
  have "tally f (ts[i := (ts ! i)\<lparr>pos := q\<rparr>]) = tally f ts"
    if "f ((ts ! i)\<lparr>pos := q\<rparr>) = f (ts ! i)" for f
    using tally_update_split [OF i, of f] tally_split [OF i, of f] that by simp
  moreover have "pos_ok ((ts ! i)\<lparr>pos := q\<rparr>)" using assms(3) by (auto simp: may_start_def pos_ok_def)
  ultimately show ?thesis
    using assms
    by (auto simp: sys_inv_def may_start_def finishing_def destroying_def deleting_def
        dest!: set_update_subset_insert [THEN subsetD])
qed

lemma give_total:
  assumes "i < length ts" and "j < length ts" and "i \<noteq> j"
    and "f t + f u = f (ts ! i) + f (ts ! j)"
  shows "tally f (ts[i := t, j := u]) = tally f ts"
  using tally_update [of i ts f t] tally_update [of j "ts[i := t]" f u] assms by simp

lemma pos_ok_more: "pos_ok t \<Longrightarrow> pos_ok (t\<lparr>strong := Suc (strong t)\<rparr>) \<and> pos_ok (t\<lparr>weaks := Suc (weaks t)\<rparr>)"
  by (auto simp: pos_ok_def split: pc.splits)

lemma give_ok:
  assumes "sys_inv (ts, b)" and ij: "i < length ts" "j < length ts" "i \<noteq> j" and "pos (ts ! i) = Idle"
  shows "strong (ts ! i) > 0 \<Longrightarrow>
      sys_inv (ts[i := (ts ! i)\<lparr>strong := strong (ts ! i) - 1\<rparr>, j := (ts ! j)\<lparr>strong := strong (ts ! j) + 1\<rparr>], b)"
    and "weaks (ts ! i) > 0 \<Longrightarrow>
      sys_inv (ts[i := (ts ! i)\<lparr>weaks := weaks (ts ! i) - 1\<rparr>, j := (ts ! j)\<lparr>weaks := weaks (ts ! j) + 1\<rparr>], b)"
  using assms pos_ok_more [of "ts ! j"]
  by (auto simp: sys_inv_def give_total finishing_def destroying_def deleting_def pos_ok_def
      dest!: set_update_subset_insert [THEN subsetD])

lemma init_inv:
  assumes "i < n"
  shows "sys_inv (map (\<lambda>k. \<lparr>pos = Idle, strong = (if k = i then 1 else 0), weaks = 0\<rparr>) [0..<n], new_cblock)"
    (is "sys_inv (?ts, _)")
proof -
  have "tally strong ?ts = (\<Sum>k \<in> {0..<n}. if k = i then 1 else 0)"
    unfolding tally_def list.map_comp comp_def by (simp only: thread.simps interv_sum_list_conv_sum_set_nat set_upt)
  also have "\<dots> = 1" using assms by simp
  finally have "tally strong ?ts = 1" .
  moreover have "tally f ?ts = 0" if "f \<in> {weaks, finishing, destroying, deleting}" for f
    using that by (intro tally_const) (auto simp: finishing_def destroying_def deleting_def)
  ultimately show ?thesis by (auto simp: sys_inv_def counts_ok_def pos_ok_def new_cblock_def)
qed

lemma reachable_inv: "reachable s \<Longrightarrow> sys_inv s"
proof (induction rule: reachable.induct)
  case (init i n)
  then show ?case by (rule init_inv)
next
  case (step s s')
  obtain ts b where s: "s = (ts, b)" by (cases s)
  from step.hyps(2) have "sys_step (ts, b) (Inr s')" by (simp add: s)
  then show ?case
  proof (cases rule: sys_step_Inr)
    case (run i sp t' b')
    with run_ok [of ts b i sp] step.IH s show ?thesis by simp
  qed (use step.IH s give_ok start_ok in auto)
qed

section \<open>Properties\<close>

text \<open>
  C7. Whatever the number of threads and the interleaving of their atomic steps, no reachable state
  has a step that faults: no assertion fails (in particular the object is destroyed and the block
  deleted only when their counts are zero), the control block is not deleted twice and its counters
  are not touched after its deletion. The deleter runs at most once, and the memory of the block is
  released at most once.
\<close>

theorem ref_count_safe:
  assumes "reachable (ts, b)"
  shows "\<not> sys_step (ts, b) (Inl e) \<and> destructions b \<le> 1 \<and> deletions b \<le> 1"
proof -
  note inv = reachable_inv [OF assms]
  have "\<not> sys_step (ts, b) (Inl e)"
  proof
    assume "sys_step (ts, b) (Inl e)"
    then obtain i sp where "i < length ts" "pos (ts ! i) \<noteq> Idle" "thread_step sp (ts ! i) b = Inl e"
      by (auto elim: sys_step_Inl)
    with run_ok [of ts b i sp] inv show False by simp
  qed
  then show ?thesis
    using inv by (simp add: sys_inv_def counts_ok_def)
qed

text \<open>
  Two threads used as a concrete instance: the first one makes a \<open>weak_ptr\<close>, gives it to the second one
  and drops the object; it is about to destroy the object when the second one is in the middle of
  \<open>lock\<close>, with the value that the use count had before.
\<close>

lemma reachable_run:
  assumes "reachable (ts, b)" "i < length ts" "pos (ts ! i) \<noteq> Idle" "thread_step False (ts ! i) b = Inr (t', b')"
  shows "reachable (ts[i := t'], b')"
  by (rule reachable.step [OF assms(1) sys_step.run [OF assms(2-4)]])

lemma reachable_start:
  assumes "reachable (ts, b)" "i < length ts" "may_start (ts ! i) q"
  shows "reachable (ts[i := (ts ! i)\<lparr>pos := q\<rparr>], b)"
  by (rule reachable.step [OF assms(1) sys_step.start [OF assms(2,3)]])

definition racing :: "nat \<Rightarrow> pc \<Rightarrow> nat \<Rightarrow> nat \<Rightarrow> pc \<Rightarrow> nat \<Rightarrow> int \<Rightarrow> int \<Rightarrow> system" where
  "racing S p w n q v u k = ([\<lparr>pos = p, strong = S, weaks = w\<rparr>, \<lparr>pos = q, strong = n, weaks = v\<rparr>],
     \<lparr>use = u, weak = k, destroyed = False, deleted = False, destructions = 0, deletions = 0\<rparr>)"

lemma racing_first:
  assumes "reachable (racing S p w n q v u k)" "p \<noteq> Idle"
    and "thread_step False \<lparr>pos = p, strong = S, weaks = w\<rparr> (snd (racing S p w n q v u k)) =
      Inr (\<lparr>pos = p', strong = S', weaks = w'\<rparr>, snd (racing S p w n q v u' k'))"
  shows "reachable (racing S' p' w' n q v u' k')"
  using reachable_run [of "fst (racing S p w n q v u k)" "snd (racing S p w n q v u k)" 0] assms by (simp add: racing_def)

lemma racing_second:
  assumes "reachable (racing S p w n q v u k)" "q \<noteq> Idle"
    and "thread_step False \<lparr>pos = q, strong = n, weaks = v\<rparr> (snd (racing S p w n q v u k)) =
      Inr (\<lparr>pos = q', strong = n', weaks = v'\<rparr>, snd (racing S p w n q v u' k'))"
  shows "reachable (racing S p w n' q' v' u' k')"
  using reachable_run [of "fst (racing S p w n q v u k)" "snd (racing S p w n q v u k)" 1] assms by (simp add: racing_def)

lemma lock_begun: "reachable (racing 1 Idle 0 0 (Lock2 1) 1 1 2)"
proof -
  note simps = exec_simps racing_def
  have "reachable (racing 1 Idle 0 0 Idle 0 1 1)"
    using reachable.init [of 0 2] by (simp add: racing_def new_cblock_def upt_rec)
  then have "reachable (racing 1 Wget0 0 0 Idle 0 1 1)"
    using reachable_start [of _ _ 0 Wget0] by (fastforce simp: racing_def may_start_def)
  then have "reachable (racing 1 Wget1 0 0 Idle 0 1 1)" by (rule racing_first) (simp_all add: simps)
  then have "reachable (racing 1 Idle 1 0 Idle 0 1 2)" by (rule racing_first) (simp_all add: simps)
  then have "reachable (racing 1 Idle 0 0 Idle 1 1 2)"
    using sys_step.give_weak [of 0 "fst (racing 1 Idle 1 0 Idle 0 1 2)" 1 "snd (racing 1 Idle 1 0 Idle 0 1 2)"]
    by (elim reachable.step) (simp add: racing_def)
  then have "reachable (racing 1 Idle 0 0 Lock0 1 1 2)"
    using reachable_start [of _ _ 1 Lock0] by (fastforce simp: racing_def may_start_def)
  then have "reachable (racing 1 Idle 0 0 Lock1 1 1 2)" by (rule racing_second) (simp_all add: simps)
  then show ?thesis by (rule racing_second) (simp_all add: simps)
qed

lemma lock_during_put: "reachable (racing 0 Put2 0 0 (Lock2 1) 1 0 2)"
proof -
  note simps = exec_simps racing_def
  from lock_begun have "reachable (racing 1 Put0 0 0 (Lock2 1) 1 1 2)"
    using reachable_start [of _ _ 0 Put0] by (fastforce simp: racing_def may_start_def)
  then have "reachable (racing 1 Put1 0 0 (Lock2 1) 1 1 2)" by (rule racing_first) (simp_all add: simps)
  then show ?thesis by (rule racing_first) (simp_all add: simps)
qed

theorem ref_count_safe_witness:
  "reachable (racing 0 Put2 0 0 (Lock2 1) 1 0 2) \<and> \<not> sys_step (racing 0 Put2 0 0 (Lock2 1) 1 0 2) (Inl Assertion_failed) \<and>
   \<not> sys_step (racing 0 Put2 0 0 (Lock2 1) 1 0 2) (Inl Undefined_behaviour)"
proof -
  let ?s = "racing 0 Put2 0 0 (Lock2 1) 1 0 2"
  have "\<not> sys_step ?s (Inl e)" for e
    using ref_count_safe [of "fst ?s" "snd ?s" e] lock_during_put by simp
  then show ?thesis
    using lock_during_put by blast
qed

text \<open>
  C8. While any thread owns a \<open>shared_ptr\<close>, the object is alive; while any thread owns a \<open>shared_ptr\<close>
  or a \<open>weak_ptr\<close>, the control block is; the use count is the number of \<open>shared_ptr\<close>s; and the
  control block is deleted only after the object is destroyed.
\<close>

theorem ref_count_alive:
  assumes "reachable (ts, b)"
  shows "((\<exists>t \<in> set ts. strong t > 0) \<longrightarrow> \<not> destroyed b) \<and>
    ((\<exists>t \<in> set ts. strong t > 0 \<or> weaks t > 0) \<longrightarrow> \<not> deleted b) \<and>
    use b = int (tally strong ts) \<and> (deleted b \<longrightarrow> destroyed b)"
proof -
  have inv: "counts_ok (tally strong ts) (tally weaks ts) (tally finishing ts) (tally destroying ts) (tally deleting ts) b"
    using reachable_inv [OF assms] by (simp add: sys_inv_def)
  have pos: "tally f ts > 0" if "t \<in> set ts" "f t > 0" for f t
    using that tally_le [of _ ts f] by (metis in_set_conv_nth less_le_trans)
  have "\<not> destroyed b \<and> \<not> deleted b" if "t \<in> set ts" "strong t > 0" for t
    using pos [of t strong] that inv by (auto simp: counts_ok_def split: if_splits)
  moreover have "\<not> deleted b" if "t \<in> set ts" "weaks t > 0" for t
    using pos [of t weaks] that inv by (auto simp: counts_ok_def split: if_splits)
  moreover have "deleted b \<longrightarrow> destroyed b" using inv by (auto simp: counts_ok_def split: if_splits)
  moreover have "use b = int (tally strong ts)" using inv by (simp add: counts_ok_def)
  ultimately show ?thesis by blast
qed

theorem ref_count_alive_witness:
  "reachable (racing 1 Idle 0 0 (Lock2 1) 1 1 2) \<and> \<not> destroyed (snd (racing 1 Idle 0 0 (Lock2 1) 1 1 2)) \<and>
   \<not> deleted (snd (racing 1 Idle 0 0 (Lock2 1) 1 1 2)) \<and>
   use (snd (racing 1 Idle 0 0 (Lock2 1) 1 1 2)) = int (tally strong (fst (racing 1 Idle 0 0 (Lock2 1) 1 1 2)))"
proof -
  let ?s = "racing 1 Idle 0 0 (Lock2 1) 1 1 2"
  have r: "reachable (fst ?s, snd ?s)"
    using lock_begun by simp
  have "\<exists>t \<in> set (fst ?s). strong t > 0"
    by (simp add: racing_def)
  then show ?thesis
    using ref_count_alive [OF r] lock_begun by blast
qed

text \<open>
  C9. Nothing leaks: when all threads are idle and own no handle any more, the object has been
  destroyed and the control block deleted, and each of the two has happened exactly once.
\<close>

theorem ref_count_no_leak:
  assumes "reachable (ts, b)" and "\<forall>t \<in> set ts. pos t = Idle \<and> strong t = 0 \<and> weaks t = 0"
  shows "destroyed b \<and> deleted b \<and> destructions b = 1 \<and> deletions b = 1"
proof -
  have "tally f ts = 0" if "f \<in> {strong, weaks, finishing, destroying, deleting}" for f
    using that assms(2) by (intro tally_const) (auto simp: finishing_def destroying_def deleting_def)
  then show ?thesis
    using reachable_inv [OF assms(1)] by (auto simp: sys_inv_def counts_ok_def split: if_splits)
qed

definition gone_block :: cblock where
  "gone_block = \<lparr>use = 0, weak = 0, destroyed = True, deleted = True, destructions = 1, deletions = 1\<rparr>"

lemma one_thread_gone: "reachable ([\<lparr>pos = Idle, strong = 0, weaks = 0\<rparr>], gone_block)"
proof -
  let ?t = "\<lambda>q n. \<lparr>pos = q, strong = n, weaks = 0\<rparr>"
  let ?b = "\<lambda>u w d. \<lparr>use = u, weak = w, destroyed = d, deleted = False, destructions = of_bool d, deletions = 0\<rparr>"
  have step: "reachable ([t'], b')"
    if "reachable ([t], b)" "pos t \<noteq> Idle" "thread_step False t b = Inr (t', b')" for t b t' b'
    using reachable_run [OF that(1), of 0 t' b'] that by simp
  have "reachable ([?t Idle 1], ?b 1 1 False)"
    using reachable.init [of 0 1] by (simp add: new_cblock_def)
  then have "reachable ([?t Put0 1], ?b 1 1 False)"
    using reachable_start [of "[?t Idle 1]" "?b 1 1 False" 0 Put0] by (simp add: may_start_def)
  then have "reachable ([?t Put1 1], ?b 1 1 False)" by (rule step) (simp_all add: exec_simps)
  then have "reachable ([?t Put2 0], ?b 0 1 False)" by (rule step) (simp_all add: exec_simps)
  then have "reachable ([?t Put3 0], ?b 0 1 True)" by (rule step) (simp_all add: exec_simps)
  then have "reachable ([?t Put4 0], ?b 0 0 True)" by (rule step) (simp_all add: exec_simps)
  then show ?thesis by (rule step) (simp_all add: exec_simps gone_block_def)
qed

theorem ref_count_no_leak_witness:
  "destroyed gone_block \<and> deleted gone_block \<and> destructions gone_block = 1 \<and> deletions gone_block = 1"
  by (rule ref_count_no_leak [OF one_thread_gone]) simp

text \<open>
  The atomic steps implement the sequential operations: a thread that starts \<open>get\<close>, \<open>put\<close>,
  \<open>weak_get\<close>, \<open>weak_put\<close> or \<open>lock\<close> on a live control block and is not interfered with ends, after at
  most seven steps, with the result the sequential function gives, faults included.
\<close>

lemma ref_count_steps_refine:
  assumes "may_start t q" and "\<not> deleted b" and "7 \<le> n"
  shows "res_bind (run_alone n (t\<lparr>pos := q\<rparr>) b) (\<lambda>(t', b'). Inr b') = seq_op q b"
proof -
  obtain m where n: "n = Suc (Suc (Suc (Suc (Suc (Suc (Suc m))))))"
    using assms(3) that [of "n - 7"] by simp
  have q: "q = Get0 \<or> q = Put0 \<or> q = Wget0 \<or> q = Wput0 \<or> q = Lock0"
    using assms(1) by (auto simp: may_start_def)
  have idle: "run_alone k u b = Inr (u, b)" if "pos u = Idle" for k u b using that by (cases k) auto
  show ?thesis
    using q assms(2)
    by (auto simp: n seq_op_def exec_simps rc_get_def rc_put_def rc_weak_get_def rc_weak_put_def rc_lock_def
        idle gpcl_assert_def Let_def)
qed

end
