(* ===== verification/Shared_Ptr.thy ===== *)
theory Shared_Ptr
  imports Ref_Count
begin

text \<open>
  \<open>shared_ptr\<close> and \<open>weak_ptr\<close> (\<open>shared_ptr.hpp\<close>, \<open>weak_ptr.hpp\<close> and their \<open>impl\<close> files) on top of the
  control block: the constructors, assignments, \<open>reset\<close>, \<open>swap\<close>, \<open>lock\<close> and the observers, each
  composed as in the source (copy-and-swap with a temporary that is destroyed).  A program over any
  number of \<open>shared_ptr\<close> and \<open>weak_ptr\<close> variables keeps every count equal to the number of variables
  that refer to the block, and never fails.
\<close>

section \<open>Handles\<close>

text \<open>Both pointer classes store the object pointer and the control block; blocks are numbered.\<close>

record 'o handle =
  obj :: "'o option"
  cb :: "nat option"

definition null_handle :: "'o handle" where
  "null_handle = \<lparr>obj = None, cb = None\<rparr>"

type_synonym blocks = "cblock list"

definition cb_apply :: "(cblock \<Rightarrow> cblock res) \<Rightarrow> nat option \<Rightarrow> blocks \<Rightarrow> blocks res" where
  "cb_apply f s H = (case s of None \<Rightarrow> Inr H
    | Some c \<Rightarrow> if c < length H then res_bind (f (H ! c)) (\<lambda>b. Inr (H[c := b])) else Inl Undefined_behaviour)"

section \<open>shared\_ptr\<close>

definition sp_make :: "'o \<Rightarrow> blocks \<Rightarrow> 'o handle \<times> blocks" where
  "sp_make p H = (\<lparr>obj = Some p, cb = Some (length H)\<rparr>, H @ [new_cblock])"

definition sp_copy :: "'o handle \<Rightarrow> blocks \<Rightarrow> ('o handle \<times> blocks) res" where
  "sp_copy r H = res_bind (cb_apply rc_get (cb r) H) (\<lambda>H'. Inr (r, H'))"

definition sp_alias :: "'o handle \<Rightarrow> 'p option \<Rightarrow> blocks \<Rightarrow> ('p handle \<times> blocks) res" where
  "sp_alias r p H = res_bind (cb_apply rc_get (cb r) H) (\<lambda>H'. Inr (\<lparr>obj = p, cb = cb r\<rparr>, H'))"

text \<open>The new object and what the moved-from object holds.\<close>

definition sp_move :: "'o handle \<Rightarrow> 'o handle \<times> 'o handle" where
  "sp_move r = (r, null_handle)"

definition sp_destroy :: "'o handle \<Rightarrow> blocks \<Rightarrow> blocks res" where
  "sp_destroy r H = cb_apply rc_put (cb r) H"

definition sp_swap :: "'o handle \<Rightarrow> 'o handle \<Rightarrow> 'o handle \<times> 'o handle" where
  "sp_swap x y = (y, x)"

definition sp_assign :: "'o handle \<Rightarrow> 'o handle \<Rightarrow> blocks \<Rightarrow> ('o handle \<times> blocks) res" where
  "sp_assign this r H =
     res_bind (sp_copy r H) (\<lambda>(tmp, H1).
       case sp_swap tmp this of (tmp', this') \<Rightarrow>
         res_bind (sp_destroy tmp' H1) (\<lambda>H2. Inr (this', H2)))"

definition sp_move_assign :: "'o handle \<Rightarrow> 'o handle \<Rightarrow> 'o handle \<times> 'o handle" where
  "sp_move_assign this r = (case sp_swap r this of (r', this') \<Rightarrow> (this', r'))"

definition sp_reset :: "'o handle \<Rightarrow> blocks \<Rightarrow> ('o handle \<times> blocks) res" where
  "sp_reset this H =
     (case sp_swap null_handle this of (tmp', this') \<Rightarrow>
        res_bind (sp_destroy tmp' H) (\<lambda>H1. Inr (this', H1)))"

definition sp_reset_to :: "'o handle \<Rightarrow> 'o \<Rightarrow> blocks \<Rightarrow> ('o handle \<times> blocks) res" where
  "sp_reset_to this p H =
     (case sp_make p H of (tmp, H1) \<Rightarrow>
        case sp_swap tmp this of (tmp', this') \<Rightarrow>
          res_bind (sp_destroy tmp' H1) (\<lambda>H2. Inr (this', H2)))"

definition sp_deref :: "'o handle \<Rightarrow> 'o res" where
  "sp_deref r = (case obj r of None \<Rightarrow> Inl Assertion_failed | Some p \<Rightarrow> Inr p)"

definition sp_use_count :: "'o handle \<Rightarrow> blocks \<Rightarrow> int" where
  "sp_use_count r H = (case cb r of None \<Rightarrow> 0 | Some c \<Rightarrow> use (H ! c))"

section \<open>weak\_ptr\<close>

text \<open>The copy constructor and the constructor from a \<open>shared_ptr\<close> do the same to the block.\<close>

definition wp_copy :: "'o handle \<Rightarrow> blocks \<Rightarrow> ('o handle \<times> blocks) res" where
  "wp_copy r H = res_bind (cb_apply rc_weak_get (cb r) H) (\<lambda>H'. Inr (r, H'))"

definition wp_destroy :: "'o handle \<Rightarrow> blocks \<Rightarrow> blocks res" where
  "wp_destroy r H = cb_apply rc_weak_put (cb r) H"

definition wp_assign :: "'o handle \<Rightarrow> 'o handle \<Rightarrow> blocks \<Rightarrow> ('o handle \<times> blocks) res" where
  "wp_assign this r H =
     res_bind (wp_copy r H) (\<lambda>(tmp, H1).
       case sp_swap tmp this of (tmp', this') \<Rightarrow>
         res_bind (wp_destroy tmp' H1) (\<lambda>H2. Inr (this', H2)))"

definition wp_reset :: "'o handle \<Rightarrow> blocks \<Rightarrow> ('o handle \<times> blocks) res" where
  "wp_reset this H = res_bind (wp_destroy this H) (\<lambda>H1. Inr (null_handle, H1))"

definition wp_expired :: "'o handle \<Rightarrow> blocks \<Rightarrow> bool" where
  "wp_expired r H = (case cb r of None \<Rightarrow> True | Some c \<Rightarrow> use (H ! c) = 0)"

definition wp_lock :: "'o handle \<Rightarrow> blocks \<Rightarrow> ('o handle \<times> blocks) res" where
  "wp_lock r H = (case cb r of
      None \<Rightarrow> Inr (null_handle, H)
    | Some c \<Rightarrow>
        if c < length H
        then res_bind (rc_lock (H ! c)) (\<lambda>(ok, b).
               if ok then Inr (r, H[c := b]) else Inr (null_handle, H[c := b]))
        else Inl Undefined_behaviour)"

text \<open>The constructor of a \<open>shared_ptr\<close> from a \<open>weak_ptr\<close>.\<close>

definition sp_from_weak :: "'o handle \<Rightarrow> blocks \<Rightarrow> ('o handle \<times> blocks) res" where
  "sp_from_weak r H = res_bind (wp_lock r H) (\<lambda>(p, H1).
     if cb p = None then Inl Bad_weak_ptr else Inr (p, H1))"

section \<open>Programs over pointer variables\<close>

record 'o pvars =
  sps :: "'o handle list"
  wps :: "'o handle list"
  cbs :: blocks

datatype 'o pop =
    Make nat 'o
  | Assign nat nat
  | Move_assign nat nat
  | Reset nat
  | Wassign_from_shared nat nat
  | Wassign nat nat
  | Wreset nat
  | Assign_locked nat nat
  | Alias nat nat 'o
  | Take nat nat
  | Assign_from_weak nat nat

definition set_sp :: "nat \<Rightarrow> 'o pvars \<Rightarrow> ('o handle \<times> blocks) res \<Rightarrow> 'o pvars res" where
  "set_sp i s m = res_bind m (\<lambda>(x, H). Inr (s\<lparr>sps := (sps s)[i := x], cbs := H\<rparr>))"

definition set_wp :: "nat \<Rightarrow> 'o pvars \<Rightarrow> ('o handle \<times> blocks) res \<Rightarrow> 'o pvars res" where
  "set_wp i s m = res_bind m (\<lambda>(x, H). Inr (s\<lparr>wps := (wps s)[i := x], cbs := H\<rparr>))"

text \<open>
  Assignment of a temporary: it is swapped with the variable and destroyed with its old contents.
\<close>

definition assign_temporary :: "nat \<Rightarrow> 'o pvars \<Rightarrow> ('o handle \<times> blocks) res \<Rightarrow> 'o pvars res" where
  "assign_temporary i s m = set_sp i s (res_bind m (\<lambda>(tmp, H1).
     case sp_move_assign (sps s ! i) tmp of (x, y) \<Rightarrow>
       res_bind (sp_destroy y H1) (\<lambda>H2. Inr (x, H2))))"

text \<open>
  The commands are \<open>sp_i.reset(p)\<close>, \<open>sp_i = sp_j\<close>, \<open>sp_i = std::move(sp_j)\<close>, \<open>sp_i.reset()\<close>, \<open>wp_i = sp_j\<close>,
  \<open>wp_i = wp_j\<close>, \<open>wp_i.reset()\<close>, \<open>sp_i = wp_j.lock()\<close>, \<open>sp_i = shared_ptr(sp_j, p)\<close>,
  \<open>sp_i = shared_ptr(std::move(sp_j))\<close> and \<open>sp_i = shared_ptr(wp_j)\<close> with \<open>bad_weak_ptr\<close> caught.
\<close>

fun papply :: "'o pop \<Rightarrow> 'o pvars \<Rightarrow> 'o pvars res" where
  "papply (Make i p) s = set_sp i s (sp_reset_to (sps s ! i) p (cbs s))"
| "papply (Assign i j) s = set_sp i s (sp_assign (sps s ! i) (sps s ! j) (cbs s))"
| "papply (Move_assign i j) s =
     (case sp_move_assign (sps s ! i) (sps s ! j) of (x, y) \<Rightarrow> Inr (s\<lparr>sps := (sps s)[i := x, j := y]\<rparr>))"
| "papply (Reset i) s = set_sp i s (sp_reset (sps s ! i) (cbs s))"
| "papply (Wassign_from_shared i j) s = set_wp i s (wp_assign (wps s ! i) (sps s ! j) (cbs s))"
| "papply (Wassign i j) s = set_wp i s (wp_assign (wps s ! i) (wps s ! j) (cbs s))"
| "papply (Wreset i) s = set_wp i s (wp_reset (wps s ! i) (cbs s))"
| "papply (Assign_locked i j) s = assign_temporary i s (wp_lock (wps s ! j) (cbs s))"
| "papply (Alias i j p) s = assign_temporary i s (sp_alias (sps s ! j) (Some p) (cbs s))"
| "papply (Take i j) s =
     (case sp_move (sps s ! j) of (tmp, rest) \<Rightarrow>
        assign_temporary i (s\<lparr>sps := (sps s)[j := rest]\<rparr>) (Inr (tmp, cbs s)))"
| "papply (Assign_from_weak i j) s =
     (case sp_from_weak (wps s ! j) (cbs s) of
        Inl e \<Rightarrow> if e = Bad_weak_ptr then Inr s else Inl e
      | Inr tmp \<Rightarrow> assign_temporary i s (Inr tmp))"

fun in_scope :: "nat \<Rightarrow> nat \<Rightarrow> 'o pop \<Rightarrow> bool" where
  "in_scope n m (Make i p) \<longleftrightarrow> i < n"
| "in_scope n m (Assign i j) \<longleftrightarrow> i < n \<and> j < n"
| "in_scope n m (Move_assign i j) \<longleftrightarrow> i < n \<and> j < n"
| "in_scope n m (Reset i) \<longleftrightarrow> i < n"
| "in_scope n m (Wassign_from_shared i j) \<longleftrightarrow> i < m \<and> j < n"
| "in_scope n m (Wassign i j) \<longleftrightarrow> i < m \<and> j < m"
| "in_scope n m (Wreset i) \<longleftrightarrow> i < m"
| "in_scope n m (Assign_locked i j) \<longleftrightarrow> i < n \<and> j < m"
| "in_scope n m (Alias i j p) \<longleftrightarrow> i < n \<and> j < n"
| "in_scope n m (Take i j) \<longleftrightarrow> i < n \<and> j < n"
| "in_scope n m (Assign_from_weak i j) \<longleftrightarrow> i < n \<and> j < m"

definition prun :: "'o pop list \<Rightarrow> 'o pvars \<Rightarrow> 'o pvars res" where
  "prun ops s = res_fold (\<lambda>s op. papply op s) s ops"

definition pinit :: "nat \<Rightarrow> nat \<Rightarrow> 'o pvars" where
  "pinit n m = \<lparr>sps = replicate n null_handle, wps = replicate m null_handle, cbs = []\<rparr>"

section \<open>The invariant\<close>

text \<open>A control block that \<open>u\<close> strong and \<open>w\<close> weak handles refer to.\<close>

definition block_ok :: "nat \<Rightarrow> nat \<Rightarrow> cblock \<Rightarrow> bool" where
  "block_ok u w b \<longleftrightarrow> use b = int u \<and> weak b = int w + (if u > 0 then 1 else 0) \<and>
     (destroyed b \<longleftrightarrow> u = 0) \<and> (deleted b \<longleftrightarrow> u = 0 \<and> w = 0) \<and>
     destructions b = (if u = 0 then 1 else 0) \<and> deletions b = (if u = 0 \<and> w = 0 then 1 else 0)"

definition refs :: "nat \<Rightarrow> 'o handle list \<Rightarrow> nat" where
  "refs c hs = count_list (map cb hs) (Some c)"

text \<open>All strong and all weak handles in existence, temporaries included, in any order.\<close>

definition handles_ok :: "'o handle list \<Rightarrow> 'o handle list \<Rightarrow> blocks \<Rightarrow> bool" where
  "handles_ok S W H \<longleftrightarrow> (\<forall>h \<in> set S \<union> set W. \<forall>c. cb h = Some c \<longrightarrow> c < length H) \<and>
     (\<forall>c < length H. block_ok (refs c S) (refs c W) (H ! c))"

definition pinv :: "'o pvars \<Rightarrow> bool" where
  "pinv s \<longleftrightarrow> handles_ok (sps s) (wps s) (cbs s)"

lemmas rc_defs = rc_get_def rc_put_def rc_weak_get_def rc_weak_put_def rc_lock_def destroy_object_def
  delete_block_def

lemma rc_get_ok: "block_ok (Suc u) w b \<Longrightarrow> \<exists>b'. rc_get b = Inr b' \<and> block_ok (Suc (Suc u)) w b'"
  by (auto simp: block_ok_def rc_defs)

lemma rc_put_ok: "block_ok (Suc u) w b \<Longrightarrow> \<exists>b'. rc_put b = Inr b' \<and> block_ok u w b'"
  by (auto simp: block_ok_def rc_defs Let_def split: if_splits)

lemma rc_weak_get_ok: "block_ok u w b \<Longrightarrow> u > 0 \<or> w > 0 \<Longrightarrow> \<exists>b'. rc_weak_get b = Inr b' \<and> block_ok u (Suc w) b'"
  by (auto simp: block_ok_def rc_defs split: if_splits)

lemma rc_weak_put_ok: "block_ok u (Suc w) b \<Longrightarrow> \<exists>b'. rc_weak_put b = Inr b' \<and> block_ok u w b'"
  by (auto simp: block_ok_def rc_defs Let_def split: if_splits)

lemma rc_lock_ok:
  "block_ok u (Suc w) b \<Longrightarrow>
     (if u > 0 then \<exists>b'. rc_lock b = Inr (True, b') \<and> block_ok (Suc u) (Suc w) b' else rc_lock b = Inr (False, b))"
  by (auto simp: block_ok_def rc_defs split: if_splits)

lemma refs_Cons: "refs c (h # hs) = (if cb h = Some c then 1 else 0) + refs c hs"
  by (simp add: refs_def)

lemma refs_pos: "h \<in> set hs \<Longrightarrow> cb h = Some c \<Longrightarrow> refs c hs > 0"
  by (induction hs) (auto simp: refs_Cons)

lemma refs_mset: "mset hs = mset ks \<Longrightarrow> refs c hs = refs c ks"
proof -
  assume "mset hs = mset ks"
  then have "mset (map cb hs) = mset (map cb ks)" by simp
  then show ?thesis unfolding refs_def by (metis count_mset)
qed

lemma handles_ok_mset:
  assumes "mset S = mset S'" and "mset W = mset W'"
  shows "handles_ok S W H = handles_ok S' W' H"
  using refs_mset [OF assms(1)] refs_mset [OF assms(2)] mset_eq_setD [OF assms(1)] mset_eq_setD [OF assms(2)]
  by (simp add: handles_ok_def)

lemma mset_replace:
  assumes "i < length xs"
  shows "mset (xs ! i # xs[i := x]) = mset (x # xs)"
  using assms by (simp add: mset_update)

lemma handles_ok_update:
  "i < length S \<Longrightarrow> handles_ok (S ! i # S[i := x]) W H = handles_ok (x # S) W H"
  "i < length W \<Longrightarrow> handles_ok S (W ! i # W[i := x]) H = handles_ok S (x # W) H"
  by (rule handles_ok_mset; simp add: mset_update)+

lemma handles_ok_null [simp]:
  "handles_ok (null_handle # S) W H = handles_ok S W H" "handles_ok S (null_handle # W) H = handles_ok S W H"
  by (simp_all add: handles_ok_def null_handle_def refs_Cons)

lemma handles_range: "handles_ok S W H \<Longrightarrow> h \<in> set S \<union> set W \<Longrightarrow> cb h = Some c \<Longrightarrow> c < length H"
  by (auto simp: handles_ok_def)

lemma handles_block:
  assumes "handles_ok S W H" and "h \<in> set S \<union> set W" and "cb h = Some c"
  shows "block_ok (refs c S) (refs c W) (H ! c)"
  using handles_range [OF assms] assms(1) by (simp add: handles_ok_def)

text \<open>Updating the block of one handle.\<close>

lemma cb_apply_ok:
  assumes "handles_ok S W H" and "r \<in> set S \<union> set W" and "set S' \<union> set W' \<subseteq> set S \<union> set W"
    and "\<And>c. cb r = Some c \<Longrightarrow> \<exists>b'. f (H ! c) = Inr b' \<and> block_ok (refs c S') (refs c W') b'"
    and "\<And>c. cb r \<noteq> Some c \<Longrightarrow> refs c S' = refs c S \<and> refs c W' = refs c W"
  shows "\<exists>H'. cb_apply f (cb r) H = Inr H' \<and> handles_ok S' W' H'"
proof (cases "cb r")
  case None
  with assms show ?thesis by (auto simp: cb_apply_def handles_ok_def)
next
  case (Some c)
  then obtain b' where "f (H ! c) = Inr b'" "block_ok (refs c S') (refs c W') b'" using assms(4) by blast
  moreover have "block_ok (refs d S') (refs d W') (H ! d)" if "d < length H" "d \<noteq> c" for d
    using assms(1,5) that Some by (auto simp: handles_ok_def)
  moreover have "c < length H" by (rule handles_range [OF assms(1,2) Some])
  moreover have "d < length H" if "h \<in> set S' \<union> set W'" "cb h = Some d" for h d
    using handles_range [OF assms(1)] that assms(3) by blast
  ultimately show ?thesis using Some by (auto simp: cb_apply_def handles_ok_def nth_list_update)
qed

lemma sp_copy_ok:
  assumes "handles_ok S W H" and "r \<in> set S"
  shows "\<exists>H'. sp_copy r H = Inr (r, H') \<and> handles_ok (r # S) W H'"
proof -
  have "\<exists>b'. rc_get (H ! c) = Inr b' \<and> block_ok (refs c (r # S)) (refs c W) b'" if c: "cb r = Some c" for c
    using handles_block [OF assms(1) _ c] assms(2) c refs_pos [OF assms(2) c]
      rc_get_ok [of "refs c S - 1" "refs c W" "H ! c"]
    by (auto simp: refs_Cons)
  then have "\<exists>H'. cb_apply rc_get (cb r) H = Inr H' \<and> handles_ok (r # S) W H'"
    by (intro cb_apply_ok [OF assms(1)]) (use assms(2) in \<open>auto simp: refs_Cons\<close>)
  then show ?thesis by (auto simp: sp_copy_def)
qed

lemma sp_destroy_ok:
  assumes "handles_ok (r # S) W H"
  shows "\<exists>H'. sp_destroy r H = Inr H' \<and> handles_ok S W H'"
proof -
  have "\<exists>b'. rc_put (H ! c) = Inr b' \<and> block_ok (refs c S) (refs c W) b'" if c: "cb r = Some c" for c
    using handles_block [OF assms _ c] c rc_put_ok [of "refs c S" "refs c W" "H ! c"] by (auto simp: refs_Cons)
  then show ?thesis
    unfolding sp_destroy_def by (intro cb_apply_ok [OF assms]) (auto simp: refs_Cons)
qed

lemma wp_copy_ok:
  assumes "handles_ok S W H" and "r \<in> set S \<union> set W"
  shows "\<exists>H'. wp_copy r H = Inr (r, H') \<and> handles_ok S (r # W) H'"
proof -
  have "\<exists>b'. rc_weak_get (H ! c) = Inr b' \<and> block_ok (refs c S) (refs c (r # W)) b'" if c: "cb r = Some c" for c
    using handles_block [OF assms c] c assms(2) refs_pos [OF _ c, of S] refs_pos [OF _ c, of W]
      rc_weak_get_ok [of "refs c S" "refs c W" "H ! c"]
    by (auto simp: refs_Cons)
  then have "\<exists>H'. cb_apply rc_weak_get (cb r) H = Inr H' \<and> handles_ok S (r # W) H'"
    by (intro cb_apply_ok [OF assms]) (use assms(2) in \<open>auto simp: refs_Cons\<close>)
  then show ?thesis by (auto simp: wp_copy_def)
qed

lemma wp_destroy_ok:
  assumes "handles_ok S (r # W) H"
  shows "\<exists>H'. wp_destroy r H = Inr H' \<and> handles_ok S W H'"
proof -
  have "\<exists>b'. rc_weak_put (H ! c) = Inr b' \<and> block_ok (refs c S) (refs c W) b'" if c: "cb r = Some c" for c
    using handles_block [OF assms _ c] c rc_weak_put_ok [of "refs c S" "refs c W" "H ! c"] by (auto simp: refs_Cons)
  then show ?thesis
    unfolding wp_destroy_def by (intro cb_apply_ok [OF assms]) (auto simp: refs_Cons)
qed

lemma wp_lock_ok:
  assumes "handles_ok S W H" and "r \<in> set W"
  shows "\<exists>p H'. wp_lock r H = Inr (p, H') \<and> handles_ok (p # S) W H' \<and>
    (if wp_expired r H then p = null_handle else p = r)"
proof (cases "cb r")
  case None
  with assms show ?thesis by (auto simp: wp_lock_def wp_expired_def)
next
  case (Some c)
  have c: "c < length H" using handles_range [OF assms(1) _ Some] assms(2) by blast
  obtain w where w: "refs c W = Suc w" using refs_pos [OF assms(2) Some] by (cases "refs c W") auto
  have blk: "block_ok (refs c S) (Suc w) (H ! c)" using handles_block [OF assms(1) _ Some] assms(2) w by simp
  have count: "use (H ! c) = int (refs c S)" using blk by (simp add: block_ok_def)
  show ?thesis
  proof (cases "refs c S > 0")
    case True
    with rc_lock_ok [OF blk] obtain b' where b': "rc_lock (H ! c) = Inr (True, b')"
      "block_ok (Suc (refs c S)) (Suc w) b'" by auto
    have "handles_ok (r # S) W (H[c := b'])"
      using assms b'(2) w Some c by (auto simp: handles_ok_def refs_Cons nth_list_update)
    with b' c Some count True show ?thesis by (auto simp: wp_lock_def wp_expired_def)
  next
    case False
    with rc_lock_ok [OF blk] c Some count assms(1) show ?thesis by (auto simp: wp_lock_def wp_expired_def)
  qed
qed

lemma sp_make_ok:
  assumes "handles_ok S W H"
  shows "handles_ok (fst (sp_make p H) # S) W (snd (sp_make p H))"
proof -
  have "h \<in> set S \<union> set W \<Longrightarrow> cb h \<noteq> Some (length H)" for h
    using handles_range [OF assms] by blast
  then have "refs (length H) S = 0" "refs (length H) W = 0"
    unfolding refs_def count_list_0_iff by (metis UnI1 UnI2 imageE list.set_map)+
  with assms show ?thesis
    by (auto simp: handles_ok_def sp_make_def refs_Cons nth_append block_ok_def new_cblock_def less_Suc_eq)
qed

lemma sp_alias_ok:
  assumes "handles_ok S W H" and "r \<in> set S"
  shows "\<exists>H'. sp_alias r p H = Inr (\<lparr>obj = p, cb = cb r\<rparr>, H') \<and> handles_ok (\<lparr>obj = p, cb = cb r\<rparr> # S) W H'"
proof -
  obtain H' where "cb_apply rc_get (cb r) H = Inr H'" "handles_ok (r # S) W H'"
    using sp_copy_ok [OF assms] by (auto simp: sp_copy_def res_bind_Inr_iff)
  then show ?thesis
    by (simp add: sp_alias_def handles_ok_def refs_Cons)
qed

text \<open>
  Replacing variable \<open>i\<close> by a handle that exists besides the variables, and destroying its old
  contents.
\<close>

lemma replace_sp:
  assumes "handles_ok (x # S) W H" and "i < length S"
  shows "\<exists>H'. sp_destroy (S ! i) H = Inr H' \<and> handles_ok (S[i := x]) W H'"
  using assms sp_destroy_ok [of "S ! i" "S[i := x]" W H] by (simp add: handles_ok_update)

lemma replace_wp:
  assumes "handles_ok S (x # W) H" and "i < length W"
  shows "\<exists>H'. wp_destroy (W ! i) H = Inr H' \<and> handles_ok S (W[i := x]) H'"
  using assms wp_destroy_ok [of S "W ! i" "W[i := x]" H] by (simp add: handles_ok_update)

lemma assign_temporary_ok:
  assumes "m = Inr (tmp, H)" "handles_ok (tmp # sps s) (wps s) H" "i < length (sps s)"
  shows "\<exists>s'. assign_temporary i s m = Inr s' \<and> pinv s' \<and> length (sps s') = length (sps s) \<and> length (wps s') = length (wps s)"
  using replace_sp [OF assms(2,3)] assms(1)
  by (auto simp: assign_temporary_def set_sp_def sp_move_assign_def sp_swap_def pinv_def)

text \<open>
  Converting a \<open>weak_ptr\<close> to a \<open>shared_ptr\<close> throws \<open>bad_weak_ptr\<close> exactly if the weak pointer has
  expired, and otherwise yields a new owner of the same object.
\<close>

lemma sp_from_weak_ok:
  assumes "handles_ok S W H" and "r \<in> set W"
  shows "if wp_expired r H then sp_from_weak r H = Inl Bad_weak_ptr
    else \<exists>H'. sp_from_weak r H = Inr (r, H') \<and> handles_ok (r # S) W H'"
proof -
  obtain p H' where lock: "wp_lock r H = Inr (p, H')" "handles_ok (p # S) W H'"
    "if wp_expired r H then p = null_handle else p = r"
    using wp_lock_ok [OF assms] by blast
  moreover have "cb r \<noteq> None" if "\<not> wp_expired r H"
    using that by (auto simp: wp_expired_def split: option.splits)
  ultimately show ?thesis
    by (cases "wp_expired r H") (simp_all add: sp_from_weak_def null_handle_def)
qed

lemma papply_ok:
  assumes inv: "pinv s" and scope: "in_scope (length (sps s)) (length (wps s)) op"
  shows "\<exists>s'. papply op s = Inr s' \<and> pinv s' \<and> length (sps s') = length (sps s) \<and> length (wps s') = length (wps s)"
proof -
  have ok: "handles_ok (sps s) (wps s) (cbs s)" using inv by (simp add: pinv_def)
  show ?thesis
  proof (cases op)
    case (Make i p)
    obtain x H1 where "sp_make p (cbs s) = (x, H1)" by (cases "sp_make p (cbs s)")
    with sp_make_ok [OF ok, of p] have "handles_ok (x # sps s) (wps s) H1" by simp
    from replace_sp [OF this, of i] scope Make \<open>sp_make p (cbs s) = _\<close> show ?thesis
      by (auto simp: set_sp_def sp_reset_to_def sp_swap_def pinv_def)
  next
    case (Assign i j)
    obtain H1 where c: "sp_copy (sps s ! j) (cbs s) = Inr (sps s ! j, H1)" "handles_ok (sps s ! j # sps s) (wps s) H1"
      using sp_copy_ok [OF ok, of "sps s ! j"] scope Assign by auto
    from replace_sp [OF c(2), of i] scope Assign c(1) show ?thesis
      by (auto simp: set_sp_def sp_assign_def sp_swap_def pinv_def)
  next
    case (Move_assign i j)
    then have same: "mset ((sps s)[i := sps s ! j, j := sps s ! i]) = mset (sps s)"
      using scope by (simp add: mset_swap)
    have "handles_ok ((sps s)[i := sps s ! j, j := sps s ! i]) (wps s) (cbs s)"
      using ok handles_ok_mset [OF same refl] by blast
    then show ?thesis by (simp add: Move_assign sp_move_assign_def sp_swap_def pinv_def)
  next
    case (Reset i)
    have "handles_ok (null_handle # sps s) (wps s) (cbs s)" using ok by simp
    from replace_sp [OF this, of i] scope Reset show ?thesis
      by (auto simp: set_sp_def sp_reset_def sp_swap_def pinv_def)
  next
    case (Wassign_from_shared i j)
    obtain H1 where c: "wp_copy (sps s ! j) (cbs s) = Inr (sps s ! j, H1)" "handles_ok (sps s) (sps s ! j # wps s) H1"
      using wp_copy_ok [OF ok, of "sps s ! j"] scope Wassign_from_shared by auto
    from replace_wp [OF c(2), of i] scope Wassign_from_shared c(1) show ?thesis
      by (auto simp: set_wp_def wp_assign_def sp_swap_def pinv_def)
  next
    case (Wassign i j)
    obtain H1 where c: "wp_copy (wps s ! j) (cbs s) = Inr (wps s ! j, H1)" "handles_ok (sps s) (wps s ! j # wps s) H1"
      using wp_copy_ok [OF ok, of "wps s ! j"] scope Wassign by auto
    from replace_wp [OF c(2), of i] scope Wassign c(1) show ?thesis
      by (auto simp: set_wp_def wp_assign_def sp_swap_def pinv_def)
  next
    case (Wreset i)
    have "handles_ok (sps s) (null_handle # wps s) (cbs s)" using ok by simp
    from replace_wp [OF this, of i] scope Wreset show ?thesis
      by (auto simp: set_wp_def wp_reset_def pinv_def)
  next
    case (Assign_locked i j)
    obtain p H1 where c: "wp_lock (wps s ! j) (cbs s) = Inr (p, H1)" "handles_ok (p # sps s) (wps s) H1"
      using wp_lock_ok [OF ok, of "wps s ! j"] scope Assign_locked by auto
    from assign_temporary_ok [OF c] scope Assign_locked show ?thesis by simp
  next
    case (Alias i j p)
    obtain x H1 where c: "sp_alias (sps s ! j) (Some p) (cbs s) = Inr (x, H1)" "handles_ok (x # sps s) (wps s) H1"
      using sp_alias_ok [OF ok, of "sps s ! j" "Some p"] scope Alias by auto
    from assign_temporary_ok [OF c] scope Alias show ?thesis by simp
  next
    case (Take i j)
    let ?s = "s\<lparr>sps := (sps s)[j := null_handle]\<rparr>"
    have "handles_ok (sps s ! j # (sps s)[j := null_handle]) (wps s) (cbs s)"
      using ok scope Take by (simp add: handles_ok_update)
    from assign_temporary_ok [OF refl, of "sps s ! j" ?s "cbs s" i] this scope Take show ?thesis
      by (simp add: sp_move_def)
  next
    case (Assign_from_weak i j)
    note w = sp_from_weak_ok [OF ok, of "wps s ! j"]
    show ?thesis
    proof (cases "wp_expired (wps s ! j) (cbs s)")
      case True
      then show ?thesis using w scope Assign_from_weak inv by simp
    next
      case False
      then obtain H where "sp_from_weak (wps s ! j) (cbs s) = Inr (wps s ! j, H)"
        "handles_ok (wps s ! j # sps s) (wps s) H"
        using w scope Assign_from_weak by auto
      then show ?thesis
        using assign_temporary_ok [OF refl, of "wps s ! j" s H i] scope Assign_from_weak by simp
    qed
  qed
qed

lemma prun_ok:
  assumes "pinv s" and "\<forall>op \<in> set ops. in_scope (length (sps s)) (length (wps s)) op"
  shows "\<exists>s'. prun ops s = Inr s' \<and> pinv s'"
  using assms
proof (induction ops arbitrary: s)
  case (Cons op ops)
  obtain s1 where "papply op s = Inr s1" "pinv s1" "length (sps s1) = length (sps s)" "length (wps s1) = length (wps s)"
    using papply_ok [of s op] Cons.prems by auto
  with Cons.IH [of s1] Cons.prems show ?case by (simp add: prun_def)
qed (simp add: prun_def)

lemma pinv_init: "pinv (pinit n m)"
  by (auto simp: pinv_def handles_ok_def pinit_def null_handle_def)

section \<open>Properties\<close>


definition pointer_program :: "nat pop list" where
  "pointer_program = [Make 0 7, Assign 1 0, Alias 2 1 8, Wassign_from_shared 0 1, Reset 0, Take 0 2, Reset 1,
     Assign_from_weak 1 0, Move_assign 0 1, Reset 0, Reset 1, Assign_locked 0 0, Assign_from_weak 2 0]"


end
