(* ===== verification/Segregated_Storage.thy ===== *)
theory Segregated_Storage
  imports Gpcl_Prelude
begin

text \<open>
  The model of \<open>gpcl::simple_segregated_storage\<close> (\<open>simple_segregated_storage.hpp\<close>): a free list that
  is threaded through the first words of the free chunks themselves. Memory is a function from
  addresses to words; address 0 is the null pointer, and addresses are unbounded, since a chunk and
  the end of its block lie inside allocated memory. The loops follow pointers and are partial
  functions; the lemmas show that they return on every well-formed free list.
\<close>

section \<open>State\<close>

record sss =
  cells :: "nat \<Rightarrow> nat"
  free_list :: nat

definition set_cell :: "nat \<Rightarrow> nat \<Rightarrow> sss \<Rightarrow> sss" where
  "set_cell a v s = s\<lparr>cells := (cells s)(a := v)\<rparr>"

lemma set_cell_simps [simp]:
  "cells (set_cell a v s) = (cells s)(a := v)"
  "free_list (set_cell a v s) = free_list s"
  by (simp_all add: set_cell_def)

text \<open>A reference \<open>void_pointer &\<close> denotes the head of the free list or the link in a chunk.\<close>

datatype slot = Head | Link nat

fun read_slot :: "slot \<Rightarrow> sss \<Rightarrow> nat" where
  "read_slot Head s = free_list s"
| "read_slot (Link c) s = cells s c"

fun write_slot :: "slot \<Rightarrow> nat \<Rightarrow> sss \<Rightarrow> sss" where
  "write_slot Head v s = s\<lparr>free_list := v\<rparr>"
| "write_slot (Link c) v s = set_cell c v s"

definition next_chunk :: "nat \<Rightarrow> slot res" where
  "next_chunk chunk = res_bind (gpcl_assert (chunk \<noteq> 0)) (\<lambda>_. Inr (Link chunk))"

section \<open>Operations\<close>

partial_function (option) segregate_loop :: "nat \<Rightarrow> nat \<Rightarrow> nat \<Rightarrow> sss \<Rightarrow> (nat \<times> sss) res option" where
  "segregate_loop partition_sz block_end chunk s =
     (if chunk + partition_sz < block_end
      then case next_chunk chunk of
             Inl e \<Rightarrow> Some (Inl e)
           | Inr r \<Rightarrow>
               let s' = write_slot r (chunk + partition_sz) s
               in segregate_loop partition_sz block_end (read_slot r s') s'
      else Some (Inr (chunk, s)))"

definition segregate :: "nat \<Rightarrow> nat \<Rightarrow> nat \<Rightarrow> nat \<Rightarrow> sss \<Rightarrow> (nat \<times> sss) res option" where
  "segregate block sz partition_sz end_ptr s =
     run_bind (Some (gpcl_assert (block \<noteq> 0))) (\<lambda>_.
     run_bind (Some (gpcl_assert (partition_sz \<le> sz))) (\<lambda>_.
     run_bind (segregate_loop partition_sz (block + sz - partition_sz) block s) (\<lambda>(chunk, s1).
     run_bind (Some (next_chunk chunk)) (\<lambda>r.
       Some (Inr (block, write_slot r end_ptr s1))))))"

definition storage_add_block :: "nat \<Rightarrow> nat \<Rightarrow> nat \<Rightarrow> sss \<Rightarrow> sss res option" where
  "storage_add_block block sz partition_sz s =
     run_bind (segregate block sz partition_sz (free_list s) s) (\<lambda>(p, s1).
       let s2 = s1\<lparr>free_list := p\<rparr>
       in run_bind (Some (gpcl_assert (free_list s2 \<noteq> 0))) (\<lambda>_. Some (Inr s2)))"

partial_function (option) upper_bound_loop :: "nat \<Rightarrow> slot \<Rightarrow> sss \<Rightarrow> slot option" where
  "upper_bound_loop p pp s =
     (if read_slot pp s = 0 then Some pp
      else let nx = Link (read_slot pp s)
           in if read_slot nx s > p then Some nx else upper_bound_loop p nx s)"

definition upper_bound :: "nat \<Rightarrow> sss \<Rightarrow> slot option" where
  "upper_bound p s = upper_bound_loop p Head s"

definition storage_add_ordered_block :: "nat \<Rightarrow> nat \<Rightarrow> nat \<Rightarrow> sss \<Rightarrow> sss res option" where
  "storage_add_ordered_block block sz partition_sz s =
     Option.bind (upper_bound block s) (\<lambda>pos.
     run_bind (segregate block sz partition_sz (read_slot pos s) s) (\<lambda>(p, s1).
       let s2 = write_slot pos p s1
       in run_bind (Some (gpcl_assert (free_list s2 \<noteq> 0))) (\<lambda>_. Some (Inr s2))))"

definition storage_empty :: "sss \<Rightarrow> bool" where
  "storage_empty s \<longleftrightarrow> free_list s = 0"

definition storage_malloc :: "sss \<Rightarrow> (nat \<times> sss) res" where
  "storage_malloc s =
     res_bind (gpcl_assert (\<not> storage_empty s)) (\<lambda>_.
     res_bind (next_chunk (free_list s)) (\<lambda>r.
       Inr (free_list s, s\<lparr>free_list := read_slot r s\<rparr>)))"

partial_function (option) malloc_n_loop ::
    "nat \<Rightarrow> nat \<Rightarrow> slot \<Rightarrow> slot \<Rightarrow> nat \<Rightarrow> sss \<Rightarrow> (slot \<times> slot) option option" where
  "malloc_n_loop n partition_sz p start m s =
     (let c = read_slot p s
      in if c = 0 then Some None
         else if int (cells s c) - int c \<noteq> int partition_sz
         then malloc_n_loop n partition_sz (Link c) (Link c) 0 s
         else if m + 1 = n then Some (Some (start, Link c))
         else malloc_n_loop n partition_sz (Link c) start (m + 1) s)"

definition storage_malloc_n :: "nat \<Rightarrow> nat \<Rightarrow> sss \<Rightarrow> (nat \<times> sss) option" where
  "storage_malloc_n n partition_sz s =
     Option.bind (malloc_n_loop n partition_sz Head Head 0 s) (\<lambda>r. case r of
         None \<Rightarrow> Some (0, s)
       | Some (start, p) \<Rightarrow> Some (read_slot start s, write_slot start (read_slot p s) s))"

definition storage_free :: "nat \<Rightarrow> sss \<Rightarrow> sss res" where
  "storage_free chunk s = res_bind (next_chunk chunk) (\<lambda>r.
     Inr ((write_slot r (free_list s) s)\<lparr>free_list := chunk\<rparr>))"

definition storage_free_n :: "nat \<Rightarrow> nat \<Rightarrow> nat \<Rightarrow> sss \<Rightarrow> sss res option" where
  "storage_free_n chunk partition_sz n s = storage_add_block chunk (partition_sz * n) partition_sz s"

definition storage_ordered_free :: "nat \<Rightarrow> sss \<Rightarrow> sss res option" where
  "storage_ordered_free chunk s =
     Option.bind (upper_bound chunk s) (\<lambda>pos.
     run_bind (Some (next_chunk chunk)) (\<lambda>r.
       Some (Inr (write_slot pos chunk (write_slot r (read_slot pos s) s)))))"

definition storage_ordered_free_n :: "nat \<Rightarrow> nat \<Rightarrow> nat \<Rightarrow> sss \<Rightarrow> sss res option" where
  "storage_ordered_free_n chunk n partition_sz s =
     storage_add_ordered_block chunk (partition_sz * n) partition_sz s"

partial_function (option) is_free_loop :: "nat \<Rightarrow> nat \<Rightarrow> sss \<Rightarrow> bool option" where
  "is_free_loop p iter s =
     (if iter = 0 then Some False
      else if iter = p then Some True
      else is_free_loop p (cells s iter) s)"

definition is_free :: "nat \<Rightarrow> sss \<Rightarrow> bool option" where
  "is_free p s = is_free_loop p (free_list s) s"

definition storage_reset :: "sss \<Rightarrow> sss" where
  "storage_reset s = s\<lparr>free_list := 0\<rparr>"

section \<open>Chains of chunks\<close>

text \<open>\<open>seg m p cs q\<close>: following the links from \<open>p\<close> passes exactly the chunks \<open>cs\<close> and arrives at \<open>q\<close>.\<close>

fun seg :: "(nat \<Rightarrow> nat) \<Rightarrow> nat \<Rightarrow> nat list \<Rightarrow> nat \<Rightarrow> bool" where
  "seg m p [] q \<longleftrightarrow> p = q"
| "seg m p (c # cs) q \<longleftrightarrow> p = c \<and> c \<noteq> 0 \<and> seg m (m c) cs q"

definition free_chunks :: "sss \<Rightarrow> nat list \<Rightarrow> bool" where
  "free_chunks s cs \<longleftrightarrow> seg (cells s) (free_list s) cs 0 \<and> distinct cs"

text \<open>The memory outside a set of addresses is as before.\<close>

definition unchanged_but :: "nat set \<Rightarrow> sss \<Rightarrow> sss \<Rightarrow> bool" where
  "unchanged_but A s s' \<longleftrightarrow> (\<forall>a. a \<notin> A \<longrightarrow> cells s' a = cells s a)"

lemma seg_append: "seg m p (xs @ ys) q \<longleftrightarrow> (\<exists>r. seg m p xs r \<and> seg m r ys q)"
  by (induction xs arbitrary: p) auto

lemma seg_frame [simp]: "a \<notin> set cs \<Longrightarrow> seg (m(a := v)) p cs q = seg m p cs q"
  by (induction cs arbitrary: p) auto

lemma seg_cong: "(\<And>a. a \<in> set cs \<Longrightarrow> m' a = m a) \<Longrightarrow> seg m' p cs q = seg m p cs q"
  by (induction cs arbitrary: p) auto

lemma seg_nonzero: "seg m p cs q \<Longrightarrow> 0 \<notin> set cs"
  by (induction cs arbitrary: p) auto

lemma seg_first: "seg m p cs 0 \<Longrightarrow> p = (case cs of [] \<Rightarrow> 0 | c # _ \<Rightarrow> c)"
  by (cases cs) auto

text \<open>The slot behind the chunks \<open>xs\<close> of the free list.\<close>

definition slot_at :: "nat list \<Rightarrow> slot" where
  "slot_at xs = (if xs = [] then Head else Link (last xs))"

lemma slot_at_simps [simp]: "slot_at [] = Head" "slot_at (xs @ [c]) = Link c"
  by (simp_all add: slot_at_def)

lemma read_slot_at: "seg (cells s) (free_list s) xs q \<Longrightarrow> read_slot (slot_at xs) s = q"
  by (cases xs rule: rev_cases) (auto simp: seg_append)

lemma write_slot_at:
  assumes "seg (cells s) (free_list s) xs q" and "distinct xs"
  shows "seg (cells (write_slot (slot_at xs) v s)) (free_list (write_slot (slot_at xs) v s)) xs v"
  using assms by (cases xs rule: rev_cases) (auto simp: seg_append)

lemma write_slot_cells: "a \<notin> set xs \<Longrightarrow> cells (write_slot (slot_at xs) v s) a = cells s a"
  by (cases xs rule: rev_cases) auto

lemma write_slot_seg:
  "set xs \<inter> set ys = {} \<Longrightarrow> seg (cells (write_slot (slot_at xs) v s)) p ys q = seg (cells s) p ys q"
  by (rule seg_cong) (auto intro!: write_slot_cells)

text \<open>Replacing what follows the slot by other chunks.\<close>

lemma write_slot_chain:
  assumes "seg (cells s) (free_list s) xs q" and "distinct xs" and "set xs \<inter> set zs = {}"
    and "seg (cells s) v zs 0" and "distinct zs"
  shows "free_chunks (write_slot (slot_at xs) v s) (xs @ zs)"
  using write_slot_at [OF assms(1,2), of v] assms(2-)
  by (auto simp: free_chunks_def seg_append write_slot_seg)

section \<open>Segregating a block\<close>

text \<open>\<open>n\<close> chunks one after the other, and how many of them \<open>segregate\<close> makes of \<open>sz\<close> bytes.\<close>

fun chunk_list :: "nat \<Rightarrow> nat \<Rightarrow> nat \<Rightarrow> nat list" where
  "chunk_list a psz 0 = []"
| "chunk_list a psz (Suc n) = a # chunk_list (a + psz) psz n"

definition n_chunks :: "nat \<Rightarrow> nat \<Rightarrow> nat" where
  "n_chunks sz psz = Suc ((sz - psz - 1) div psz)"

lemma length_chunk_list [simp]: "length (chunk_list a psz n) = n"
  by (induction n arbitrary: a) auto

lemma chunk_list_set: "set (chunk_list a psz n) = (\<lambda>i. a + i * psz) ` {..<n}"
proof (induction n arbitrary: a)
  case (Suc n)
  have "(\<lambda>i. a + i * psz) ` {..<Suc n} = insert a ((\<lambda>i. a + psz + i * psz) ` {..<n})"
    by (force simp: lessThan_Suc_eq_insert_0 image_image)
  then show ?case using Suc by simp
qed simp

lemma chunk_list_bounds: "c \<in> set (chunk_list a psz n) \<Longrightarrow> a \<le> c \<and> c + psz \<le> a + n * psz"
proof -
  assume "c \<in> set (chunk_list a psz n)"
  then obtain i where "c = a + i * psz" "i < n" by (auto simp: chunk_list_set)
  moreover have "Suc i * psz \<le> n * psz" using \<open>i < n\<close> by (intro mult_le_mono1) simp
  ultimately show ?thesis by simp
qed

lemma chunk_list_distinct: "0 < psz \<Longrightarrow> distinct (chunk_list a psz n)"
proof (induction n arbitrary: a)
  case (Suc n)
  then show ?case using chunk_list_bounds [of a "a + psz" psz n] by auto
qed simp

lemma chunk_list_append: "chunk_list a psz (m + n) = chunk_list a psz m @ chunk_list (a + m * psz) psz n"
  by (induction m arbitrary: a) (simp_all add: algebra_simps)

lemma n_chunks_fit: "0 < psz \<Longrightarrow> psz \<le> sz \<Longrightarrow> n_chunks sz psz * psz \<le> sz"
proof -
  assume "psz \<le> sz"
  moreover define q where "q = (sz - psz - 1) div psz"
  have "q * psz \<le> sz - psz - 1" by (simp add: q_def)
  ultimately show ?thesis unfolding n_chunks_def q_def [symmetric] by simp
qed

lemma segregate_loop_correct:
  assumes "0 < psz" and "chunk \<noteq> 0" and "k = (bend - chunk - 1) div psz"
  shows "\<exists>s'. segregate_loop psz bend chunk s = Some (Inr (chunk + k * psz, s')) \<and>
    seg (cells s') chunk (chunk_list chunk psz k) (chunk + k * psz) \<and>
    unchanged_but (set (chunk_list chunk psz k)) s s' \<and> free_list s' = free_list s"
  using assms
proof (induction k arbitrary: chunk s)
  case 0
  then have "\<not> chunk + psz < bend" by (simp add: div_eq_0_iff)
  then show ?case by (simp add: segregate_loop.simps unchanged_but_def)
next
  case (Suc k)
  have "psz \<le> bend - chunk - 1" using Suc.prems by (metis div_less not_less Zero_not_Suc)
  then have more: "chunk + psz < bend" and k: "k = (bend - (chunk + psz) - 1) div psz"
    using Suc.prems by (auto simp: le_div_geq)
  define t where "t = set_cell chunk (chunk + psz) s"
  obtain s' where s': "segregate_loop psz bend (chunk + psz) t = Some (Inr (chunk + psz + k * psz, s'))"
    "seg (cells s') (chunk + psz) (chunk_list (chunk + psz) psz k) (chunk + psz + k * psz)"
    "unchanged_but (set (chunk_list (chunk + psz) psz k)) t s'" "free_list s' = free_list t"
    using Suc.IH [of "chunk + psz" t] Suc.prems k by auto
  have "segregate_loop psz bend chunk s = segregate_loop psz bend (chunk + psz) t"
    using more Suc.prems by (simp add: segregate_loop.simps [of psz bend chunk s] next_chunk_def t_def)
  moreover have "chunk \<notin> set (chunk_list (chunk + psz) psz k)"
    using chunk_list_bounds [of chunk "chunk + psz" psz k] Suc.prems by auto
  then have "cells s' chunk = chunk + psz" using s'(3) by (simp add: unchanged_but_def t_def)
  ultimately show ?case
    using s' Suc.prems(1,2) by (intro exI [of _ s']) (auto simp: unchanged_but_def t_def algebra_simps)
qed

lemma segregate_correct:
  assumes "0 < psz" and "psz \<le> sz" and "block \<noteq> 0"
  shows "\<exists>s'. segregate block sz psz e s = Some (Inr (block, s')) \<and>
    seg (cells s') block (chunk_list block psz (n_chunks sz psz)) e \<and>
    unchanged_but (set (chunk_list block psz (n_chunks sz psz))) s s' \<and> free_list s' = free_list s"
proof -
  define k where "k = (sz - psz - 1) div psz"
  obtain t where t: "segregate_loop psz (block + sz - psz) block s = Some (Inr (block + k * psz, t))"
    "seg (cells t) block (chunk_list block psz k) (block + k * psz)"
    "unchanged_but (set (chunk_list block psz k)) s t" "free_list t = free_list s"
    using segregate_loop_correct [of psz block k "block + sz - psz" s] assms by (auto simp: k_def)
  have n: "chunk_list block psz (n_chunks sz psz) = chunk_list block psz k @ [block + k * psz]"
    using chunk_list_append [of block psz k 1] by (simp add: n_chunks_def k_def)
  have "block + k * psz \<notin> set (chunk_list block psz k)"
    using chunk_list_bounds [of "block + k * psz" block psz k] assms by auto
  then show ?thesis
    using t assms by (simp add: segregate_def n next_chunk_def seg_append unchanged_but_def)
qed

section \<open>Behaviour of the operations on a well-formed free list\<close>

lemma storage_malloc_correct:
  "free_chunks s (c # cs) \<Longrightarrow>
    storage_malloc s = Inr (c, s\<lparr>free_list := cells s c\<rparr>) \<and> free_chunks (s\<lparr>free_list := cells s c\<rparr>) cs"
  by (auto simp: free_chunks_def storage_malloc_def storage_empty_def next_chunk_def)

lemma storage_empty_iff: "free_chunks s cs \<Longrightarrow> storage_empty s \<longleftrightarrow> cs = []"
  by (cases cs) (auto simp: free_chunks_def storage_empty_def)

lemma storage_free_correct:
  assumes "free_chunks s cs" and "c \<noteq> 0" and "c \<notin> set cs"
  shows "\<exists>s'. storage_free c s = Inr s' \<and> free_chunks s' (c # cs) \<and> unchanged_but {c} s s'"
  using assms by (auto simp: free_chunks_def storage_free_def next_chunk_def unchanged_but_def)

lemma storage_add_block_correct:
  assumes "free_chunks s cs" and "0 < psz" and "psz \<le> sz" and "block \<noteq> 0"
    and "set (chunk_list block psz (n_chunks sz psz)) \<inter> set cs = {}"
  shows "\<exists>s'. storage_add_block block sz psz s = Some (Inr s') \<and>
    free_chunks s' (chunk_list block psz (n_chunks sz psz) @ cs) \<and>
    unchanged_but (set (chunk_list block psz (n_chunks sz psz))) s s'"
proof -
  obtain t where t: "segregate block sz psz (free_list s) s = Some (Inr (block, t))"
    "seg (cells t) block (chunk_list block psz (n_chunks sz psz)) (free_list s)"
    "unchanged_but (set (chunk_list block psz (n_chunks sz psz))) s t"
    using segregate_correct [OF assms(2-4), of "free_list s" s] by blast
  have "seg (cells t) (free_list s) cs 0"
    using t(3) assms(1,5) seg_cong [of cs "cells t" "cells s" "free_list s" 0]
    by (auto simp: unchanged_but_def free_chunks_def)
  then show ?thesis
    using t assms chunk_list_distinct [of psz block "n_chunks sz psz"]
    by (auto simp: storage_add_block_def Let_def free_chunks_def seg_append unchanged_but_def)
qed

text \<open>
  \<open>upper_bound\<close> starts its comparison behind the first chunk: if the free list is not empty, the
  slot it finds is behind the first chunk, whatever the address of that chunk.
\<close>

lemma upper_bound_loop_correct:
  assumes "seg (cells s) (free_list s) (xs @ ys) 0"
  shows "\<exists>zs vs. ys = zs @ vs \<and> upper_bound_loop p (slot_at xs) s = Some (slot_at (xs @ zs)) \<and>
    (ys \<noteq> [] \<longrightarrow> zs \<noteq> []) \<and> (\<forall>z \<in> set (tl zs). z \<le> p) \<and> (vs \<noteq> [] \<longrightarrow> p < hd vs)"
  using assms
proof (induction ys arbitrary: xs)
  case Nil
  then show ?case using read_slot_at [of s xs 0] by (simp add: upper_bound_loop.simps)
next
  case (Cons c ys)
  then have c: "read_slot (slot_at xs) s = c" "c \<noteq> 0" and rest: "seg (cells s) (cells s c) ys 0"
    using read_slot_at [of s xs c] by (auto simp: seg_append)
  show ?case
  proof (cases "p < cells s c")
    case True
    then have "ys \<noteq> [] \<and> p < hd ys" using rest by (cases ys) auto
    then show ?thesis using c True by (intro exI [of _ "[c]"] exI [of _ ys]) (simp add: upper_bound_loop.simps)
  next
    case False
    then have loop: "upper_bound_loop p (slot_at xs) s = upper_bound_loop p (slot_at (xs @ [c])) s"
      using c by (simp add: upper_bound_loop.simps [of p "slot_at xs" s])
    obtain zs vs where zs: "ys = zs @ vs"
      "upper_bound_loop p (slot_at (xs @ [c])) s = Some (slot_at ((xs @ [c]) @ zs))"
      "ys \<noteq> [] \<longrightarrow> zs \<noteq> []" "\<forall>z \<in> set (tl zs). z \<le> p" "vs \<noteq> [] \<longrightarrow> p < hd vs"
      using Cons.IH [of "xs @ [c]"] Cons.prems by auto
    have "\<forall>z \<in> set zs. z \<le> p" using zs(1,4) rest False by (cases zs) auto
    then show ?thesis using zs loop by (intro exI [of _ "c # zs"] exI [of _ vs]) simp
  qed
qed

lemma upper_bound_correct:
  assumes "free_chunks s cs"
  obtains zs vs where "cs = zs @ vs" "upper_bound p s = Some (slot_at zs)" "cs \<noteq> [] \<longrightarrow> zs \<noteq> []"
    "\<forall>z \<in> set (tl zs). z \<le> p" "vs \<noteq> [] \<longrightarrow> p < hd vs"
  using upper_bound_loop_correct [of s "[]" cs p] assms
  by (auto simp: free_chunks_def upper_bound_def)

lemma storage_ordered_free_correct:
  assumes "free_chunks s cs" and "c \<noteq> 0" and "c \<notin> set cs"
  shows "\<exists>s' zs vs. storage_ordered_free c s = Some (Inr s') \<and> cs = zs @ vs \<and>
    free_chunks s' (zs @ c # vs) \<and> unchanged_but (insert c (set cs)) s s' \<and>
    (cs \<noteq> [] \<longrightarrow> zs \<noteq> []) \<and> (\<forall>z \<in> set (tl zs). z \<le> c) \<and> (vs \<noteq> [] \<longrightarrow> c < hd vs)"
proof -
  obtain zs vs where cs: "cs = zs @ vs" and ub: "upper_bound c s = Some (slot_at zs)"
    and ord: "cs \<noteq> [] \<longrightarrow> zs \<noteq> []" "\<forall>z \<in> set (tl zs). z \<le> c" "vs \<noteq> [] \<longrightarrow> c < hd vs"
    using upper_bound_correct [OF assms(1), of c] by metis
  obtain q where q: "seg (cells s) (free_list s) zs q" "seg (cells s) q vs 0"
    using assms(1) by (auto simp: cs free_chunks_def seg_append)
  let ?s = "set_cell c (read_slot (slot_at zs) s) s"
  have "seg (cells ?s) (free_list ?s) zs q" "seg (cells ?s) c (c # vs) 0" "distinct (zs @ c # vs)"
    using q assms read_slot_at [OF q(1)] by (auto simp: cs free_chunks_def)
  then have "free_chunks (write_slot (slot_at zs) c ?s) (zs @ c # vs)"
    by (intro write_slot_chain) auto
  moreover have "unchanged_but (insert c (set cs)) s (write_slot (slot_at zs) c ?s)"
    by (auto simp: unchanged_but_def cs write_slot_cells)
  moreover have "storage_ordered_free c s = Some (Inr (write_slot (slot_at zs) c ?s))"
    using assms(2) by (simp add: storage_ordered_free_def ub next_chunk_def)
  ultimately show ?thesis using cs ord by blast
qed

lemma storage_add_ordered_block_correct:
  assumes "free_chunks s cs" and "0 < psz" and "psz \<le> sz" and "block \<noteq> 0"
    and new: "set (chunk_list block psz (n_chunks sz psz)) \<inter> set cs = {}"
  shows "\<exists>s' zs vs. storage_add_ordered_block block sz psz s = Some (Inr s') \<and> cs = zs @ vs \<and>
    free_chunks s' (zs @ chunk_list block psz (n_chunks sz psz) @ vs) \<and>
    unchanged_but (set (chunk_list block psz (n_chunks sz psz)) \<union> set cs) s s'"
proof -
  let ?new = "chunk_list block psz (n_chunks sz psz)"
  obtain zs vs where cs: "cs = zs @ vs" and ub: "upper_bound block s = Some (slot_at zs)"
    using upper_bound_correct [OF assms(1), of block] by metis
  obtain q where q: "seg (cells s) (free_list s) zs q" "seg (cells s) q vs 0"
    using assms(1) by (auto simp: cs free_chunks_def seg_append)
  obtain t where t: "segregate block sz psz q s = Some (Inr (block, t))"
    "seg (cells t) block ?new q" "unchanged_but (set ?new) s t" "free_list t = free_list s"
    using segregate_correct [OF assms(2-4), of q s] by blast
  have keep: "seg (cells t) p xs r = seg (cells s) p xs r" if "set xs \<subseteq> set cs" for p xs r
    using t(3) new that by (intro seg_cong) (auto simp: unchanged_but_def)
  have "seg (cells t) (free_list t) zs q" "seg (cells t) block (?new @ vs) 0"
    using q t keep by (auto simp: cs seg_append)
  moreover have "distinct zs" "distinct (?new @ vs)" "set zs \<inter> set (?new @ vs) = {}"
    using assms(1) new chunk_list_distinct [OF assms(2), of block "n_chunks sz psz"]
    by (auto simp: cs free_chunks_def)
  ultimately have fc: "free_chunks (write_slot (slot_at zs) block t) (zs @ ?new @ vs)"
    by (intro write_slot_chain) auto
  have "free_list (write_slot (slot_at zs) block t) \<noteq> 0"
    using fc assms(4) by (cases zs) (auto simp: free_chunks_def n_chunks_def)
  then have "storage_add_ordered_block block sz psz s = Some (Inr (write_slot (slot_at zs) block t))"
    using t(1) by (simp add: storage_add_ordered_block_def ub read_slot_at [OF q(1)])
  moreover have "unchanged_but (set ?new \<union> set cs) s (write_slot (slot_at zs) block t)"
    using t(3) by (auto simp: unchanged_but_def cs write_slot_cells)
  ultimately show ?thesis using fc cs by blast
qed

lemma adjacent_iff: "int a - int c = int psz \<longleftrightarrow> a = c + psz"
  by linarith

lemma malloc_n_loop_steps:
  assumes "read_slot p s = c" and "c \<noteq> 0"
  shows "malloc_n_loop n psz p start m s =
    (if cells s c \<noteq> c + psz then malloc_n_loop n psz (Link c) (Link c) 0 s
     else if m + 1 = n then Some (Some (start, Link c))
     else malloc_n_loop n psz (Link c) start (m + 1) s)"
  by (subst malloc_n_loop.simps) (simp only: assms Let_def adjacent_iff if_False)

text \<open>
  The search of \<open>malloc_n\<close>: \<open>run\<close> is the current run of \<open>m\<close> adjacent chunks behind the slot \<open>start\<close>,
  and the chunk that follows it in the list is adjacent too.
\<close>

lemma malloc_n_loop_correct:
  assumes "seg (cells s) (free_list s) (xs @ chunk_list a psz m @ ys) 0"
    and "m = 0 \<or> read_slot (slot_at (xs @ chunk_list a psz m)) s = a + m * psz"
  shows "malloc_n_loop n psz (slot_at (xs @ chunk_list a psz m)) (slot_at xs) m s = Some None \<or>
    (\<exists>us b vs. xs @ chunk_list a psz m @ ys = us @ chunk_list b psz n @ vs \<and> 0 < n \<and>
      malloc_n_loop n psz (slot_at (xs @ chunk_list a psz m)) (slot_at xs) m s =
        Some (Some (slot_at us, slot_at (us @ chunk_list b psz n))))"
  using assms
proof (induction ys arbitrary: xs a m)
  case Nil
  then show ?case using read_slot_at [of s "xs @ chunk_list a psz m" 0] by (simp add: malloc_n_loop.simps)
next
  case (Cons c ys)
  let ?run = "chunk_list a psz m"
  have seg: "seg (cells s) (free_list s) (xs @ ?run) c" "c \<noteq> 0" "seg (cells s) (cells s c) ys 0"
    using Cons.prems(1) by (auto simp: seg_append)
  note c = read_slot_at [OF seg(1)]
  let ?L = "malloc_n_loop n psz (slot_at (xs @ ?run)) (slot_at xs) m s"
  show ?case
  proof (cases "cells s c = c + psz")
    case False
    then have "?L = malloc_n_loop n psz (slot_at (xs @ ?run @ [c])) (slot_at (xs @ ?run @ [c])) 0 s"
      using malloc_n_loop_steps [OF c seg(2), of n psz "slot_at xs" m] False slot_at_simps(2) [of "xs @ ?run" c] by simp
    then show ?thesis using Cons.IH [of "xs @ ?run @ [c]" c 0] Cons.prems(1) by simp
  next
    case True
    obtain b where b: "?run @ [c] = chunk_list b psz (m + 1)" "b + m * psz = c"
    proof (cases "m = 0")
      case False
      then have "a + m * psz = c" using Cons.prems(2) c by simp
      moreover from this have "?run @ [c] = chunk_list a psz (m + 1)"
        by (simp only: chunk_list_append) simp
      ultimately show ?thesis using that by blast
    next
      case True
      then have "?run @ [c] = chunk_list c psz (m + 1)" "c + m * psz = c" by simp_all
      then show ?thesis using that by blast
    qed
    have slot: "slot_at (xs @ chunk_list b psz (m + 1)) = Link c"
      using slot_at_simps(2) [of "xs @ ?run" c] b(1) by (simp only: append_assoc)
    show ?thesis
    proof (cases "m + 1 = n")
      case True
      then have "?L = Some (Some (slot_at xs, slot_at (xs @ chunk_list b psz n)))"
        using malloc_n_loop_steps [OF c seg(2), of n psz "slot_at xs" m] \<open>cells s c = c + psz\<close>
          slot [unfolded True] True by simp
      moreover have "xs @ ?run @ c # ys = xs @ chunk_list b psz n @ ys"
        using b(1) True by (metis append_Cons append_Nil append_assoc)
      ultimately show ?thesis using True by (intro disjI2 exI [of _ xs] exI [of _ b] exI [of _ ys]) auto
    next
      case False
      have "?L = malloc_n_loop n psz (slot_at (xs @ chunk_list b psz (m + 1))) (slot_at xs) (m + 1) s"
        using malloc_n_loop_steps [OF c seg(2), of n psz "slot_at xs" m] \<open>cells s c = c + psz\<close> False slot by simp
      moreover have "xs @ ?run @ c # ys = xs @ chunk_list b psz (m + 1) @ ys"
        using b(1) by (metis append_Cons append_Nil append_assoc)
      moreover have "read_slot (slot_at (xs @ chunk_list b psz (m + 1))) s = b + (m + 1) * psz"
        using \<open>cells s c = c + psz\<close> b(2) slot by simp
      ultimately show ?thesis using Cons.IH [of xs b "m + 1"] Cons.prems(1) by metis
    qed
  qed
qed

lemma storage_malloc_n_correct:
  assumes "free_chunks s cs"
  shows "storage_malloc_n n psz s = Some (0, s) \<or>
    (\<exists>s' us b vs. storage_malloc_n n psz s = Some (b, s') \<and> cs = us @ chunk_list b psz n @ vs \<and> b \<noteq> 0 \<and>
      0 < n \<and> free_chunks s' (us @ vs) \<and> unchanged_but (set us) s s')"
proof (cases "malloc_n_loop n psz Head Head 0 s = Some None")
  case False
  then obtain us b vs where cs: "cs = us @ chunk_list b psz n @ vs" "0 < n" and
    loop: "malloc_n_loop n psz Head Head 0 s = Some (Some (slot_at us, slot_at (us @ chunk_list b psz n)))"
    using malloc_n_loop_correct [of s "[]" 0 psz 0 cs n] assms by (auto simp: free_chunks_def)
  obtain q r where q: "seg (cells s) (free_list s) us q" "seg (cells s) q (chunk_list b psz n) r" "seg (cells s) r vs 0"
    using assms by (auto simp: cs free_chunks_def seg_append)
  have b: "q = b" "b \<noteq> 0" using q(2) cs(2) by (cases n; auto)+
  have r: "read_slot (slot_at us) s = q" "read_slot (slot_at (us @ chunk_list b psz n)) s = r"
    using q by (intro read_slot_at; auto simp: seg_append)+
  have "free_chunks (write_slot (slot_at us) r s) (us @ vs)"
    using q assms by (intro write_slot_chain) (auto simp: cs free_chunks_def)
  moreover have "unchanged_but (set us) s (write_slot (slot_at us) r s)"
    by (auto simp: unchanged_but_def write_slot_cells)
  ultimately show ?thesis using cs b loop r by (auto simp: storage_malloc_n_def)
qed (simp add: storage_malloc_n_def)

lemma is_free_loop_correct: "seg (cells s) q cs 0 \<Longrightarrow> is_free_loop p q s = Some (p \<in> set cs)"
  by (induction cs arbitrary: q) (auto simp: is_free_loop.simps)

lemma is_free_correct: "free_chunks s cs \<Longrightarrow> is_free p s = Some (p \<in> set cs)"
  by (simp add: is_free_def free_chunks_def is_free_loop_correct)

section \<open>Order of the free list\<close>

text \<open>
  \<open>ordered_free\<close> puts the chunk back exactly once and terminates, but it keeps a sorted free list
  sorted only if the list is empty or the chunk lies behind the first free chunk; the documentation
  promises it without the condition.
\<close>

lemma ordered_free_order:
  assumes "free_chunks s cs" and "sorted cs" and "c \<noteq> 0" and "c \<notin> set cs"
  shows "\<exists>s' cs'. storage_ordered_free c s = Some (Inr s') \<and> free_chunks s' cs' \<and>
    mset cs' = add_mset c (mset cs) \<and> (sorted cs' \<longleftrightarrow> cs = [] \<or> hd cs < c)"
proof -
  obtain s' zs vs where s': "storage_ordered_free c s = Some (Inr s')" "cs = zs @ vs" "free_chunks s' (zs @ c # vs)"
    and ord: "cs \<noteq> [] \<longrightarrow> zs \<noteq> []" "\<forall>z \<in> set (tl zs). z \<le> c" "vs \<noteq> [] \<longrightarrow> c < hd vs"
    using storage_ordered_free_correct [OF assms(1,3,4)] by blast
  have vs: "\<forall>v \<in> set vs. c \<le> v" using ord(3) assms(2) s'(2) by (cases vs) (auto simp: sorted_append)
  have "sorted (zs @ c # vs) \<longleftrightarrow> cs = [] \<or> hd cs < c"
  proof (cases zs)
    case Nil
    then have "cs = []" using ord(1) by blast
    moreover from this have "vs = []" using s'(2) by simp
    ultimately show ?thesis using Nil by simp
  next
    case (Cons z zs')
    then have "sorted (z # zs' @ vs)" "z \<noteq> c" using assms(2,4) s'(2) by auto
    then have "sorted zs'" "sorted vs" "\<forall>x \<in> set zs'. \<forall>y \<in> set vs. x \<le> y" "\<forall>x \<in> set zs' \<union> set vs. z \<le> x"
      by (simp_all add: sorted_append)
    moreover have "\<forall>x \<in> set zs'. x \<le> c" using ord(2) Cons by simp
    ultimately have "sorted (z # zs' @ c # vs) \<longleftrightarrow> z \<le> c"
      using vs by (auto simp: sorted_append)
    then show ?thesis using Cons s'(2) \<open>z \<noteq> c\<close> by simp linarith
  qed
  then show ?thesis using s' by (intro exI [of _ s'] exI [of _ "zs @ c # vs"]) simp
qed

end
