(* ===== verification/Pool.thy ===== *)
theory Pool
  imports Segregated_Storage
begin

text \<open>
  The model of \<open>gpcl::pool\<close> (\<open>pool.hpp\<close>): chunks of one size, cut out of blocks that a user allocator
  provides. The blocks form a list whose links (\<open>block_info\<close>) are stored at the end of each block,
  behind the chunks, in the same memory that the client writes to through its chunks. Sizes are
  \<open>size_t\<close> values, so products and doublings wrap around at 64 bits; the growth loop of
  \<open>request_new_block\<close> is a partial function because it need not end after a wrap-around. The mutex
  that makes each call atomic is left out: calls are considered one after the other.
\<close>

section \<open>State\<close>

type_synonym block_info = "nat \<times> nat"

text \<open>
  \<open>owned\<close> is not a member of the class: it holds the blocks that the pool has got from the user
  allocator and not given back yet, the latest first. The user allocator is a parameter: a function
  of the blocks handed out and the size requested, which returns an address or null.
\<close>

record pool =
  requested_size :: nat
  chunk_size :: nat
  next_size :: nat
  block_list :: block_info
  storage :: sss
  owned :: "block_info list"

type_synonym user_allocator = "block_info list \<Rightarrow> nat \<Rightarrow> nat"

definition new_pool :: "nat \<Rightarrow> (nat \<Rightarrow> nat) \<Rightarrow> pool res" where
  "new_pool requested memory = res_bind (gpcl_assert (requested \<noteq> 0)) (\<lambda>_.
     Inr \<lparr>requested_size = requested, chunk_size = lcm requested (lcm 8 8), next_size = 32,
       block_list = (0, 0), storage = \<lparr>cells = memory, free_list = 0\<rparr>, owned = []\<rparr>)"

definition block_info_offset :: "nat \<Rightarrow> nat" where
  "block_info_offset block_size = size_t (block_size + (2 ^ 64 - 16)) div 8 * 8"

text \<open>Where the \<open>block_info\<close> at the end of a block is, and reading and writing it.\<close>

definition info_at :: "block_info \<Rightarrow> nat" where
  "info_at b = fst b + block_info_offset (snd b)"

definition read_info :: "block_info \<Rightarrow> sss \<Rightarrow> block_info" where
  "read_info b s = (cells s (info_at b), cells s (info_at b + 8))"

definition write_info :: "block_info \<Rightarrow> block_info \<Rightarrow> sss \<Rightarrow> sss" where
  "write_info b v s = set_cell (info_at b + 8) (snd v) (set_cell (info_at b) (fst v) s)"

definition chunk_count :: "pool \<Rightarrow> nat \<Rightarrow> nat res" where
  "chunk_count p n =
     (let array_size = size_t (n * requested_size p);
          ret = size_t (array_size + chunk_size p - 1) div chunk_size p
      in res_bind (gpcl_assert (size_t (ret * chunk_size p) \<ge> size_t (n * requested_size p))) (\<lambda>_. Inr ret))"

section \<open>Operations\<close>

definition pool_add_block :: "nat \<Rightarrow> nat \<Rightarrow> block_info \<Rightarrow> bool \<Rightarrow> pool \<Rightarrow> (block_info \<times> pool) res option" where
  "pool_add_block ptr sz end_info ordered p =
     run_bind (if ordered
               then storage_add_ordered_block ptr (block_info_offset sz) (chunk_size p) (storage p)
               else storage_add_block ptr (block_info_offset sz) (chunk_size p) (storage p)) (\<lambda>s.
       Some (Inr ((ptr, sz), p\<lparr>storage := write_info (ptr, sz) end_info s\<rparr>)))"

partial_function (option) request_size :: "nat \<Rightarrow> nat \<Rightarrow> nat option" where
  "request_size min_size sz =
     (if sz < size_t (min_size + 16 * 2) then request_size min_size (size_t (sz * 2)) else Some sz)"

definition request_new_block :: "user_allocator \<Rightarrow> nat \<Rightarrow> bool \<Rightarrow> pool \<Rightarrow> (bool \<times> pool) res option" where
  "request_new_block ua min_size ordered p =
     Option.bind (request_size min_size (size_t (next_size p * chunk_size p))) (\<lambda>sz.
       let p1 = p\<lparr>next_size := size_t (next_size p * 2)\<rparr>;
           block = ua (owned p1) sz
       in if block = 0 then Some (Inr (False, p1))
          else run_bind (pool_add_block block sz (block_list p1) ordered (p1\<lparr>owned := (block, sz) # owned p1\<rparr>))
            (\<lambda>(info, p2).
               let p3 = p2\<lparr>block_list := info\<rparr>
               in run_bind (Some (gpcl_assert (\<not> storage_empty (storage p3)))) (\<lambda>_. Some (Inr (True, p3)))))"

definition take_chunk :: "pool \<Rightarrow> (nat \<times> pool) res" where
  "take_chunk p = res_bind (storage_malloc (storage p)) (\<lambda>(c, s). Inr (c, p\<lparr>storage := s\<rparr>))"

definition pool_malloc :: "user_allocator \<Rightarrow> pool \<Rightarrow> (nat \<times> pool) res option" where
  "pool_malloc ua p =
     (if storage_empty (storage p)
      then run_bind (request_new_block ua (chunk_size p) False p) (\<lambda>(ok, p1).
             if ok then Some (take_chunk p1) else Some (Inr (0, p1)))
      else Some (take_chunk p))"

definition pool_ordered_malloc :: "user_allocator \<Rightarrow> pool \<Rightarrow> (nat \<times> pool) res option" where
  "pool_ordered_malloc ua p =
     (if storage_empty (storage p)
      then run_bind (request_new_block ua (chunk_size p) True p) (\<lambda>(ok, p1).
             if ok then Some (take_chunk p1) else Some (Inr (0, p1)))
      else Some (take_chunk p))"

definition take_chunks :: "nat \<Rightarrow> pool \<Rightarrow> (nat \<times> pool) option" where
  "take_chunks n p = Option.bind (storage_malloc_n n (chunk_size p) (storage p)) (\<lambda>(c, s).
     Some (c, p\<lparr>storage := s\<rparr>))"

definition pool_ordered_malloc_n :: "user_allocator \<Rightarrow> nat \<Rightarrow> pool \<Rightarrow> (nat \<times> pool) res option" where
  "pool_ordered_malloc_n ua n p =
     run_bind (Some (gpcl_assert (n \<noteq> 0))) (\<lambda>_.
     run_bind (Some (chunk_count p n)) (\<lambda>k.
     Option.bind (take_chunks k p) (\<lambda>(ret, p1).
       if ret \<noteq> 0 then Some (Inr (ret, p1))
       else run_bind (request_new_block ua (size_t (k * chunk_size p1)) True p1) (\<lambda>(_, p2).
         Option.bind (take_chunks k p2) (\<lambda>r. Some (Inr r))))))"

definition pool_free :: "nat \<Rightarrow> pool \<Rightarrow> pool res" where
  "pool_free ptr p = res_bind (storage_free ptr (storage p)) (\<lambda>s. Inr (p\<lparr>storage := s\<rparr>))"

definition pool_ordered_free :: "nat \<Rightarrow> pool \<Rightarrow> pool res option" where
  "pool_ordered_free ptr p =
     run_bind (storage_ordered_free ptr (storage p)) (\<lambda>s. Some (Inr (p\<lparr>storage := s\<rparr>)))"

definition pool_ordered_free_n :: "nat \<Rightarrow> nat \<Rightarrow> pool \<Rightarrow> pool res option" where
  "pool_ordered_free_n ptr n p =
     run_bind (Some (chunk_count p n)) (\<lambda>k.
     run_bind (storage_ordered_free_n ptr k (chunk_size p) (storage p)) (\<lambda>s.
       Some (Inr (p\<lparr>storage := s\<rparr>))))"

definition set_next_size :: "nat \<Rightarrow> pool \<Rightarrow> pool res" where
  "set_next_size n p = res_bind (gpcl_assert (n \<noteq> 0)) (\<lambda>_. Inr (p\<lparr>next_size := n\<rparr>))"

partial_function (option) is_from_loop :: "nat \<Rightarrow> block_info \<Rightarrow> pool \<Rightarrow> bool option" where
  "is_from_loop ptr block p =
     (if fst block = 0 then Some False
      else if fst block \<le> ptr \<and> ptr < info_at block
      then Some ((ptr - fst block) mod chunk_size p = 0)
      else is_from_loop ptr (read_info block (storage p)) p)"

definition is_from :: "nat \<Rightarrow> pool \<Rightarrow> bool option" where
  "is_from ptr p = is_from_loop ptr (block_list p) p"

text \<open>
  Giving a block back to the user allocator: undefined unless it came from there. The destructor
  reads the link to the next block before it frees a block.
\<close>

definition user_free :: "nat \<Rightarrow> pool \<Rightarrow> pool res" where
  "user_free ptr p = (if ptr \<in> fst ` set (owned p)
     then Inr (p\<lparr>owned := filter (\<lambda>b. fst b \<noteq> ptr) (owned p)\<rparr>) else Inl Undefined_behaviour)"

partial_function (option) pool_destroy_loop :: "block_info \<Rightarrow> pool \<Rightarrow> pool res option" where
  "pool_destroy_loop block p =
     (if fst block = 0 then Some (Inr p)
      else let nx = read_info block (storage p)
           in case user_free (fst block) p of
                Inl e \<Rightarrow> Some (Inl e)
              | Inr p1 \<Rightarrow> pool_destroy_loop nx p1)"

definition pool_destroy :: "pool \<Rightarrow> pool res option" where
  "pool_destroy p = pool_destroy_loop (block_list p) p"

section \<open>Disjoint regions\<close>

text \<open>A region is a start address and a length; \<open>apart\<close> says that all regions are pairwise disjoint.\<close>

type_synonym region = "nat \<times> nat"

definition off_each_other :: "region \<Rightarrow> region \<Rightarrow> bool" where
  "off_each_other r q \<longleftrightarrow> fst r + snd r \<le> fst q \<or> fst q + snd q \<le> fst r"

definition apart :: "region multiset \<Rightarrow> bool" where
  "apart M \<longleftrightarrow> (\<forall>r \<in># M. \<forall>q \<in># M - {#r#}. off_each_other r q)"

definition inside :: "region \<Rightarrow> region \<Rightarrow> bool" where
  "inside r b \<longleftrightarrow> fst b \<le> fst r \<and> fst r + snd r \<le> fst b + snd b"

lemma off_each_other_sym: "off_each_other r q \<longleftrightarrow> off_each_other q r"
  by (auto simp: off_each_other_def)

lemma off_inside: "off_each_other b q \<Longrightarrow> inside r b \<Longrightarrow> off_each_other r q"
  by (auto simp: off_each_other_def inside_def)

lemma apart_empty [simp]: "apart {#}"
  by (simp add: apart_def)

lemma apart_add [simp]: "apart (add_mset r M) \<longleftrightarrow> (\<forall>q \<in># M. off_each_other r q) \<and> apart M"
proof -
  have swap: "add_mset r M - {#q#} = add_mset r (M - {#q#})" if "q \<in># M" for q
    using multi_member_split [OF that] by (auto simp: add_mset_commute)
  have "apart (add_mset r M) \<longleftrightarrow>
    (\<forall>q \<in># M. off_each_other r q) \<and> (\<forall>p \<in># M. \<forall>q \<in># add_mset r (M - {#p#}). off_each_other p q)"
    unfolding apart_def by (simp add: swap)
  then show ?thesis
    unfolding apart_def by (metis off_each_other_sym set_mset_add_mset_insert insert_iff)
qed

lemma apart_plus [simp]:
  "apart (M + N) \<longleftrightarrow> apart M \<and> apart N \<and> (\<forall>r \<in># M. \<forall>q \<in># N. off_each_other r q)"
  by (induction M) (auto simp: off_each_other_sym)

text \<open>A region that is off each of several adjacent chunks is off their union, and conversely.\<close>

lemma off_chunk_list:
  assumes "0 < snd q" and "0 < n" and "\<forall>c \<in> set (chunk_list a psz n). off_each_other (c, psz) q"
  shows "off_each_other (a, n * psz) q"
  using assms(2,3)
proof (induction n arbitrary: a)
  case (Suc n)
  show ?case
  proof (cases "n = 0")
    case False
    then have "off_each_other (a, psz) q" "off_each_other (a + psz, n * psz) q"
      using Suc.IH [of "a + psz"] Suc.prems by auto
    then show ?thesis using assms(1) by (auto simp: off_each_other_def)
  qed (use Suc.prems in simp)
qed simp

lemma inside_chunk_list: "c \<in> set (chunk_list a psz m) \<Longrightarrow> m \<le> n \<Longrightarrow> inside (c, psz) (a, n * psz)"
  using chunk_list_bounds [of c a psz m] mult_le_mono1 [of m n psz]
  unfolding inside_def fst_conv snd_conv by linarith

lemma apart_chunk_list: "apart (image_mset (\<lambda>c. (c, psz)) (mset (chunk_list a psz n)))"
proof (induction n arbitrary: a)
  case (Suc n)
  then show ?case using chunk_list_bounds [of _ "a + psz" psz n] by (force simp: off_each_other_def)
qed simp

section \<open>The invariant\<close>

text \<open>
  All memory the pool accounts for: the free chunks, the regions the client holds and the
  \<open>block_info\<close> at the end of every block.
\<close>

definition chunk_regions :: "pool \<Rightarrow> nat list \<Rightarrow> region multiset" where
  "chunk_regions p cs = image_mset (\<lambda>c. (c, chunk_size p)) (mset cs)"

definition info_regions :: "pool \<Rightarrow> region multiset" where
  "info_regions p = image_mset (\<lambda>b. (info_at b, 16)) (mset (owned p))"

definition good_region :: "pool \<Rightarrow> region \<Rightarrow> bool" where
  "good_region p r \<longleftrightarrow> 8 dvd fst r \<and> 0 < snd r \<and> (\<exists>b \<in> set (owned p). inside r b)"

fun info_chain :: "sss \<Rightarrow> block_info \<Rightarrow> block_info list \<Rightarrow> bool" where
  "info_chain s b [] \<longleftrightarrow> fst b = 0"
| "info_chain s b (x # xs) \<longleftrightarrow> b = x \<and> fst x \<noteq> 0 \<and> info_chain s (read_info x s) xs"

definition sizes_ok :: "pool \<Rightarrow> bool" where
  "sizes_ok p \<longleftrightarrow> 0 < requested_size p \<and> chunk_size p = lcm (requested_size p) 8 \<and> chunk_size p \<le> 2 ^ 60"

definition blocks_ok :: "pool \<Rightarrow> bool" where
  "blocks_ok p \<longleftrightarrow> info_chain (storage p) (block_list p) (owned p) \<and> distinct (map fst (owned p)) \<and>
    (\<forall>b \<in> set (owned p). fst b \<noteq> 0 \<and> 32 \<le> snd b \<and> snd b < 2 ^ 64)"

definition regions_ok :: "pool \<Rightarrow> nat list \<Rightarrow> region list \<Rightarrow> bool" where
  "regions_ok p cs live \<longleftrightarrow> apart (chunk_regions p cs + mset live + info_regions p) \<and>
    (\<forall>r \<in># chunk_regions p cs + mset live + info_regions p. good_region p r)"

definition pool_ok :: "pool \<Rightarrow> region list \<Rightarrow> bool" where
  "pool_ok p live \<longleftrightarrow> sizes_ok p \<and> blocks_ok p \<and>
    (\<exists>cs. free_chunks (storage p) cs \<and> regions_ok p cs live)"

lemmas region_defs = chunk_regions_def info_regions_def good_region_def

lemma sizes_ok_chunk: "sizes_ok p \<Longrightarrow> 8 \<le> chunk_size p \<and> 8 dvd chunk_size p \<and> requested_size p \<le> chunk_size p"
proof -
  assume a: "sizes_ok p"
  then have "8 dvd chunk_size p" "requested_size p dvd chunk_size p" "0 < chunk_size p"
    by (auto simp: sizes_ok_def lcm_pos_nat)
  then show ?thesis by (auto dest: dvd_imp_le)
qed

lemma chunk_list_aligned:
  "8 dvd a \<Longrightarrow> 8 dvd psz \<Longrightarrow> c \<in> set (chunk_list a psz n) \<Longrightarrow> 8 dvd (c :: nat)"
  by (auto simp: chunk_list_set)

lemma block_info_offset_bounds:
  assumes "32 \<le> sz" and "sz < 2 ^ 64"
  shows "block_info_offset sz + 16 \<le> sz" and "sz \<le> block_info_offset sz + 23" and "8 dvd block_info_offset sz"
proof -
  have "size_t (sz + (2 ^ 64 - 16)) = sz - 16"
    using assms by (simp add: size_t_def mod_if)
  then have "block_info_offset sz = (sz - 16) div 8 * 8" by (simp add: block_info_offset_def)
  then show "block_info_offset sz + 16 \<le> sz" "sz \<le> block_info_offset sz + 23" "8 dvd block_info_offset sz"
    using assms by auto
qed

lemma info_chain_cong:
  assumes "\<And>b. b \<in> set bs \<Longrightarrow> read_info b s' = read_info b s"
  shows "info_chain s' x bs = info_chain s x bs"
  using assms by (induction bs arbitrary: x) auto

text \<open>
  Changing memory only inside regions that are off the \<open>block_info\<close>s keeps the list of blocks.
\<close>

lemma blocks_ok_frame:
  assumes "blocks_ok p" and "unchanged_but A (storage p) s'"
    and "\<And>a. a \<in> A \<Longrightarrow> \<exists>l \<ge> 8. \<forall>q \<in># info_regions p. off_each_other (a, l) q"
  shows "blocks_ok (p\<lparr>storage := s'\<rparr>)"
proof -
  have "a \<noteq> info_at b \<and> a \<noteq> info_at b + 8" if "a \<in> A" "b \<in> set (owned p)" for a b
    using assms(3) [OF that(1)] that(2) by (fastforce simp: info_regions_def off_each_other_def)
  then have "info_at b \<notin> A \<and> info_at b + 8 \<notin> A" if "b \<in> set (owned p)" for b
    using that by blast
  then have "read_info b s' = read_info b (storage p)" if "b \<in> set (owned p)" for b
    using assms(2) that by (simp add: unchanged_but_def read_info_def)
  then show ?thesis
    using assms(1) info_chain_cong [of "owned p" s' "storage p"] by (simp add: blocks_ok_def)
qed

lemma regions_ok_upd [simp]: "regions_ok (p\<lparr>storage := s\<rparr>) cs live = regions_ok p cs live"
  by (simp add: regions_ok_def region_defs)

lemma sizes_ok_upd [simp]: "sizes_ok (p\<lparr>storage := s\<rparr>) = sizes_ok p"
  by (simp add: sizes_ok_def)

lemma pool_ok_cases:
  assumes "pool_ok p live"
  obtains cs where "sizes_ok p" "blocks_ok p" "free_chunks (storage p) cs" "regions_ok p cs live"
  using assms by (auto simp: pool_ok_def)

lemma pool_okI:
  assumes "sizes_ok p" and "blocks_ok p" and "unchanged_but A (storage p) s'"
    and "\<And>a. a \<in> A \<Longrightarrow> \<exists>l \<ge> 8. \<forall>q \<in># info_regions p. off_each_other (a, l) q"
    and "free_chunks s' cs" and "regions_ok p cs live"
  shows "pool_ok (p\<lparr>storage := s'\<rparr>) live"
  unfolding pool_ok_def using blocks_ok_frame [OF assms(2-4)] assms by auto

section \<open>Moving memory between the free list and the client\<close>

lemma regions_ok_perm: "mset cs = mset cs' \<Longrightarrow> regions_ok p cs live = regions_ok p cs' live"
  by (simp add: regions_ok_def chunk_regions_def)

lemma regions_ok_shift: "regions_ok p (c # cs) live \<longleftrightarrow> regions_ok p cs ((c, chunk_size p) # live)"
  by (simp add: regions_ok_def chunk_regions_def)

lemma chunk_off_infos:
  assumes "regions_ok p cs live" and "sizes_ok p" and "a \<in> set cs"
  shows "\<exists>l \<ge> 8. \<forall>q \<in># info_regions p. off_each_other (a, l) q"
  using assms sizes_ok_chunk [OF assms(2)]
  by (intro exI [of _ "chunk_size p"]) (auto simp: regions_ok_def chunk_regions_def)

lemma good_region_chunks:
  assumes "good_region p (a, n * psz)" and "8 dvd psz" and "0 < psz" and "c \<in> set (chunk_list a psz m)" and "m \<le> n"
  shows "good_region p (c, psz)"
proof -
  obtain b where b: "b \<in> set (owned p)" "inside (a, n * psz) b" and "8 dvd a"
    using assms(1) by (auto simp: good_region_def)
  have "inside (c, psz) b" using b(2) inside_chunk_list [OF assms(4,5)] by (simp add: inside_def)
  then show ?thesis
    using b(1) \<open>8 dvd a\<close> assms chunk_list_aligned [of a psz c m] by (auto simp: good_region_def)
qed

lemma regions_ok_split:
  assumes "regions_ok p cs ((a, n * chunk_size p) # live)" and "m \<le> n" and "sizes_ok p"
  shows "regions_ok p (chunk_list a (chunk_size p) m @ cs) live"
proof -
  let ?psz = "chunk_size p" and ?rest = "chunk_regions p cs + mset live + info_regions p"
  have psz: "8 dvd ?psz" "0 < ?psz" using sizes_ok_chunk [OF assms(3)] by auto
  have old: "good_region p (a, n * ?psz)" "apart ?rest" "\<forall>q \<in># ?rest. good_region p q"
    "\<forall>q \<in># ?rest. off_each_other (a, n * ?psz) q"
    using assms(1) by (auto simp: regions_ok_def)
  have "off_each_other (c, ?psz) q" if "c \<in> set (chunk_list a ?psz m)" "q \<in># ?rest" for c q
    using off_inside inside_chunk_list [OF that(1) assms(2)] old(4) that(2) by blast
  then have "apart (chunk_regions p (chunk_list a ?psz m) + ?rest)"
    using old(2) apart_chunk_list [of ?psz a m] by (auto simp: chunk_regions_def)
  moreover have "\<forall>q \<in># chunk_regions p (chunk_list a ?psz m) + ?rest. good_region p q"
    using old(3) good_region_chunks [OF old(1) psz _ assms(2)] by (auto simp: chunk_regions_def)
  ultimately show ?thesis by (simp add: regions_ok_def chunk_regions_def add.assoc)
qed

text \<open>
  Adjacent chunks of the free list lie in one block: at the end of a block, its \<open>block_info\<close> keeps
  the last chunk from being adjacent to the first chunk of another block.
\<close>

lemma chunk_before_info:
  assumes "inside (c, psz) b" and "off_each_other (c, psz) (info_at b, 16)" and "8 \<le> psz"
    and "32 \<le> snd b" and "snd b < 2 ^ 64"
  shows "c + psz \<le> info_at b"
  using assms block_info_offset_bounds [of "snd b"]
  by (auto simp: inside_def off_each_other_def info_at_def)

lemma run_in_block:
  assumes "regions_ok p cs live" and "blocks_ok p" and "sizes_ok p" and "0 < n"
    and "set (chunk_list b (chunk_size p) n) \<subseteq> set cs"
  shows "\<exists>blk \<in> set (owned p). fst blk \<le> b \<and> b + n * chunk_size p \<le> info_at blk"
  using assms(4,5)
proof (induction n)
  case (Suc n)
  let ?psz = "chunk_size p" and ?c = "b + n * chunk_size p"
  have psz: "8 \<le> ?psz" using sizes_ok_chunk [OF assms(3)] by simp
  have split: "chunk_list b ?psz (Suc n) = chunk_list b ?psz n @ [?c]"
    using chunk_list_append [of b ?psz n 1] by simp
  then have "?c \<in> set cs" using Suc.prems by (auto simp del: chunk_list.simps)
  then have c: "\<exists>blk \<in> set (owned p). inside (?c, ?psz) blk"
    "\<forall>blk \<in> set (owned p). off_each_other (?c, ?psz) (info_at blk, 16)"
    using assms(1) by (auto simp: regions_ok_def region_defs)
  show ?case
  proof (cases "n = 0")
    case True
    obtain blk where blk: "blk \<in> set (owned p)" "inside (?c, ?psz) blk" using c by blast
    then have "?c + ?psz \<le> info_at blk"
      using c assms(2) psz by (intro chunk_before_info) (auto simp: blocks_ok_def)
    then show ?thesis using blk True by (auto simp: inside_def)
  next
    case False
    then obtain blk where blk: "blk \<in> set (owned p)" "fst blk \<le> b" "?c \<le> info_at blk"
      using Suc.IH Suc.prems split by (auto simp del: chunk_list.simps)
    then have "?c + ?psz \<le> info_at blk" using c by (fastforce simp: off_each_other_def)
    then show ?thesis using blk by (auto simp: algebra_simps)
  qed
qed simp

lemma regions_ok_merge:
  assumes "regions_ok p (us @ chunk_list b (chunk_size p) n @ vs) live" and "0 < n"
    and "blocks_ok p" and "sizes_ok p"
  shows "regions_ok p (us @ vs) ((b, n * chunk_size p) # live)"
proof -
  let ?psz = "chunk_size p" and ?rest = "chunk_regions p (us @ vs) + mset live + info_regions p"
  have old: "apart (chunk_regions p (chunk_list b ?psz n) + ?rest)"
    "\<forall>q \<in># chunk_regions p (chunk_list b ?psz n) + ?rest. good_region p q"
    using assms(1) by (simp_all add: regions_ok_def chunk_regions_def ac_simps)
  have off: "off_each_other (b, n * ?psz) q" if "q \<in># ?rest" for q
    using off_chunk_list [of q n b ?psz] old that assms(2) by (auto simp: chunk_regions_def good_region_def)
  have "(b, ?psz) \<in># chunk_regions p (chunk_list b ?psz n)"
    using assms(2) by (cases n) (auto simp: chunk_regions_def)
  then have "good_region p (b, ?psz)" using old(2) by (meson union_iff)
  then have "8 dvd b" by (simp add: good_region_def)
  moreover have sub: "set (chunk_list b ?psz n) \<subseteq> set (us @ chunk_list b ?psz n @ vs)" by auto
  obtain blk where blk: "blk \<in> set (owned p)" "fst blk \<le> b" "b + n * ?psz \<le> info_at blk"
    using run_in_block [OF assms(1,3,4,2) sub] by blast
  then have "inside (b, n * ?psz) blk"
    using assms(3) block_info_offset_bounds [of "snd blk"] by (auto simp: inside_def info_at_def blocks_ok_def)
  ultimately have "good_region p (b, n * ?psz)"
    using blk assms sizes_ok_chunk [OF assms(4)] by (auto simp: good_region_def)
  then show ?thesis using old off by (auto simp: regions_ok_def)
qed

section \<open>The operations keep the invariant\<close>

lemma regions_ok_live: "regions_ok p cs live \<Longrightarrow> r \<in> set live \<Longrightarrow> good_region p r"
  by (simp add: regions_ok_def)

lemma good_region_nonnull:
  assumes "good_region p r" and "blocks_ok p"
  shows "fst r \<noteq> 0"
proof -
  obtain b where "b \<in> set (owned p)" "inside r b" using assms(1) by (auto simp: good_region_def)
  moreover from this have "fst b \<noteq> 0" using assms(2) by (simp add: blocks_ok_def)
  ultimately show ?thesis by (simp add: inside_def)
qed

lemma pool_ok_nonnull: "pool_ok p ((c, n) # live) \<Longrightarrow> c \<noteq> 0"
  using good_region_nonnull [of p "(c, n)"] regions_ok_live [of p _ "(c, n) # live" "(c, n)"]
  by (auto simp: pool_ok_def)

lemma off_distinct: "off_each_other (c, n) (c, m) \<Longrightarrow> n = 0 \<or> m = 0"
  by (auto simp: off_each_other_def)

lemma regions_ok_fresh:
  assumes "regions_ok p (xs @ cs) live" and "sizes_ok p"
  shows "set xs \<inter> set cs = {}"
proof -
  have "off_each_other (x, chunk_size p) (c, chunk_size p)" if "x \<in> set xs" "c \<in> set cs" for x c
    using assms(1) that by (simp add: regions_ok_def chunk_regions_def)
  then show ?thesis using off_distinct [of _ "chunk_size p" "chunk_size p"] sizes_ok_chunk [OF assms(2)] by force
qed

lemma take_chunk_ok:
  assumes "pool_ok p live" and "\<not> storage_empty (storage p)"
  shows "\<exists>c s. take_chunk p = Inr (c, p\<lparr>storage := s\<rparr>) \<and> pool_ok (p\<lparr>storage := s\<rparr>) ((c, chunk_size p) # live)"
proof -
  obtain cs where ok: "sizes_ok p" "blocks_ok p" "free_chunks (storage p) cs" "regions_ok p cs live"
    using assms(1) by (rule pool_ok_cases)
  then obtain c cs' where cs: "cs = c # cs'" using assms(2) storage_empty_iff by (cases cs) auto
  let ?s = "(storage p)\<lparr>free_list := cells (storage p) c\<rparr>"
  have "storage_malloc (storage p) = Inr (c, ?s)" "free_chunks ?s cs'"
    using storage_malloc_correct [of "storage p" c cs'] ok(3) cs by auto
  moreover have "pool_ok (p\<lparr>storage := ?s\<rparr>) ((c, chunk_size p) # live)"
    using ok calculation(2)
    by (intro pool_okI [where A = "{}" and cs = cs']) (auto simp: unchanged_but_def cs regions_ok_shift)
  ultimately show ?thesis by (simp add: take_chunk_def) blast
qed

lemma pool_free_ok:
  assumes "pool_ok p ((c, chunk_size p) # live)"
  shows "\<exists>s. pool_free c p = Inr (p\<lparr>storage := s\<rparr>) \<and> pool_ok (p\<lparr>storage := s\<rparr>) live"
proof -
  obtain cs where ok: "sizes_ok p" "blocks_ok p" "free_chunks (storage p) cs" "regions_ok p (c # cs) live"
    using assms unfolding pool_ok_def regions_ok_shift by blast
  have "c \<notin> set cs" using regions_ok_fresh [of p "[c]" cs live] ok by simp
  then obtain s where s: "storage_free c (storage p) = Inr s" "free_chunks s (c # cs)" "unchanged_but {c} (storage p) s"
    using storage_free_correct [OF ok(3) pool_ok_nonnull [OF assms]] by blast
  then have "pool_ok (p\<lparr>storage := s\<rparr>) live"
    using ok chunk_off_infos [OF ok(4,1)] by (intro pool_okI) auto
  then show ?thesis using s by (simp add: pool_free_def) blast
qed

lemma pool_ordered_free_ok:
  assumes "pool_ok p ((c, chunk_size p) # live)"
  shows "\<exists>s. pool_ordered_free c p = Some (Inr (p\<lparr>storage := s\<rparr>)) \<and> pool_ok (p\<lparr>storage := s\<rparr>) live"
proof -
  obtain cs where ok: "sizes_ok p" "blocks_ok p" "free_chunks (storage p) cs" "regions_ok p (c # cs) live"
    using assms unfolding pool_ok_def regions_ok_shift by blast
  have "c \<notin> set cs" using regions_ok_fresh [of p "[c]" cs live] ok by simp
  then obtain s zs vs where s: "storage_ordered_free c (storage p) = Some (Inr s)" "cs = zs @ vs"
    "free_chunks s (zs @ c # vs)" "unchanged_but (insert c (set cs)) (storage p) s"
    using storage_ordered_free_correct [OF ok(3) pool_ok_nonnull [OF assms]] by blast
  then have "pool_ok (p\<lparr>storage := s\<rparr>) live"
    using ok chunk_off_infos [OF ok(4,1)] regions_ok_perm [of "c # cs" "zs @ c # vs" p live]
    by (intro pool_okI [where cs = "zs @ c # vs"]) auto
  then show ?thesis using s by (simp add: pool_ordered_free_def) blast
qed

lemma take_chunks_ok:
  assumes "pool_ok p live" and "0 < n"
  shows "\<exists>c s. take_chunks n p = Some (c, p\<lparr>storage := s\<rparr>) \<and>
    pool_ok (p\<lparr>storage := s\<rparr>) (if c = 0 then live else (c, n * chunk_size p) # live)"
proof -
  obtain cs where ok: "sizes_ok p" "blocks_ok p" "free_chunks (storage p) cs" "regions_ok p cs live"
    using assms(1) by (rule pool_ok_cases)
  consider "storage_malloc_n n (chunk_size p) (storage p) = Some (0, storage p)"
    | c s us vs where "storage_malloc_n n (chunk_size p) (storage p) = Some (c, s)"
      "cs = us @ chunk_list c (chunk_size p) n @ vs" "c \<noteq> 0" "free_chunks s (us @ vs)"
      "unchanged_but (set us) (storage p) s"
    using storage_malloc_n_correct [OF ok(3), of n "chunk_size p"] by blast
  then show ?thesis
  proof cases
    case 1
    then show ?thesis using assms by (intro exI [of _ 0] exI [of _ "storage p"]) (simp add: take_chunks_def)
  next
    case (2 c s us vs)
    then have "pool_ok (p\<lparr>storage := s\<rparr>) ((c, n * chunk_size p) # live)"
      using ok regions_ok_merge [of p us c n vs live] chunk_off_infos [OF ok(4,1)] assms(2)
      by (intro pool_okI) auto
    then show ?thesis using 2 by (simp add: take_chunks_def) blast
  qed
qed

lemma n_chunks_le: "0 < psz \<Longrightarrow> 0 < n \<Longrightarrow> n_chunks (psz * n) psz \<le> n"
proof -
  assume a: "0 < psz" "0 < n"
  then have "psz \<le> psz * n" by simp
  then have "n_chunks (psz * n) psz * psz \<le> n * psz"
    using n_chunks_fit [of psz "psz * n"] a by (simp add: mult.commute)
  then show ?thesis using a by simp
qed

lemma pool_ordered_free_n_ok:
  assumes "pool_ok p ((c, k * chunk_size p) # live)" and "0 < k" and "chunk_count p n = Inr k"
  shows "\<exists>s. pool_ordered_free_n c n p = Some (Inr (p\<lparr>storage := s\<rparr>)) \<and> pool_ok (p\<lparr>storage := s\<rparr>) live"
proof -
  let ?psz = "chunk_size p"
  let ?new = "chunk_list c ?psz (n_chunks (?psz * k) ?psz)"
  obtain cs where ok: "sizes_ok p" "blocks_ok p" "free_chunks (storage p) cs" "regions_ok p cs ((c, k * ?psz) # live)"
    using assms(1) by (rule pool_ok_cases)
  have psz: "0 < ?psz" "?psz \<le> ?psz * k" using sizes_ok_chunk [OF ok(1)] assms(2) by auto
  have regs: "regions_ok p (?new @ cs) live"
    using regions_ok_split [OF ok(4) n_chunks_le ok(1)] psz assms(2) by simp
  have fresh: "set ?new \<inter> set cs = {}" using regions_ok_fresh [OF regs ok(1)] .
  obtain s zs vs where s: "storage_add_ordered_block c (?psz * k) ?psz (storage p) = Some (Inr s)" "cs = zs @ vs"
    "free_chunks s (zs @ ?new @ vs)" "unchanged_but (set ?new \<union> set cs) (storage p) s"
    using storage_add_ordered_block_correct [OF ok(3) psz pool_ok_nonnull [OF assms(1)] fresh] by blast
  have "regions_ok p (zs @ ?new @ vs) live" using regs regions_ok_perm [of "?new @ cs" "zs @ ?new @ vs" p live] s(2)
    by (simp add: ac_simps)
  then have "pool_ok (p\<lparr>storage := s\<rparr>) live"
    using ok s chunk_off_infos [OF regs ok(1)] by (intro pool_okI) auto
  then show ?thesis
    using s assms(3) by (simp add: pool_ordered_free_n_def storage_ordered_free_n_def) blast
qed

section \<open>Requesting a new block\<close>

text \<open>
  What the user allocator promises: null, or an aligned block that overlaps no block it has handed
  out before.
\<close>

definition good_allocator :: "user_allocator \<Rightarrow> bool" where
  "good_allocator ua \<longleftrightarrow> (\<forall>bs n. ua bs n \<noteq> 0 \<longrightarrow>
     8 dvd ua bs n \<and> (\<forall>b \<in> set bs. off_each_other b (ua bs n, n)))"

text \<open>The size of the request fits into 64 bits with the doublings that may be needed.\<close>

definition request_fits :: "pool \<Rightarrow> nat \<Rightarrow> bool" where
  "request_fits p min_size \<longleftrightarrow>
     0 < next_size p \<and> next_size p * chunk_size p \<le> 2 ^ 62 \<and> chunk_size p \<le> min_size \<and> min_size \<le> 2 ^ 62"

lemma request_size_ok:
  assumes "0 < sz" and "sz < 2 ^ 64" and "min_size \<le> 2 ^ 62"
  shows "\<exists>sz'. request_size min_size sz = Some sz' \<and> min_size + 32 \<le> sz' \<and> sz' < 2 ^ 64"
  using assms
proof (induction "min_size + 32 - sz" arbitrary: sz rule: less_induct)
  case less
  have m: "size_t (min_size + 16 * 2) = min_size + 32" using less.prems by simp
  show ?case
  proof (cases "sz < min_size + 32")
    case True
    then have sz: "size_t (sz * 2) = sz * 2" "sz * 2 < 2 ^ 64" using less.prems by auto
    then have "request_size min_size sz = request_size min_size (sz * 2)"
      using True m by (simp add: request_size.simps [of min_size sz])
    then show ?thesis using less.hyps [of "sz * 2"] less.prems sz(2) True by simp
  next
    case False
    then show ?thesis using m less.prems by (simp add: request_size.simps [of min_size sz])
  qed
qed

lemma storage_add_any_block_correct:
  assumes "free_chunks s cs" and "0 < psz" and "psz \<le> sz" and "block \<noteq> 0"
    and "set (chunk_list block psz (n_chunks sz psz)) \<inter> set cs = {}"
  shows "\<exists>s' cs'. (if ordered then storage_add_ordered_block block sz psz s else storage_add_block block sz psz s) =
      Some (Inr s') \<and> free_chunks s' cs' \<and> mset cs' = mset (chunk_list block psz (n_chunks sz psz) @ cs) \<and>
    unchanged_but (set (chunk_list block psz (n_chunks sz psz)) \<union> set cs) s s'"
proof (cases ordered)
  case True
  then show ?thesis using storage_add_ordered_block_correct [OF assms] by fastforce
next
  case False
  then show ?thesis using storage_add_block_correct [OF assms] by (fastforce simp: unchanged_but_def)
qed

text \<open>A fresh block: its chunks and its \<open>block_info\<close> are disjoint from everything in use.\<close>

lemma regions_ok_new_block:
  assumes regs: "regions_ok p cs live" and "sizes_ok p"
    and new: "\<forall>b \<in> set (owned p). off_each_other b (ptr, sz)" and "8 dvd ptr" and "32 \<le> sz" and "sz < 2 ^ 64"
    and n: "n * chunk_size p \<le> block_info_offset sz"
    and p': "chunk_size p' = chunk_size p" "owned p' = (ptr, sz) # owned p"
  shows "regions_ok p' (chunk_list ptr (chunk_size p) n @ cs) live"
proof -
  let ?psz = "chunk_size p" and ?rest = "chunk_regions p cs + mset live + info_regions p"
  let ?new = "add_mset (info_at (ptr, sz), 16) (chunk_regions p (chunk_list ptr ?psz n))"
  note off = block_info_offset_bounds [OF assms(5,6)] and psz = sizes_ok_chunk [OF assms(2)]
  have chunk: "inside (c, ?psz) (ptr, block_info_offset sz)" if "c \<in> set (chunk_list ptr ?psz n)" for c
    using chunk_list_bounds [OF that] n by (simp add: inside_def)
  have in_new: "inside r (ptr, sz) \<and> 8 dvd fst r \<and> 0 < snd r" if r: "r \<in># ?new" for r
  proof -
    consider "r = (info_at (ptr, sz), 16)" | c where "c \<in> set (chunk_list ptr ?psz n)" "r = (c, ?psz)"
      using r by (auto simp: chunk_regions_def)
    then show ?thesis
    proof cases
      case 1
      then show ?thesis using off assms(4) by (simp add: inside_def info_at_def)
    next
      case 2
      then show ?thesis using chunk [OF 2(1)] off psz chunk_list_aligned [OF assms(4) _ 2(1)] by (simp add: inside_def)
    qed
  qed
  have "off_each_other r q" if "r \<in># ?new" "q \<in># ?rest" for r q
  proof -
    have "good_region p q" using regs that(2) unfolding regions_ok_def by blast
    then obtain b where "b \<in> set (owned p)" "inside q b" unfolding good_region_def by blast
    then show ?thesis
      using new in_new [OF that(1)] by (meson off_inside off_each_other_sym)
  qed
  moreover have "apart ?new"
    using chunk apart_chunk_list [of ?psz ptr n]
    by (fastforce simp: chunk_regions_def off_each_other_def inside_def info_at_def)
  ultimately have "apart (?new + ?rest)" using regs by (simp only: apart_plus regions_ok_def) blast
  moreover have "good_region p' r" if "r \<in># ?new + ?rest" for r
  proof (cases "r \<in># ?new")
    case True
    then show ?thesis using in_new [OF True] p'(2) by (simp add: good_region_def)
  next
    case False
    then have "good_region p r" using that regs unfolding regions_ok_def by (metis union_iff)
    then show ?thesis using p'(2) by (auto simp: good_region_def)
  qed
  ultimately show ?thesis
    by (simp add: regions_ok_def chunk_regions_def info_regions_def p' ac_simps)
qed

lemma pool_add_block_ok:
  assumes "pool_ok p live" and new: "\<forall>b \<in> set (owned p). off_each_other b (ptr, sz)"
    and "ptr \<noteq> 0" and "8 dvd ptr" and "chunk_size p + 32 \<le> sz" and "sz < 2 ^ 64"
  shows "\<exists>s. pool_add_block ptr sz (block_list p) ordered (p\<lparr>owned := (ptr, sz) # owned p\<rparr>) =
      Some (Inr ((ptr, sz), p\<lparr>owned := (ptr, sz) # owned p, storage := s\<rparr>)) \<and>
    \<not> storage_empty s \<and>
    pool_ok (p\<lparr>owned := (ptr, sz) # owned p, storage := s, block_list := (ptr, sz)\<rparr>) live"
proof -
  let ?psz = "chunk_size p" and ?off = "block_info_offset sz"
  let ?p = "p\<lparr>owned := (ptr, sz) # owned p\<rparr>" and ?new = "chunk_list ptr ?psz (n_chunks ?off ?psz)"
  obtain cs where ok: "sizes_ok p" "blocks_ok p" "free_chunks (storage p) cs" "regions_ok p cs live"
    using assms(1) by (rule pool_ok_cases)
  have psz: "8 \<le> ?psz" "?psz \<le> ?off" "32 \<le> sz"
    using sizes_ok_chunk [OF ok(1)] assms(5) block_info_offset_bounds [of sz] assms(6) by auto
  have fit: "n_chunks ?off ?psz * ?psz \<le> ?off" using n_chunks_fit [of ?psz ?off] psz by simp
  have regs: "regions_ok ?p (?new @ cs) live"
    using regions_ok_new_block [OF ok(4,1) new assms(4) psz(3) assms(6) fit, of ?p] by simp
  have sz_p: "sizes_ok ?p" using ok(1) by (simp add: sizes_ok_def)
  obtain s cs' where s: "free_chunks s cs'" "mset cs' = mset (?new @ cs)"
    "(if ordered then storage_add_ordered_block ptr ?off ?psz (storage p) else storage_add_block ptr ?off ?psz (storage p))
      = Some (Inr s)" "unchanged_but (set ?new \<union> set cs) (storage p) s"
    using storage_add_any_block_correct [OF ok(3) _ psz(2) assms(3) regions_ok_fresh [OF regs sz_p], where ordered = ordered]
      psz(1) by auto
  let ?t = "write_info (ptr, sz) (block_list p) s"
  have off_info: "\<exists>l \<ge> 8. \<forall>q \<in># info_regions ?p. off_each_other (a, l) q" if "a \<in> set (?new @ cs)" for a
    using chunk_off_infos [OF regs sz_p that] .
  have "info_at (ptr, sz) \<notin> set cs'" "info_at (ptr, sz) + 8 \<notin> set cs'"
    using off_info s(2) [THEN mset_eq_setD] by (fastforce simp: info_regions_def off_each_other_def)+
  then have free: "free_chunks ?t cs'" using s(1) by (simp add: free_chunks_def write_info_def)
  have "read_info b ?t = read_info b (storage p)" if b: "b \<in> set (owned p)" for b
  proof -
    have "off_each_other (info_at (ptr, sz), 16) (info_at b, 16)"
      using regs b by (simp add: regions_ok_def info_regions_def)
    moreover have "info_at b \<notin> set (?new @ cs)" "info_at b + 8 \<notin> set (?new @ cs)"
      using off_info b by (fastforce simp: info_regions_def off_each_other_def)+
    ultimately show ?thesis
      using s(4) by (auto simp: read_info_def write_info_def unchanged_but_def off_each_other_def)
  qed
  then have "info_chain ?t (block_list p) (owned p)"
    using ok(2) info_chain_cong [of "owned p" ?t "storage p"] by (simp add: blocks_ok_def)
  moreover have "read_info (ptr, sz) ?t = block_list p" by (simp add: read_info_def write_info_def)
  moreover have "ptr \<notin> fst ` set (owned p)"
    using new ok(2) psz by (fastforce simp: off_each_other_def blocks_ok_def)
  ultimately have "blocks_ok (?p\<lparr>storage := ?t, block_list := (ptr, sz)\<rparr>)"
    using ok(2) assms(3,6) psz(3) by (simp add: blocks_ok_def)
  moreover have "regions_ok ?p cs' live" using regs regions_ok_perm [OF s(2), of ?p live] by simp
  ultimately have "pool_ok (?p\<lparr>storage := ?t, block_list := (ptr, sz)\<rparr>) live"
    using free sz_p unfolding pool_ok_def by (auto simp: sizes_ok_def regions_ok_def region_defs)
  moreover have "cs' \<noteq> []" using s(2) by (auto simp: n_chunks_def)
  then have "\<not> storage_empty ?t" using free storage_empty_iff by blast
  ultimately show ?thesis using s(3) by (intro exI [of _ ?t]) (auto simp: pool_add_block_def split: if_splits)
qed

lemma pool_ok_next_size [simp]: "pool_ok (p\<lparr>next_size := n\<rparr>) live = pool_ok p live"
  by (simp add: pool_ok_def sizes_ok_def blocks_ok_def regions_ok_def region_defs)

lemma request_new_block_ok:
  assumes "pool_ok p live" and "good_allocator ua" and "request_fits p min_size"
  shows "\<exists>ok p'. request_new_block ua min_size ordered p = Some (Inr (ok, p')) \<and> pool_ok p' live \<and>
    chunk_size p' = chunk_size p \<and> requested_size p' = requested_size p \<and>
    (ok \<longrightarrow> \<not> storage_empty (storage p'))"
proof -
  have "0 < chunk_size p" using assms(1) sizes_ok_chunk [of p] by (auto simp: pool_ok_def)
  then obtain sz where sz: "request_size min_size (next_size p * chunk_size p) = Some sz"
    "min_size + 32 \<le> sz" "sz < 2 ^ 64"
    using request_size_ok [of "next_size p * chunk_size p" min_size] assms(3) by (auto simp: request_fits_def)
  have req: "size_t (next_size p * chunk_size p) = next_size p * chunk_size p"
    using assms(3) by (simp add: request_fits_def)
  let ?p1 = "p\<lparr>next_size := size_t (next_size p * 2)\<rparr>" and ?b = "ua (owned p) sz"
  show ?thesis
  proof (cases "?b = 0")
    case True
    then show ?thesis
      using assms(1) sz req by (intro exI [of _ False] exI [of _ ?p1]) (simp add: request_new_block_def Let_def)
  next
    case False
    then have new: "\<forall>b \<in> set (owned ?p1). off_each_other b (?b, sz)" "8 dvd ?b"
      using assms(2) by (simp_all add: good_allocator_def)
    have "chunk_size ?p1 + 32 \<le> sz" using sz assms(3) by (simp add: request_fits_def)
    then obtain s where "pool_add_block ?b sz (block_list ?p1) ordered (?p1\<lparr>owned := (?b, sz) # owned ?p1\<rparr>) =
        Some (Inr ((?b, sz), ?p1\<lparr>owned := (?b, sz) # owned ?p1, storage := s\<rparr>))" "\<not> storage_empty s"
      "pool_ok (?p1\<lparr>owned := (?b, sz) # owned ?p1, storage := s, block_list := (?b, sz)\<rparr>) live"
      using pool_add_block_ok [of ?p1 live ?b sz ordered] new False sz(3) assms(1) by auto
    then show ?thesis using sz req False by (simp add: request_new_block_def Let_def) blast
  qed
qed

section \<open>Clients of a pool\<close>

text \<open>
  A client holds single chunks and arrays; it may write anything into what it holds. A client
  program is a sequence of calls and writes.
\<close>

datatype grant = Single nat | Array nat nat

definition chunks_for :: "pool \<Rightarrow> nat \<Rightarrow> nat" where
  "chunks_for p n = (n * requested_size p + chunk_size p - 1) div chunk_size p"

fun granted :: "pool \<Rightarrow> grant \<Rightarrow> region" where
  "granted p (Single c) = (c, chunk_size p)"
| "granted p (Array c n) = (c, chunks_for p n * chunk_size p)"

fun grant_bytes :: "pool \<Rightarrow> grant \<Rightarrow> nat" where
  "grant_bytes p (Single c) = requested_size p"
| "grant_bytes p (Array c n) = n * requested_size p"

definition client_write :: "region \<Rightarrow> (nat \<Rightarrow> nat) \<Rightarrow> pool \<Rightarrow> pool" where
  "client_write r f p = p\<lparr>storage := (storage p)\<lparr>cells :=
     (\<lambda>a. if fst r \<le> a \<and> a < fst r + snd r then f a else cells (storage p) a)\<rparr>\<rparr>"

datatype pool_op =
    Malloc | Ordered_malloc | Ordered_malloc_n nat | Free nat | Ordered_free nat
  | Set_next_size nat | Write nat "nat \<Rightarrow> nat"

definition drop_nth :: "nat \<Rightarrow> 'a list \<Rightarrow> 'a list" where
  "drop_nth i xs = take i xs @ drop (Suc i) xs"

definition give_single :: "(nat \<times> pool) res option \<Rightarrow> grant list \<Rightarrow> (pool \<times> grant list) res option" where
  "give_single m gs = run_bind m (\<lambda>(c, p). Some (Inr (p, if c = 0 then gs else Single c # gs)))"

fun pool_apply :: "user_allocator \<Rightarrow> pool_op \<Rightarrow> pool \<times> grant list \<Rightarrow> (pool \<times> grant list) res option" where
  "pool_apply ua Malloc (p, gs) = give_single (pool_malloc ua p) gs"
| "pool_apply ua Ordered_malloc (p, gs) = give_single (pool_ordered_malloc ua p) gs"
| "pool_apply ua (Ordered_malloc_n n) (p, gs) = run_bind (pool_ordered_malloc_n ua n p) (\<lambda>(c, p').
     Some (Inr (p', if c = 0 then gs else Array c n # gs)))"
| "pool_apply ua (Free i) (p, gs) = run_bind (case gs ! i of
     Single c \<Rightarrow> Some (pool_free c p) | Array c n \<Rightarrow> pool_ordered_free_n c n p) (\<lambda>p'. Some (Inr (p', drop_nth i gs)))"
| "pool_apply ua (Ordered_free i) (p, gs) = run_bind (case gs ! i of
     Single c \<Rightarrow> pool_ordered_free c p | Array c n \<Rightarrow> pool_ordered_free_n c n p) (\<lambda>p'. Some (Inr (p', drop_nth i gs)))"
| "pool_apply ua (Set_next_size n) (p, gs) = run_bind (Some (set_next_size n p)) (\<lambda>p'. Some (Inr (p', gs)))"
| "pool_apply ua (Write i f) (p, gs) = Some (Inr (client_write (granted p (gs ! i)) f p, gs))"

fun pool_scope :: "pool_op \<Rightarrow> pool \<times> grant list \<Rightarrow> bool" where
  "pool_scope Malloc (p, gs) \<longleftrightarrow> request_fits p (chunk_size p)"
| "pool_scope Ordered_malloc (p, gs) \<longleftrightarrow> request_fits p (chunk_size p)"
| "pool_scope (Ordered_malloc_n n) (p, gs) \<longleftrightarrow> 0 < n \<and> n * requested_size p \<le> 2 ^ 61 \<and>
     request_fits p (chunks_for p n * chunk_size p)"
| "pool_scope (Free i) (p, gs) \<longleftrightarrow> i < length gs"
| "pool_scope (Ordered_free i) (p, gs) \<longleftrightarrow> i < length gs"
| "pool_scope (Set_next_size n) (p, gs) \<longleftrightarrow> 0 < n"
| "pool_scope (Write i f) (p, gs) \<longleftrightarrow> i < length gs"

inductive pool_reach :: "user_allocator \<Rightarrow> nat \<Rightarrow> pool \<times> grant list \<Rightarrow> bool" for ua r where
  init: "new_pool r memory = Inr p \<Longrightarrow> pool_reach ua r (p, [])"
| step: "pool_reach ua r st \<Longrightarrow> pool_scope op st \<Longrightarrow> pool_apply ua op st = Some (Inr st') \<Longrightarrow> pool_reach ua r st'"

definition client_ok :: "pool \<times> grant list \<Rightarrow> bool" where
  "client_ok st \<longleftrightarrow> pool_ok (fst st) (map (granted (fst st)) (snd st)) \<and>
     (\<forall>c n. Array c n \<in> set (snd st) \<longrightarrow> 0 < n \<and> n * requested_size (fst st) \<le> 2 ^ 61)"

lemma chunk_count_ok:
  assumes "sizes_ok p" and "0 < n" and "n * requested_size p \<le> 2 ^ 61"
  shows "chunk_count p n = Inr (chunks_for p n)" and "n * requested_size p \<le> chunks_for p n * chunk_size p"
    and "0 < chunks_for p n" and "chunks_for p n * chunk_size p < 2 ^ 64"
proof -
  let ?a = "n * requested_size p" and ?c = "chunk_size p" and ?k = "chunks_for p n"
  have c: "0 < ?c" "?c \<le> 2 ^ 60" "0 < ?a"
    using sizes_ok_chunk [OF assms(1)] assms by (auto simp: sizes_ok_def)
  then have "?a + ?c - 1 = ?k * ?c + (?a + ?c - 1) mod ?c" "(?a + ?c - 1) mod ?c < ?c"
    by (simp_all add: chunks_for_def)
  then have "?a \<le> ?k * ?c" "?k * ?c \<le> ?a + ?c" using c by linarith+
  then show le: "?a \<le> ?k * ?c" and lt: "?k * ?c < 2 ^ 64" using c(2) assms(3) by simp_all
  then show "0 < ?k" using c by (cases ?k) auto
  show "chunk_count p n = Inr ?k"
    using le lt c assms(3) by (simp add: chunk_count_def Let_def chunks_for_def)
qed

lemma granted_cong:
  "chunk_size p' = chunk_size p \<Longrightarrow> requested_size p' = requested_size p \<Longrightarrow> granted p' = granted p"
  by (rule ext, rename_tac g, case_tac g) (simp_all add: chunks_for_def)

lemma pool_ok_perm: "mset xs = mset ys \<Longrightarrow> pool_ok p xs = pool_ok p ys"
  by (simp add: pool_ok_def regions_ok_def set_mset_mset [symmetric] del: set_mset_mset)

lemma pool_ok_nth:
  assumes "i < length gs"
  shows "pool_ok p (map f gs) \<longleftrightarrow> pool_ok p (f (gs ! i) # map f (drop_nth i gs))"
proof -
  have "mset gs = add_mset (gs ! i) (mset (drop_nth i gs))"
    using arg_cong [where f = mset, OF id_take_nth_drop [OF assms]] by (simp add: drop_nth_def)
  then show ?thesis by (intro pool_ok_perm) simp
qed

text \<open>Writes of the client to what it holds leave the free list and the list of blocks alone.\<close>

lemma client_write_ok:
  assumes "pool_ok p (r # live)"
  shows "pool_ok (client_write r f p) (r # live)"
proof -
  obtain cs where ok: "sizes_ok p" "blocks_ok p" "free_chunks (storage p) cs" "regions_ok p cs (r # live)"
    using assms by (rule pool_ok_cases)
  let ?A = "{a. fst r \<le> a \<and> a < fst r + snd r}"
  let ?s = "(storage p)\<lparr>cells := (\<lambda>a. if fst r \<le> a \<and> a < fst r + snd r then f a else cells (storage p) a)\<rparr>"
  have off: "off_each_other r (c, chunk_size p)" if "c \<in> set cs" for c
    using ok(4) that by (simp add: regions_ok_def chunk_regions_def)
  have "c \<notin> ?A" if "c \<in> set cs" for c
    using off [OF that] sizes_ok_chunk [OF ok(1)] by (auto simp: off_each_other_def)
  then have "cells ?s c = cells (storage p) c" if "c \<in> set cs" for c using that by auto
  then have free: "free_chunks ?s cs"
    using ok(3) seg_cong [of cs "cells ?s" "cells (storage p)"] by (simp add: free_chunks_def)
  have info: "off_each_other r (info_at b, 16)" if "b \<in> set (owned p)" for b
    using ok(4) that by (simp add: regions_ok_def info_regions_def)
  have "read_info b ?s = read_info b (storage p)" if "b \<in> set (owned p)" for b
    using info [OF that] by (auto simp: read_info_def off_each_other_def)
  then have "blocks_ok (p\<lparr>storage := ?s\<rparr>)"
    using ok(2) info_chain_cong [of "owned p" ?s "storage p"] by (simp add: blocks_ok_def)
  then show ?thesis
    using ok free by (auto simp: pool_ok_def client_write_def)
qed

section \<open>Every client program is safe\<close>

lemma pool_malloc_ok:
  assumes "pool_ok p live" and "good_allocator ua" and "request_fits p (chunk_size p)"
    and "m = pool_malloc ua p \<or> m = pool_ordered_malloc ua p"
  shows "\<exists>c p'. m = Some (Inr (c, p')) \<and> chunk_size p' = chunk_size p \<and> requested_size p' = requested_size p \<and>
    pool_ok p' (if c = 0 then live else (c, chunk_size p) # live)"
proof -
  have take: "\<exists>c p'. take_chunk q = Inr (c, p') \<and> chunk_size p' = chunk_size q \<and>
      requested_size p' = requested_size q \<and> c \<noteq> 0 \<and> pool_ok p' ((c, chunk_size q) # live)"
    if q: "pool_ok q live" "\<not> storage_empty (storage q)" for q
  proof -
    obtain c s where "take_chunk q = Inr (c, q\<lparr>storage := s\<rparr>)" "pool_ok (q\<lparr>storage := s\<rparr>) ((c, chunk_size q) # live)"
      using take_chunk_ok [OF q] by blast
    then show ?thesis using pool_ok_nonnull [of "q\<lparr>storage := s\<rparr>" c] by auto
  qed
  have req: "\<exists>ok p'. request_new_block ua (chunk_size p) ordered p = Some (Inr (ok, p')) \<and> pool_ok p' live \<and>
      chunk_size p' = chunk_size p \<and> requested_size p' = requested_size p \<and> (ok \<longrightarrow> \<not> storage_empty (storage p'))"
    for ordered using request_new_block_ok [OF assms(1-3)] .
  show ?thesis
  proof (cases "storage_empty (storage p)")
    case False
    then have "m = Some (take_chunk p)" using assms(4) by (auto simp: pool_malloc_def pool_ordered_malloc_def)
    then show ?thesis using take [OF assms(1) False] by fastforce
  next
    case True
    obtain ordered where m: "m = run_bind (request_new_block ua (chunk_size p) ordered p)
        (\<lambda>(ok, p1). if ok then Some (take_chunk p1) else Some (Inr (0, p1)))"
      using assms(4) True by (auto simp: pool_malloc_def pool_ordered_malloc_def)
    obtain ok p1 where r: "request_new_block ua (chunk_size p) ordered p = Some (Inr (ok, p1))" "pool_ok p1 live"
      "chunk_size p1 = chunk_size p" "requested_size p1 = requested_size p" "ok \<longrightarrow> \<not> storage_empty (storage p1)"
      using req by blast
    show ?thesis
    proof (cases ok)
      case True
      then obtain c p' where "take_chunk p1 = Inr (c, p')" "chunk_size p' = chunk_size p"
        "requested_size p' = requested_size p" "c \<noteq> 0" "pool_ok p' ((c, chunk_size p) # live)"
        using take [OF r(2)] r(3-5) by auto
      then show ?thesis using r True m by simp
    next
      case False
      then show ?thesis using r m by simp
    qed
  qed
qed

lemma pool_malloc_n_ok:
  assumes "pool_ok p live" and "good_allocator ua" and "0 < n" and "n * requested_size p \<le> 2 ^ 61"
    and "request_fits p (chunks_for p n * chunk_size p)"
  shows "\<exists>c p'. pool_ordered_malloc_n ua n p = Some (Inr (c, p')) \<and> chunk_size p' = chunk_size p \<and>
    requested_size p' = requested_size p \<and>
    pool_ok p' (if c = 0 then live else (c, chunks_for p n * chunk_size p) # live)"
proof -
  have "sizes_ok p" using assms(1) by (simp add: pool_ok_def)
  note k = chunk_count_ok [OF this assms(3,4)]
  obtain c s where c: "take_chunks (chunks_for p n) p = Some (c, p\<lparr>storage := s\<rparr>)"
    "pool_ok (p\<lparr>storage := s\<rparr>) (if c = 0 then live else (c, chunks_for p n * chunk_size p) # live)"
    using take_chunks_ok [OF assms(1) k(3)] by blast
  show ?thesis
  proof (cases "c = 0")
    case False
    then show ?thesis using c k(1) assms(3) by (auto simp: pool_ordered_malloc_n_def)
  next
    case True
    let ?q = "p\<lparr>storage := s\<rparr>"
    have fits: "request_fits ?q (chunks_for p n * chunk_size p)" using assms(5) by (simp add: request_fits_def)
    have q: "pool_ok ?q live" using c(2) True by simp
    obtain ok p1 where r: "request_new_block ua (chunks_for p n * chunk_size p) True ?q = Some (Inr (ok, p1))"
      "pool_ok p1 live" "chunk_size p1 = chunk_size ?q" "requested_size p1 = requested_size ?q"
      using request_new_block_ok [OF q assms(2) fits, where ordered = True] by blast
    obtain d t where d: "take_chunks (chunks_for p n) p1 = Some (d, p1\<lparr>storage := t\<rparr>)"
      "pool_ok (p1\<lparr>storage := t\<rparr>) (if d = 0 then live else (d, chunks_for p n * chunk_size p1) # live)"
      using take_chunks_ok [OF r(2) k(3)] by blast
    show ?thesis
      using c(1) True k(1,4) r d assms(3) by (simp add: pool_ordered_malloc_n_def split: if_splits)
  qed
qed

lemma granted_bounds:
  assumes "client_ok (p, gs)" and "g \<in> set gs"
  shows "grant_bytes p g \<le> snd (granted p g)" and "0 < snd (granted p g)"
proof -
  have sz: "sizes_ok p" using assms(1) by (simp add: client_ok_def pool_ok_def)
  show "grant_bytes p g \<le> snd (granted p g)" and "0 < snd (granted p g)"
    using assms sizes_ok_chunk [OF sz] chunk_count_ok [OF sz] by (cases g; force simp: client_ok_def)+
qed

lemma client_ok_free:
  assumes "client_ok (p, gs)" and "i < length gs"
    and "m = (case gs ! i of Single c \<Rightarrow> Some (pool_free c p) | Array c n \<Rightarrow> pool_ordered_free_n c n p) \<or>
      m = (case gs ! i of Single c \<Rightarrow> pool_ordered_free c p | Array c n \<Rightarrow> pool_ordered_free_n c n p)"
  shows "\<exists>s. m = Some (Inr (p\<lparr>storage := s\<rparr>)) \<and> client_ok (p\<lparr>storage := s\<rparr>, drop_nth i gs)"
proof -
  have ok: "pool_ok p (granted p (gs ! i) # map (granted p) (drop_nth i gs))"
    using assms(1) pool_ok_nth [OF assms(2)] by (simp add: client_ok_def)
  have sub: "set (drop_nth i gs) \<subseteq> set gs"
    by (auto simp: drop_nth_def dest: in_set_takeD in_set_dropD)
  have free: "\<exists>s. m = Some (Inr (p\<lparr>storage := s\<rparr>)) \<and> pool_ok (p\<lparr>storage := s\<rparr>) (map (granted p) (drop_nth i gs))"
  proof (cases "gs ! i")
    case (Single c)
    then have "pool_ok p ((c, chunk_size p) # map (granted p) (drop_nth i gs))" using ok by simp
    from pool_free_ok [OF this] pool_ordered_free_ok [OF this] show ?thesis using assms(3) Single by auto
  next
    case (Array c n)
    have "sizes_ok p" using ok by (simp add: pool_ok_def)
    moreover have "0 < n" "n * requested_size p \<le> 2 ^ 61"
      using assms(1,2) Array nth_mem [OF assms(2)] by (auto simp: client_ok_def)
    ultimately show ?thesis
      using pool_ordered_free_n_ok [of p c "chunks_for p n" _ n] chunk_count_ok [of p n] ok assms(3) Array by auto
  qed
  obtain s where s: "m = Some (Inr (p\<lparr>storage := s\<rparr>))" "pool_ok (p\<lparr>storage := s\<rparr>) (map (granted p) (drop_nth i gs))"
    using free by blast
  moreover have "granted (p\<lparr>storage := s\<rparr>) = granted p" by (intro granted_cong) simp_all
  ultimately show ?thesis using assms(1) sub by (intro exI [of _ s]) (auto simp: client_ok_def)
qed

lemma client_ok_give:
  assumes "client_ok (p, gs)" and "pool_ok p' (if c = 0 then map (granted p) gs else granted p g # map (granted p) gs)"
    and "chunk_size p' = chunk_size p" and "requested_size p' = requested_size p"
    and "\<And>a n. g = Array a n \<Longrightarrow> 0 < n \<and> n * requested_size p \<le> 2 ^ 61"
  shows "client_ok (p', if c = 0 then gs else g # gs)"
  using assms granted_cong [OF assms(3,4)] by (cases "c = 0") (auto simp: client_ok_def)

lemma pool_apply_ok:
  assumes "client_ok st" and "good_allocator ua" and "pool_scope op st"
  shows "\<exists>st'. pool_apply ua op st = Some (Inr st') \<and> client_ok st'"
proof -
  obtain p gs where st: "st = (p, gs)" by force
  have ok: "pool_ok p (map (granted p) gs)" using assms(1) by (simp add: client_ok_def st)
  have give: "\<exists>st'. give_single m gs = Some (Inr st') \<and> client_ok st'"
    if m: "m = pool_malloc ua p \<or> m = pool_ordered_malloc ua p" and fits: "request_fits p (chunk_size p)" for m
  proof -
    obtain c p' where "m = Some (Inr (c, p'))" "chunk_size p' = chunk_size p" "requested_size p' = requested_size p"
      "pool_ok p' (if c = 0 then map (granted p) gs else granted p (Single c) # map (granted p) gs)"
      using pool_malloc_ok [OF ok assms(2) fits m] unfolding granted.simps by blast
    then show ?thesis
      using client_ok_give [of p gs p' c "Single c"] assms(1) by (simp add: give_single_def st)
  qed
  show ?thesis
  proof (cases op)
    case (Ordered_malloc_n n)
    then have n: "0 < n" "n * requested_size p \<le> 2 ^ 61" "request_fits p (chunks_for p n * chunk_size p)"
      using assms(3) st by simp_all
    obtain c p' where "pool_ordered_malloc_n ua n p = Some (Inr (c, p'))" "chunk_size p' = chunk_size p"
      "requested_size p' = requested_size p"
      "pool_ok p' (if c = 0 then map (granted p) gs else granted p (Array c n) # map (granted p) gs)"
      using pool_malloc_n_ok [OF ok assms(2) n] unfolding granted.simps by blast
    then show ?thesis
      using client_ok_give [of p gs p' c "Array c n"] assms(1) n Ordered_malloc_n by (simp add: st)
  next
    case (Set_next_size n)
    moreover have "granted (p\<lparr>next_size := n\<rparr>) = granted p" by (rule granted_cong) simp_all
    ultimately show ?thesis using assms by (simp add: st set_next_size_def client_ok_def)
  next
    case (Write i f)
    then have i: "i < length gs" using assms(3) st by simp
    have "granted (client_write (granted p (gs ! i)) f p) = granted p"
      by (rule granted_cong) (simp_all add: client_write_def)
    moreover have "pool_ok (client_write (granted p (gs ! i)) f p) (map (granted p) gs)"
      using client_write_ok ok pool_ok_nth [OF i] by blast
    ultimately show ?thesis using Write assms(1) by (simp add: st client_ok_def) (simp add: client_write_def)
  qed (use assms st give client_ok_free [of p gs] in \<open>fastforce+\<close>)
qed

lemma pool_destroy_loop_ok:
  assumes "info_chain (storage p) b (owned p)" and "distinct (map fst (owned p))"
  shows "pool_destroy_loop b p = Some (Inr (p\<lparr>owned := []\<rparr>))"
  using assms
proof (induction "owned p" arbitrary: b p)
  case Nil
  then show ?case by (simp add: pool_destroy_loop.simps)
next
  case (Cons x xs)
  let ?q = "p\<lparr>owned := xs\<rparr>"
  have b: "b = x" "fst x \<noteq> 0" "info_chain (storage p) (read_info x (storage p)) xs"
    using Cons.prems(1) Cons.hyps(2) [symmetric] by auto
  have "filter (\<lambda>y. fst y \<noteq> fst x) xs = xs"
    using Cons.prems(2) Cons.hyps(2) [symmetric] by (auto simp: filter_id_conv image_iff)
  then have "user_free (fst x) p = Inr ?q" using Cons.hyps(2) [symmetric] by (simp add: user_free_def)
  then have "pool_destroy_loop b p = pool_destroy_loop (read_info x (storage p)) ?q"
    using b by (simp add: pool_destroy_loop.simps [of x p])
  also have "\<dots> = Some (Inr (?q\<lparr>owned := []\<rparr>))"
    using Cons.hyps(1) [of ?q] Cons.prems(2) Cons.hyps(2) [symmetric] b by simp
  finally show ?case by simp
qed

lemma pool_reach_ok:
  assumes "pool_reach ua r st" and "good_allocator ua" and "r \<le> 2 ^ 57"
  shows "client_ok st"
  using assms(1)
proof induction
  case (init memory p)
  then have "0 < r" by (simp add: new_pool_def gpcl_assert_def split: if_splits)
  moreover have "lcm r 8 \<le> r * 8" using lcm_least [of r "r * 8" 8] by (simp add: dvd_imp_le \<open>0 < r\<close>)
  ultimately show ?case
    using init assms(3) by (auto simp: new_pool_def client_ok_def pool_ok_def sizes_ok_def blocks_ok_def
        regions_ok_def region_defs free_chunks_def)
next
  case (step st op st')
  then show ?case using pool_apply_ok [OF step.IH assms(2)] by fastforce
qed

section \<open>Properties\<close>

text \<open>
  C26. A pool with any well-behaved user allocator and any client program of allocations,
  deallocations and arbitrary writes into what the client holds: the regions the client holds are
  pairwise disjoint, aligned, large enough, and each lies inside one block in front of its
  \<open>block_info\<close>; every further call whose sizes fit into 64 bits returns without a failed assertion;
  and the destructor then gives every block back exactly once.
\<close>

theorem pool_programs:
  assumes "good_allocator ua" and "r \<le> 2 ^ 57" and "pool_reach ua r (p, gs)" and "pool_scope op (p, gs)"
  shows "apart (mset (map (granted p) gs)) \<and>
    (\<forall>g \<in> set gs. 8 dvd fst (granted p g) \<and> grant_bytes p g \<le> snd (granted p g) \<and>
      (\<exists>b \<in> set (owned p). inside (granted p g) b \<and> off_each_other (granted p g) (info_at b, 16))) \<and>
    (\<exists>st. pool_apply ua op (p, gs) = Some (Inr st)) \<and>
    pool_destroy p = Some (Inr (p\<lparr>owned := []\<rparr>))"
proof -
  have ok: "client_ok (p, gs)" using pool_reach_ok [OF assms(3,1,2)] .
  then obtain cs where cs: "blocks_ok p" "regions_ok p cs (map (granted p) gs)"
    by (auto simp: client_ok_def pool_ok_def)
  have "good_region p (granted p g)" if "g \<in> set gs" for g
    using cs(2) that by (simp add: regions_ok_def)
  moreover have "off_each_other (granted p g) (info_at b, 16)" if "g \<in> set gs" "b \<in> set (owned p)" for g b
    using cs(2) that by (simp add: regions_ok_def info_regions_def)
  moreover have "pool_destroy p = Some (Inr (p\<lparr>owned := []\<rparr>))"
    using cs(1) pool_destroy_loop_ok by (simp add: pool_destroy_def blocks_ok_def)
  ultimately show ?thesis
    using granted_bounds [OF ok] pool_apply_ok [OF ok assms(1,4)] cs(2)
    by (auto simp: regions_ok_def good_region_def)
qed

text \<open>An allocator that always takes memory behind all blocks handed out so far.\<close>

definition bump_allocator :: user_allocator where
  "bump_allocator bs n = 8 * Suc (sum_list (map (\<lambda>b. fst b + snd b) bs))"

lemma bump_allocator_good: "good_allocator bump_allocator"
proof -
  have "fst b + snd b \<le> bump_allocator bs n" if "b \<in> set bs" for b bs n
  proof -
    have "fst b + snd b \<le> sum_list (map (\<lambda>b. fst b + snd b) bs)" using that by (intro member_le_sum_list) auto
    then show ?thesis by (simp add: bump_allocator_def)
  qed
  then show ?thesis by (auto simp: good_allocator_def off_each_other_def bump_allocator_def)
qed

definition fresh_pool :: "nat \<Rightarrow> nat \<Rightarrow> pool" where
  "fresh_pool r n = \<lparr>requested_size = r, chunk_size = lcm r (lcm 8 8), next_size = n, block_list = (0, 0),
     storage = \<lparr>cells = (\<lambda>_. 0), free_list = 0\<rparr>, owned = []\<rparr>"

lemma fresh_pool_reach: "0 < r \<Longrightarrow> 0 < n \<Longrightarrow> pool_reach ua r (fresh_pool r n, [])"
proof -
  assume "0 < r" "0 < n"
  then have "pool_reach ua r (fresh_pool r 32, [])"
    by (intro pool_reach.init [where memory = "\<lambda>_. 0"]) (simp add: new_pool_def fresh_pool_def)
  then show ?thesis using \<open>0 < n\<close>
    by (elim pool_reach.step [where op = "Set_next_size n"]) (simp_all add: set_next_size_def fresh_pool_def)
qed

lemma fresh_pool_malloc:
  "\<exists>p. pool_apply bump_allocator Malloc (fresh_pool 24 2, []) = Some (Inr (p, [Single 8])) \<and>
    chunk_size p = 24 \<and> requested_size p = 24 \<and> next_size p = 4 \<and> owned p = [(8, 96)]"
  by (simp add: fresh_pool_def give_single_def pool_malloc_def storage_empty_def request_new_block_def
      request_size.simps size_t_def bump_allocator_def pool_add_block_def block_info_offset_def Let_def
      storage_add_block_def segregate_def segregate_loop.simps next_chunk_def take_chunk_def storage_malloc_def
      write_info_def info_at_def lcm_nat_def)

theorem pool_programs_witness:
  "\<exists>p. inside (8, 24) (hd (owned p)) \<and> pool_destroy p = Some (Inr (p\<lparr>owned := []\<rparr>)) \<and>
    (\<exists>st. pool_apply bump_allocator Malloc (p, [Single 8]) = Some (Inr st))"
proof -
  obtain p where p: "pool_apply bump_allocator Malloc (fresh_pool 24 2, []) = Some (Inr (p, [Single 8]))"
    "chunk_size p = 24" "requested_size p = 24" "next_size p = 4" "owned p = [(8, 96)]"
    using fresh_pool_malloc by blast
  have "pool_scope Malloc (fresh_pool 24 2, [])" by (simp add: fresh_pool_def request_fits_def lcm_nat_def)
  then have "pool_reach bump_allocator 24 (p, [Single 8])"
    using pool_reach.step [OF fresh_pool_reach _ p(1)] by simp
  moreover have "pool_scope Malloc (p, [Single 8])" using p by (simp add: request_fits_def)
  ultimately show ?thesis
    using pool_programs [of bump_allocator 24 p "[Single 8]" Malloc] bump_allocator_good p
    by (intro exI [of _ p]) simp
qed

fun malloc_times :: "user_allocator \<Rightarrow> nat \<Rightarrow> pool \<Rightarrow> pool res option" where
  "malloc_times ua 0 p = Some (Inr p)"
| "malloc_times ua (Suc n) p = run_bind (malloc_times ua n p) (\<lambda>p'. run_bind (pool_malloc ua p') (\<lambda>(_, q). Some (Inr q)))"

lemma request_size_zero:
  assumes "size_t (min_size + 32) \<noteq> 0"
  shows "request_size min_size 0 = None"
proof -
  have "sz = 0 \<longrightarrow> size_t (min_size + 32) = 0" if "request_size min_size sz = Some y" for sz y
    using that
    by (induction rule: request_size.raw_induct [rotated, where P = "\<lambda>m sz y. sz = 0 \<longrightarrow> size_t (m + 32) = 0", consumes 1])
      (auto split: if_splits simp: size_t_def)
  then show ?thesis using assms by (cases "request_size min_size 0") auto
qed

lemma exhausted_malloc:
  assumes "storage_empty (storage p)"
  shows "pool_malloc (\<lambda>_ _. 0) p = None \<or>
    pool_malloc (\<lambda>_ _. 0) p = Some (Inr (0, p\<lparr>next_size := size_t (next_size p * 2)\<rparr>))"
  using assms
  by (cases "request_size (chunk_size p) (size_t (next_size p * chunk_size p))")
    (simp_all add: pool_malloc_def request_new_block_def)

lemma exhausted_fresh:
  "pool_malloc (\<lambda>_ _. 0) (fresh_pool r x) = None \<or>
    pool_malloc (\<lambda>_ _. 0) (fresh_pool r x) = Some (Inr (0, fresh_pool r (size_t (x * 2))))"
  using exhausted_malloc [of "fresh_pool r x"] by (simp add: fresh_pool_def storage_empty_def)

lemma exhausted_malloc_times:
  "malloc_times (\<lambda>_ _. 0) k (fresh_pool r n) = None \<or>
    malloc_times (\<lambda>_ _. 0) k (fresh_pool r n) = Some (Inr (fresh_pool r (if k = 0 then n else size_t (n * 2 ^ k))))"
proof (induction k)
  case (Suc k)
  define x where "x = (if k = 0 then n else size_t (n * 2 ^ k))"
  have "size_t (x * 2) = size_t (n * 2 ^ Suc k)"
    by (cases "k = 0") (simp_all add: x_def size_t_def mult.commute mod_mult_right_eq mult.left_commute)
  then show ?case using exhausted_fresh [of r x] Suc [folded x_def] by auto
qed simp

text \<open>
  C30. The growth of a pool is not bounded by anything but 64 bits: \<open>request_new_block\<close> doubles
  \<open>next_size_\<close> even when the allocation fails, so a pool whose user allocator is exhausted reaches, after
  at most sixty attempts, a state in which the doubling loop works on zero and \<open>malloc\<close> never returns.
\<close>

theorem pool_exhausted_diverges:
  assumes "r \<le> 2 ^ 57"
  shows "malloc_times (\<lambda>_ _. 0) 60 (fresh_pool r 32) = None"
proof -
  let ?p = "fresh_pool r 0"
  have "lcm r 8 \<le> r * 8" using lcm_least [of r "r * 8" 8] by (cases "r = 0") (simp_all add: dvd_imp_le)
  then have "size_t (chunk_size ?p + 32) \<noteq> 0" using assms by (simp add: fresh_pool_def)
  then have "pool_malloc (\<lambda>_ _. 0) ?p = None"
    using request_size_zero [of "chunk_size ?p"]
    by (simp add: pool_malloc_def request_new_block_def fresh_pool_def storage_empty_def size_t_def)
  moreover have "malloc_times (\<lambda>_ _. 0) 59 (fresh_pool r 32) = None \<or>
      malloc_times (\<lambda>_ _. 0) 59 (fresh_pool r 32) = Some (Inr ?p)"
    using exhausted_malloc_times [of 59 r 32] by (simp add: size_t_def)
  moreover have "malloc_times (\<lambda>_ _. 0) 60 (fresh_pool r 32) = run_bind (malloc_times (\<lambda>_ _. 0) 59 (fresh_pool r 32))
      (\<lambda>p'. run_bind (pool_malloc (\<lambda>_ _. 0) p') (\<lambda>(_, q). Some (Inr q)))"
    using malloc_times.simps(2) [of "\<lambda>_ _. 0" 59 "fresh_pool r 32"] by simp
  ultimately show ?thesis by auto
qed

theorem pool_exhausted_diverges_witness: "malloc_times (\<lambda>_ _. 0) 60 (fresh_pool 24 32) = None"
  by (rule pool_exhausted_diverges) simp

text \<open>
  \<open>malloc_n\<close> takes \<open>n\<close> chunks only where \<open>n + 1\<close> adjacent ones are free, while the new block that
  \<open>ordered_malloc\<close> requests need not have more than \<open>n\<close>: a fresh pool that obtains a block with room for
  the array and puts its two adjacent chunks on the free list still returns null for an array of two.
\<close>

lemma pool_ordered_malloc_null:
  "\<exists>p. pool_ordered_malloc_n bump_allocator 2 (fresh_pool 32 3) = Some (Inr (0, p)) \<and>
    owned p = [(8, 96)] \<and> free_chunks (storage p) [8, 40]"
  by (simp add: fresh_pool_def pool_ordered_malloc_n_def chunk_count_def take_chunks_def storage_malloc_n_def
      malloc_n_loop.simps request_new_block_def request_size.simps size_t_def bump_allocator_def
      pool_add_block_def block_info_offset_def Let_def storage_add_ordered_block_def upper_bound_def
      upper_bound_loop.simps segregate_def segregate_loop.simps next_chunk_def storage_empty_def
      write_info_def info_at_def lcm_nat_def free_chunks_def)

end
