(* ===== verification/Lifetime.thy ===== *)
theory Lifetime
  imports Gpcl_Prelude
begin

text \<open>
  Objects in raw storage. \<open>gpcl::optional\<close> and \<open>gpcl::expected\<close> keep their value in a union and manage
  its lifetime by hand, with placement new, explicit destructor calls and a flag. This theory holds
  what both models need: procedures that change a state and may throw, the storage with the object
  that lives in it, and the special member functions of the element types, which may throw unless
  their type trait says that they do not.
\<close>

section \<open>Procedures that may throw\<close>

type_synonym ('s, 'a) proc = "'s \<Rightarrow> 'a res \<times> 's"

named_theorems proc_simps \<open>unfolding of procedures\<close>

definition ret :: "'a \<Rightarrow> ('s, 'a) proc" where
  "ret x s = (Inr x, s)"

definition fault :: "gpcl_error \<Rightarrow> ('s, 'a) proc" where
  "fault e s = (Inl e, s)"

definition andthen :: "('s, 'a) proc \<Rightarrow> ('a \<Rightarrow> ('s, 'b) proc) \<Rightarrow> ('s, 'b) proc" where
  "andthen m f s = (case m s of (Inl e, s') \<Rightarrow> (Inl e, s') | (Inr x, s') \<Rightarrow> f x s')"

definition before :: "('s, 'a) proc \<Rightarrow> ('s, 'b) proc \<Rightarrow> ('s, 'b) proc" where
  "before m n = andthen m (\<lambda>_. n)"

text \<open>
  A catch-all handler sees exceptions of the element types; a failed assertion or undefined
  behaviour is not an exception.
\<close>

definition catching :: "('s, 'a) proc \<Rightarrow> ('s, 'a) proc \<Rightarrow> ('s, 'a) proc" where
  "catching m h s = (case m s of (Inl User_exception, s') \<Rightarrow> h s' | r \<Rightarrow> r)"

lemma ret_run [proc_simps]: "ret x s = (Inr x, s)"
  and fault_run [proc_simps]: "fault e s = (Inl e, s)"
  by (simp_all add: ret_def fault_def)

lemma andthen_run [proc_simps]:
  "m s = (Inr x, s') \<Longrightarrow> andthen m f s = f x s'"
  "m s = (Inl e, s') \<Longrightarrow> andthen m f s = (Inl e, s')"
  by (simp_all add: andthen_def)

lemma before_run [proc_simps]:
  "m s = (Inr x, s') \<Longrightarrow> before m n s = n s'"
  "m s = (Inl e, s') \<Longrightarrow> before m n s = (Inl e, s')"
  by (simp_all add: before_def andthen_def)

lemma catching_run [proc_simps]:
  "m s = (Inr x, s') \<Longrightarrow> catching m h s = (Inr x, s')"
  "m s = (Inl User_exception, s') \<Longrightarrow> catching m h s = h s'"
  "m s = (Inl e, s') \<Longrightarrow> e \<noteq> User_exception \<Longrightarrow> catching m h s = (Inl e, s')"
  by (simp_all add: catching_def split: gpcl_error.splits)

section \<open>Storage\<close>

datatype 'a cell = Raw | Obj 'a

text \<open>
  A holder is the storage, the flag that records what lives in it (\<open>has_val_\<close>, \<open>ok_\<close>), and, for the
  statements, the number of objects whose storage was reused without calling their destructor.
\<close>

record 'a holder =
  content :: "'a cell"
  flag :: bool
  leaks :: nat

text \<open>The object a member function works on, the argument it takes, and how many special members ran.\<close>

record 'a lstate =
  this :: "'a holder"
  that :: "'a holder"
  calls :: nat

section \<open>Special member functions\<close>

datatype special =
    T_args | T_default | T_copy | T_move | T_copy_assign | T_move_assign
  | E_copy | E_move | E_copy_assign | E_move_assign

text \<open>
  \<open>throws m i\<close> says whether the \<open>i\<close>-th special member call throws, if it is one of \<open>m\<close>; \<open>nothrow\<close> is the
  type trait. \<open>moved\<close> is the value an object has after it was moved from, \<open>spoiled\<close> after a move from it
  threw, and \<open>half old new\<close> after an assignment of \<open>new\<close> to it threw.
\<close>

record 'a members =
  throws :: "special \<Rightarrow> nat \<Rightarrow> bool"
  nothrow :: "special \<Rightarrow> bool"
  moved :: "'a \<Rightarrow> 'a"
  spoiled :: "'a \<Rightarrow> 'a"
  half :: "'a \<Rightarrow> 'a \<Rightarrow> 'a"

definition honest :: "'a members \<Rightarrow> bool" where
  "honest M \<longleftrightarrow> (\<forall>m i. nothrow M m \<longrightarrow> \<not> throws M m i)"

definition attempt :: "'a members \<Rightarrow> special \<Rightarrow> ('a lstate, unit) proc" where
  "attempt M m s = (if throws M m (calls s) then Inl User_exception else Inr (), s\<lparr>calls := Suc (calls s)\<rparr>)"

text \<open>Placement new of an object that has been built, explicit destruction, and reading.\<close>

definition put_obj :: "'a \<Rightarrow> 'a holder \<Rightarrow> 'a holder" where
  "put_obj x h = h\<lparr>content := Obj x, leaks := leaks h + (if content h = Raw then 0 else 1)\<rparr>"

definition place_this :: "'a \<Rightarrow> ('a lstate, unit) proc" where
  "place_this x s = (Inr (), s\<lparr>this := put_obj x (this s)\<rparr>)"

definition destroy_this :: "('a \<Rightarrow> bool) \<Rightarrow> ('a lstate, unit) proc" where
  "destroy_this P s = (case content (this s) of
     Obj x \<Rightarrow> if P x then (Inr (), s\<lparr>this := (this s)\<lparr>content := Raw\<rparr>\<rparr>) else (Inl Undefined_behaviour, s)
   | Raw \<Rightarrow> (Inl Undefined_behaviour, s))"

definition destroy_that :: "('a \<Rightarrow> bool) \<Rightarrow> ('a lstate, unit) proc" where
  "destroy_that P s = (case content (that s) of
     Obj x \<Rightarrow> if P x then (Inr (), s\<lparr>that := (that s)\<lparr>content := Raw\<rparr>\<rparr>) else (Inl Undefined_behaviour, s)
   | Raw \<Rightarrow> (Inl Undefined_behaviour, s))"

definition read_holder :: "('a \<Rightarrow> bool) \<Rightarrow> ('a lstate \<Rightarrow> 'a holder) \<Rightarrow> ('a lstate, 'a) proc" where
  "read_holder P sel s = (case content (sel s) of
     Obj x \<Rightarrow> if P x then (Inr x, s) else (Inl Undefined_behaviour, s)
   | Raw \<Rightarrow> (Inl Undefined_behaviour, s))"

definition set_flag :: "bool \<Rightarrow> ('a lstate, unit) proc" where
  "set_flag b s = (Inr (), s\<lparr>this := (this s)\<lparr>flag := b\<rparr>\<rparr>)"

definition set_that_flag :: "bool \<Rightarrow> ('a lstate, unit) proc" where
  "set_that_flag b s = (Inr (), s\<lparr>that := (that s)\<lparr>flag := b\<rparr>\<rparr>)"

definition set_that :: "'a \<Rightarrow> ('a lstate, unit) proc" where
  "set_that x s = (Inr (), s\<lparr>that := (that s)\<lparr>content := Obj x\<rparr>\<rparr>)"

definition set_this :: "'a \<Rightarrow> ('a lstate, unit) proc" where
  "set_this x s = (Inr (), s\<lparr>this := (this s)\<lparr>content := Obj x\<rparr>\<rparr>)"

text \<open>
  Placement new from a copy of a value, and from a value moved out of the argument; assignment from
  a copy and by a move out of the argument.
\<close>

definition new_copy :: "'a members \<Rightarrow> special \<Rightarrow> 'a \<Rightarrow> ('a lstate, unit) proc" where
  "new_copy M m x = before (attempt M m) (place_this x)"

definition new_from_that :: "'a members \<Rightarrow> special \<Rightarrow> 'a \<Rightarrow> ('a lstate, unit) proc" where
  "new_from_that M m x = before (catching (attempt M m) (before (set_that (spoiled M x)) (fault User_exception)))
     (before (set_that (moved M x)) (place_this x))"

definition assign_this :: "'a members \<Rightarrow> special \<Rightarrow> 'a \<Rightarrow> 'a \<Rightarrow> ('a lstate, unit) proc" where
  "assign_this M m old x = before (catching (attempt M m) (before (set_this (half M old x)) (fault User_exception)))
     (set_this x)"

definition move_assign_this :: "'a members \<Rightarrow> special \<Rightarrow> 'a \<Rightarrow> 'a \<Rightarrow> ('a lstate, unit) proc" where
  "move_assign_this M m old x = before
     (catching (attempt M m) (before (set_this (half M old x)) (before (set_that (spoiled M x)) (fault User_exception))))
     (before (set_that (moved M x)) (set_this x))"

lemmas lifetime_defs = place_this_def destroy_this_def destroy_that_def read_holder_def set_flag_def
  set_that_flag_def set_that_def set_this_def new_copy_def new_from_that_def assign_this_def
  move_assign_this_def put_obj_def before_def andthen_def catching_def attempt_def ret_def fault_def

lemma honest_nothrow: "honest M \<Longrightarrow> nothrow M m \<Longrightarrow> \<not> throws M m i"
  by (simp add: honest_def)

end
