(* ===== verification/Expected.thy ===== *)
theory Expected
  imports Lifetime
begin

text \<open>
  The model of \<open>gpcl::expected<T, E>\<close> (\<open>expected.hpp\<close>, \<open>detail/expected.hpp\<close>, \<open>impl/expected.hpp\<close>): a union of
  a value and an error with the flag \<open>ok_\<close>. The branches on type traits are branches on \<open>nothrow\<close>; every
  special member function of \<open>T\<close> and \<open>E\<close> that is not \<open>nothrow\<close> may throw at any call.
\<close>

section \<open>State\<close>

datatype ('v, 'e) alt = is_value: Value 'v | is_error: Error 'e

lemma is_error_iff [simp]: "is_error x \<longleftrightarrow> \<not> is_value x"
  by (cases x) simp_all

type_synonym ('v, 'e) expected = "('v, 'e) alt holder"
type_synonym ('v, 'e) estate = "('v, 'e) alt lstate"

text \<open>The flag tells which member of the union lives.\<close>

definition valid :: "('v, 'e) expected \<Rightarrow> bool" where
  "valid h \<longleftrightarrow> (\<exists>x. content h = Obj x \<and> flag h = is_value x)"

text \<open>Special members that respect their traits, and leave values values and errors errors.\<close>

definition well_behaved :: "('v, 'e) alt members \<Rightarrow> bool" where
  "well_behaved M \<longleftrightarrow> honest M \<and>
    (\<forall>x y. is_value (moved M x) = is_value x \<and> is_value (spoiled M x) = is_value x \<and>
      is_value (half M x y) = is_value x)"

section \<open>Construction and destruction\<close>

definition exp_in_place :: "'v \<Rightarrow> ('v, 'e) expected" where
  "exp_in_place v = \<lparr>content = Obj (Value v), flag = True, leaks = 0\<rparr>"

definition exp_unexpect :: "'e \<Rightarrow> ('v, 'e) expected" where
  "exp_unexpect e = \<lparr>content = Obj (Error e), flag = False, leaks = 0\<rparr>"

definition exp_destroy :: "('v, 'e) estate \<Rightarrow> unit res \<times> ('v, 'e) estate" where
  "exp_destroy s = (if flag (this s) then destroy_this is_value s else destroy_this is_error s)"

text \<open>
  The copy and the move constructor first run the default constructor of the base class, which
  constructs a \<open>T\<close> in the union, and then place the new object over it. When the placement throws, the
  base class is destroyed again, according to the flag that has been set meanwhile.
\<close>

definition base_default :: "('v, 'e) alt members \<Rightarrow> 'v \<Rightarrow> (('v, 'e) estate, unit) proc" where
  "base_default M d = before (attempt M T_default) (before (place_this (Value d)) (set_flag True))"

definition unwinding :: "(('v, 'e) estate, unit) proc \<Rightarrow> (('v, 'e) estate, unit) proc" where
  "unwinding m = catching m (before exp_destroy (fault User_exception))"

definition exp_copy_construct :: "('v, 'e) alt members \<Rightarrow> 'v \<Rightarrow> (('v, 'e) estate, unit) proc" where
  "exp_copy_construct M d = before (base_default M d) (unwinding (\<lambda>s.
     before (set_flag (flag (that s)))
       (if flag (that s)
        then andthen (read_holder is_value that) (new_copy M T_copy)
        else andthen (read_holder is_error that) (new_copy M E_copy)) s))"

definition exp_move_construct :: "('v, 'e) alt members \<Rightarrow> 'v \<Rightarrow> (('v, 'e) estate, unit) proc" where
  "exp_move_construct M d = before (base_default M d) (unwinding (\<lambda>s.
     before (set_flag (flag (that s)))
       (if flag (that s)
        then andthen (read_holder is_value that) (new_from_that M T_move)
        else andthen (read_holder is_error that) (new_from_that M E_move)) s))"

section \<open>Observers\<close>

definition exp_error :: "('v, 'e) expected \<Rightarrow> 'e res" where
  "exp_error h = res_bind (gpcl_assert (\<not> flag h)) (\<lambda>_.
     case content h of Obj (Error e) \<Rightarrow> Inr e | _ \<Rightarrow> Inl Undefined_behaviour)"

definition exp_deref :: "('v, 'e) expected \<Rightarrow> 'v res" where
  "exp_deref h = res_bind (gpcl_assert (flag h)) (\<lambda>_.
     case content h of Obj (Value v) \<Rightarrow> Inr v | _ \<Rightarrow> Inl Undefined_behaviour)"

definition exp_value :: "('v, 'e) expected \<Rightarrow> 'v res" where
  "exp_value h = (if \<not> flag h then res_bind (exp_error h) (\<lambda>_. Inl Bad_expected_access) else exp_deref h)"

definition exp_value_or :: "'v \<Rightarrow> ('v, 'e) expected \<Rightarrow> 'v res" where
  "exp_value_or d h = (if flag h then exp_deref h else Inr d)"

section \<open>Assignment\<close>

text \<open>\<open>operator=(const expected &)\<close>, where \<open>T\<close> is not void and not both types are trivially copyable.\<close>

definition exp_copy_assign :: "('v, 'e) alt members \<Rightarrow> (('v, 'e) estate, unit) proc" where
  "exp_copy_assign M s =
     (if flag (this s) \<and> flag (that s)
      then andthen (read_holder is_value this) (\<lambda>old.
           andthen (read_holder is_value that) (assign_this M T_copy_assign old)) s
      else if flag (this s) \<and> \<not> flag (that s)
      then andthen (read_holder is_error that) (\<lambda>e.
             if nothrow M E_copy
             then before (destroy_this is_value) (before (new_copy M E_copy e) (set_flag False))
             else if nothrow M E_move
             then before (attempt M E_copy)
                 (before (destroy_this is_value) (before (new_copy M E_move e) (set_flag False)))
             else andthen (read_holder is_value this) (\<lambda>tmp.
                 before (attempt M T_copy)
                 (before (destroy_this is_value)
                 (before (catching (new_copy M E_copy e) (before (new_copy M T_copy tmp) (fault User_exception)))
                   (set_flag False))))) s
      else if \<not> flag (this s) \<and> flag (that s)
      then andthen (read_holder is_value that) (\<lambda>v.
             if nothrow M T_copy
             then before (destroy_this is_error) (before (new_copy M T_copy v) (set_flag True))
             else if nothrow M T_move
             then before (attempt M T_copy)
                 (before (destroy_this is_error) (before (new_copy M T_move v) (set_flag True)))
             else andthen (read_holder is_error this) (\<lambda>tmp.
                 before (attempt M E_copy)
                 (before (destroy_this is_error)
                 (before (catching (new_copy M T_copy v) (before (new_copy M E_move tmp) (fault User_exception)))
                   (set_flag True))))) s
      else andthen (read_holder is_error this) (\<lambda>old.
           andthen (read_holder is_error that) (assign_this M E_copy_assign old)) s)"

text \<open>
  \<open>operator=(expected &&)\<close>, enabled only if moving an \<open>E\<close> does not throw; a temporary keeps the old
  error while the value is moved in.
\<close>

definition exp_move_assign :: "('v, 'e) alt members \<Rightarrow> (('v, 'e) estate, unit) proc" where
  "exp_move_assign M s =
     (if flag (this s) \<and> flag (that s)
      then andthen (read_holder is_value this) (\<lambda>old.
           andthen (read_holder is_value that) (move_assign_this M T_move_assign old)) s
      else if flag (this s) \<and> \<not> flag (that s)
      then andthen (read_holder is_error that) (\<lambda>e.
             if nothrow M E_move
             then before (destroy_this is_value) (before (new_from_that M E_move e) (set_flag False))
             else andthen (read_holder is_value this) (\<lambda>tmp.
                 before (catching (attempt M T_move) (before (set_this (spoiled M tmp)) (fault User_exception)))
                 (before (destroy_this is_value)
                 (before (catching (new_from_that M E_move e) (before (new_copy M T_copy tmp) (fault User_exception)))
                   (set_flag False))))) s
      else if \<not> flag (this s) \<and> flag (that s)
      then andthen (read_holder is_value that) (\<lambda>v.
             if nothrow M T_move
             then before (destroy_this is_error) (before (new_from_that M T_move v) (set_flag True))
             else andthen (read_holder is_error this) (\<lambda>tmp.
                 before (catching (attempt M E_move) (before (set_this (spoiled M tmp)) (fault User_exception)))
                 (before (destroy_this is_error)
                 (before (catching (new_from_that M T_move v) (before (new_copy M E_move tmp) (fault User_exception)))
                   (set_flag True))))) s
      else andthen (read_holder is_error this) (\<lambda>old.
           andthen (read_holder is_error that) (move_assign_this M E_move_assign old)) s)"

text \<open>\<open>emplace(args...)\<close>; \<open>v\<close> is the value that \<open>T(args...)\<close> constructs.\<close>

definition exp_emplace :: "('v, 'e) alt members \<Rightarrow> 'v \<Rightarrow> (('v, 'e) estate, unit) proc" where
  "exp_emplace M v s =
     (if flag (this s)
      then before (attempt M T_args)
           (andthen (read_holder is_value this) (\<lambda>old. assign_this M T_move_assign old (Value v))) s
      else if nothrow M T_args
      then before (destroy_this is_error) (before (new_copy M T_args (Value v)) (set_flag True)) s
      else if nothrow M T_move
      then before (attempt M T_args)
           (before (destroy_this is_error) (before (new_copy M T_move (Value v)) (set_flag True))) s
      else andthen (read_holder is_error this) (\<lambda>tmp.
           before (catching (attempt M E_move) (before (set_this (spoiled M tmp)) (fault User_exception)))
           (before (destroy_this is_error)
           (before (catching (new_copy M T_args (Value v)) (before (new_copy M E_move tmp) (fault User_exception)))
             (set_flag True)))) s)"

text \<open>
  \<open>operator=(U &&)\<close>; unlike in \<open>emplace\<close>, the handler does not rethrow, and the flag is set after it.
\<close>

definition exp_assign_value :: "('v, 'e) alt members \<Rightarrow> 'v \<Rightarrow> (('v, 'e) estate, unit) proc" where
  "exp_assign_value M v s =
     (if flag (this s)
      then andthen (read_holder is_value this) (\<lambda>old. assign_this M T_copy_assign old (Value v)) s
      else if nothrow M T_args
      then before (destroy_this is_error) (before (new_copy M T_args (Value v)) (set_flag True)) s
      else andthen (read_holder is_error this) (\<lambda>tmp.
           before (catching (attempt M E_move) (before (set_this (spoiled M tmp)) (fault User_exception)))
           (before (destroy_this is_error)
           (before (catching (new_copy M T_args (Value v)) (new_copy M E_move tmp))
             (set_flag True)))) s)"

text \<open>\<open>operator=(const unexpected<G> &)\<close> and \<open>operator=(unexpected<G> &&)\<close>.\<close>

definition exp_assign_unexpected :: "('v, 'e) alt members \<Rightarrow> 'e \<Rightarrow> (('v, 'e) estate, unit) proc" where
  "exp_assign_unexpected M e s =
     (if flag (this s)
      then before (destroy_this is_value) (before (new_copy M E_copy (Error e)) (set_flag False)) s
      else andthen (read_holder is_error this) (\<lambda>old. assign_this M E_copy_assign old (Error e)) s)"

definition exp_move_assign_unexpected :: "('v, 'e) alt members \<Rightarrow> 'e \<Rightarrow> (('v, 'e) estate, unit) proc" where
  "exp_move_assign_unexpected M e s =
     (if flag (this s)
      then before (destroy_this is_value) (before (new_copy M E_move (Error e)) (set_flag False)) s
      else andthen (read_holder is_error this) (\<lambda>old. assign_this M E_move_assign old (Error e)) s)"

section \<open>Comparison and swap\<close>

definition exp_eq :: "('v \<Rightarrow> 'v \<Rightarrow> bool) \<Rightarrow> ('e \<Rightarrow> 'e \<Rightarrow> bool) \<Rightarrow> ('v, 'e) expected \<Rightarrow> ('v, 'e) expected \<Rightarrow> bool res" where
  "exp_eq eqv eqe x y =
     (if flag x \<and> flag y then res_bind (exp_deref x) (\<lambda>v. res_bind (exp_deref y) (\<lambda>w. Inr (eqv v w)))
      else if \<not> flag x \<and> \<not> flag y then res_bind (exp_error x) (\<lambda>v. res_bind (exp_error y) (\<lambda>w. Inr (eqe v w)))
      else Inr False)"

text \<open>\<open>swap\<close> through a temporary: a move construction and two move assignments.\<close>

definition exp_swap :: "('v, 'e) alt members \<Rightarrow> 'v \<Rightarrow> (('v, 'e) estate, unit) proc" where
  "exp_swap M d s =
     (case exp_move_construct M d \<lparr>this = \<lparr>content = Raw, flag = False, leaks = 0\<rparr>, that = that s, calls = calls s\<rparr> of
        (Inl e, s1) \<Rightarrow> (Inl e, s\<lparr>that := that s1, calls := calls s1\<rparr>)
      | (Inr _, s1) \<Rightarrow>
     (case exp_move_assign M \<lparr>this = that s1, that = this s, calls = calls s1\<rparr> of
        (Inl e, s2) \<Rightarrow> (Inl e, \<lparr>this = that s2, that = this s2, calls = calls s2\<rparr>)
      | (Inr _, s2) \<Rightarrow>
     (case exp_move_assign M \<lparr>this = that s2, that = this s1, calls = calls s2\<rparr> of
        (r, s3) \<Rightarrow> (r, \<lparr>this = this s3, that = this s2, calls = calls s3\<rparr>))))"

section \<open>Exception safety\<close>

text \<open>The assignments, each with the condition on the traits under which its overload takes part.\<close>

datatype ('v, 'e) exp_op =
    Copy_assign | Move_assign | Emplace 'v | Assign_value 'v | Assign_unexpected 'e | Move_assign_unexpected 'e

fun exp_apply :: "('v, 'e) alt members \<Rightarrow> ('v, 'e) exp_op \<Rightarrow> (('v, 'e) estate, unit) proc" where
  "exp_apply M Copy_assign = exp_copy_assign M"
| "exp_apply M Move_assign = exp_move_assign M"
| "exp_apply M (Emplace v) = exp_emplace M v"
| "exp_apply M (Assign_value v) = exp_assign_value M v"
| "exp_apply M (Assign_unexpected e) = exp_assign_unexpected M e"
| "exp_apply M (Move_assign_unexpected e) = exp_move_assign_unexpected M e"

fun enabled :: "('v, 'e) alt members \<Rightarrow> ('v, 'e) exp_op \<Rightarrow> bool" where
  "enabled M Copy_assign \<longleftrightarrow> nothrow M E_move \<or> nothrow M T_move"
| "enabled M Move_assign \<longleftrightarrow> nothrow M E_move \<and> nothrow M E_move_assign"
| "enabled M (Emplace v) \<longleftrightarrow> True"
| "enabled M (Assign_value v) \<longleftrightarrow> nothrow M T_args \<or> nothrow M E_move"
| "enabled M (Assign_unexpected e) \<longleftrightarrow> nothrow M E_copy"
| "enabled M (Move_assign_unexpected e) \<longleftrightarrow> nothrow M E_move"

text \<open>What the object holds after an assignment that returns.\<close>

fun assigned :: "('v, 'e) exp_op \<Rightarrow> ('v, 'e) expected \<Rightarrow> ('v, 'e) alt cell" where
  "assigned Copy_assign h = content h"
| "assigned Move_assign h = content h"
| "assigned (Emplace v) h = Obj (Value v)"
| "assigned (Assign_value v) h = Obj (Value v)"
| "assigned (Assign_unexpected e) h = Obj (Error e)"
| "assigned (Move_assign_unexpected e) h = Obj (Error e)"

text \<open>
  Which calls break the object: a copy assignment of an error to a value, and \<open>emplace\<close> on an error,
  when the construction of the new content throws and so does putting back the old one in the
  handler; and an assignment of a value to an error when the construction of the value throws.
\<close>

fun breaks :: "('v, 'e) alt members \<Rightarrow> ('v, 'e) exp_op \<Rightarrow> ('v, 'e) estate \<Rightarrow> bool" where
  "breaks M Copy_assign s \<longleftrightarrow> flag (this s) \<and> \<not> flag (that s) \<and> \<not> nothrow M E_copy \<and> \<not> nothrow M E_move \<and>
     \<not> throws M T_copy (calls s) \<and> throws M E_copy (Suc (calls s)) \<and> throws M T_copy (Suc (Suc (calls s)))"
| "breaks M (Emplace v) s \<longleftrightarrow> \<not> flag (this s) \<and> \<not> nothrow M T_args \<and> \<not> nothrow M T_move \<and>
     \<not> throws M E_move (calls s) \<and> throws M T_args (Suc (calls s)) \<and> throws M E_move (Suc (Suc (calls s)))"
| "breaks M (Assign_value v) s \<longleftrightarrow> \<not> flag (this s) \<and> \<not> nothrow M T_args \<and> throws M T_args (Suc (calls s))"
| "breaks M op s \<longleftrightarrow> False"

text \<open>And how: without content, or with an error under the flag of a value.\<close>

fun broken_outcome :: "('v, 'e) exp_op \<Rightarrow> ('v, 'e) estate \<Rightarrow> unit res \<times> ('v, 'e) estate \<Rightarrow> bool" where
  "broken_outcome (Assign_value v) s r \<longleftrightarrow>
     fst r = Inr () \<and> flag (this (snd r)) \<and> content (this (snd r)) = content (this s)"
| "broken_outcome op s r \<longleftrightarrow>
     fst r = Inl User_exception \<and> flag (this (snd r)) = flag (this s) \<and> content (this (snd r)) = Raw"

fun emplaces :: "('v, 'e) exp_op \<Rightarrow> bool" where
  "emplaces (Emplace v) \<longleftrightarrow> True"
| "emplaces op \<longleftrightarrow> False"

definition safe_outcome :: "('v, 'e) alt members \<Rightarrow> ('v, 'e) exp_op \<Rightarrow> ('v, 'e) estate
    \<Rightarrow> unit res \<times> ('v, 'e) estate \<Rightarrow> bool" where
  "safe_outcome M op s r \<longleftrightarrow>
     valid (this (snd r)) \<and> valid (that (snd r)) \<and> leaks (this (snd r)) = leaks (this s) \<and>
     (case fst r of
        Inr _ \<Rightarrow> content (this (snd r)) = assigned op (that s)
      | Inl e \<Rightarrow> e = User_exception \<and> flag (this (snd r)) = flag (this s) \<and>
          ((\<exists>x. assigned op (that s) = Obj x \<and> is_value x \<noteq> flag (this s)) \<longrightarrow> this (snd r) = this s \<or>
             emplaces op \<and> \<not> nothrow M E_move \<and>
               (\<exists>x. content (this s) = Obj x \<and> content (this (snd r)) = Obj (spoiled M x))))"

lemma valid_cases:
  assumes "valid h"
  obtains (val) v l where "h = \<lparr>content = Obj (Value v), flag = True, leaks = l\<rparr>"
    | (err) e l where "h = \<lparr>content = Obj (Error e), flag = False, leaks = l\<rparr>"
proof -
  obtain x where x: "content h = Obj x" "flag h = is_value x" using assms by (auto simp: valid_def)
  then show thesis using that by (cases h; cases x) auto
qed

lemma valid_simps [simp]:
  "valid \<lparr>content = Obj x, flag = b, leaks = l\<rparr> \<longleftrightarrow> b = is_value x"
  "\<not> valid \<lparr>content = Raw, flag = b, leaks = l\<rparr>"
  by (simp_all add: valid_def)

text \<open>All combinations of two valid objects, with the state written out.\<close>

lemma estate_cases:
  assumes "valid (this s)" and "valid (that s)"
  obtains x y k l n where
    "s = \<lparr>this = \<lparr>content = Obj x, flag = is_value x, leaks = k\<rparr>,
       that = \<lparr>content = Obj y, flag = is_value y, leaks = l\<rparr>, calls = n\<rparr>"
proof -
  obtain x k where "this s = \<lparr>content = Obj x, flag = is_value x, leaks = k\<rparr>"
    using assms(1) by (auto elim!: valid_cases intro: that)
  moreover obtain y l where "that s = \<lparr>content = Obj y, flag = is_value y, leaks = l\<rparr>"
    using assms(2) by (auto elim!: valid_cases intro: that)
  ultimately show thesis using that [of x k y l "calls s"] by simp
qed

lemma well_behavedD:
  assumes "well_behaved M"
  shows "nothrow M m \<Longrightarrow> \<not> throws M m i"
    and "is_value (moved M x) = is_value x" and "is_value (spoiled M x) = is_value x"
    and "is_value (half M x y) = is_value x"
  using assms by (auto simp: well_behaved_def honest_def)

lemmas exp_defs = exp_copy_assign_def exp_move_assign_def exp_emplace_def exp_assign_unexpected_def
  exp_move_assign_unexpected_def exp_assign_value_def

lemma exp_apply_safe:
  assumes "well_behaved M" and "valid (this s)" and "valid (that s)" and "enabled M op"
  shows "if breaks M op s then broken_outcome op s (exp_apply M op s) else safe_outcome M op s (exp_apply M op s)"
proof -
  obtain x y k l n where s: "s = \<lparr>this = \<lparr>content = Obj x, flag = is_value x, leaks = k\<rparr>,
       that = \<lparr>content = Obj y, flag = is_value y, leaks = l\<rparr>, calls = n\<rparr>"
    using assms(2,3) by (rule estate_cases)
  note wb = well_behavedD [OF assms(1)]
  show ?thesis
    using assms(4)
    by (cases op; cases x; cases y) (auto simp: s exp_defs lifetime_defs safe_outcome_def wb)
qed

lemma exp_swap_ok:
  assumes "well_behaved M" and "valid (this s)" and "valid (that s)"
    and "\<forall>m \<in> {T_default, T_move, E_move, T_move_assign, E_move_assign}. nothrow M m"
  shows "\<exists>s'. exp_swap M d s = (Inr (), s') \<and> content (this s') = content (that s) \<and> flag (this s') = flag (that s) \<and>
    content (that s') = content (this s) \<and> flag (that s') = flag (this s) \<and>
    leaks (this s') = leaks (this s) \<and> leaks (that s') = leaks (that s)"
proof -
  obtain x y k l n where s: "s = \<lparr>this = \<lparr>content = Obj x, flag = is_value x, leaks = k\<rparr>,
       that = \<lparr>content = Obj y, flag = is_value y, leaks = l\<rparr>, calls = n\<rparr>"
    using assms(2,3) by (rule estate_cases)
  note wb = well_behavedD [OF assms(1)]
  have nt: "\<not> throws M m i" if "m \<in> {T_default, T_move, E_move, T_move_assign, E_move_assign}" for m i
    using wb(1) assms(4) that by blast
  show ?thesis
    using assms(4)
    by (cases x; cases y)
      (simp_all add: s exp_swap_def exp_move_construct_def base_default_def unwinding_def exp_move_assign_def
        lifetime_defs wb nt)
qed

section \<open>Properties\<close>


text \<open>Members that throw at the calls with the given numbers, and never if the trait says so.\<close>

definition throwing :: "special set \<Rightarrow> nat set \<Rightarrow> (nat, nat) alt members" where
  "throwing sure at_calls = \<lparr>throws = (\<lambda>m i. m \<notin> sure \<and> i \<in> at_calls), nothrow = (\<lambda>m. m \<in> sure),
     moved = id, spoiled = id, half = (\<lambda>x y. x)\<rparr>"

lemma throwing_well_behaved: "well_behaved (throwing sure at_calls)"
  by (simp add: well_behaved_def honest_def throwing_def)

definition two_expected :: "(nat, nat) expected \<Rightarrow> (nat, nat) expected \<Rightarrow> (nat, nat) estate" where
  "two_expected x y = \<lparr>this = x, that = y, calls = 0\<rparr>"


text \<open>
  Copying an \<open>expected\<close> whose element types are not trivially copyable: the base class has already
  constructed a default value in the union, so a successful copy leaks that value, and a copy of an
  error that throws destroys a value as if it were an error, which is undefined.
\<close>

lemma expected_copy_construct:
  assumes "content (this s) = Raw" and "valid (that s)" and "\<not> throws M T_default (calls s)"
  shows "case exp_copy_construct M d s of (r, s') \<Rightarrow>
    if throws M (if flag (that s) then T_copy else E_copy) (Suc (calls s))
    then r = Inl (if flag (that s) then User_exception else Undefined_behaviour)
    else r = Inr () \<and> content (this s') = content (that s) \<and> leaks (this s') = Suc (leaks (this s))"
  using assms(2)
proof (cases rule: valid_cases)
  case (val v l)
  then show ?thesis using assms(1,3)
    by (simp add: exp_copy_construct_def base_default_def unwinding_def exp_destroy_def lifetime_defs)
next
  case (err e l)
  then show ?thesis using assms(1,3)
    by (simp add: exp_copy_construct_def base_default_def unwinding_def exp_destroy_def lifetime_defs)
qed

text \<open>
  Assigning a value to an \<open>expected\<close> that holds an error, with a value type whose constructor throws:
  the handler restores the error but neither rethrows nor keeps the flag, so the assignment returns
  normally with an object that claims to hold a value and holds an error.
\<close>

lemma expected_assign_value_confused:
  assumes "content (this s) = Obj (Error e)" and "\<not> flag (this s)" and "\<not> nothrow M T_args"
    and "honest M" and "nothrow M E_move" and "throws M T_args (Suc (calls s))"
  shows "\<exists>s'. exp_assign_value M v s = (Inr (), s') \<and> flag (this s') \<and> content (this s') = Obj (Error e) \<and>
    exp_value (this s') = Inl Undefined_behaviour"
  using assms honest_nothrow [OF assms(4,5)]
  by (simp add: exp_assign_value_def lifetime_defs exp_value_def exp_deref_def)

end
