(* ===== verification/Optional.thy ===== *)
theory Optional
  imports Lifetime
begin

text \<open>
  The model of \<open>gpcl::optional<T>\<close> (\<open>optional.hpp\<close>, \<open>detail/optional.hpp\<close>) for a \<open>T\<close> that is not trivially
  copyable: storage for a value and the flag \<open>has_val_\<close>.
\<close>

section \<open>Construction and destruction\<close>

abbreviation any_obj :: "'v \<Rightarrow> bool" where "any_obj \<equiv> (\<lambda>_. True)"

text \<open>The flag tells whether a value lives in the storage.\<close>

definition opt_valid :: "'v holder \<Rightarrow> bool" where
  "opt_valid h \<longleftrightarrow> (flag h \<longleftrightarrow> content h \<noteq> Raw)"

definition opt_null :: "'v holder" where
  "opt_null = \<lparr>content = Raw, flag = False, leaks = 0\<rparr>"

definition opt_in_place :: "'v \<Rightarrow> 'v holder" where
  "opt_in_place v = \<lparr>content = Obj v, flag = True, leaks = 0\<rparr>"

definition opt_destroy :: "('v lstate, unit) proc" where
  "opt_destroy s = (if flag (this s) then destroy_this any_obj s else (Inr (), s))"

text \<open>A constructor body that throws after the base class is complete: the base is destroyed.\<close>

definition opt_unwinding :: "('v lstate, unit) proc \<Rightarrow> ('v lstate, unit) proc" where
  "opt_unwinding m = catching m (before opt_destroy (fault User_exception))"

text \<open>The copy constructor copies \<open>this->val_\<close>, not the value of the argument.\<close>

definition opt_copy_construct :: "'v members \<Rightarrow> ('v lstate, unit) proc" where
  "opt_copy_construct M = opt_unwinding (\<lambda>s.
     before (set_flag (flag (that s)))
       (if flag (that s) then andthen (read_holder any_obj this) (new_copy M T_copy) else ret ()) s)"

definition opt_move_construct :: "'v members \<Rightarrow> ('v lstate, unit) proc" where
  "opt_move_construct M = opt_unwinding (\<lambda>s.
     before (set_flag (flag (that s))) (before (set_that_flag False)
       (if flag (that s)
        then before (andthen (read_holder any_obj that) (new_from_that M T_move)) (destroy_that any_obj)
        else ret ())) s)"

text \<open>The constructors from an optional of another type, by copy and by move.\<close>

definition opt_convert_construct :: "'v members \<Rightarrow> ('v lstate, unit) proc" where
  "opt_convert_construct M = opt_unwinding (\<lambda>s.
     before (set_flag (flag (that s)))
       (if flag (that s) then andthen (read_holder any_obj that) (new_copy M T_copy) else ret ()) s)"

definition opt_convert_move_construct :: "'v members \<Rightarrow> ('v lstate, unit) proc" where
  "opt_convert_move_construct M = opt_unwinding (\<lambda>s.
     before (set_flag (flag (that s))) (before (set_that_flag False)
       (if flag (that s) then andthen (read_holder any_obj that) (new_copy M T_copy) else ret ())) s)"

section \<open>Assignment and modifiers\<close>

definition opt_copy_assign :: "'v members \<Rightarrow> ('v lstate, unit) proc" where
  "opt_copy_assign M s =
     (if flag (this s) \<and> flag (that s)
      then andthen (read_holder any_obj this) (\<lambda>old.
           andthen (read_holder any_obj that) (assign_this M T_copy_assign old)) s
      else if flag (this s) \<and> \<not> flag (that s)
      then before (destroy_this any_obj) (set_flag False) s
      else if \<not> flag (this s) \<and> flag (that s)
      then before (set_flag True) (andthen (read_holder any_obj that) (new_copy M T_copy)) s
      else (Inr (), s))"

definition opt_move_assign :: "'v members \<Rightarrow> ('v lstate, unit) proc" where
  "opt_move_assign M s =
     (if flag (this s) \<and> flag (that s)
      then before (andthen (read_holder any_obj this) (\<lambda>old.
                   andthen (read_holder any_obj that) (move_assign_this M T_move_assign old)))
           (before (destroy_that any_obj) (set_that_flag False)) s
      else if flag (this s) \<and> \<not> flag (that s)
      then before (destroy_this any_obj) (set_flag False) s
      else if \<not> flag (this s) \<and> flag (that s)
      then before (set_flag True) (before (andthen (read_holder any_obj that) (new_from_that M T_move))
           (before (destroy_that any_obj) (set_that_flag False))) s
      else (Inr (), s))"

text \<open>
  The same functions called with the object itself as the argument: \<open>x = x\<close> assigns the value to itself,
  and \<open>x = std::move(x)\<close> then destroys it.
\<close>

definition opt_self_copy_assign :: "'v members \<Rightarrow> ('v lstate, unit) proc" where
  "opt_self_copy_assign M s =
     (if flag (this s) then andthen (read_holder any_obj this) (\<lambda>old. assign_this M T_copy_assign old old) s
      else (Inr (), s))"

definition opt_self_move_assign :: "'v members \<Rightarrow> ('v lstate, unit) proc" where
  "opt_self_move_assign M s =
     (if flag (this s)
      then before (andthen (read_holder any_obj this) (\<lambda>old. assign_this M T_move_assign old old))
           (before (destroy_this any_obj) (set_flag False)) s
      else (Inr (), s))"

text \<open>
  The copy assignment from an optional of another type has the same body; a value of the other type
  stands for the value of \<open>T\<close> it converts to.
\<close>

definition opt_convert_copy_assign :: "'v members \<Rightarrow> ('v lstate, unit) proc" where
  "opt_convert_copy_assign M = opt_copy_assign M"

text \<open>The move assignment from an optional of another type forgets to destroy the value moved from.\<close>

definition opt_convert_move_assign :: "'v members \<Rightarrow> ('v lstate, unit) proc" where
  "opt_convert_move_assign M s =
     (if flag (this s) \<and> flag (that s)
      then before (andthen (read_holder any_obj this) (\<lambda>old.
                   andthen (read_holder any_obj that) (move_assign_this M T_move_assign old)))
           (set_that_flag False) s
      else if flag (this s) \<and> \<not> flag (that s)
      then before (destroy_this any_obj) (set_flag False) s
      else if \<not> flag (this s) \<and> flag (that s)
      then before (set_flag True) (before (andthen (read_holder any_obj that) (new_from_that M T_move))
           (set_that_flag False)) s
      else (Inr (), s))"

definition opt_assign_null :: "('v lstate, unit) proc" where
  "opt_assign_null s =
     (if flag (this s) then before (set_flag False) (destroy_this any_obj) s else set_flag False s)"

definition opt_reset :: "('v lstate, unit) proc" where
  "opt_reset = opt_assign_null"

definition opt_assign_value :: "'v members \<Rightarrow> 'v \<Rightarrow> ('v lstate, unit) proc" where
  "opt_assign_value M v s =
     (if flag (this s)
      then andthen (read_holder any_obj this) (\<lambda>old. assign_this M T_copy_assign old v) s
      else before (new_copy M T_args v) (set_flag True) s)"

text \<open>
  \<open>emplace\<close> does not destroy a value whose destructor is trivial: placement new reuses its storage, which
  ends its lifetime before the constructor runs.
\<close>

definition reuse_storage :: "('v lstate, unit) proc" where
  "reuse_storage s = (Inr (), s\<lparr>this := (this s)\<lparr>content := Raw\<rparr>\<rparr>)"

definition opt_emplace :: "'v members \<Rightarrow> bool \<Rightarrow> 'v \<Rightarrow> ('v lstate, unit) proc" where
  "opt_emplace M trivially_destructible v s =
     before (if flag (this s) \<and> \<not> trivially_destructible
             then before (destroy_this any_obj) (set_flag False) else reuse_storage)
       (before (new_copy M T_args v) (set_flag True)) s"

text \<open>
  \<open>swap\<close>; of two values by the swap of \<open>T\<close>, otherwise by a move assignment, after which the object moved
  from is destroyed once more.
\<close>

definition flip :: "'v lstate \<Rightarrow> 'v lstate" where
  "flip s = \<lparr>this = that s, that = this s, calls = calls s\<rparr>"

definition flipped :: "('v lstate, 'a) proc \<Rightarrow> ('v lstate, 'a) proc" where
  "flipped m s = (case m (flip s) of (r, s') \<Rightarrow> (r, flip s'))"

definition opt_swap :: "'v members \<Rightarrow> ('v lstate, unit) proc" where
  "opt_swap M s =
     (if flag (this s) \<and> flag (that s)
      then andthen (read_holder any_obj this) (\<lambda>x. andthen (read_holder any_obj that) (\<lambda>y.
           before (set_this y) (set_that x))) s
      else if flag (this s) \<and> \<not> flag (that s)
      then before (flipped (opt_move_assign M)) (before (destroy_this any_obj) (before (set_flag False) (set_that_flag True))) s
      else if \<not> flag (this s) \<and> flag (that s)
      then before (opt_move_assign M) (before (destroy_that any_obj) (before (set_that_flag False) (set_flag True))) s
      else (Inr (), s))"

section \<open>Observers\<close>

definition opt_deref :: "'v holder \<Rightarrow> 'v res" where
  "opt_deref h = res_bind (gpcl_assert (flag h)) (\<lambda>_. case content h of Obj v \<Rightarrow> Inr v | Raw \<Rightarrow> Inl Undefined_behaviour)"

definition opt_value :: "'v holder \<Rightarrow> 'v res" where
  "opt_value h = (if flag h then opt_deref h else Inl Bad_optional_access)"

definition opt_value_or :: "'v \<Rightarrow> 'v holder \<Rightarrow> 'v res" where
  "opt_value_or d h = (if flag h then opt_deref h else Inr d)"

definition opt_and_then :: "('v \<Rightarrow> 'w holder res) \<Rightarrow> 'v holder \<Rightarrow> 'w holder res" where
  "opt_and_then f h = (if flag h then res_bind (opt_value h) f else Inr opt_null)"

definition opt_eq :: "('v \<Rightarrow> 'v \<Rightarrow> bool) \<Rightarrow> 'v holder \<Rightarrow> 'v holder \<Rightarrow> bool res" where
  "opt_eq eqv x y =
     (if flag x \<and> flag y then res_bind (opt_deref x) (\<lambda>v. res_bind (opt_deref y) (\<lambda>w. Inr (eqv v w)))
      else if \<not> flag x \<and> \<not> flag y then Inr True else Inr False)"

definition opt_less :: "('v \<Rightarrow> 'v \<Rightarrow> bool) \<Rightarrow> 'v holder \<Rightarrow> 'v holder \<Rightarrow> bool res" where
  "opt_less lt x y =
     (if flag x \<and> flag y then res_bind (opt_deref x) (\<lambda>v. res_bind (opt_deref y) (\<lambda>w. Inr (lt v w))) else Inr False)"

definition opt_less_eq :: "('v \<Rightarrow> 'v \<Rightarrow> bool) \<Rightarrow> 'v holder \<Rightarrow> 'v holder \<Rightarrow> bool res" where
  "opt_less_eq le x y =
     (if flag x \<and> flag y then res_bind (opt_deref x) (\<lambda>v. res_bind (opt_deref y) (\<lambda>w. Inr (le v w))) else Inr False)"

section \<open>Exception safety\<close>

datatype 'v opt_op =
    Opt_copy | Opt_move | Opt_convert_copy | Opt_convert_move | Opt_self_copy | Opt_self_move
  | Opt_null | Opt_value 'v | Opt_emplace 'v

fun opt_apply :: "'v members \<Rightarrow> bool \<Rightarrow> 'v opt_op \<Rightarrow> ('v lstate, unit) proc" where
  "opt_apply M td Opt_copy = opt_copy_assign M"
| "opt_apply M td Opt_move = opt_move_assign M"
| "opt_apply M td Opt_convert_copy = opt_convert_copy_assign M"
| "opt_apply M td Opt_convert_move = opt_convert_move_assign M"
| "opt_apply M td Opt_self_copy = opt_self_copy_assign M"
| "opt_apply M td Opt_self_move = opt_self_move_assign M"
| "opt_apply M td Opt_null = opt_assign_null"
| "opt_apply M td (Opt_value v) = opt_assign_value M v"
| "opt_apply M td (Opt_emplace v) = opt_emplace M td v"

fun opt_assigned :: "'v opt_op \<Rightarrow> 'v lstate \<Rightarrow> 'v cell" where
  "opt_assigned Opt_self_copy s = content (this s)"
| "opt_assigned Opt_self_move s = Raw"
| "opt_assigned Opt_null s = Raw"
| "opt_assigned (Opt_value v) s = Obj v"
| "opt_assigned (Opt_emplace v) s = Obj v"
| "opt_assigned op s = content (that s)"

text \<open>
  When a throwing constructor leaves the flag without a value: the assignments from another optional
  to an empty one set the flag before they construct the value, and \<open>emplace\<close> leaves the flag of a value
  whose destructor is trivial and whose storage it reuses.
\<close>

fun opt_breaks :: "bool \<Rightarrow> 'v opt_op \<Rightarrow> bool \<Rightarrow> bool" where
  "opt_breaks td Opt_copy has_val \<longleftrightarrow> \<not> has_val"
| "opt_breaks td Opt_move has_val \<longleftrightarrow> \<not> has_val"
| "opt_breaks td Opt_convert_copy has_val \<longleftrightarrow> \<not> has_val"
| "opt_breaks td Opt_convert_move has_val \<longleftrightarrow> \<not> has_val"
| "opt_breaks td (Opt_emplace v) has_val \<longleftrightarrow> td \<and> has_val"
| "opt_breaks td op has_val \<longleftrightarrow> False"

definition opt_outcome :: "bool \<Rightarrow> 'v opt_op \<Rightarrow> 'v lstate \<Rightarrow> unit res \<times> 'v lstate \<Rightarrow> bool" where
  "opt_outcome td op s r \<longleftrightarrow> leaks (this (snd r)) = leaks (this s) \<and>
     (case fst r of
        Inr _ \<Rightarrow> opt_valid (this (snd r)) \<and> content (this (snd r)) = opt_assigned op s \<and>
          (op = Opt_move \<longrightarrow> \<not> flag (that (snd r))) \<and>
          (if op = Opt_convert_move \<and> flag (that s)
           then \<not> flag (that (snd r)) \<and> content (that (snd r)) \<noteq> Raw
           else opt_valid (that (snd r)))
      | Inl e \<Rightarrow> e = User_exception \<and> opt_valid (that (snd r)) \<and>
          (if opt_breaks td op (flag (this s))
           then flag (this (snd r)) \<and> content (this (snd r)) = Raw
           else opt_valid (this (snd r))))"

lemma opt_valid_cases:
  assumes "opt_valid h"
  obtains (none) l where "h = \<lparr>content = Raw, flag = False, leaks = l\<rparr>"
    | (some) v l where "h = \<lparr>content = Obj v, flag = True, leaks = l\<rparr>"
  using assms by (cases h; cases "content h") (auto simp: opt_valid_def)

lemma opt_valid_simps [simp]:
  "opt_valid \<lparr>content = Obj v, flag = b, leaks = l\<rparr> \<longleftrightarrow> b"
  "opt_valid \<lparr>content = Raw, flag = b, leaks = l\<rparr> \<longleftrightarrow> \<not> b"
  by (simp_all add: opt_valid_def)

lemmas opt_defs = opt_copy_assign_def opt_move_assign_def opt_assign_null_def opt_assign_value_def opt_emplace_def
  opt_convert_copy_assign_def opt_convert_move_assign_def opt_self_copy_assign_def opt_self_move_assign_def reuse_storage_def


definition throwing_at :: "nat \<Rightarrow> nat members" where
  "throwing_at k = \<lparr>throws = (\<lambda>m i. i = k), nothrow = (\<lambda>m. False), moved = id, spoiled = id, half = (\<lambda>x y. x)\<rparr>"


text \<open>
  Copying an \<open>optional\<close> that holds a value reads the storage under construction, and swapping it with
  an empty one destroys the value moved from a second time: both are undefined; the converting
  constructor, which has the same task as the first, copies the argument.
\<close>

lemma optional_copy_and_swap:
  assumes "opt_valid (this s)" and "opt_valid (that s)" and "\<not> flag (this s)" and "flag (that s)"
    and "\<not> throws M T_move (calls s)" and "\<not> throws M T_copy (calls s)"
  shows "fst (opt_copy_construct M s) = Inl Undefined_behaviour \<and> fst (opt_swap M s) = Inl Undefined_behaviour \<and>
    fst (opt_convert_construct M s) = Inr () \<and>
    content (this (snd (opt_convert_construct M s))) = content (that s)"
proof -
  obtain x y n where s: "s = \<lparr>this = x, that = y, calls = n\<rparr>" by (cases s)
  have "opt_valid x" "opt_valid y" "\<not> flag x" "flag y" using assms by (simp_all add: s)
  then show ?thesis using assms(5,6)
    by (elim opt_valid_cases)
      (auto simp: s opt_copy_construct_def opt_convert_construct_def opt_unwinding_def opt_swap_def opt_move_assign_def
        lifetime_defs)
qed

text \<open>The observers of a valid optional, and the comparison of empty ones.\<close>

lemma opt_observers:
  assumes "opt_valid h"
  shows "opt_value h = (case content h of Obj v \<Rightarrow> Inr v | Raw \<Rightarrow> Inl Bad_optional_access)"
    and "opt_value_or d h = Inr (case content h of Obj v \<Rightarrow> v | Raw \<Rightarrow> d)"
  using assms by (auto elim!: opt_valid_cases simp: opt_value_def opt_value_or_def opt_deref_def)

lemma opt_less_eq_irreflexive: "opt_less_eq le opt_null opt_null = Inr False"
  by (simp add: opt_less_eq_def opt_null_def)

end
