(* ===== verification/Tlsf_Bits.thy ===== *)
theory Tlsf_Bits
  imports Gpcl_Prelude
begin

text \<open>
  The arithmetic of the two-level segregated fit allocator (\<open>detail/impl/tlsf.ipp\<close>): the bit scans in
  the variant built on the compiler's intrinsics and in the portable one, alignment of sizes, and the
  mapping of block sizes to the size classes \<open>(fl, sl)\<close>. The target is a 64-bit one: \<open>unsigned int\<close>
  has 32 bits, \<open>size_t\<close> has 64.
\<close>

unbundle bit_operations_syntax

section \<open>Bit scans\<close>

text \<open>
  The intrinsics: \<open>__builtin_clz\<close> counts the zeros above the highest set bit (its result for 0 is
  undefined, and \<open>tlsf_fls\<close> does not call it there), \<open>__builtin_ffs\<close> is one plus the index of the
  lowest set bit, or 0 for 0.
\<close>

definition builtin_clz :: "32 word \<Rightarrow> int" where
  "builtin_clz word = int (length (takeWhile (\<lambda>i. \<not> bit word i) (rev [0..<32])))"

definition builtin_ffs :: "32 word \<Rightarrow> int" where
  "builtin_ffs word =
     (if word = 0 then 0 else 1 + int (length (takeWhile (\<lambda>i. \<not> bit word i) [0..<32])))"

definition tlsf_ffs :: "32 word \<Rightarrow> int" where
  "tlsf_ffs word = builtin_ffs word - 1"

definition tlsf_fls :: "32 word \<Rightarrow> int" where
  "tlsf_fls word = (let b = if word \<noteq> 0 then 32 - builtin_clz word else 0 in b - 1)"

definition tlsf_fls_generic :: "32 word \<Rightarrow> int" where
  "tlsf_fls_generic word0 =
     (let b = 32 :: int; word = word0;
          b = (if word = 0 then b - 1 else b);
          (word, b) = (if word AND 0xffff0000 = 0 then (push_bit 16 word, b - 16) else (word, b));
          (word, b) = (if word AND 0xff000000 = 0 then (push_bit 8 word, b - 8) else (word, b));
          (word, b) = (if word AND 0xf0000000 = 0 then (push_bit 4 word, b - 4) else (word, b));
          (word, b) = (if word AND 0xc0000000 = 0 then (push_bit 2 word, b - 2) else (word, b));
          (word, b) = (if word AND 0x80000000 = 0 then (push_bit 1 word, b - 1) else (word, b))
      in b)"

definition tlsf_ffs_portable :: "32 word \<Rightarrow> int" where
  "tlsf_ffs_portable word = tlsf_fls_generic (word AND (NOT word + 1)) - 1"

definition tlsf_fls_portable :: "32 word \<Rightarrow> int" where
  "tlsf_fls_portable word = tlsf_fls_generic word - 1"

definition tlsf_fls_sizet :: "nat \<Rightarrow> int" where
  "tlsf_fls_sizet sz =
     (let high = (word_of_nat (drop_bit 32 sz) :: 32 word)
      in if high \<noteq> 0 then 32 + tlsf_fls high else tlsf_fls (word_of_nat sz AND 0xffffffff))"

section \<open>Constants\<close>

definition SL_INDEX_COUNT_LOG2 :: nat where "SL_INDEX_COUNT_LOG2 = 5"
definition ALIGN_SIZE_LOG2 :: nat where "ALIGN_SIZE_LOG2 = 3"
definition ALIGN_SIZE :: nat where "ALIGN_SIZE = push_bit ALIGN_SIZE_LOG2 1"
definition FL_INDEX_MAX :: nat where "FL_INDEX_MAX = 32"
definition SL_INDEX_COUNT :: nat where "SL_INDEX_COUNT = push_bit SL_INDEX_COUNT_LOG2 1"
definition FL_INDEX_SHIFT :: nat where "FL_INDEX_SHIFT = SL_INDEX_COUNT_LOG2 + ALIGN_SIZE_LOG2"
definition FL_INDEX_COUNT :: nat where "FL_INDEX_COUNT = FL_INDEX_MAX - FL_INDEX_SHIFT + 1"
definition SMALL_BLOCK_SIZE :: nat where "SMALL_BLOCK_SIZE = push_bit FL_INDEX_SHIFT 1"

text \<open>\<open>sizeof(block_header_t)\<close> is 32: four members of 8 bytes each.\<close>

definition block_header_free_bit :: nat where "block_header_free_bit = push_bit 0 1"
definition block_header_prev_free_bit :: nat where "block_header_prev_free_bit = push_bit 1 1"
definition block_header_overhead :: nat where "block_header_overhead = 8"
definition block_start_offset :: nat where "block_start_offset = 8 + 8"
definition block_size_min :: nat where "block_size_min = 32 - 8"
definition block_size_max :: nat where "block_size_max = push_bit FL_INDEX_MAX 1"

lemma tlsf_constants [simp]:
  "SL_INDEX_COUNT_LOG2 = 5" "ALIGN_SIZE = 8" "SL_INDEX_COUNT = 32" "FL_INDEX_SHIFT = 8"
  "FL_INDEX_COUNT = 25" "SMALL_BLOCK_SIZE = 256" "block_header_overhead = 8" "block_start_offset = 16"
  "block_size_min = 24" "block_size_max = 4294967296"
  by (simp_all add: SL_INDEX_COUNT_LOG2_def ALIGN_SIZE_LOG2_def ALIGN_SIZE_def FL_INDEX_MAX_def
      SL_INDEX_COUNT_def FL_INDEX_SHIFT_def FL_INDEX_COUNT_def SMALL_BLOCK_SIZE_def
      block_header_overhead_def
      block_start_offset_def block_size_min_def block_size_max_def push_bit_eq_mult)

section \<open>Alignment and size classes\<close>

definition align_up :: "nat \<Rightarrow> nat \<Rightarrow> nat res" where
  "align_up x align = res_bind (gpcl_assert (0 = align AND size_sub align 1)) (\<lambda>_.
     Inr (size_t (x + size_sub align 1) AND size_not (size_sub align 1)))"

definition align_down :: "nat \<Rightarrow> nat \<Rightarrow> nat res" where
  "align_down x align = res_bind (gpcl_assert (0 = align AND size_sub align 1)) (\<lambda>_.
     Inr (size_sub x (x AND size_sub align 1)))"

definition align_ptr :: "nat \<Rightarrow> nat \<Rightarrow> nat res" where
  "align_ptr ptr align =
     (let aligned = size_t (ptr + size_sub align 1) AND size_not (size_sub align 1)
      in res_bind (gpcl_assert (0 = align AND size_sub align 1)) (\<lambda>_. Inr aligned))"

definition adjust_request_size :: "nat \<Rightarrow> nat \<Rightarrow> nat res" where
  "adjust_request_size sz align =
     (if sz \<noteq> 0
      then res_bind (align_up sz align) (\<lambda>aligned.
             if aligned < block_size_max then Inr (max aligned block_size_min) else Inr 0)
      else Inr 0)"

definition mapping_insert :: "nat \<Rightarrow> int \<times> int" where
  "mapping_insert sz =
     (if sz < SMALL_BLOCK_SIZE
      then (0, int sz div int (SMALL_BLOCK_SIZE div SL_INDEX_COUNT))
      else let fl = tlsf_fls_sizet sz;
               sl = int (drop_bit (nat (fl - int SL_INDEX_COUNT_LOG2)) sz) XOR push_bit SL_INDEX_COUNT_LOG2 1;
               fl = fl - (int FL_INDEX_SHIFT - 1)
           in (fl, sl))"

text \<open>The rounding constant is computed in \<open>int\<close>, where the shift must stay below 31.\<close>

definition mapping_search :: "nat \<Rightarrow> (int \<times> int) res" where
  "mapping_search sz =
     (if sz \<ge> SMALL_BLOCK_SIZE
      then let n = tlsf_fls_sizet sz - int SL_INDEX_COUNT_LOG2
           in if n < 31
              then let round = 2 ^ nat n - 1 in Inr (mapping_insert (size_t (sz + round)))
              else Inl Undefined_behaviour
      else Inr (mapping_insert sz))"

section \<open>The bit scans compute logarithms\<close>

text \<open>
  \<open>is_fls w n\<close> says that \<open>n\<close> is the index of the highest set bit of \<open>w\<close>, \<open>is_ffs w n\<close> that it is that of
  the lowest.
\<close>

definition is_fls :: "nat \<Rightarrow> nat \<Rightarrow> bool" where
  "is_fls u n \<longleftrightarrow> 2 ^ n \<le> u \<and> u < 2 ^ Suc n"

lemma is_fls_unique: "is_fls u m \<Longrightarrow> is_fls u n \<Longrightarrow> m = n"
proof (rule antisym)
  fix m n assume "is_fls u m" "is_fls u n"
  then have "(2::nat) ^ m < 2 ^ Suc n" unfolding is_fls_def by linarith
  then show "m \<le> n" by (simp only: power_strict_increasing_iff one_less_numeral_iff semiring_norm less_Suc_eq_le)
next
  fix m n assume "is_fls u m" "is_fls u n"
  then have "(2::nat) ^ n < 2 ^ Suc m" unfolding is_fls_def by linarith
  then show "n \<le> m" by (simp only: power_strict_increasing_iff one_less_numeral_iff semiring_norm less_Suc_eq_le)
qed

lemma is_fls_nonzero: "is_fls u n \<Longrightarrow> 0 < u"
  unfolding is_fls_def by (metis gr0I le_zero_eq power_not_zero zero_neq_numeral)

lemma takeWhile_length_first:
  assumes "n < length xs" and "P (xs ! n)" and "\<And>i. i < n \<Longrightarrow> \<not> P (xs ! i)"
  shows "length (takeWhile (\<lambda>x. \<not> P x) xs) = n"
proof -
  have "takeWhile (\<lambda>x. \<not> P x) xs = take n xs"
    using assms by (intro takeWhile_eq_take_P_nth) auto
  then show ?thesis using assms(1) by simp
qed

lemma bit_unat_iff: "bit (w :: 32 word) n \<longleftrightarrow> odd (unat w div 2 ^ n)"
proof -
  have "bit (unat w) n \<longleftrightarrow> bit w n" by (simp add: bit_unsigned_iff)
  then show ?thesis by (simp add: bit_iff_odd)
qed

lemma bit_highest:
  fixes w :: "32 word"
  assumes "is_fls (unat w) n"
  shows "n < 32" "bit w n" "\<And>i. n < i \<Longrightarrow> \<not> bit w i"
proof -
  have w: "2 ^ n \<le> unat w" "unat w < 2 ^ Suc n" using assms by (auto simp: is_fls_def)
  show "n < 32"
  proof (rule ccontr)
    assume "\<not> n < 32"
    then have "(2::nat) ^ 32 \<le> 2 ^ n" by (intro power_increasing) auto
    then show False using w(1) unsigned_less [of w, where ?'a = nat] by simp
  qed
  have "unat w div 2 ^ n = 1" using w by (intro div_nat_eqI) auto
  then show "bit w n" by (simp add: bit_unat_iff)
  show "\<not> bit w i" if "n < i" for i
  proof -
    have "(2::nat) ^ Suc n \<le> 2 ^ i" using that by (intro power_increasing) auto
    then have "unat w div 2 ^ i = 0" using w(2) by simp
    then show ?thesis by (simp add: bit_unat_iff)
  qed
qed

lemma tlsf_fls_spec:
  assumes "is_fls (unat w) n"
  shows "tlsf_fls w = int n"
proof -
  note b = bit_highest [OF assms]
  have "length (takeWhile (\<lambda>i. \<not> bit w i) (rev [0..<32])) = 31 - n"
    using b by (intro takeWhile_length_first) (auto simp: rev_nth)
  moreover have "w \<noteq> 0" using is_fls_nonzero [OF assms] by auto
  ultimately show ?thesis using b(1) by (simp add: tlsf_fls_def builtin_clz_def)
qed

lemma tlsf_ffs_spec:
  assumes "bit w n" and "\<And>i. i < n \<Longrightarrow> \<not> bit w i"
  shows "tlsf_ffs w = int n"
proof -
  have n: "n < 32" using bit_imp_le_length [OF assms(1)] by simp
  then have "length (takeWhile (\<lambda>i. \<not> bit w i) [0..<32]) = n"
    using assms by (intro takeWhile_length_first) auto
  moreover have "w \<noteq> 0" using assms(1) by auto
  ultimately show ?thesis by (simp add: tlsf_ffs_def builtin_ffs_def)
qed

lemma ex_fls: "0 < u \<Longrightarrow> \<exists>n. is_fls u n"
proof (induction u rule: less_induct)
  case (less u)
  show ?case
  proof (cases "u = 1")
    case False
    then have "u div 2 < u" "0 < u div 2" using less.prems by auto
    then obtain n where "is_fls (u div 2) n" using less.IH by blast
    then have "is_fls u (Suc n)" by (auto simp: is_fls_def)
    then show ?thesis ..
  qed (auto simp: is_fls_def intro: exI [of _ 0])
qed

lemma top_bits_clear:
  fixes w :: "32 word"
  assumes "n \<le> 32"
  shows "w AND push_bit n (mask (32 - n)) = 0 \<longleftrightarrow> unat w < 2 ^ n"
proof -
  have "w AND push_bit n (mask (32 - n)) = push_bit n (drop_bit n w)"
    using assms by (intro bit_word_eqI) (auto simp: bit_simps)
  moreover have "push_bit n (drop_bit n w) = 0 \<longleftrightarrow> drop_bit n w = 0"
  proof
    assume a: "push_bit n (drop_bit n w) = 0"
    show "drop_bit n w = 0"
    proof (rule bit_word_eqI)
      fix i assume "i < LENGTH(32)"
      have "\<not> bit (push_bit n (drop_bit n w)) (n + i)" using a by simp
      then show "bit (drop_bit n w) i = bit 0 i" using bit_imp_le_length [of w "n + i"] by (auto simp: bit_simps)
    qed
  qed simp
  moreover have "drop_bit n w = 0 \<longleftrightarrow> unat w div 2 ^ n = 0"
    by (metis drop_bit_eq_div unat_drop_bit_eq unsigned_0 unsigned_word_eqI)
  ultimately show ?thesis by (simp add: div_eq_0_iff)
qed

text \<open>
  One step of the portable scan: the word is shifted up as long as its upper bits are clear, and the
  counter keeps track of the shift. \<open>scan_inv u r w b\<close> holds when \<open>w\<close> is \<open>u\<close> shifted up by \<open>32 - b\<close> and
  at most \<open>r\<close> bits remain to be scanned.
\<close>

definition scan_inv :: "nat \<Rightarrow> nat \<Rightarrow> 32 word \<Rightarrow> nat \<Rightarrow> bool" where
  "scan_inv u r w b \<longleftrightarrow> unat w * 2 ^ b = u * 2 ^ 32 \<and> 2 ^ (32 - r) \<le> unat w \<and> r \<le> 32"

definition scan_step :: "nat \<Rightarrow> 32 word \<times> int \<Rightarrow> 32 word \<times> int" where
  "scan_step k = (\<lambda>(w, b). if w AND push_bit (32 - k) (mask k) = 0 then (push_bit k w, b - int k) else (w, b))"

lemma scan_step_inv:
  assumes "scan_inv u (2 * k) w b" and "0 < k" and "2 * k \<le> 32" and "0 < u" and "u < 2 ^ 32"
  shows "\<exists>w' b'. scan_step k (w, int b) = (w', int b') \<and> scan_inv u k w' b'"
proof (cases "w AND push_bit (32 - k) (mask k) = 0")
  case True
  then have w: "unat w < 2 ^ (32 - k)" using top_bits_clear [of "32 - k" w] assms(3) by simp
  have big: "2 ^ (32 - 2 * k) \<le> unat w" and eq: "unat w * 2 ^ b = u * 2 ^ 32"
    using assms(1) by (auto simp: scan_inv_def)
  have "2 ^ (32 - k) * 2 ^ k = (2::nat) ^ 32" using assms(3) by (simp flip: power_add)
  then have lt: "unat w * 2 ^ k < 2 ^ 32" using w by (metis mult_less_cancel2 zero_less_numeral zero_less_power)
  then have shift: "unat (push_bit k w) = unat w * 2 ^ k"
    by (subst unsigned_push_bit_eq) (simp add: push_bit_eq_mult take_bit_nat_eq_self)
  have "k \<le> b"
  proof (rule ccontr)
    assume "\<not> k \<le> b"
    then have "(2::nat) ^ b \<le> 2 ^ k" by (intro power_increasing) auto
    then have "unat w * 2 ^ b \<le> unat w * 2 ^ k" by simp
    then show False using lt eq assms(4) by (metis leD le_trans mult_le_mono1 mult_1 Suc_leI One_nat_def)
  qed
  then have "(2::nat) ^ k * 2 ^ (b - k) = 2 ^ b" by (simp flip: power_add)
  then have "unat w * 2 ^ k * 2 ^ (b - k) = u * 2 ^ 32" using eq by (simp add: mult.assoc)
  moreover have "2 ^ (32 - k) = 2 ^ (32 - 2 * k) * (2::nat) ^ k" using assms(3) by (simp flip: power_add)
  then have "2 ^ (32 - k) \<le> unat w * 2 ^ k" using big by (metis mult_le_mono1)
  ultimately have "scan_inv u k (push_bit k w) (b - k)" using assms(3) by (simp add: scan_inv_def shift)
  then show ?thesis using True \<open>k \<le> b\<close> by (intro exI [of _ "push_bit k w"] exI [of _ "b - k"]) (simp add: scan_step_def)
next
  case False
  then have "2 ^ (32 - k) \<le> unat w" using top_bits_clear [of "32 - k" w] assms(3) by simp
  then have "scan_inv u k w b" using assms(1,3) by (simp add: scan_inv_def)
  then show ?thesis using False by (intro exI [of _ w] exI [of _ b]) (simp add: scan_step_def)
qed

lemma generic_as_steps:
  "tlsf_fls_generic w =
    snd (scan_step 1 (scan_step 2 (scan_step 4 (scan_step 8 (scan_step 16 (w, if w = 0 then 31 else 32))))))"
proof -
  have m: "push_bit 16 (mask 16 :: 32 word) = 0xffff0000" "push_bit 24 (mask 8 :: 32 word) = 0xff000000"
    "push_bit 28 (mask 4 :: 32 word) = 0xf0000000" "push_bit 30 (mask 2 :: 32 word) = 0xc0000000"
    "push_bit 31 (mask 1 :: 32 word) = 0x80000000"
    by (simp_all add: mask_eq_exp_minus_1)
  have step: "(if v AND 0xffff0000 = 0 then (push_bit 16 v, b - 16) else (v, b)) = scan_step 16 (v, b)"
    "(if v AND 0xff000000 = 0 then (push_bit 8 v, b - 8) else (v, b)) = scan_step 8 (v, b)"
    "(if v AND 0xf0000000 = 0 then (push_bit 4 v, b - 4) else (v, b)) = scan_step 4 (v, b)"
    "(if v AND 0xc0000000 = 0 then (push_bit 2 v, b - 2) else (v, b)) = scan_step 2 (v, b)"
    "(if v AND 0x80000000 = 0 then (push_bit 1 v, b - 1) else (v, b)) = scan_step 1 (v, b)"
    for v :: "32 word" and b :: int
    unfolding scan_step_def m [symmetric] by simp_all
  have start: "(if w = 0 then 32 - 1 else 32) = (if w = 0 then 31 else (32 :: int))" by simp
  show ?thesis
    unfolding tlsf_fls_generic_def Let_def step start case_prod_unfold prod.collapse ..
qed

lemma tlsf_fls_generic_spec:
  assumes "is_fls (unat w) n"
  shows "tlsf_fls_generic w = int n + 1"
proof -
  have u: "0 < unat w" "unat w < 2 ^ 32" using is_fls_nonzero [OF assms] unsigned_less [of w, where ?'a = nat] by auto
  note step = scan_step_inv [OF _ _ _ u]
  have "scan_inv (unat w) (2 * 16) w 32" using u by (simp add: scan_inv_def)
  then obtain w1 b1 where 1: "scan_step 16 (w, 32) = (w1, int b1)" "scan_inv (unat w) (2 * 8) w1 b1"
    using step [of 16 w 32] by auto
  obtain w2 b2 where 2: "scan_step 8 (w1, int b1) = (w2, int b2)" "scan_inv (unat w) (2 * 4) w2 b2"
    using step [OF 1(2)] by auto
  obtain w3 b3 where 3: "scan_step 4 (w2, int b2) = (w3, int b3)" "scan_inv (unat w) (2 * 2) w3 b3"
    using step [OF 2(2)] by auto
  obtain w4 b4 where 4: "scan_step 2 (w3, int b3) = (w4, int b4)" "scan_inv (unat w) (2 * 1) w4 b4"
    using step [OF 3(2)] by auto
  obtain w5 b where 5: "scan_step 1 (w4, int b4) = (w5, int b)" "scan_inv (unat w) 1 w5 b"
    using step [OF 4(2)] by auto
  have w5: "unat w5 * 2 ^ b = unat w * 2 ^ 32" "2 ^ 31 \<le> unat w5" "unat w5 < 2 ^ 32"
    using 5(2) unsigned_less [of w5, where ?'a = nat] by (auto simp: scan_inv_def)
  have "0 < b"
  proof (rule ccontr)
    assume "\<not> 0 < b"
    then have "unat w5 = unat w * 2 ^ 32" using w5(1) by simp
    then show False using u(1) w5(3) by (cases "unat w") auto
  qed
  then obtain c where c: "b = Suc c" by (cases b) auto
  have "2 ^ 31 * 2 ^ c \<le> unat w5 * 2 ^ c" "unat w5 * 2 ^ c < 2 ^ 32 * 2 ^ c"
    using w5(2,3) by auto
  moreover have "unat w5 * 2 ^ c = unat w * 2 ^ 31" using w5(1) by (simp add: c)
  moreover have "q \<le> x \<and> x < 2 * q" if "2 ^ 31 * q \<le> y" "y < 2 ^ 32 * q" "y = x * 2 ^ 31" for q x y :: nat
    using that by simp
  ultimately have "2 ^ c \<le> unat w" "unat w < 2 * 2 ^ c" by blast+
  then have "is_fls (unat w) (b - 1)" by (simp add: is_fls_def c)
  then have "n = b - 1" using assms is_fls_unique by blast
  then show ?thesis using u(1) \<open>0 < b\<close> 1(1) 2(1) 3(1) 4(1) 5(1) by (auto simp: generic_as_steps)
qed

text \<open>The lowest set bit is what \<open>word & (~word + 1)\<close> isolates.\<close>

lemma odd_and_minus: "odd v \<Longrightarrow> v AND - v = 1" for v :: "32 word"
proof (rule bit_word_eqI)
  fix i assume "odd v" and "i < LENGTH(32)"
  have "v - 1 = 2 * (v div 2)" using \<open>odd v\<close> div_mult_mod_eq [of v 2]
    by (simp add: mod2_eq_if algebra_simps eq_diff_eq)
  then have "bit (v - 1) (Suc j) \<longleftrightarrow> bit v (Suc j)" if "Suc j < 32" for j
    using that by (simp add: bit_double_iff flip: bit_Suc)
  then show "bit (v AND - v) i \<longleftrightarrow> bit (1 :: 32 word) i"
    using \<open>odd v\<close> \<open>i < LENGTH(32)\<close> by (cases i) (simp_all add: bit_simps even_and_iff bit_0)
qed

lemma isolate_lowest_bit:
  fixes w :: "32 word"
  assumes "bit w n" and "\<And>i. i < n \<Longrightarrow> \<not> bit w i"
  shows "w AND (NOT w + 1) = push_bit n 1"
proof -
  define v where "v = drop_bit n w"
  have v: "w = push_bit n v"
  proof (rule bit_word_eqI)
    show "bit w i \<longleftrightarrow> bit (push_bit n v) i" if "i < LENGTH(32)" for i
      using assms(2) [of i] that by (cases "i < n") (auto simp: v_def bit_simps)
  qed
  have "odd v" using assms(1) by (simp add: v_def bit_iff_odd drop_bit_eq_div)
  have "NOT w + 1 = - w" by (simp add: minus_eq_not_plus_1)
  also have "\<dots> = push_bit n (- v)" by (simp add: v push_bit_eq_mult)
  finally have "w AND (NOT w + 1) = push_bit n (v AND - v)" by (simp add: v push_bit_and)
  then show ?thesis using odd_and_minus [OF \<open>odd v\<close>] by simp
qed

lemma ex_lowest_bit:
  fixes w :: "32 word"
  assumes "w \<noteq> 0"
  obtains n where "bit w n" and "\<And>i. i < n \<Longrightarrow> \<not> bit w i" and "n < 32"
proof -
  have ex: "\<exists>n. bit w n" using assms by (metis bit_word_eqI bit_0_eq bot_apply bot_bool_def)
  show ?thesis
  proof (rule that [of "LEAST n. bit w n"])
    show "bit w (LEAST n. bit w n)" using LeastI_ex [OF ex] .
    then show "(LEAST n. bit w n) < 32" using bit_imp_le_length by force
  qed (rule not_less_Least)
qed

lemma tlsf_ffs_portable_spec:
  assumes "bit w n" and "\<And>i. i < n \<Longrightarrow> \<not> bit w i"
  shows "tlsf_ffs_portable w = int n"
proof -
  have "n < 32" using bit_imp_le_length [OF assms(1)] by simp
  then have "(2::nat) ^ n < 2 ^ 32" by (intro power_strict_increasing) auto
  then have "unat (push_bit n 1 :: 32 word) = 2 ^ n"
    using \<open>n < 32\<close> by (subst unsigned_push_bit_eq) (simp add: push_bit_eq_mult take_bit_nat_eq_self)
  then have "is_fls (unat (push_bit n 1 :: 32 word)) n" by (simp add: is_fls_def)
  then show ?thesis
    by (simp add: tlsf_ffs_portable_def isolate_lowest_bit [OF assms] tlsf_fls_generic_spec)
qed

lemma bit_scans_zero [simp]:
  "tlsf_fls 0 = -1" "tlsf_ffs 0 = -1" "tlsf_fls_portable 0 = -1" "tlsf_ffs_portable 0 = -1"
  by (simp_all add: tlsf_fls_def tlsf_ffs_def builtin_ffs_def tlsf_fls_portable_def tlsf_ffs_portable_def
      tlsf_fls_generic_def)

text \<open>
  C31. The portable bit scans, which use shifts and masks only, agree with those built on the compiler's
  intrinsics on every word: both return -1 for zero, \<open>tlsf_fls\<close> is the integer part of the binary
  logarithm and \<open>tlsf_ffs\<close> the number of zeros below the lowest set bit.
\<close>

theorem bit_scans_agree:
  "tlsf_fls_portable w = tlsf_fls w \<and> tlsf_ffs_portable w = tlsf_ffs w \<and>
   (if w = 0 then tlsf_fls w = -1 \<and> tlsf_ffs w = -1
    else 0 \<le> tlsf_fls w \<and> 2 ^ nat (tlsf_fls w) \<le> unat w \<and> unat w < 2 ^ Suc (nat (tlsf_fls w)) \<and>
      0 \<le> tlsf_ffs w \<and> bit w (nat (tlsf_ffs w)) \<and> take_bit (nat (tlsf_ffs w)) w = 0)"
proof (cases "w = 0")
  case False
  then have "0 < unat w" by (simp add: unat_gt_0)
  then obtain n where n: "is_fls (unat w) n" using ex_fls by blast
  obtain m where m: "bit w m" "\<And>i. i < m \<Longrightarrow> \<not> bit w i" using ex_lowest_bit [OF False] by metis
  have "take_bit m w = 0" using m(2) by (intro bit_word_eqI) (auto simp: bit_simps)
  then show ?thesis
    using False n m(1) tlsf_fls_spec [OF n] tlsf_fls_generic_spec [OF n] tlsf_ffs_spec [OF m] tlsf_ffs_portable_spec [OF m]
    by (simp add: tlsf_fls_portable_def is_fls_def)
qed simp

section \<open>Size classes\<close>

lemma tlsf_fls_sizet_spec:
  assumes "is_fls s n" and "s < 2 ^ 64"
  shows "tlsf_fls_sizet s = int n"
proof (cases "s < 2 ^ 32")
  case True
  then have "unat (word_of_nat s :: 32 word) = s" by (simp add: unsigned_of_nat take_bit_nat_eq_self)
  moreover have "(0xffffffff :: 32 word) = - 1" by simp
  then have "(w :: 32 word) AND 0xffffffff = w" for w by (simp only: and.right_neutral)
  ultimately show ?thesis
    using True tlsf_fls_spec [of "word_of_nat s" n] assms(1) by (simp add: tlsf_fls_sizet_def drop_bit_eq_div)
next
  case False
  define h where "h = s div 2 ^ 32"
  have h: "h < 2 ^ 32" "0 < h" using assms(2) False by (auto simp: h_def less_mult_imp_div_less div_greater_zero_iff)
  then have u: "unat (word_of_nat h :: 32 word) = h" by (simp add: unsigned_of_nat take_bit_nat_eq_self)
  obtain k where k: "is_fls h k" using ex_fls [OF h(2)] by blast
  have "2 ^ k * 2 ^ 32 \<le> s" using k unfolding is_fls_def h_def by (metis div_times_less_eq_dividend le_trans mult_le_mono1)
  moreover have "s < 2 ^ Suc k * 2 ^ 32" using k unfolding is_fls_def h_def by (simp add: div_less_iff_less_mult)
  ultimately have "is_fls s (k + 32)" by (simp add: is_fls_def power_add)
  then have "n = k + 32" using assms(1) is_fls_unique by blast
  moreover have "drop_bit 32 s = h" by (simp add: drop_bit_eq_div h_def)
  moreover have "(word_of_nat h :: 32 word) \<noteq> 0" using h(2) u by (metis less_numeral_extra(3) unsigned_0)
  ultimately show ?thesis
    using u tlsf_fls_spec [of "word_of_nat h" k] k by (simp add: tlsf_fls_sizet_def)
qed

lemma xor_32: "32 \<le> m \<Longrightarrow> m < 64 \<Longrightarrow> int m XOR 32 = int m - 32"
proof -
  assume m: "32 \<le> m" "m < 64"
  define x where "x = int m - 32"
  have x: "0 \<le> x" "x < 32" using m by (auto simp: x_def)
  have "x AND 32 = 0"
  proof (rule bit_eqI)
    fix n
    have "take_bit 5 x = x" using x by (simp add: take_bit_int_eq_self)
    moreover have "bit (32::int) n \<longleftrightarrow> n = 5"
      using bit_exp_iff [where ?'a = int, of 5 n] by auto
    ultimately show "bit (x AND 32) n = bit 0 n" by (metis bit_0_eq bit_and_iff bit_take_bit_iff bot_apply bot_bool_def less_irrefl)
  qed
  then have "x + 32 = x OR 32" "x XOR 32 = x OR 32" by (simp_all add: disjunctive_add_eq_or disjunctive_xor_eq_or)
  then have "int m = x XOR 32" by (simp add: x_def)
  then have "int m XOR 32 = x XOR (32 XOR 32)" by (simp only: xor.assoc)
  then show ?thesis by (simp add: x_def)
qed

text \<open>Below 256 the classes are multiples of 8, above they divide the interval between two powers of two into 32.\<close>

lemma mapping_insert_small: "s < 256 \<Longrightarrow> mapping_insert s = (0, int (s div 8))"
  by (simp add: mapping_insert_def zdiv_int)

lemma mapping_insert_large:
  assumes "is_fls s n" and "8 \<le> n" and "s < 2 ^ 64"
  shows "mapping_insert s = (int n - 7, int (s div 2 ^ (n - 5)) - 32)"
proof -
  have pow: "(2::nat) ^ n = 32 * 2 ^ (n - 5)" using assms(2) power_add [of "2::nat" 5 "n - 5"] by simp
  have s: "2 ^ n \<le> s" "s < 2 * 2 ^ n" using assms(1) by (auto simp: is_fls_def)
  have "(2::nat) ^ 8 \<le> 2 ^ n" using assms(2) by (intro power_increasing) auto
  then have "\<not> s < 256" using s by simp
  moreover have "32 \<le> s div 2 ^ (n - 5)" "s div 2 ^ (n - 5) < 64"
    using s by (auto simp: pow less_eq_div_iff_mult_less_eq div_less_iff_less_mult)
  moreover have "nat (int n - 5) = n - 5" by simp
  ultimately show ?thesis
    using xor_32 [of "s div 2 ^ (n - 5)"] tlsf_fls_sizet_spec [OF assms(1,3)]
    by (simp add: mapping_insert_def drop_bit_eq_div push_bit_eq_mult)
qed

text \<open>
  The classes in the order of the search: \<open>class_le\<close> is the lexicographic order of the index pairs.
\<close>

definition class_le :: "int \<times> int \<Rightarrow> int \<times> int \<Rightarrow> bool" where
  "class_le c d \<longleftrightarrow> fst c < fst d \<or> fst c = fst d \<and> snd c \<le> snd d"

lemma class_le_trans: "class_le a b \<Longrightarrow> class_le b c \<Longrightarrow> class_le a c"
  by (auto simp: class_le_def)

lemma class_le_antisym: "class_le a b \<Longrightarrow> class_le b a \<Longrightarrow> a = b"
  by (cases a; cases b) (auto simp: class_le_def)

lemma class_le_total: "class_le a b \<or> class_le b a"
  by (auto simp: class_le_def)

lemma large_size:
  assumes "\<not> s < 256" and "s < 2 ^ 64"
  obtains n where "is_fls s n" "8 \<le> n" "mapping_insert s = (int n - 7, int (s div 2 ^ (n - 5)) - 32)"
    "32 \<le> s div 2 ^ (n - 5)" "s div 2 ^ (n - 5) < 64"
proof -
  obtain n where n: "is_fls s n" using ex_fls [of s] assms(1) by auto
  have "8 \<le> n"
  proof (rule ccontr)
    assume "\<not> 8 \<le> n"
    then have "(2::nat) ^ Suc n \<le> 2 ^ 8" by (intro power_increasing) auto
    then show False using n assms(1) by (auto simp: is_fls_def)
  qed
  moreover from this have "(2::nat) ^ n = 32 * 2 ^ (n - 5)" using power_add [of "2::nat" 5 "n - 5"] by simp
  then have "32 \<le> s div 2 ^ (n - 5)" "s div 2 ^ (n - 5) < 64"
    using n by (auto simp: is_fls_def less_eq_div_iff_mult_less_eq div_less_iff_less_mult)
  ultimately show thesis using that n mapping_insert_large [OF n _ assms(2)] by blast
qed

lemma is_fls_mono: "is_fls s m \<Longrightarrow> is_fls t n \<Longrightarrow> s \<le> t \<Longrightarrow> m \<le> n"
proof -
  assume "is_fls s m" "is_fls t n" "s \<le> t"
  then have "(2::nat) ^ m < 2 ^ Suc n" unfolding is_fls_def by linarith
  then show "m \<le> n" by (simp only: power_strict_increasing_iff one_less_numeral_iff semiring_norm less_Suc_eq_le)
qed

lemma mapping_insert_mono:
  assumes "s \<le> t" and "t < 2 ^ 64"
  shows "class_le (mapping_insert s) (mapping_insert t)"
proof (cases "t < 256")
  case True
  then show ?thesis using assms(1) by (simp add: mapping_insert_small class_le_def div_le_mono)
next
  case False
  then obtain n where n: "is_fls t n" "8 \<le> n" "mapping_insert t = (int n - 7, int (t div 2 ^ (n - 5)) - 32)"
    using large_size [OF _ assms(2)] by metis
  show ?thesis
  proof (cases "s < 256")
    case True
    then show ?thesis using n by (simp add: mapping_insert_small class_le_def)
  next
    case large: False
    then obtain m where m: "is_fls s m" "mapping_insert s = (int m - 7, int (s div 2 ^ (m - 5)) - 32)"
      using large_size [of s] assms by (metis le_less_trans)
    have "m \<le> n" using is_fls_mono [OF m(1) n(1) assms(1)] .
    then show ?thesis using n(3) m(2) assms(1) by (cases "m = n") (simp_all add: class_le_def div_le_mono)
  qed
qed

lemma mapping_insert_bounds:
  assumes "s < 2 ^ 32" and "mapping_insert s = (fl, sl)"
  shows "0 \<le> fl" "fl < 25" "0 \<le> sl" "sl < 32"
proof -
  have "0 \<le> fl \<and> fl < 25 \<and> 0 \<le> sl \<and> sl < 32"
  proof (cases "s < 256")
    case True
    then have "s div 8 < 32" by (simp add: div_less_iff_less_mult)
    then show ?thesis using assms(2) mapping_insert_small [OF True] by auto
  next
    case False
    have "s < 2 ^ 64" using assms(1) by simp
    then obtain n where n: "is_fls s n" "8 \<le> n" "mapping_insert s = (int n - 7, int (s div 2 ^ (n - 5)) - 32)"
      "32 \<le> s div 2 ^ (n - 5)" "s div 2 ^ (n - 5) < 64"
      using large_size [OF False] by metis
    have "n < 32"
    proof (rule ccontr)
      assume "\<not> n < 32"
      then have "(2::nat) ^ 32 \<le> 2 ^ n" by (intro power_increasing) auto
      then show False using n(1) assms(1) by (simp add: is_fls_def)
    qed
    then show ?thesis using n assms(2) by auto
  qed
  then show "0 \<le> fl" "fl < 25" "0 \<le> sl" "sl < 32" by auto
qed

lemma class_lower_bound:
  assumes "is_fls u n" and "8 \<le> n" and "u < 2 ^ 64" and "t < 2 ^ 64"
    and "class_le (mapping_insert u) (mapping_insert t)"
  shows "u div 2 ^ (n - 5) * 2 ^ (n - 5) \<le> t"
proof (rule ccontr)
  assume less: "\<not> ?thesis"
  have "u div 2 ^ (n - 5) * 2 ^ (n - 5) \<le> u" by (rule div_times_less_eq_dividend)
  then have "t \<le> u" using less by linarith
  then have "class_le (mapping_insert t) (mapping_insert u)" using assms(3) by (rule mapping_insert_mono)
  then have eq: "mapping_insert t = (int n - 7, int (u div 2 ^ (n - 5)) - 32)"
    using class_le_antisym assms(5) mapping_insert_large [OF assms(1-3)] by metis
  then have "\<not> t < 256" using mapping_insert_small [of t] assms(2) by auto
  then obtain m where "mapping_insert t = (int m - 7, int (t div 2 ^ (m - 5)) - 32)"
    using large_size [OF _ assms(4)] by metis
  then have "n = m" "u div 2 ^ (n - 5) = t div 2 ^ (m - 5)" using eq by auto
  then have "u div 2 ^ (n - 5) * 2 ^ (n - 5) = t div 2 ^ (n - 5) * 2 ^ (n - 5)" by simp
  then show False using less by simp
qed

text \<open>The size that \<open>mapping_search\<close> rounds a request up to.\<close>

definition search_size :: "nat \<Rightarrow> nat" where
  "search_size s = (if s < 256 then s else s + (2 ^ nat (tlsf_fls_sizet s - 5) - 1))"

lemma search_size_large:
  assumes "\<not> s < 256" and "s < 2 ^ 32"
  obtains n where "is_fls s n" "8 \<le> n" "n < 32" "search_size s = s + (2 ^ (n - 5) - 1)"
    "mapping_search s = Inr (mapping_insert (search_size s))"
proof -
  have s: "s < 2 ^ 64" using assms(2) by simp
  obtain n where n: "is_fls s n" "8 \<le> n" using large_size [OF assms(1) s] by metis
  have "n < 32"
  proof (rule ccontr)
    assume "\<not> n < 32"
    then have "(2::nat) ^ 32 \<le> 2 ^ n" by (intro power_increasing) auto
    then show False using n(1) assms(2) by (simp add: is_fls_def)
  qed
  moreover have "nat (int n - 5) = n - 5" by simp
  moreover have "(2::nat) ^ (n - 5) \<le> 2 ^ 27" using \<open>n < 32\<close> by (intro power_increasing) auto
  ultimately show thesis
    using that [of n] n assms tlsf_fls_sizet_spec [OF n(1) s]
    by (simp add: search_size_def mapping_search_def)
qed

lemma search_size_bounds:
  assumes "s < 2 ^ 32"
  shows "s \<le> search_size s" "32 * search_size s \<le> 33 * s" "search_size s < 2 ^ 33"
    and "mapping_search s = Inr (mapping_insert (search_size s))"
proof -
  have "s \<le> search_size s \<and> 32 * search_size s \<le> 33 * s \<and> search_size s < 2 ^ 33 \<and>
    mapping_search s = Inr (mapping_insert (search_size s))"
  proof (cases "s < 256")
    case True
    then show ?thesis by (simp add: search_size_def mapping_search_def)
  next
    case False
    obtain n where n: "is_fls s n" "8 \<le> n" "search_size s = s + (2 ^ (n - 5) - 1)"
      "mapping_search s = Inr (mapping_insert (search_size s))"
      using search_size_large [OF False assms] by metis
    define k where "k = (2::nat) ^ (n - 5)"
    have "32 * k = (2::nat) ^ n" "0 < k" using n(2) power_add [of "2::nat" 5 "n - 5"] by (auto simp: k_def)
    then have "32 * k \<le> s" "0 < k" using n(1) by (simp_all add: is_fls_def)
    then have "32 * (s + (k - 1)) \<le> 33 * s" by (simp add: diff_mult_distrib2)
    then show ?thesis using n(3,4) assms unfolding k_def [symmetric] by simp
  qed
  then show "s \<le> search_size s" "32 * search_size s \<le> 33 * s" "search_size s < 2 ^ 33"
    "mapping_search s = Inr (mapping_insert (search_size s))" by auto
qed

lemma search_class_fits:
  assumes "8 dvd s" and "s < 2 ^ 32" and "t < 2 ^ 64"
    and "class_le (mapping_insert (search_size s)) (mapping_insert t)"
  shows "s \<le> t"
proof (cases "s < 256")
  case True
  then have "class_le (0, int (s div 8)) (mapping_insert t)"
    using assms(4) by (simp add: search_size_def mapping_insert_small)
  then have "t < 256 \<Longrightarrow> s div 8 \<le> t div 8" by (simp add: mapping_insert_small class_le_def)
  then have "t < 256 \<Longrightarrow> s div 8 * 8 \<le> t" using div_times_less_eq_dividend [of t 8] by linarith
  then show ?thesis using True assms(1) by (cases "t < 256") auto
next
  case False
  obtain n where n: "is_fls s n" "8 \<le> n" "n < 32" "search_size s = s + (2 ^ (n - 5) - 1)"
    using search_size_large [OF False assms(2)] by metis
  define u k where "u = search_size s" and "k = (2::nat) ^ (n - 5)"
  have k: "0 < k" "u = s + (k - 1)" and p: "32 * k = 2 ^ n"
    using n(2,4) power_add [of "2::nat" 5 "n - 5"] by (auto simp: u_def k_def)
  have u64: "u < 2 ^ 64" using search_size_bounds(3) [OF assms(2)] by (simp add: u_def)
  show ?thesis
  proof (cases "u < 2 ^ Suc n")
    case True
    then have "is_fls u n" using n(1) k by (auto simp: is_fls_def)
    then have "u div k * k \<le> t" using class_lower_bound [of u n t] n(2) u64 assms(3,4) by (simp add: u_def k_def)
    moreover have "s \<le> u div k * k"
    proof -
      have "u + 1 = s + k" "u mod k < k" using k by auto
      moreover have "u = u div k * k + u mod k" by simp
      ultimately show ?thesis by linarith
    qed
    ultimately show ?thesis by simp
  next
    case over: False
    then have "is_fls u (Suc n)" using n(1) k p by (auto simp: is_fls_def)
    then have "u div 2 ^ (Suc n - 5) * 2 ^ (Suc n - 5) \<le> t"
      using class_lower_bound [of u "Suc n" t] n(2) u64 assms(3,4) by (simp add: u_def)
    moreover have q: "32 * 2 ^ (Suc n - 5) = (2::nat) ^ Suc n" using n(2) power_add [of "2::nat" 5 "Suc n - 5"] by simp
    then have "32 \<le> u div 2 ^ (Suc n - 5)" using over by (simp add: less_eq_div_iff_mult_less_eq)
    then have "32 * 2 ^ (Suc n - 5) \<le> u div 2 ^ (Suc n - 5) * 2 ^ (Suc n - 5)" by (rule mult_le_mono1)
    ultimately have "2 ^ Suc n \<le> t" unfolding q [symmetric] by (rule order_trans [rotated])
    then show ?thesis using n(1) by (simp add: is_fls_def)
  qed
qed

text \<open>
  C32. The mapping of sizes to classes. A block size below the limit has its class inside the arrays;
  classes grow with sizes; every block in the class that \<open>mapping_search\<close> computes for an aligned
  request, or in a later class, is large enough; and every block that exceeds the request by one part
  in 32 is in such a class.
\<close>

theorem size_classes:
  assumes "8 dvd s" and "s < 2 ^ 32" and "t < 2 ^ 32"
  shows "\<exists>fl sl c. mapping_insert t = (fl, sl) \<and> fl \<in> {0..<int FL_INDEX_COUNT} \<and> sl \<in> {0..<int SL_INDEX_COUNT} \<and>
    mapping_search s = Inr c \<and>
    (if s \<le> t then class_le (mapping_insert s) (fl, sl) else \<not> class_le c (fl, sl)) \<and>
    (if 33 * s \<le> 32 * t then class_le c (fl, sl) else True)"
proof -
  obtain fl sl where c: "mapping_insert t = (fl, sl)" by (cases "mapping_insert t")
  note b = mapping_insert_bounds [OF assms(3) c]
  have "class_le (mapping_insert (search_size s)) (fl, sl)" if "33 * s \<le> 32 * t"
    using mapping_insert_mono [of "search_size s" t] search_size_bounds(2) [OF assms(2)] that assms(3) c by simp
  moreover have "\<not> class_le (mapping_insert (search_size s)) (fl, sl)" if "\<not> s \<le> t"
    using search_class_fits [OF assms(1,2), of t] that assms(3) c by auto
  moreover have "class_le (mapping_insert s) (fl, sl)" if "s \<le> t"
    using mapping_insert_mono [OF that] assms(3) c by simp
  ultimately show ?thesis
    using b c search_size_bounds(4) [OF assms(2)] by auto
qed

theorem size_classes_witness:
  "\<exists>fl sl c. mapping_insert 1040 = (fl, sl) \<and> fl \<in> {0..<int FL_INDEX_COUNT} \<and> sl \<in> {0..<int SL_INDEX_COUNT} \<and>
    mapping_search 1000 = Inr c \<and> class_le (mapping_insert 1000) (fl, sl) \<and> class_le c (fl, sl)"
  using size_classes [of 1000 1040] by simp

section \<open>Alignment of sizes\<close>

lemma and_size_not:
  assumes "k \<le> 64" and "x < 2 ^ 64"
  shows "x AND size_not (2 ^ k - 1) = x div 2 ^ k * 2 ^ k"
proof (rule bit_eqI)
  fix i
  have "size_not (2 ^ k - 1) = push_bit k (mask (64 - k))"
    using assms(1) by (simp add: size_not_def mask_eq_exp_minus_1 push_bit_eq_mult diff_mult_distrib flip: power_add)
  moreover have "\<not> bit x i" if "64 \<le> i"
  proof -
    have "(2::nat) ^ 64 \<le> 2 ^ i" using that by (intro power_increasing) auto
    then show ?thesis using assms(2) by (simp add: bit_iff_odd)
  qed
  ultimately have "bit (x AND size_not (2 ^ k - 1)) i \<longleftrightarrow> bit (push_bit k (drop_bit k x)) i"
    by (cases "64 \<le> i") (auto simp: bit_simps)
  then show "bit (x AND size_not (2 ^ k - 1)) i \<longleftrightarrow> bit (x div 2 ^ k * 2 ^ k) i"
    by (simp add: push_bit_eq_mult drop_bit_eq_div)
qed

lemma pow2_and_pred: "(2 ^ k :: nat) AND (2 ^ k - 1) = 0"
proof -
  have "(2 ^ k :: nat) AND mask k = 0" by (simp flip: take_bit_eq_mask add: take_bit_eq_mod)
  then show ?thesis by (simp add: mask_eq_exp_minus_1)
qed

lemma size_sub_pow2: "k < 64 \<Longrightarrow> size_sub (2 ^ k) 1 = 2 ^ k - 1"
proof -
  assume k: "k < 64"
  have "(2::nat) ^ k < 2 ^ 64" using k by (intro power_strict_increasing) auto
  then show ?thesis by (simp add: Suc_leI)
qed

lemma align_up_pow2:
  assumes "k < 64" and "x + (2 ^ k - 1) < 2 ^ 64"
  shows "align_up x (2 ^ k) = Inr ((x + (2 ^ k - 1)) div 2 ^ k * 2 ^ k)"
  unfolding align_up_def size_sub_pow2 [OF assms(1)] pow2_and_pred size_t_id [OF assms(2)]
  using and_size_not [of k, OF _ assms(2)] assms(1) by simp

lemma align_ptr_pow2:
  assumes "k < 64" and "x + (2 ^ k - 1) < 2 ^ 64"
  shows "align_ptr x (2 ^ k) = Inr ((x + (2 ^ k - 1)) div 2 ^ k * 2 ^ k)"
  using align_up_pow2 [OF assms] by (simp add: align_ptr_def align_up_def)

lemma align_down_pow2:
  assumes "k < 64" and "x < 2 ^ 64"
  shows "align_down x (2 ^ k) = Inr (x div 2 ^ k * 2 ^ k)"
proof -
  have "x AND mask k = x mod 2 ^ k" by (simp flip: take_bit_eq_mask add: take_bit_eq_mod)
  then have a: "x AND (2 ^ k - 1) = x mod 2 ^ k" by (simp add: mask_eq_exp_minus_1)
  have "size_sub x (x mod 2 ^ k) = x - x mod 2 ^ k" using assms(2) by simp
  then have "size_sub x (x mod 2 ^ k) = x div 2 ^ k * 2 ^ k" by (simp only: minus_mod_eq_div_mult)
  then show ?thesis
    unfolding align_down_def size_sub_pow2 [OF assms(1)] pow2_and_pred a by simp
qed

end
