(* ===== verification/Tlsf.thy ===== *)
theory Tlsf
  imports Tlsf_Bits
begin

text \<open>
  The operations of the two-level segregated fit allocator (\<open>detail/impl/tlsf.ipp\<close>) on a memory of
  8-byte cells. A block header has four members: \<open>prev_phys_block\<close> at offset 0, \<open>size\<close> with two flag
  bits at 8, \<open>next_free\<close> at 16 and \<open>prev_free\<close> at 24; the client's data starts at 16, and the first
  member of a header is the last cell of the data of the block before it. All of this, the data of the
  client included, lives in the one memory \<open>heap\<close>. Addresses and sizes are \<open>size_t\<close> values. The
  bitmaps and the heads of the free lists are members of the control structure whose address is
  \<open>control\<close>; its first member \<open>block_null\<close> is a block header in the heap at that address.
\<close>

section \<open>State\<close>

record tlsf =
  heap :: "nat \<Rightarrow> nat"
  control :: nat
  fl_bitmap :: "32 word"
  sl_bitmap :: "nat \<Rightarrow> 32 word"
  blocks :: "nat \<Rightarrow> nat \<Rightarrow> nat"

definition poke :: "nat \<Rightarrow> nat \<Rightarrow> tlsf \<Rightarrow> tlsf" where
  "poke a v t = t\<lparr>heap := (heap t)(a := v)\<rparr>"

text \<open>An access outside of the arrays of the control structure is undefined.\<close>

definition in_arrays :: "int \<Rightarrow> int \<Rightarrow> bool" where
  "in_arrays fl sl \<longleftrightarrow> 0 \<le> fl \<and> fl < int FL_INDEX_COUNT \<and> 0 \<le> sl \<and> sl < int SL_INDEX_COUNT"

definition check_index :: "int \<Rightarrow> int \<Rightarrow> unit res" where
  "check_index fl sl = (if in_arrays fl sl then Inr () else Inl Undefined_behaviour)"

section \<open>Block headers\<close>

definition block_size :: "nat \<Rightarrow> tlsf \<Rightarrow> nat" where
  "block_size block t = heap t (block + 8) AND size_not (block_header_free_bit OR block_header_prev_free_bit)"

definition block_set_size :: "nat \<Rightarrow> nat \<Rightarrow> tlsf \<Rightarrow> tlsf" where
  "block_set_size block sz t =
     (let oldsize = heap t (block + 8)
      in poke (block + 8) (sz OR (oldsize AND (block_header_free_bit OR block_header_prev_free_bit))) t)"

definition block_is_last :: "nat \<Rightarrow> tlsf \<Rightarrow> bool" where
  "block_is_last block t \<longleftrightarrow> block_size block t = 0"

definition block_is_free :: "nat \<Rightarrow> tlsf \<Rightarrow> bool" where
  "block_is_free block t \<longleftrightarrow> heap t (block + 8) AND block_header_free_bit \<noteq> 0"

definition block_set_free :: "nat \<Rightarrow> tlsf \<Rightarrow> tlsf" where
  "block_set_free block t = poke (block + 8) (heap t (block + 8) OR block_header_free_bit) t"

definition block_set_used :: "nat \<Rightarrow> tlsf \<Rightarrow> tlsf" where
  "block_set_used block t = poke (block + 8) (heap t (block + 8) AND size_not block_header_free_bit) t"

definition block_is_prev_free :: "nat \<Rightarrow> tlsf \<Rightarrow> bool" where
  "block_is_prev_free block t \<longleftrightarrow> heap t (block + 8) AND block_header_prev_free_bit \<noteq> 0"

definition block_set_prev_free :: "nat \<Rightarrow> tlsf \<Rightarrow> tlsf" where
  "block_set_prev_free block t = poke (block + 8) (heap t (block + 8) OR block_header_prev_free_bit) t"

definition block_set_prev_used :: "nat \<Rightarrow> tlsf \<Rightarrow> tlsf" where
  "block_set_prev_used block t = poke (block + 8) (heap t (block + 8) AND size_not block_header_prev_free_bit) t"

definition block_from_ptr :: "nat \<Rightarrow> nat" where
  "block_from_ptr ptr = size_sub ptr block_start_offset"

definition block_to_ptr :: "nat \<Rightarrow> nat" where
  "block_to_ptr block = size_t (block + block_start_offset)"

definition offset_to_block :: "nat \<Rightarrow> nat \<Rightarrow> nat" where
  "offset_to_block ptr sz = size_t (ptr + sz)"

definition block_prev :: "nat \<Rightarrow> tlsf \<Rightarrow> nat res" where
  "block_prev block t = res_bind (gpcl_assert (block_is_prev_free block t)) (\<lambda>_. Inr (heap t block))"

definition block_next :: "nat \<Rightarrow> tlsf \<Rightarrow> nat res" where
  "block_next block t =
     (let nx = offset_to_block (block_to_ptr block) (size_sub (block_size block t) block_header_overhead)
      in res_bind (gpcl_assert (\<not> block_is_last block t)) (\<lambda>_. Inr nx))"

definition block_link_next :: "nat \<Rightarrow> tlsf \<Rightarrow> (nat \<times> tlsf) res" where
  "block_link_next block t = res_bind (block_next block t) (\<lambda>nx. Inr (nx, poke nx block t))"

definition block_mark_as_free :: "nat \<Rightarrow> tlsf \<Rightarrow> tlsf res" where
  "block_mark_as_free block t = res_bind (block_link_next block t) (\<lambda>(nx, t).
     Inr (block_set_free block (block_set_prev_free nx t)))"

definition block_mark_as_used :: "nat \<Rightarrow> tlsf \<Rightarrow> tlsf res" where
  "block_mark_as_used block t = res_bind (block_next block t) (\<lambda>nx.
     Inr (block_set_used block (block_set_prev_used nx t)))"

section \<open>Free lists\<close>

text \<open>
  \<open>search_suitable_block\<close> returns the block and the indices it has stored through its pointer
  arguments; null is 0.
\<close>

definition search_suitable_block :: "int \<Rightarrow> int \<Rightarrow> tlsf \<Rightarrow> (nat \<times> int \<times> int) res" where
  "search_suitable_block fl sl t = res_bind (check_index fl sl) (\<lambda>_.
     let sl_map = sl_bitmap t (nat fl) AND push_bit (nat sl) (NOT 0)
     in if sl_map = 0
        then let fl_map = fl_bitmap t AND push_bit (nat (fl + 1)) (NOT 0)
             in if fl_map = 0 then Inr (0, fl, sl)
                else let fl = tlsf_ffs fl_map
                     in res_bind (check_index fl 0) (\<lambda>_.
                        let sl_map = sl_bitmap t (nat fl)
                        in res_bind (gpcl_assert (sl_map \<noteq> 0)) (\<lambda>_.
                           let sl = tlsf_ffs sl_map
                           in res_bind (check_index fl sl) (\<lambda>_. Inr (blocks t (nat fl) (nat sl), fl, sl))))
        else let sl = tlsf_ffs sl_map
             in res_bind (check_index fl sl) (\<lambda>_. Inr (blocks t (nat fl) (nat sl), fl, sl)))"

definition set_head :: "int \<Rightarrow> int \<Rightarrow> nat \<Rightarrow> tlsf \<Rightarrow> tlsf" where
  "set_head fl sl block t = t\<lparr>blocks := (blocks t)(nat fl := (blocks t (nat fl))(nat sl := block))\<rparr>"

definition set_sl_bitmap :: "int \<Rightarrow> 32 word \<Rightarrow> tlsf \<Rightarrow> tlsf" where
  "set_sl_bitmap fl w t = t\<lparr>sl_bitmap := (sl_bitmap t)(nat fl := w)\<rparr>"

definition remove_free_block :: "nat \<Rightarrow> int \<Rightarrow> int \<Rightarrow> tlsf \<Rightarrow> tlsf res" where
  "remove_free_block block fl sl t =
     (let prev = heap t (block + 24);
          nx = heap t (block + 16)
      in res_bind (gpcl_assert (prev \<noteq> 0)) (\<lambda>_.
         res_bind (gpcl_assert (nx \<noteq> 0)) (\<lambda>_.
         let t = poke (prev + 16) nx (poke (nx + 24) prev t)
         in res_bind (check_index fl sl) (\<lambda>_.
            if blocks t (nat fl) (nat sl) = block
            then let t = set_head fl sl nx t
                 in if nx = control t
                    then let t = set_sl_bitmap fl (sl_bitmap t (nat fl) AND NOT (push_bit (nat sl) 1)) t
                         in if sl_bitmap t (nat fl) = 0
                            then Inr (t\<lparr>fl_bitmap := fl_bitmap t AND NOT (push_bit (nat fl) 1)\<rparr>)
                            else Inr t
                    else Inr t
            else Inr t))))"

definition insert_free_block :: "nat \<Rightarrow> int \<Rightarrow> int \<Rightarrow> tlsf \<Rightarrow> tlsf res" where
  "insert_free_block block fl sl t = res_bind (check_index fl sl) (\<lambda>_.
     let current = blocks t (nat fl) (nat sl)
     in res_bind (gpcl_assert (current \<noteq> 0)) (\<lambda>_.
        res_bind (gpcl_assert (block \<noteq> 0)) (\<lambda>_.
        let t = poke (current + 24) block (poke (block + 24) (control t) (poke (block + 16) current t))
        in res_bind (align_ptr (block_to_ptr block) ALIGN_SIZE) (\<lambda>a.
           res_bind (gpcl_assert (block_to_ptr block = a)) (\<lambda>_.
           let t = set_head fl sl block t;
               t = t\<lparr>fl_bitmap := fl_bitmap t OR push_bit (nat fl) 1\<rparr>
           in Inr (set_sl_bitmap fl (sl_bitmap t (nat fl) OR push_bit (nat sl) 1) t))))))"

definition block_remove :: "nat \<Rightarrow> tlsf \<Rightarrow> tlsf res" where
  "block_remove block t = (case mapping_insert (block_size block t) of (fl, sl) \<Rightarrow> remove_free_block block fl sl t)"

definition block_insert :: "nat \<Rightarrow> tlsf \<Rightarrow> tlsf res" where
  "block_insert block t = (case mapping_insert (block_size block t) of (fl, sl) \<Rightarrow> insert_free_block block fl sl t)"

section \<open>Splitting and merging\<close>

definition block_can_split :: "nat \<Rightarrow> nat \<Rightarrow> tlsf \<Rightarrow> bool" where
  "block_can_split block sz t \<longleftrightarrow> block_size block t \<ge> size_t (32 + sz)"

definition block_split :: "nat \<Rightarrow> nat \<Rightarrow> tlsf \<Rightarrow> (nat \<times> tlsf) res" where
  "block_split block sz t =
     (let remaining = offset_to_block (block_to_ptr block) (size_sub sz block_header_overhead);
          remain_size = size_sub (block_size block t) (size_t (sz + block_header_overhead))
      in res_bind (align_ptr (block_to_ptr remaining) ALIGN_SIZE) (\<lambda>a.
         res_bind (gpcl_assert (block_to_ptr remaining = a)) (\<lambda>_.
         res_bind (gpcl_assert (block_size block t = size_t (remain_size + sz + block_header_overhead))) (\<lambda>_.
         let t = block_set_size remaining remain_size t
         in res_bind (gpcl_assert (block_size remaining t \<ge> block_size_min)) (\<lambda>_.
         let t = block_set_size block sz t
         in res_bind (block_mark_as_free remaining t) (\<lambda>t. Inr (remaining, t)))))))"

definition block_absorb :: "nat \<Rightarrow> nat \<Rightarrow> tlsf \<Rightarrow> (nat \<times> tlsf) res" where
  "block_absorb prev block t = res_bind (gpcl_assert (\<not> block_is_last prev t)) (\<lambda>_.
     let t = poke (prev + 8) (size_t (heap t (prev + 8) + (block_size block t + block_header_overhead))) t
     in res_bind (block_link_next prev t) (\<lambda>(_, t). Inr (prev, t)))"

definition block_merge_prev :: "nat \<Rightarrow> tlsf \<Rightarrow> (nat \<times> tlsf) res" where
  "block_merge_prev block t =
     (if block_is_prev_free block t
      then res_bind (block_prev block t) (\<lambda>prev.
           res_bind (gpcl_assert (prev \<noteq> 0)) (\<lambda>_.
           res_bind (gpcl_assert (block_is_free prev t)) (\<lambda>_.
           res_bind (block_remove prev t) (\<lambda>t. block_absorb prev block t))))
      else Inr (block, t))"

definition block_merge_next :: "nat \<Rightarrow> tlsf \<Rightarrow> (nat \<times> tlsf) res" where
  "block_merge_next block t = res_bind (block_next block t) (\<lambda>nx.
     res_bind (gpcl_assert (nx \<noteq> 0)) (\<lambda>_.
       if block_is_free nx t
       then res_bind (gpcl_assert (\<not> block_is_last block t)) (\<lambda>_.
            res_bind (block_remove nx t) (\<lambda>t. block_absorb block nx t))
       else Inr (block, t)))"

definition block_trim_free :: "nat \<Rightarrow> nat \<Rightarrow> tlsf \<Rightarrow> tlsf res" where
  "block_trim_free block sz t = res_bind (gpcl_assert (block_is_free block t)) (\<lambda>_.
     if block_can_split block sz t
     then res_bind (block_split block sz t) (\<lambda>(remaining_block, t).
          res_bind (block_link_next block t) (\<lambda>(_, t).
          block_insert remaining_block (block_set_prev_free remaining_block t)))
     else Inr t)"

definition block_trim_used :: "nat \<Rightarrow> nat \<Rightarrow> tlsf \<Rightarrow> tlsf res" where
  "block_trim_used block sz t = res_bind (gpcl_assert (\<not> block_is_free block t)) (\<lambda>_.
     if block_can_split block sz t
     then res_bind (block_split block sz t) (\<lambda>(remaining_block, t).
          res_bind (block_merge_next remaining_block (block_set_prev_used remaining_block t)) (\<lambda>(remaining_block, t).
          block_insert remaining_block t))
     else Inr t)"

definition block_trim_free_leading :: "nat \<Rightarrow> nat \<Rightarrow> tlsf \<Rightarrow> (nat \<times> tlsf) res" where
  "block_trim_free_leading block sz t =
     (if block_can_split block sz t
      then res_bind (block_split block (size_sub sz block_header_overhead) t) (\<lambda>(remaining_block, t).
           res_bind (block_link_next block (block_set_prev_free remaining_block t)) (\<lambda>(_, t).
           res_bind (block_insert block t) (\<lambda>t. Inr (remaining_block, t))))
      else Inr (block, t))"

definition block_locate_free :: "nat \<Rightarrow> tlsf \<Rightarrow> (nat \<times> tlsf) res" where
  "block_locate_free sz t =
     res_bind (if sz \<noteq> 0
               then res_bind (mapping_search sz) (\<lambda>(fl, sl).
                    if fl < int FL_INDEX_COUNT then search_suitable_block fl sl t else Inr (0, fl, sl))
               else Inr (0, 0, 0)) (\<lambda>(block, fl, sl).
       if block \<noteq> 0
       then res_bind (gpcl_assert (block_size block t \<ge> sz)) (\<lambda>_.
            res_bind (remove_free_block block fl sl t) (\<lambda>t. Inr (block, t)))
       else Inr (block, t))"

definition block_prepare_used :: "nat \<Rightarrow> nat \<Rightarrow> tlsf \<Rightarrow> (nat \<times> tlsf) res" where
  "block_prepare_used block sz t =
     (if block \<noteq> 0
      then res_bind (gpcl_assert (sz \<noteq> 0)) (\<lambda>_.
           res_bind (block_trim_free block sz t) (\<lambda>t.
           res_bind (block_mark_as_used block t) (\<lambda>t. Inr (block_to_ptr block, t))))
      else Inr (0, t))"

section \<open>Construction and pools\<close>

text \<open>The control structure is written over the memory at its address.\<close>

definition control_construct :: "nat \<Rightarrow> (nat \<Rightarrow> nat) \<Rightarrow> tlsf" where
  "control_construct mem h =
     \<lparr>heap = h(mem + 16 := mem, mem + 24 := mem), control = mem, fl_bitmap = 0,
      sl_bitmap = (\<lambda>i. 0), blocks = (\<lambda>i j. mem)\<rparr>"

definition test_ffs_fls :: nat where
  "test_ffs_fls =
     (if tlsf_ffs 0 = -1 then 0 else 0x1) + (if tlsf_fls 0 = -1 then 0 else 0x2) +
     (if tlsf_ffs 1 = 0 then 0 else 0x4) + (if tlsf_fls 1 = 0 then 0 else 0x8) +
     (if tlsf_ffs 0x80000000 = 31 then 0 else 0x10) + (if tlsf_ffs 0x80008000 = 15 then 0 else 0x20) +
     (if tlsf_fls 0x80000008 = 31 then 0 else 0x40) + (if tlsf_fls 0x7FFFFFFF = 30 then 0 else 0x80) +
     (if tlsf_fls_sizet 0x80000000 = 31 then 0 else 0x100) + (if tlsf_fls_sizet 0x100000000 = 32 then 0 else 0x200) +
     (if tlsf_fls_sizet 0xffffffffffffffff = 63 then 0 else 0x400)"

text \<open>\<open>sizeof(tlsf_control_t)\<close>: the null block, the two bitmaps and the array of list heads.\<close>

definition tlsf_size :: nat where
  "tlsf_size = 32 + 4 + 4 * FL_INDEX_COUNT + 8 * FL_INDEX_COUNT * SL_INDEX_COUNT"

definition tlsf_pool_overhead :: nat where
  "tlsf_pool_overhead = 2 * block_header_overhead"

text \<open>A null result of \<open>tlsf_create\<close> is \<open>None\<close>; the debug build runs the self test first.\<close>

definition tlsf_create :: "bool \<Rightarrow> nat \<Rightarrow> (nat \<Rightarrow> nat) \<Rightarrow> tlsf option" where
  "tlsf_create debug mem h =
     (if debug \<and> test_ffs_fls \<noteq> 0 then None
      else if mem mod ALIGN_SIZE \<noteq> 0 then None
      else Some (control_construct mem h))"

definition tlsf_add_pool :: "nat \<Rightarrow> nat \<Rightarrow> tlsf \<Rightarrow> (nat \<times> tlsf) res" where
  "tlsf_add_pool mem bytes t =
     res_bind (align_down (size_sub bytes tlsf_pool_overhead) ALIGN_SIZE) (\<lambda>pool_bytes.
       if mem mod ALIGN_SIZE \<noteq> 0 then Inr (0, t)
       else if pool_bytes < block_size_min \<or> pool_bytes > block_size_max then Inl Unreachable_executed
       else let block = offset_to_block mem (size_sub 0 block_header_overhead);
                t = block_set_prev_used block (block_set_free block (block_set_size block pool_bytes t))
            in res_bind (block_insert block t) (\<lambda>t.
               res_bind (block_link_next block t) (\<lambda>(nx, t).
               Inr (mem, block_set_prev_free nx (block_set_used nx (block_set_size nx 0 t))))))"

text \<open>
  When \<open>tlsf_create\<close> has returned null, \<open>tlsf_add_pool\<close> runs on the null pointer: it returns before the
  first access if the memory is not aligned.
\<close>

definition tlsf_create_with_pool :: "bool \<Rightarrow> nat \<Rightarrow> nat \<Rightarrow> (nat \<Rightarrow> nat) \<Rightarrow> tlsf option res" where
  "tlsf_create_with_pool debug mem bytes h =
     (case tlsf_create debug mem h of
        None \<Rightarrow> if size_t (mem + tlsf_size) mod ALIGN_SIZE \<noteq> 0 then Inr None else Inl Undefined_behaviour
      | Some t \<Rightarrow> res_bind (tlsf_add_pool (size_t (mem + tlsf_size)) (size_sub bytes tlsf_size) t) (\<lambda>(_, t). Inr (Some t)))"

definition tlsf_get_pool :: "tlsf \<Rightarrow> nat" where
  "tlsf_get_pool t = size_t (control t + tlsf_size)"

definition tlsf_remove_pool :: "nat \<Rightarrow> tlsf \<Rightarrow> tlsf res" where
  "tlsf_remove_pool pool t =
     (let block = offset_to_block pool (size_sub 0 block_header_overhead)
      in res_bind (gpcl_assert (block_is_free block t)) (\<lambda>_.
         res_bind (block_next block t) (\<lambda>nx.
         res_bind (gpcl_assert (\<not> block_is_free nx t)) (\<lambda>_.
         res_bind (gpcl_assert (block_size nx t = 0)) (\<lambda>_.
         case mapping_insert (block_size block t) of (fl, sl) \<Rightarrow> remove_free_block block fl sl t)))))"

section \<open>The interface\<close>

definition tlsf_block_size :: "nat \<Rightarrow> tlsf \<Rightarrow> nat" where
  "tlsf_block_size ptr t = (if ptr \<noteq> 0 then block_size (block_from_ptr ptr) t else 0)"

definition tlsf_malloc :: "nat \<Rightarrow> tlsf \<Rightarrow> (nat \<times> tlsf) res" where
  "tlsf_malloc sz t = res_bind (adjust_request_size sz ALIGN_SIZE) (\<lambda>adjust.
     res_bind (block_locate_free adjust t) (\<lambda>(block, t). block_prepare_used block adjust t))"

definition align_gap :: "nat \<Rightarrow> nat \<Rightarrow> (nat \<times> nat) res" where
  "align_gap ptr align = res_bind (align_ptr ptr align) (\<lambda>aligned.
     let gap = size_sub aligned ptr
     in if gap \<noteq> 0 \<and> gap < 32
        then let gap_remain = 32 - gap;
                 offset = max gap_remain align;
                 next_aligned = size_t (aligned + offset)
             in res_bind (align_ptr next_aligned align) (\<lambda>aligned. Inr (aligned, size_sub aligned ptr))
        else Inr (aligned, gap))"

definition tlsf_memalign :: "nat \<Rightarrow> nat \<Rightarrow> tlsf \<Rightarrow> (nat \<times> tlsf) res" where
  "tlsf_memalign align sz t = res_bind (adjust_request_size sz ALIGN_SIZE) (\<lambda>adjust.
     res_bind (adjust_request_size (size_t (adjust + align + 32)) align) (\<lambda>size_with_gap.
     let aligned_size = (if adjust \<noteq> 0 \<and> align > ALIGN_SIZE then size_with_gap else adjust)
     in res_bind (block_locate_free aligned_size t) (\<lambda>(block, t).
        res_bind (gpcl_assert (32 = block_size_min + block_header_overhead)) (\<lambda>_.
        res_bind (if block \<noteq> 0
                  then res_bind (align_gap (block_to_ptr block) align) (\<lambda>(aligned, gap).
                       if gap \<noteq> 0
                       then res_bind (gpcl_assert (gap \<ge> 32)) (\<lambda>_. block_trim_free_leading block gap t)
                       else Inr (block, t))
                  else Inr (block, t)) (\<lambda>(block, t). block_prepare_used block adjust t)))))"

definition tlsf_free :: "nat \<Rightarrow> tlsf \<Rightarrow> tlsf res" where
  "tlsf_free ptr t =
     (if ptr \<noteq> 0
      then let block = block_from_ptr ptr
           in res_bind (gpcl_assert (\<not> block_is_free block t)) (\<lambda>_.
              res_bind (block_mark_as_free block t) (\<lambda>t.
              res_bind (block_merge_prev block t) (\<lambda>(block, t).
              res_bind (block_merge_next block t) (\<lambda>(block, t). block_insert block t))))
      else Inr t)"

text \<open>
  \<open>memcpy\<close> on whole cells: the one call copies a block size, which is a multiple of the cell size.
\<close>

definition copy_cells :: "nat \<Rightarrow> nat \<Rightarrow> nat \<Rightarrow> tlsf \<Rightarrow> tlsf" where
  "copy_cells dst src n t =
     t\<lparr>heap := (\<lambda>a. if dst \<le> a \<and> a < dst + n then heap t (src + (a - dst)) else heap t a)\<rparr>"

definition tlsf_realloc :: "nat \<Rightarrow> nat \<Rightarrow> tlsf \<Rightarrow> (nat \<times> tlsf) res" where
  "tlsf_realloc ptr sz t =
     (if ptr \<noteq> 0 \<and> sz = 0 then res_bind (tlsf_free ptr t) (\<lambda>t. Inr (0, t))
      else if ptr = 0 then tlsf_malloc sz t
      else let block = block_from_ptr ptr
           in res_bind (block_next block t) (\<lambda>nx.
              let cursize = block_size block t;
                  combined = size_t (cursize + block_size nx t + block_header_overhead)
              in res_bind (adjust_request_size sz ALIGN_SIZE) (\<lambda>adjust.
                 res_bind (gpcl_assert (\<not> block_is_free block t)) (\<lambda>_.
                 if adjust > cursize \<and> (\<not> block_is_free nx t \<or> adjust > combined)
                 then res_bind (tlsf_malloc sz t) (\<lambda>(p, t).
                      if p \<noteq> 0
                      then let minsize = min cursize sz
                           in res_bind (tlsf_free ptr (copy_cells p ptr minsize t)) (\<lambda>t. Inr (p, t))
                      else Inr (p, t))
                 else res_bind (if adjust > cursize
                                then res_bind (block_merge_next block t) (\<lambda>(_, t). block_mark_as_used block t)
                                else Inr t) (\<lambda>t.
                      res_bind (block_trim_used block adjust t) (\<lambda>t. Inr (ptr, t)))))))"

end
