(* ===== verification/Tlsf_Layout.thy ===== *)
theory Tlsf_Layout
  imports Tlsf
begin

text \<open>
  What the memory of the allocator means: the word that holds the size and the two flags of a block,
  the \<open>layout\<close> of the pools as a map from header addresses to sizes and flags with the pure operations
  that the code performs on it (marking, splitting, merging), and the doubly linked chains of free
  blocks.
\<close>

section \<open>The size word\<close>

text \<open>The word of a header with its two flags.\<close>

definition hdr_val :: "nat \<Rightarrow> bool \<Rightarrow> bool \<Rightarrow> nat" where
  "hdr_val s f p = s + of_bool f + 2 * of_bool p"

lemma bit_size_not:
  assumes "m < 2 ^ 64"
  shows "bit (size_not m) i \<longleftrightarrow> i < 64 \<and> \<not> bit m i"
proof -
  have "int (size_not m) = take_bit 64 (NOT (int m))"
    using assms by (simp add: size_not_def take_bit_eq_mod not_int_def of_nat_diff)
      (rule int_mod_pos_eq [where q = "-1", symmetric], simp_all)
  then have "bit (int (size_not m)) i \<longleftrightarrow> i < 64 \<and> \<not> bit (int m) i" by (simp add: bit_simps)
  then show ?thesis by (simp add: bit_of_nat_iff_bit)
qed

lemma bit_hdr_val:
  assumes "4 dvd s"
  shows "bit (hdr_val s f p) i \<longleftrightarrow> (if i = 0 then f else if i = 1 then p else bit s i)"
proof -
  obtain k where s: "s = 4 * k" using assms by auto
  have "bit (hdr_val s f p) (Suc (Suc j)) = bit s (Suc (Suc j))" for j
    by (cases f; cases p) (simp_all add: hdr_val_def s bit_Suc)
  moreover have "bit (hdr_val s f p) 0 = f" "bit (hdr_val s f p) 1 = p"
    by (cases f; cases p; simp add: hdr_val_def s bit_Suc bit_0)+
  ultimately show ?thesis by (metis One_nat_def old.nat.exhaust)
qed

lemma not_high_bit: "s < 2 ^ 64 \<Longrightarrow> bit s i \<Longrightarrow> i < 64" for s :: nat
proof (rule ccontr)
  assume "s < 2 ^ 64" "bit s i" "\<not> i < 64"
  then have "(2::nat) ^ 64 \<le> 2 ^ i" by (intro power_increasing) auto
  then show False using \<open>s < 2 ^ 64\<close> \<open>bit s i\<close> by (simp add: bit_iff_odd)
qed

lemma flag_bits:
  "bit block_header_free_bit i \<longleftrightarrow> i = 0" "bit block_header_prev_free_bit i \<longleftrightarrow> i = 1"
  "block_header_free_bit < 2 ^ 64" "block_header_prev_free_bit < 2 ^ 64"
  "block_header_free_bit OR block_header_prev_free_bit < 2 ^ 64"
  unfolding block_header_free_bit_def block_header_prev_free_bit_def
  by (auto simp: bit_simps)

lemma bit_dvd_4: "4 dvd s \<Longrightarrow> bit (s::nat) i \<Longrightarrow> i \<noteq> 0 \<and> i \<noteq> 1"
  using bit_hdr_val [of s False False i] by (auto simp: hdr_val_def split: if_splits)

lemmas hdr_bits = bit_and_iff bit_or_iff bit_hdr_val flag_bits(1,2) bit_0_eq
  bit_size_not [OF flag_bits(3)] bit_size_not [OF flag_bits(4)] bit_size_not [OF flag_bits(5)]

lemma hdr_val_ops:
  assumes "4 dvd s" and "s < 2 ^ 63"
  shows "hdr_val s f p AND size_not (block_header_free_bit OR block_header_prev_free_bit) = s"
    and "hdr_val s f p AND block_header_free_bit \<noteq> 0 \<longleftrightarrow> f"
    and "hdr_val s f p AND block_header_prev_free_bit \<noteq> 0 \<longleftrightarrow> p"
    and "hdr_val s f p OR block_header_free_bit = hdr_val s True p"
    and "hdr_val s f p OR block_header_prev_free_bit = hdr_val s f True"
    and "hdr_val s f p AND size_not block_header_free_bit = hdr_val s False p"
    and "hdr_val s f p AND size_not block_header_prev_free_bit = hdr_val s f False"
    and "s OR (v AND (block_header_free_bit OR block_header_prev_free_bit)) = hdr_val s (bit v 0) (bit v 1)"
proof -
  have hi: "i < 64" if "bit s i" for i using not_high_bit [of s i] assms(2) that by simp
  note b = assms(1) hi bit_dvd_4 [OF assms(1)]
  show "hdr_val s f p AND size_not (block_header_free_bit OR block_header_prev_free_bit) = s"
    by (rule bit_eqI) (use b in \<open>auto simp: hdr_bits\<close>)
  show "hdr_val s f p OR block_header_free_bit = hdr_val s True p" "hdr_val s f p OR block_header_prev_free_bit = hdr_val s f True"
    by (rule bit_eqI; use b in \<open>auto simp: hdr_bits\<close>)+
  show "hdr_val s f p AND size_not block_header_free_bit = hdr_val s False p" "hdr_val s f p AND size_not block_header_prev_free_bit = hdr_val s f False"
    by (rule bit_eqI; use b in \<open>auto simp: hdr_bits\<close>)+
  show "s OR (v AND (block_header_free_bit OR block_header_prev_free_bit)) = hdr_val s (bit v 0) (bit v 1)"
    by (rule bit_eqI) (use b in \<open>auto simp: hdr_bits simp del: bit_0\<close>)
  have "hdr_val s f p AND block_header_free_bit = (if f then block_header_free_bit else 0)"
    by (rule bit_eqI) (use b in \<open>auto simp: hdr_bits \<close>)
  then show "hdr_val s f p AND block_header_free_bit \<noteq> 0 \<longleftrightarrow> f" by (simp add: block_header_free_bit_def)
  have "hdr_val s f p AND block_header_prev_free_bit = (if p then block_header_prev_free_bit else 0)"
    by (rule bit_eqI) (use b in \<open>auto simp: hdr_bits\<close>)
  then show "hdr_val s f p AND block_header_prev_free_bit \<noteq> 0 \<longleftrightarrow> p" by (simp add: block_header_prev_free_bit_def)
qed

section \<open>Layouts\<close>

text \<open>
  A layout maps the address of each block header to the size of the block, whether it is free and
  whether the block before it is free; a block of size 0 is the sentinel at the end of a pool. A pool
  \<open>(lo, hi)\<close> has its first header at \<open>lo\<close> and its sentinel at \<open>hi\<close>.
\<close>

type_synonym layout = "nat \<Rightarrow> (nat \<times> bool \<times> bool) option"

definition pools_ok :: "(nat \<times> nat) set \<Rightarrow> nat \<Rightarrow> bool" where
  "pools_ok P c \<longleftrightarrow> 8 dvd c \<and> 0 < c \<and> c + 32 < 2 ^ 63 \<and>
    (\<forall>lo hi. (lo, hi) \<in> P \<longrightarrow> 8 dvd lo \<and> 0 < lo \<and> lo + 32 \<le> hi \<and> hi < lo + 8 + 2 ^ 32 \<and> hi + 48 < 2 ^ 63 \<and>
       (c + 32 \<le> lo + 8 \<or> hi + 16 \<le> c)) \<and>
    (\<forall>lo hi lo' hi'. (lo, hi) \<in> P \<longrightarrow> (lo', hi') \<in> P \<longrightarrow> (lo, hi) \<noteq> (lo', hi') \<longrightarrow> hi + 8 \<le> lo' \<or> hi' + 8 \<le> lo)"

definition in_pool :: "(nat \<times> nat) set \<Rightarrow> nat \<Rightarrow> nat \<Rightarrow> bool" where
  "in_pool P b s \<longleftrightarrow> (\<exists>lo hi. (lo, hi) \<in> P \<and> lo \<le> b \<and> (if s = 0 then b = hi else b + s + 8 \<le> hi))"

definition has_next :: "layout \<Rightarrow> nat \<Rightarrow> bool \<Rightarrow> bool" where
  "has_next lay n f \<longleftrightarrow> (\<exists>s' f'. lay n = Some (s', f', f))"

definition has_prev :: "layout \<Rightarrow> nat \<Rightarrow> bool" where
  "has_prev lay b \<longleftrightarrow> (\<exists>b0 s0 p0. lay b0 = Some (s0, True, p0) \<and> b = b0 + s0 + 8)"

definition block_ok :: "(nat \<times> nat) set \<Rightarrow> layout \<Rightarrow> nat \<Rightarrow> nat \<Rightarrow> bool \<Rightarrow> bool \<Rightarrow> bool" where
  "block_ok P lay b s f p \<longleftrightarrow> 8 dvd b \<and> 8 dvd s \<and> in_pool P b s \<and>
    (if s = 0 then \<not> f else 24 \<le> s \<and> has_next lay (b + s + 8) f) \<and> (p \<longrightarrow> has_prev lay b)"

definition spaced :: "layout \<Rightarrow> bool" where
  "spaced lay \<longleftrightarrow> (\<forall>b s f p b' v. lay b = Some (s, f, p) \<longrightarrow> lay b' = Some v \<longrightarrow> b < b' \<longrightarrow> b + s + 8 \<le> b')"

definition anchored :: "(nat \<times> nat) set \<Rightarrow> layout \<Rightarrow> bool" where
  "anchored P lay \<longleftrightarrow> (\<forall>lo hi. (lo, hi) \<in> P \<longrightarrow> lay lo \<noteq> None \<and> (\<exists>p. lay hi = Some (0, False, p)))"

definition layout_ok :: "(nat \<times> nat) set \<Rightarrow> layout \<Rightarrow> bool" where
  "layout_ok P lay \<longleftrightarrow>
    (\<forall>b s f p. lay b = Some (s, f, p) \<longrightarrow> block_ok P lay b s f p) \<and> spaced lay \<and> anchored P lay"

definition headers :: "layout \<Rightarrow> (nat \<Rightarrow> nat) \<Rightarrow> bool" where
  "headers lay h \<longleftrightarrow> (\<forall>b s f p. lay b = Some (s, f, p) \<longrightarrow> h (b + 8) = hdr_val s f p \<and> (f \<longrightarrow> h (b + s + 8) = b))"

lemma layoutD:
  assumes "layout_ok P lay" and "lay b = Some (s, f, p)"
  shows "8 dvd b" "8 dvd s" "in_pool P b s" "s = 0 \<Longrightarrow> \<not> f" "s \<noteq> 0 \<Longrightarrow> 24 \<le> s"
    "s \<noteq> 0 \<Longrightarrow> \<exists>s' f'. lay (b + s + 8) = Some (s', f', f)"
    "p \<Longrightarrow> \<exists>b0 s0 p0. lay b0 = Some (s0, True, p0) \<and> b = b0 + s0 + 8"
proof -
  have "block_ok P lay b s f p" using assms unfolding layout_ok_def by blast
  then show "8 dvd b" "8 dvd s" "in_pool P b s" "s = 0 \<Longrightarrow> \<not> f" "s \<noteq> 0 \<Longrightarrow> 24 \<le> s"
    "s \<noteq> 0 \<Longrightarrow> \<exists>s' f'. lay (b + s + 8) = Some (s', f', f)"
    "p \<Longrightarrow> \<exists>b0 s0 p0. lay b0 = Some (s0, True, p0) \<and> b = b0 + s0 + 8"
    unfolding block_ok_def has_next_def has_prev_def by auto
qed

lemma layout_spaced:
  "layout_ok P lay \<Longrightarrow> lay b = Some (s, f, p) \<Longrightarrow> lay b' = Some v \<Longrightarrow> b < b' \<Longrightarrow> b + s + 8 \<le> b'"
  unfolding layout_ok_def spaced_def by blast

lemma in_pool_range:
  assumes "pools_ok P c" and "in_pool P b s"
  shows "0 < b" "b + s + 48 < 2 ^ 63" "c + 32 \<le> b + 8 \<or> b + s + 16 \<le> c" "s < 2 ^ 32"
proof -
  obtain lo hi where pool: "(lo, hi) \<in> P" "lo \<le> b" "if s = 0 then b = hi else b + s + 8 \<le> hi"
    using assms(2) unfolding in_pool_def by blast
  then have "0 < lo" "lo + 32 \<le> hi" "hi < lo + 8 + 2 ^ 32" "hi + 48 < 2 ^ 63" "c + 32 \<le> lo + 8 \<or> hi + 16 \<le> c"
    using assms(1) unfolding pools_ok_def by (metis (no_types))+
  then show "0 < b" "b + s + 48 < 2 ^ 63" "c + 32 \<le> b + 8 \<or> b + s + 16 \<le> c" "s < 2 ^ 32"
    using pool by (auto split: if_splits)
qed

lemma in_pool_join:
  assumes "pools_ok P c" and "in_pool P b s" and "in_pool P (b + s + 8) s'" and "s \<noteq> 0" and "s' \<noteq> 0"
  shows "in_pool P b (s + s' + 8)"
proof -
  obtain lo hi where 1: "(lo, hi) \<in> P" "lo \<le> b" "b + s + 8 \<le> hi" using assms(2,4) by (auto simp: in_pool_def)
  obtain lo' hi' where 2: "(lo', hi') \<in> P" "lo' \<le> b + s + 8" "b + s + 8 + s' + 8 \<le> hi'"
    using assms(3,5) by (auto simp: in_pool_def)
  have "(lo, hi) = (lo', hi')"
  proof (rule ccontr)
    assume "(lo, hi) \<noteq> (lo', hi')"
    then have "hi + 8 \<le> lo' \<or> hi' + 8 \<le> lo" using assms(1) 1(1) 2(1) unfolding pools_ok_def by metis
    then show False using 1 2 by linarith
  qed
  then show ?thesis unfolding in_pool_def using 1 2 by (intro exI [of _ lo] exI [of _ hi]) auto
qed

lemma in_pool_split:
  assumes "in_pool P b s" and "24 \<le> sz" and "sz + 32 \<le> s"
  shows "in_pool P b sz" "in_pool P (b + sz + 8) (s - sz - 8)"
proof -
  obtain lo hi where "(lo, hi) \<in> P" "lo \<le> b" "b + s + 8 \<le> hi" using assms by (auto simp: in_pool_def)
  then have "(lo, hi) \<in> P \<and> lo \<le> b \<and> b + sz + 8 \<le> hi" "(lo, hi) \<in> P \<and> lo \<le> b + sz + 8 \<and> b + sz + 8 + (s - sz - 8) + 8 \<le> hi"
    using assms(2,3) by auto
  then show "in_pool P b sz" "in_pool P (b + sz + 8) (s - sz - 8)"
    unfolding in_pool_def using assms(2,3) by fastforce+
qed

lemma next_unique:
  assumes "layout_ok P lay" and "lay x = Some (sx, fx, px)" and "lay y = Some (sy, fy, py)" and "x + sx = y + sy"
  shows "x = y"
  using layout_spaced [OF assms(1,2,3)] layout_spaced [OF assms(1,3,2)] assms(4) by linarith

lemma block_okI:
  assumes "8 dvd b" and "8 dvd s" and "in_pool P b s" and "s = 0 \<Longrightarrow> \<not> f" and "s \<noteq> 0 \<Longrightarrow> 24 \<le> s"
    and "s \<noteq> 0 \<Longrightarrow> has_next lay (b + s + 8) f" and "p \<Longrightarrow> has_prev lay b"
  shows "block_ok P lay b s f p"
  using assms by (simp add: block_ok_def)

lemma has_prevI: "lay b0 = Some (s0, True, p0) \<Longrightarrow> b = b0 + s0 + 8 \<Longrightarrow> has_prev lay b"
  unfolding has_prev_def by blast

lemma has_prevE:
  assumes "has_prev lay b"
  obtains b0 s0 p0 where "lay b0 = Some (s0, True, p0)" "b = b0 + s0 + 8"
  using assms unfolding has_prev_def by blast

lemma anchoredI:
  assumes "layout_ok P lay" and "\<And>x v. x \<in> fst ` P \<Longrightarrow> lay x = Some v \<Longrightarrow> L x \<noteq> None"
    and "\<And>x p. lay x = Some (0, False, p) \<Longrightarrow> \<exists>p. L x = Some (0, False, p)"
  shows "anchored P L"
  unfolding anchored_def
proof (intro allI impI)
  fix lo hi assume "(lo, hi) \<in> P"
  then have "lay lo \<noteq> None" "\<exists>p. lay hi = Some (0, False, p)" "lo \<in> fst ` P"
    using assms(1) by (force simp: layout_ok_def anchored_def)+
  then show "L lo \<noteq> None \<and> (\<exists>p. L hi = Some (0, False, p))" using assms(2,3) by blast
qed

lemma next_not_first:
  assumes "pools_ok P c" and "layout_ok P lay" and b: "lay b = Some (s, f, p)" "s \<noteq> 0"
  shows "b + s + 8 \<notin> fst ` P"
proof
  assume "b + s + 8 \<in> fst ` P"
  then obtain hi' where 2: "(b + s + 8, hi') \<in> P" by force
  obtain lo hi where 1: "(lo, hi) \<in> P" "lo \<le> b" "b + s + 8 \<le> hi"
    using layoutD(3) [OF assms(2) b(1)] b(2) by (auto simp: in_pool_def)
  have "lo \<noteq> b + s + 8" using 1(2) by simp
  then have "hi + 8 \<le> b + s + 8 \<or> hi' + 8 \<le> lo" using assms(1) 1(1) 2 unfolding pools_ok_def by (metis prod.inject)
  moreover have "b + s + 8 + 32 \<le> hi'" using assms(1) 2 unfolding pools_ok_def by blast
  ultimately show False using 1 by linarith
qed

text \<open>Changing the status of a block, which the next header records as well.\<close>

definition lay_mark :: "nat \<Rightarrow> bool \<Rightarrow> layout \<Rightarrow> layout" where
  "lay_mark b g lay = (case lay b of
     Some (s, f, p) \<Rightarrow> (case lay (b + s + 8) of
       Some (s', f', p') \<Rightarrow> lay(b \<mapsto> (s, g, p), b + s + 8 \<mapsto> (s', f', g)) | None \<Rightarrow> lay) | None \<Rightarrow> lay)"

lemma lay_mark_ok:
  assumes ok: "layout_ok P lay" and b: "lay b = Some (s, f, p)" "s \<noteq> 0"
  shows "layout_ok P (lay_mark b g lay)"
proof -
  define n where "n = b + s + 8"
  obtain s' f' where n: "lay n = Some (s', f', f)" using layoutD(6) [OF ok b(1) b(2)] by (auto simp: n_def)
  define L where "L = lay_mark b g lay"
  have L: "L = lay(b \<mapsto> (s, g, p), n \<mapsto> (s', f', g))" using b(1) n by (simp add: L_def lay_mark_def n_def)
  have bn: "b < n" by (simp add: n_def)
  have old: "\<exists>fy py. lay x = Some (sx, fy, py)" if "L x = Some (sx, fx, px)" for x sx fx px
    using that b(1) n by (auto simp: L split: if_splits)
  have other: "x + sx + 8 \<noteq> n" if "lay x = Some (sx, fx, px)" "x \<noteq> b" for x sx fx px
    using next_unique [OF ok that(1) b(1)] that(2) by (auto simp: n_def)
  have "block_ok P L x sx fx px" if x: "L x = Some (sx, fx, px)" for x sx fx px
  proof -
    obtain fy py where y: "lay x = Some (sx, fy, py)" using old [OF x] by blast
    note d = layoutD [OF ok y]
    show ?thesis
    proof (rule block_okI)
      show "8 dvd x" "8 dvd sx" "in_pool P x sx" using d by auto
      show "\<not> fx" if "sx = 0" using that x d(4) b bn n y by (auto simp: L split: if_splits)
      show "24 \<le> sx" if "sx \<noteq> 0" using that d(5) by simp
      show "has_next L (x + sx + 8) fx" if "sx \<noteq> 0"
        using that x d(6) other [OF y] y b bn n by (auto simp: L has_next_def n_def split: if_splits)
      show "has_prev L x" if px
      proof (cases "x = n")
        case True
        then show ?thesis using x that bn by (auto simp: L has_prev_def n_def intro!: exI [of _ b])
      next
        case False
        then have py using x that b(1) y by (auto simp: L split: if_splits)
        then obtain b0 s0 p0 where 0: "lay b0 = Some (s0, True, p0)" "x = b0 + s0 + 8" using d(7) by auto
        then have "b0 \<noteq> b" using False b(1) by (auto simp: n_def)
        then show ?thesis using 0 n has_prevI [of L b0 s0 _ x] by (cases "b0 = n") (auto simp: L)
      qed
    qed
  qed
  moreover have "spaced L" using ok old unfolding layout_ok_def spaced_def
    by (metis (no_types, opaque_lifting) fun_upd_apply L option.distinct(1) b(1) n option.exhaust)
  moreover have "anchored P L" using b n by (intro anchoredI [OF ok]) (auto simp: L)
  ultimately show ?thesis unfolding L_def layout_ok_def by blast
qed

text \<open>Cutting a free block off the end of a block.\<close>

definition lay_split :: "nat \<Rightarrow> nat \<Rightarrow> layout \<Rightarrow> layout" where
  "lay_split b sz lay = (case lay b of
     Some (s, f, p) \<Rightarrow> (case lay (b + s + 8) of
       Some (s', f', p') \<Rightarrow> lay(b \<mapsto> (sz, f, p), b + sz + 8 \<mapsto> (s - sz - 8, True, f), b + s + 8 \<mapsto> (s', f', True))
     | None \<Rightarrow> lay) | None \<Rightarrow> lay)"

lemma lay_split_ok:
  assumes ok: "layout_ok P lay" and b: "lay b = Some (s, f, p)" and sz: "8 dvd sz" "24 \<le> sz" "sz + 32 \<le> s"
  shows "layout_ok P (lay_split b sz lay)"
proof -
  define n r where "n = b + s + 8" and "r = b + sz + 8"
  have s0: "s \<noteq> 0" using sz by simp
  obtain s' f' where n: "lay n = Some (s', f', f)" using layoutD(6) [OF ok b s0] by (auto simp: n_def)
  define L where "L = lay_split b sz lay"
  have L: "L = lay(b \<mapsto> (sz, f, p), r \<mapsto> (s - sz - 8, True, f), n \<mapsto> (s', f', True))"
    using b n by (simp add: L_def lay_split_def n_def r_def)
  have bn: "b < r" "r + 32 \<le> n" and rn: "r + (s - sz - 8) + 8 = n" using sz by (auto simp: n_def r_def)
  have new: "lay r = None"
  proof (rule ccontr)
    assume "lay r \<noteq> None"
    then obtain v where "lay r = Some v" by auto
    from layout_spaced [OF ok b this] show False using bn by (auto simp: n_def)
  qed
  have cases: "x = b \<and> sx = sz \<and> fx = f \<and> px = p \<or> x = r \<and> sx = s - sz - 8 \<and> fx \<and> px = f \<or>
      x = n \<and> sx = s' \<and> fx = f' \<and> px \<or> x \<notin> {b, r, n} \<and> lay x = Some (sx, fx, px)"
    if "L x = Some (sx, fx, px)" for x sx fx px
    using that bn by (auto simp: L split: if_splits)
  have other: "x + sx + 8 \<noteq> n" if "lay x = Some (sx, fx, px)" "x \<noteq> b" for x sx fx px
    using next_unique [OF ok that(1) b] that(2) by (auto simp: n_def)
  note db = layoutD [OF ok b] and dn = layoutD [OF ok n]
  note pool = in_pool_split [OF db(3) sz(2,3), folded r_def]
  have prev_keep: "has_prev L x" if "has_prev lay x" "x \<noteq> n" for x
  proof -
    obtain b0 s0 p0 where 0: "lay b0 = Some (s0, True, p0)" "x = b0 + s0 + 8" using has_prevE [OF \<open>has_prev lay x\<close>] .
    then have "b0 \<noteq> b" "b0 \<noteq> r" using that(2) b new by (auto simp: n_def)
    then show ?thesis using 0 n has_prevI [of L b0 s0 _ x] by (cases "b0 = n") (auto simp: L)
  qed
  have "block_ok P L x sx fx px" if x: "L x = Some (sx, fx, px)" for x sx fx px
    using cases [OF x]
  proof (elim disjE conjE)
    assume "x = b" "sx = sz" "fx = f" "px = p"
    then show ?thesis using db sz pool bn prev_keep [of b]
      by (intro block_okI) (auto simp: L has_next_def r_def has_prev_def)
  next
    assume "x = r" "sx = s - sz - 8" "fx" "px = f"
    then show ?thesis using db sz pool bn rn
      by (intro block_okI) (auto simp: L has_next_def r_def has_prev_def dvd_diff_nat intro: exI [of _ b])
  next
    assume "x = n" "sx = s'" "fx = f'" "px"
    then show ?thesis using dn bn rn other [OF n]
      by (intro block_okI) (auto simp: L has_next_def has_prev_def r_def intro!: exI [of _ r])
  next
    assume *: "x \<notin> {b, r, n}" "lay x = Some (sx, fx, px)"
    note d = layoutD [OF ok *(2)]
    show ?thesis
    proof (rule block_okI)
      show "has_next L (x + sx + 8) fx" if "sx \<noteq> 0"
        using that d(6) other [OF *(2)] * b new by (auto simp: L has_next_def)
      show "has_prev L x" if px using prev_keep [of x] d(7) that * by (auto simp: has_prev_def)
    qed (use d in auto)
  qed
  moreover have "spaced L"
    unfolding spaced_def
  proof (intro allI impI)
    fix x sx fx px y v assume x: "L x = Some (sx, fx, px)" and y: "L y = Some v" and "x < y"
    obtain sy fy py where v: "v = (sy, fy, py)" by (cases v)
    have far: "y \<in> {b, r, n} \<or> (\<exists>v. lay y = Some v)" using cases [of y sy fy py] y v by auto
    show "x + sx + 8 \<le> y"
      using cases [OF x] cases [OF y [unfolded v]] \<open>x < y\<close> bn rn layout_spaced [OF ok b, of x] layout_spaced [OF ok b, of y] layout_spaced [OF ok n, of y]
        layout_spaced [OF ok _ b, of x sx fx px] layout_spaced [OF ok _ n, of x sx fx px] layout_spaced [OF ok, of x sx fx px y] sz
      by (cases x b rule: linorder_cases) (auto simp: n_def r_def)
  qed
  moreover have "anchored P L" using b n s0 new by (intro anchoredI [OF ok]) (auto simp: L)
  ultimately show ?thesis unfolding L_def layout_ok_def by blast
qed

text \<open>Absorbing the free block that follows a block.\<close>

definition lay_merge :: "nat \<Rightarrow> layout \<Rightarrow> layout" where
  "lay_merge b lay = (case lay b of
     Some (s, f, p) \<Rightarrow> (case lay (b + s + 8) of
       Some (sn, fn, pn) \<Rightarrow> (case lay (b + s + 8 + sn + 8) of
         Some (sm, fm, pm) \<Rightarrow>
           lay(b + s + 8 := None, b \<mapsto> (s + sn + 8, f, p), b + s + 8 + sn + 8 \<mapsto> (sm, fm, f))
       | None \<Rightarrow> lay) | None \<Rightarrow> lay) | None \<Rightarrow> lay)"

lemma lay_merge_ok:
  assumes pools: "pools_ok P c" and ok: "layout_ok P lay" and b: "lay b = Some (s, f, p)" "s \<noteq> 0"
    and n: "lay (b + s + 8) = Some (sn, True, pn)"
  shows "layout_ok P (lay_merge b lay)"
proof -
  define n m where "n = b + s + 8" and "m = n + sn + 8"
  have n: "lay n = Some (sn, True, pn)" using n by (simp add: n_def)
  have sn: "sn \<noteq> 0" using layoutD(4) [OF ok n] by auto
  obtain sm fm where m: "lay m = Some (sm, fm, True)" using layoutD(6) [OF ok n sn] by (auto simp: m_def)
  define L where "L = lay_merge b lay"
  have L: "L = lay(n := None, b \<mapsto> (s + sn + 8, f, p), m \<mapsto> (sm, fm, f))"
    using b n m by (simp add: L_def lay_merge_def n_def m_def)
  have bn: "b < n" "n < m" and bm: "b + (s + sn + 8) + 8 = m" by (auto simp: n_def m_def)
  have cases: "x = b \<and> sx = s + sn + 8 \<and> fx = f \<and> px = p \<or> x = m \<and> sx = sm \<and> fx = fm \<and> px = f \<or>
      x \<notin> {b, n, m} \<and> lay x = Some (sx, fx, px)"
    if "L x = Some (sx, fx, px)" for x sx fx px
    using that bn by (auto simp: L split: if_splits)
  have other: "x + sx + 8 \<noteq> n" if "lay x = Some (sx, fx, px)" "x \<noteq> b" for x sx fx px
    using next_unique [OF ok that(1) b(1)] that(2) by (auto simp: n_def)
  have other': "x + sx + 8 \<noteq> m" if "lay x = Some (sx, fx, px)" "x \<noteq> n" for x sx fx px
    using next_unique [OF ok that(1) n] that(2) by (auto simp: m_def)
  note db = layoutD [OF ok b(1)] and dn = layoutD [OF ok n] and dm = layoutD [OF ok m]
  have sizes: "24 \<le> s" "24 \<le> sn" using db(5) dn(5) b(2) sn by auto
  note pool = in_pool_join [OF pools db(3) dn(3) [unfolded n_def] b(2) sn]
  have prev_keep: "has_prev L x" if "has_prev lay x" "x \<noteq> n" "x \<noteq> m" for x
  proof -
    obtain b0 s0 p0 where 0: "lay b0 = Some (s0, True, p0)" "x = b0 + s0 + 8" using has_prevE [OF \<open>has_prev lay x\<close>] .
    then have "b0 \<noteq> b" "b0 \<noteq> n" using that(2,3) b n by (auto simp: n_def m_def)
    then show ?thesis using 0 m has_prevI [of L b0 s0 _ x] by (cases "b0 = m") (auto simp: L)
  qed
  have "block_ok P L x sx fx px" if x: "L x = Some (sx, fx, px)" for x sx fx px
    using cases [OF x]
  proof (elim disjE conjE)
    assume "x = b" "sx = s + sn + 8" "fx = f" "px = p"
    then show ?thesis using db dn pool bn bm prev_keep [of b] sizes
      by (intro block_okI) (auto simp: L has_next_def has_prev_def)
  next
    assume "x = m" "sx = sm" "fx = fm" "px = f"
    then show ?thesis using dm bn bm other [OF m] other' [OF m]
      by (intro block_okI) (auto simp: L has_next_def intro!: has_prevI [of _ b "s + sn + 8" p])
  next
    assume *: "x \<notin> {b, n, m}" "lay x = Some (sx, fx, px)"
    note d = layoutD [OF ok *(2)]
    show ?thesis
    proof (rule block_okI)
      show "has_next L (x + sx + 8) fx" if "sx \<noteq> 0"
        using that d(6) other [OF *(2)] other' [OF *(2)] * b by (auto simp: L has_next_def)
      show "has_prev L x" if px using prev_keep [of x] d(7) that * by (auto simp: has_prev_def)
    qed (use d in auto)
  qed
  moreover have "spaced L"
    unfolding spaced_def
  proof (intro allI impI)
    fix x sx fx px y v assume x: "L x = Some (sx, fx, px)" and y: "L y = Some v" and "x < y"
    obtain sy fy py where v: "v = (sy, fy, py)" by (cases v)
    have old: "\<exists>v. lay y = Some v" "y \<noteq> n" using cases [OF y [unfolded v]] bn b m by auto
    then have "y = n \<or> n < y" if "b < y" using that layout_spaced [OF ok b(1), of y] by (auto simp: n_def)
    then show "x + sx + 8 \<le> y"
      using cases [OF x] old \<open>x < y\<close> bm layout_spaced [OF ok n, of y] layout_spaced [OF ok m, of y]
        layout_spaced [OF ok, of x sx fx px y]
      by (auto simp: m_def)
  qed
  moreover have "anchored P L"
  proof (rule anchoredI [OF ok])
    fix x v assume "x \<in> fst ` P" "lay x = Some v"
    then have "x \<noteq> n" using next_not_first [OF pools ok b] unfolding n_def by blast
    then show "L x \<noteq> None" using \<open>lay x = Some v\<close> by (cases v) (simp add: L)
  qed (use b n m sn in \<open>auto simp: L\<close>)
  ultimately show ?thesis unfolding L_def layout_ok_def by blast
qed

section \<open>Chains of free blocks\<close>

text \<open>
  \<open>chain h p xs q\<close> says that the blocks \<open>xs\<close> are linked in both directions, with \<open>p\<close> before the first
  and \<open>q\<close> behind the last.
\<close>

fun chain :: "(nat \<Rightarrow> nat) \<Rightarrow> nat \<Rightarrow> nat list \<Rightarrow> nat \<Rightarrow> bool" where
  "chain h p [] q \<longleftrightarrow> True"
| "chain h p (x # xs) q \<longleftrightarrow> h (x + 24) = p \<and> h (x + 16) = hd (xs @ [q]) \<and> chain h x xs q"

lemma chain_append:
  "chain h p (xs @ ys) q \<longleftrightarrow> chain h p xs (hd (ys @ [q])) \<and> chain h (last (p # xs)) ys q"
proof (induction xs arbitrary: p)
  case (Cons x xs)
  then show ?case by (cases xs) auto
qed simp

lemma chain_cong:
  assumes "\<And>x. x \<in> set xs \<Longrightarrow> h' (x + 16) = h (x + 16) \<and> h' (x + 24) = h (x + 24)"
  shows "chain h' p xs q = chain h p xs q"
  using assms by (induction xs arbitrary: p) auto

definition no_overlap :: "nat set \<Rightarrow> bool" where
  "no_overlap A \<longleftrightarrow> (\<forall>x \<in> A. \<forall>y \<in> A. x \<noteq> y + 8)"

lemma chain_new_end:
  assumes "chain h p xs b" and "distinct xs" and "no_overlap (set xs)" and "xs \<noteq> []"
  shows "chain (h(last xs + 16 := q)) p xs q"
proof -
  obtain ys x where xs: "xs = ys @ [x]" using assms(4) by (cases xs rule: rev_cases) auto
  have "chain (h(x + 16 := q)) p ys x \<longleftrightarrow> chain h p ys x"
    using assms(2,3) by (intro chain_cong) (auto simp: xs no_overlap_def)
  then show ?thesis using assms(1) by (auto simp: xs chain_append)
qed

lemma chain_new_start:
  assumes "chain h b xs q" and "distinct xs" and "no_overlap (set xs)" and "xs \<noteq> []"
  shows "chain (h(hd xs + 24 := p)) p xs q"
proof -
  obtain x ys where xs: "xs = x # ys" using assms(4) by (cases xs) auto
  have "chain (h(x + 24 := p)) x ys q \<longleftrightarrow> chain h x ys q"
    using assms(2,3) by (intro chain_cong) (auto simp: xs no_overlap_def)
  then show ?thesis using assms(1) by (auto simp: xs)
qed

lemma chain_remove:
  assumes "chain h z (us @ b # vs) z" and "distinct (us @ b # vs)" and "z \<notin> set (us @ b # vs)"
    and "no_overlap (set (z # us @ b # vs))"
  shows "h (b + 24) = last (z # us)" "h (b + 16) = hd (vs @ [z])"
    "chain (h(hd (vs @ [z]) + 24 := last (z # us), last (z # us) + 16 := hd (vs @ [z]))) z (us @ vs) z"
proof -
  have c: "chain h z us b" "h (b + 24) = last (z # us)" "h (b + 16) = hd (vs @ [z])" "chain h b vs z"
    using assms(1) by (auto simp: chain_append)
  then show "h (b + 24) = last (z # us)" "h (b + 16) = hd (vs @ [z])" by auto
  define h1 where "h1 = h(hd (vs @ [z]) + 24 := last (z # us))"
  define h2 where "h2 = h1(last (z # us) + 16 := hd (vs @ [z]))"
  have no: "y + 8 \<notin> set (z # us @ vs)" "8 + y \<notin> set (z # us @ vs)" if "y \<in> set (z # us @ vs)" for y
    using assms(4) that by (auto simp: no_overlap_def add.commute [of 8])
  have hd: "hd (vs @ [z]) \<in> set (z # vs)" and last: "last (z # us) \<in> set (z # us)"
    by (cases vs; simp) (auto simp: last_in_set)
  have subs: "no_overlap (set us)" "no_overlap (set vs)" using assms(4) by (auto simp: no_overlap_def)
  have "chain h1 (last (z # us)) vs z"
    using chain_new_start [OF c(4) _ subs(2)] assms(2) by (cases vs) (auto simp: h1_def)
  moreover have "chain h1 z us b"
    using c(1) hd assms(2,3) no by (subst chain_cong [where h = h]) (auto simp: h1_def)
  then have "chain h2 z us (hd (vs @ [z]))"
    using chain_new_end [OF _ _ subs(1), of h1 z b] assms(2) by (cases "us = []") (auto simp: h2_def)
  moreover have "chain h2 (last (z # us)) vs z \<longleftrightarrow> chain h1 (last (z # us)) vs z"
  proof (rule chain_cong)
    fix x assume "x \<in> set vs"
    then have "x \<noteq> last (z # us)" "x + 8 \<noteq> last (z # us)" using last assms(2,3) no(1) [of x] by auto
    then show "h2 (x + 16) = h1 (x + 16) \<and> h2 (x + 24) = h1 (x + 24)"
      unfolding h2_def by (auto simp del: last.simps)
  qed
  ultimately show "chain (h(hd (vs @ [z]) + 24 := last (z # us), last (z # us) + 16 := hd (vs @ [z]))) z (us @ vs) z"
    by (simp add: chain_append h1_def h2_def)
qed

lemma chain_insert:
  assumes "chain h z xs z" and "distinct (b # xs)" and "z \<notin> set (b # xs)" and "no_overlap (set (z # b # xs))"
  shows "chain (h(b + 16 := hd (xs @ [z]), b + 24 := z, hd (xs @ [z]) + 24 := b)) z (b # xs) z"
proof -
  define y where "y = hd (xs @ [z])"
  define h1 where "h1 = h(b + 16 := y, b + 24 := z)"
  have y: "y \<in> set (z # xs)" by (cases xs) (auto simp: y_def)
  have "chain h1 z xs z" using assms by (subst chain_cong [where h = h]) (auto simp: h1_def no_overlap_def)
  then have "chain (h1(y + 24 := b)) b xs z"
    using chain_new_start [of h1 z xs z b] assms(2,4) by (cases xs) (auto simp: y_def no_overlap_def)
  moreover have "(h1(y + 24 := b)) (b + 24) = z" "(h1(y + 24 := b)) (b + 16) = y"
    using assms(2,3,4) y by (auto simp: h1_def no_overlap_def)
  ultimately show ?thesis by (simp add: h1_def y_def)
qed

end
