(* ===== verification/Tlsf_Heap.thy ===== *)
theory Tlsf_Heap
  imports Tlsf_Layout
begin

text \<open>
  The invariant of the allocator and what each operation on blocks does to it. The headers in memory
  agree with a layout, the free lists hold the free blocks by size class, and the bitmaps tell which
  lists are not empty. Every operation succeeds, follows its pure counterpart on the layout and writes
  neither to the data of a used block nor outside of the pools.
\<close>

section \<open>The invariant\<close>

text \<open>
  \<open>linked lay X t fls\<close>: the free lists of the state are \<open>fls\<close> and contain the free blocks of the layout
  except for \<open>X\<close>, the blocks that the running operation has taken out or not yet put in.
\<close>

definition linked :: "layout \<Rightarrow> nat set \<Rightarrow> tlsf \<Rightarrow> (nat \<Rightarrow> nat \<Rightarrow> nat list) \<Rightarrow> bool" where
  "linked lay X t fls \<longleftrightarrow>
    (\<forall>i j. i < 25 \<longrightarrow> j < 32 \<longrightarrow> blocks t i j = hd (fls i j @ [control t])) \<and>
    (\<forall>i j. i < 25 \<longrightarrow> bit (sl_bitmap t i) j = (fls i j \<noteq> [])) \<and>
    (\<forall>i. bit (fl_bitmap t) i = (\<exists>j. fls i j \<noteq> [])) \<and>
    (\<forall>i j. chain (heap t) (control t) (fls i j) (control t) \<and> distinct (fls i j)) \<and>
    (\<forall>i j b. b \<in> set (fls i j) \<longleftrightarrow>
       b \<notin> X \<and> (\<exists>s p. lay b = Some (s, True, p) \<and> mapping_insert s = (int i, int j)))"

definition heap_inv :: "(nat \<times> nat) set \<Rightarrow> layout \<Rightarrow> nat set \<Rightarrow> tlsf \<Rightarrow> bool" where
  "heap_inv P lay X t \<longleftrightarrow> pools_ok P (control t) \<and> layout_ok P lay \<and> headers lay (heap t) \<and> (\<exists>fls. linked lay X t fls)"

text \<open>
  The cells that no operation may write: the data of used blocks and everything outside of the pools
  and the null block.
\<close>

definition outside :: "(nat \<times> nat) set \<Rightarrow> nat \<Rightarrow> nat set" where
  "outside P c = {a. \<not> (c \<le> a \<and> a < c + 32) \<and> (\<forall>lo hi. (lo, hi) \<in> P \<longrightarrow> \<not> (lo + 8 \<le> a \<and> a < hi + 16))}"

definition used :: "layout \<Rightarrow> (nat \<times> nat) set" where
  "used lay = {(x, s). 0 < s \<and> (\<exists>p. lay x = Some (s, False, p))}"

definition used_data :: "layout \<Rightarrow> nat set" where
  "used_data lay = {a. \<exists>x s. (x, s) \<in> used lay \<and> x + 16 \<le> a \<and> a < x + 16 + s}"

definition keeps :: "(nat \<times> nat) set \<Rightarrow> layout \<Rightarrow> tlsf \<Rightarrow> tlsf \<Rightarrow> bool" where
  "keeps P lay t t' \<longleftrightarrow> control t' = control t \<and>
    (\<forall>a \<in> used_data lay \<union> outside P (control t). heap t' a = heap t a)"

section \<open>Cells of blocks\<close>

text \<open>The cells of a block reach from its size word to the end of its data.\<close>

definition in_block :: "nat \<Rightarrow> nat \<Rightarrow> nat \<Rightarrow> bool" where
  "in_block x s a \<longleftrightarrow> x + 8 \<le> a \<and> a < x + 16 + s"

lemma in_block_unique:
  assumes "layout_ok P lay" and "lay x = Some (s, f, p)" and "lay y = Some (s', f', p')"
    and "in_block x s a" and "in_block y s' a"
  shows "x = y"
  using layout_spaced [OF assms(1,2,3)] layout_spaced [OF assms(1,3,2)] assms(4,5)
  unfolding in_block_def by linarith

lemma in_block_control:
  assumes "pools_ok P c" and "layout_ok P lay" and "lay x = Some (s, f, p)" and "in_block x s a"
  shows "\<not> (c \<le> a \<and> a < c + 32)"
  using in_pool_range(3) [OF assms(1) layoutD(3) [OF assms(2,3)]] assms(4) unfolding in_block_def by linarith

lemma in_block_not_outside:
  assumes "layout_ok P lay" and "lay x = Some (s, f, p)" and "in_block x s a"
  shows "a \<notin> outside P c"
proof -
  obtain lo hi where "(lo, hi) \<in> P" "lo \<le> x" "if s = 0 then x = hi else x + s + 8 \<le> hi"
    using layoutD(3) [OF assms(1,2)] unfolding in_pool_def by blast
  then have "(lo, hi) \<in> P" "lo + 8 \<le> a" "a < hi + 16"
    using assms(3) by (auto simp: in_block_def split: if_splits)
  then show ?thesis unfolding outside_def by blast
qed

lemma writable:
  assumes "layout_ok P lay" and "lay x = Some (s, f, p)" and "in_block x s a" and "f \<or> a = x + 8"
  shows "a \<notin> used_data lay \<union> outside P c"
proof -
  have "a \<notin> used_data lay"
  proof
    assume "a \<in> used_data lay"
    then obtain y s' p' where y: "lay y = Some (s', False, p')" "y + 16 \<le> a" "a < y + 16 + s'"
      unfolding used_data_def used_def by blast
    then have "x = y" using in_block_unique [OF assms(1,2) y(1) assms(3)] by (simp add: in_block_def)
    then show False using assms(2,4) y by auto
  qed
  then show ?thesis using in_block_not_outside [OF assms(1-3)] by simp
qed

lemma control_writable:
  assumes "pools_ok P c" and "layout_ok P lay" and "c \<le> a" and "a < c + 32"
  shows "a \<notin> used_data lay \<union> outside P c"
proof -
  have "a \<notin> used_data lay"
  proof
    assume "a \<in> used_data lay"
    then obtain y s' p' where y: "lay y = Some (s', False, p')" "y + 16 \<le> a" "a < y + 16 + s'"
      unfolding used_data_def used_def by blast
    then show False using in_block_control [OF assms(1,2) y(1), of a] assms(3,4) by (simp add: in_block_def)
  qed
  then show ?thesis using assms(3,4) by (simp add: outside_def)
qed

lemma keeps_refl: "keeps P lay t t"
  by (simp add: keeps_def)

lemma keeps_trans:
  "keeps P lay t t' \<Longrightarrow> keeps P lay' t' t'' \<Longrightarrow> used_data lay \<subseteq> used_data lay' \<Longrightarrow> keeps P lay t t''"
  unfolding keeps_def by (metis UnCI UnE subsetD)

text \<open>The links of a free block do not take part in the headers.\<close>

lemma headers_cong:
  assumes "headers lay h" and "\<And>b s f p. lay b = Some (s, f, p) \<Longrightarrow> h' (b + 8) = h (b + 8) \<and> (f \<longrightarrow> h' (b + s + 8) = h (b + s + 8))"
  shows "headers lay h'"
  using assms unfolding headers_def by metis

definition link_cell :: "layout \<Rightarrow> nat \<Rightarrow> nat \<Rightarrow> bool" where
  "link_cell lay c a \<longleftrightarrow> (\<exists>x. (a = x + 16 \<or> a = x + 24) \<and> (x = c \<or> (\<exists>s p. lay x = Some (s, True, p))))"

lemma headers_link:
  assumes "pools_ok P c" and "layout_ok P lay" and "headers lay h" and "link_cell lay c a"
  shows "headers lay (h(a := v))"
proof -
  have ne: "a \<noteq> b + 8 \<and> (f \<longrightarrow> a \<noteq> b + s + 8)" if b: "lay b = Some (s, f, p)" for b s f p
  proof -
    have in_b: "in_block b s (b + 8)" "f \<longrightarrow> in_block b s (b + s + 8)" by (auto simp: in_block_def)
    obtain x where x: "a = x + 16 \<or> a = x + 24" "x = c \<or> (\<exists>s p. lay x = Some (s, True, p))"
      using assms(4) unfolding link_cell_def by blast
    show ?thesis
    proof (cases "x = c")
      case True
      then have "\<not> in_block b s a" using in_block_control [OF assms(1,2) b, of a] x(1) by auto
      then show ?thesis using in_b by auto
    next
      case False
      then obtain s' p' where x': "lay x = Some (s', True, p')" using x(2) by blast
      have "24 \<le> s'" using layoutD(4,5) [OF assms(2) x'] by blast
      moreover from this have "in_block x s' a" using x(1) by (auto simp: in_block_def)
      ultimately show ?thesis
        using in_block_unique [OF assms(2) b x', of a] in_b x(1) b x' by (cases "x = b") auto
    qed
  qed
  show ?thesis
  proof (rule headers_cong [OF assms(3)])
    fix b s f p assume "lay b = Some (s, f, p)"
    from ne [OF this] show "(h(a := v)) (b + 8) = h (b + 8) \<and> (f \<longrightarrow> (h(a := v)) (b + s + 8) = h (b + s + 8))" by auto
  qed
qed

lemma link_cell_writable:
  assumes "pools_ok P c" and "layout_ok P lay" and "link_cell lay c a"
  shows "a \<notin> used_data lay \<union> outside P c"
proof -
  obtain x where x: "a = x + 16 \<or> a = x + 24" "x = c \<or> (\<exists>s p. lay x = Some (s, True, p))"
    using assms(3) unfolding link_cell_def by blast
  show ?thesis
  proof (cases "x = c")
    case True
    then have "c \<le> a" "a < c + 32" using x(1) by auto
    then show ?thesis by (rule control_writable [OF assms(1,2)])
  next
    case False
    then obtain s p where x': "lay x = Some (s, True, p)" using x(2) by blast
    have "24 \<le> s" using layoutD(4,5) [OF assms(2) x'] by blast
    then have "in_block x s a" using x(1) by (auto simp: in_block_def)
    then show ?thesis using writable [OF assms(2) x'] by blast
  qed
qed

section \<open>Reading headers\<close>

lemma header_word:
  assumes "heap t (b + 8) = hdr_val s f p" and "8 dvd s" and "b + s + 48 < 2 ^ 63"
  shows "block_size b t = s" "block_is_free b t = f" "block_is_prev_free b t = p" "block_is_last b t \<longleftrightarrow> s = 0"
    "s \<noteq> 0 \<Longrightarrow> block_next b t = Inr (b + s + 8)" "block_to_ptr b = b + 16"
    "block_set_free b t = poke (b + 8) (hdr_val s True p) t" "block_set_used b t = poke (b + 8) (hdr_val s False p) t"
    "block_set_prev_free b t = poke (b + 8) (hdr_val s f True) t" "block_set_prev_used b t = poke (b + 8) (hdr_val s f False) t"
proof -
  note w = assms(1)
  have "4 dvd s" "s < 2 ^ 63" using assms(2,3) by (auto intro: dvd_trans [of 4 8 s])
  note v = hdr_val_ops [OF this]
  show s: "block_size b t = s" unfolding block_size_def w by (rule v)
  show "block_is_free b t = f" unfolding block_is_free_def w by (rule v)
  show "block_is_prev_free b t = p" unfolding block_is_prev_free_def w by (rule v)
  show l: "block_is_last b t \<longleftrightarrow> s = 0" by (simp add: block_is_last_def s)
  show p: "block_to_ptr b = b + 16" using assms(3) by (simp add: block_to_ptr_def)
  show "block_next b t = Inr (b + s + 8)" if "s \<noteq> 0"
  proof -
    have "8 \<le> s" using that assms(2) by (auto elim: dvdE)
    then show ?thesis using that assms(3) by (simp add: block_next_def l s p offset_to_block_def)
  qed
  show "block_set_free b t = poke (b + 8) (hdr_val s True p) t" "block_set_used b t = poke (b + 8) (hdr_val s False p) t"
    "block_set_prev_free b t = poke (b + 8) (hdr_val s f True) t" "block_set_prev_used b t = poke (b + 8) (hdr_val s f False) t"
    by (simp_all only: block_set_free_def block_set_used_def block_set_prev_free_def block_set_prev_used_def w v)
qed

lemma read_header:
  assumes "heap_inv P lay X t" and "lay b = Some (s, f, p)"
  shows "block_size b t = s" "block_is_free b t = f" "block_is_prev_free b t = p" "block_is_last b t \<longleftrightarrow> s = 0"
    "s \<noteq> 0 \<Longrightarrow> block_next b t = Inr (b + s + 8)" "heap t (b + 8) = hdr_val s f p"
    "block_to_ptr b = b + 16" "block_from_ptr (b + 16) = b"
proof -
  have ok: "pools_ok P (control t)" "layout_ok P lay" and h: "headers lay (heap t)" using assms(1) by (auto simp: heap_inv_def)
  note d = layoutD [OF ok(2) assms(2)] and r = in_pool_range [OF ok(1) layoutD(3) [OF ok(2) assms(2)]]
  show w: "heap t (b + 8) = hdr_val s f p" using h assms(2) unfolding headers_def by blast
  note v = header_word [OF w d(2) r(2)]
  show "block_size b t = s" "block_is_free b t = f" "block_is_prev_free b t = p" "block_is_last b t \<longleftrightarrow> s = 0"
    "s \<noteq> 0 \<Longrightarrow> block_next b t = Inr (b + s + 8)" "block_to_ptr b = b + 16" by (fact v)+
  show "block_from_ptr (b + 16) = b" using r(2) by (simp add: block_from_ptr_def)
qed

lemma class_of_block:
  assumes "heap_inv P lay X t" and "lay b = Some (s, f, p)"
  obtains i j where "mapping_insert s = (int i, int j)" "i < 25" "j < 32"
proof -
  have "s < 2 ^ 32" using in_pool_range(4) [of P "control t" b s] layoutD(3) [of P lay b s f p] assms by (auto simp: heap_inv_def)
  moreover obtain fl sl where m: "mapping_insert s = (fl, sl)" by (cases "mapping_insert s")
  ultimately have "0 \<le> fl" "fl < 25" "0 \<le> sl" "sl < 32" using mapping_insert_bounds [of s fl sl] by auto
  then show thesis using that [of "nat fl" "nat sl"] m by simp
qed

lemma in_arrays_of_nat [simp]: "i < 25 \<Longrightarrow> j < 32 \<Longrightarrow> check_index (int i) (int j) = Inr ()"
  by (simp add: check_index_def in_arrays_def)

lemma poke_simps [simp]:
  "heap (poke a v t) = (heap t)(a := v)" "control (poke a v t) = control t" "fl_bitmap (poke a v t) = fl_bitmap t"
  "sl_bitmap (poke a v t) = sl_bitmap t" "blocks (poke a v t) = blocks t"
  by (simp_all add: poke_def)

lemma set_head_simps [simp]:
  "heap (set_head i j b t) = heap t" "control (set_head i j b t) = control t" "fl_bitmap (set_head i j b t) = fl_bitmap t"
  "sl_bitmap (set_head i j b t) = sl_bitmap t"
  "blocks (set_head i j b t) = (blocks t)(nat i := (blocks t (nat i))(nat j := b))"
  by (simp_all add: set_head_def)

lemma set_sl_bitmap_simps [simp]:
  "heap (set_sl_bitmap i w t) = heap t" "control (set_sl_bitmap i w t) = control t"
  "fl_bitmap (set_sl_bitmap i w t) = fl_bitmap t" "blocks (set_sl_bitmap i w t) = blocks t"
  "sl_bitmap (set_sl_bitmap i w t) = (sl_bitmap t)(nat i := w)"
  by (simp_all add: set_sl_bitmap_def)

lemma bit_clear: "bit (w AND NOT (push_bit j 1)) k \<longleftrightarrow> bit w k \<and> k \<noteq> j" for w :: "32 word"
  using bit_imp_le_length [of w k] by (auto simp: bit_simps)

lemma bit_mark: "j < 32 \<Longrightarrow> bit (w OR push_bit j 1) k \<longleftrightarrow> bit w k \<or> k = j" for w :: "32 word"
  by (auto simp: bit_simps)

lemma word_zero_iff_bits: "w = 0 \<longleftrightarrow> (\<forall>k. \<not> bit w k)" for w :: "32 word"
  by (metis bit_0_eq bit_word_eqI bot_apply bot_bool_def)

section \<open>Free lists\<close>

lemma listed_nodes:
  assumes "pools_ok P c" and "layout_ok P lay" and "\<And>x. x \<in> set xs \<Longrightarrow> \<exists>s p. lay x = Some (s, True, p)"
  shows "c \<notin> set xs" "no_overlap (set (c # xs))" "0 \<notin> set (c # xs)"
proof -
  have sp: "x + 24 \<le> c \<or> c + 24 \<le> x" "0 < x" if "x \<in> set xs" for x
  proof -
    obtain s p where x: "lay x = Some (s, True, p)" using assms(3) \<open>x \<in> set xs\<close> by blast
    have "24 \<le> s" using layoutD(4,5) [OF assms(2) x] by blast
    then show "x + 24 \<le> c \<or> c + 24 \<le> x" "0 < x" using in_pool_range [OF assms(1) layoutD(3) [OF assms(2) x]] by auto
  qed
  have xy: "x \<noteq> y + 8" if "x \<in> set xs" "y \<in> set xs" for x y
  proof -
    obtain s p s' p' where x: "lay x = Some (s, True, p)" "lay y = Some (s', True, p')" using assms(3) \<open>x \<in> set xs\<close> \<open>y \<in> set xs\<close> by meson
    have "24 \<le> s'" using layoutD(4,5) [OF assms(2) x(2)] by blast
    then show ?thesis using layout_spaced [OF assms(2) x(2,1)] by auto
  qed
  show "c \<notin> set xs" using sp(1) [of c] by auto
  show "no_overlap (set (c # xs))" using sp(1) xy by (fastforce simp: no_overlap_def)
  show "0 \<notin> set (c # xs)" using sp(2) [of 0] assms(1) by (auto simp: pools_ok_def)
qed

definition set_list :: "nat \<Rightarrow> nat \<Rightarrow> nat list \<Rightarrow> (nat \<Rightarrow> nat \<Rightarrow> nat list) \<Rightarrow> nat \<Rightarrow> nat \<Rightarrow> nat list" where
  "set_list i j xs fls = fls(i := (fls i)(j := xs))"

lemma set_list_apply: "set_list i j xs fls i' j' = (if i' = i \<and> j' = j then xs else fls i' j')"
  by (simp add: set_list_def)

lemma chain_frame:
  assumes "pools_ok P c" and "layout_ok P lay" and "\<And>x. x \<in> set xs \<Longrightarrow> \<exists>s p. lay x = Some (s, True, p)"
    and "\<And>y. y \<in> set ys \<Longrightarrow> \<exists>s p. lay y = Some (s, True, p)" and "set xs \<inter> set ys = {}"
    and "\<And>a. h' a \<noteq> h a \<Longrightarrow> \<exists>y \<in> set (c # ys). a = y + 16 \<or> a = y + 24"
  shows "chain h' c xs c = chain h c xs c"
proof (rule chain_cong)
  fix x assume x: "x \<in> set xs"
  have "\<exists>s p. lay y = Some (s, True, p)" if "y \<in> set (xs @ ys)" for y using assms(3,4) that by auto
  note n = listed_nodes [OF assms(1,2), of "xs @ ys", OF this]
  have "x \<noteq> y" "x \<noteq> y + 8" "y \<noteq> x + 8" if "y \<in> set (c # ys)" for y
    using n(1,2) x that assms(5) by (auto simp: no_overlap_def)
  then show "h' (x + 16) = h (x + 16) \<and> h' (x + 24) = h (x + 24)"
    using assms(6) [of "x + 16"] assms(6) [of "x + 24"] by force
qed

text \<open>Replacing the contents of one free list, where a block \<open>b\<close> of that class enters or leaves.\<close>

lemma relink:
  assumes ok: "pools_ok P (control t)" "layout_ok P lay" and fls: "linked lay X t fls"
    and b: "lay b = Some (s, True, p)" "mapping_insert s = (int i, int j)" "i < 25" "j < 32"
    and X: "\<And>x. x \<noteq> b \<Longrightarrow> x \<in> X' \<longleftrightarrow> x \<in> X"
    and ys: "chain (heap t') (control t) ys (control t)" "distinct ys"
      "\<And>x. x \<in> set ys \<longleftrightarrow> x \<notin> X' \<and> (\<exists>s p. lay x = Some (s, True, p) \<and> mapping_insert s = (int i, int j))"
    and t': "control t' = control t"
      "\<And>a. heap t' a \<noteq> heap t a \<Longrightarrow> \<exists>y \<in> set (control t # b # fls i j). a = y + 16 \<or> a = y + 24"
      "\<And>i' j'. i' < 25 \<Longrightarrow> j' < 32 \<Longrightarrow> blocks t' i' j' = (if i' = i \<and> j' = j then hd (ys @ [control t]) else blocks t i' j')"
      "\<And>i' j'. i' < 25 \<Longrightarrow> bit (sl_bitmap t' i') j' = (if i' = i \<and> j' = j then ys \<noteq> [] else bit (sl_bitmap t i') j')"
      "\<And>i'. bit (fl_bitmap t') i' = (if i' = i then sl_bitmap t' i \<noteq> 0 else bit (fl_bitmap t) i')"
  shows "linked lay X' t' (set_list i j ys fls)"
proof -
  define z where "z = control t"
  have mem: "x \<in> set (fls i' j') \<longleftrightarrow> x \<notin> X \<and> (\<exists>s p. lay x = Some (s, True, p) \<and> mapping_insert s = (int i', int j'))" for x i' j'
    using fls unfolding linked_def by blast
  have L: "blocks t i' j' = hd (fls i' j' @ [z])" "bit (sl_bitmap t i') j' = (fls i' j' \<noteq> [])" if "i' < 25" "j' < 32" for i' j'
    using fls that unfolding linked_def z_def by auto
  have L2: "bit (sl_bitmap t i') j' = (fls i' j' \<noteq> [])" if "i' < 25" for i' j' using fls that unfolding linked_def by auto
  have L3: "bit (fl_bitmap t) i' = (\<exists>j'. fls i' j' \<noteq> [])" for i' using fls unfolding linked_def by auto
  have L4: "chain (heap t) z (fls i' j') z" "distinct (fls i' j')" for i' j' using fls unfolding linked_def z_def by auto
  have chains: "chain (heap t') z (set_list i j ys fls i' j') z \<and> distinct (set_list i j ys fls i' j')" for i' j'
  proof (cases "i' = i \<and> j' = j")
    case True
    then show ?thesis using ys by (simp add: set_list_apply z_def)
  next
    case False
    have "chain (heap t') z (fls i' j') z = chain (heap t) z (fls i' j') z"
    proof (rule chain_frame [OF ok(1,2) [folded z_def], where ys = "b # fls i j"])
      show "set (fls i' j') \<inter> set (b # fls i j) = {}" using mem b False by auto
      show "\<exists>y \<in> set (z # b # fls i j). a = y + 16 \<or> a = y + 24" if "heap t' a \<noteq> heap t a" for a
        using t'(2) [OF that] by (simp add: z_def)
    qed (use mem b(1) in auto)
    then show ?thesis using L4 False by (auto simp: set_list_apply)
  qed
  show ?thesis
    unfolding linked_def t'(1)
  proof (intro conjI allI impI)
    fix i' j' assume "i' < (25::nat)" "j' < (32::nat)"
    then show "blocks t' i' j' = hd (set_list i j ys fls i' j' @ [control t])" using t'(3) L(1) by (simp add: set_list_apply z_def)
  next
    fix i' j' assume "i' < (25::nat)"
    then show "bit (sl_bitmap t' i') j' = (set_list i j ys fls i' j' \<noteq> [])" using t'(4) L2 by (simp add: set_list_apply)
  next
    fix i'
    have "(sl_bitmap t' i \<noteq> 0) = (\<exists>j'. set_list i j ys fls i j' \<noteq> [])"
      using t'(4) [OF b(3)] L2 [OF b(3)] by (auto simp: word_zero_iff_bits set_list_apply)
    then show "bit (fl_bitmap t') i' = (\<exists>j'. set_list i j ys fls i' j' \<noteq> [])"
      using t'(5) L3 by (cases "i' = i") (simp_all add: set_list_apply)
  next
    fix i' j' show "chain (heap t') (control t) (set_list i j ys fls i' j') (control t)" "distinct (set_list i j ys fls i' j')"
      using chains by (simp_all add: z_def)
  next
    fix i' j' x
    have "x \<in> set (fls i' j') \<longleftrightarrow> x \<notin> X' \<and> (\<exists>s p. lay x = Some (s, True, p) \<and> mapping_insert s = (int i', int j'))"
      if "\<not> (i' = i \<and> j' = j)" using mem X b(1,2) that by (cases "x = b") auto
    then show "x \<in> set (set_list i j ys fls i' j') \<longleftrightarrow>
        x \<notin> X' \<and> (\<exists>s p. lay x = Some (s, True, p) \<and> mapping_insert s = (int i', int j'))"
      using ys(3) by (auto simp: set_list_apply)
  qed
qed

lemma remove_free_block_ok:
  assumes inv: "heap_inv P lay X t" and b: "lay b = Some (s, True, p)" "b \<notin> X" "mapping_insert s = (fl, sl)"
  shows "\<exists>t'. remove_free_block b fl sl t = Inr t' \<and> heap_inv P lay (insert b X) t' \<and> keeps P lay t t'"
proof -
  have ok: "pools_ok P (control t)" "layout_ok P lay" "headers lay (heap t)" using inv by (auto simp: heap_inv_def)
  obtain fls where fls: "linked lay X t fls" using inv by (auto simp: heap_inv_def)
  obtain i j where ij: "mapping_insert s = (int i, int j)" "i < 25" "j < 32" by (rule class_of_block [OF inv b(1)])
  have flsl: "fl = int i" "sl = int j" using ij b(3) by auto
  have mem: "x \<in> set (fls i j) \<longleftrightarrow> x \<notin> X \<and> (\<exists>s p. lay x = Some (s, True, p) \<and> mapping_insert s = (int i, int j))" for x
    using fls unfolding linked_def by blast
  have "b \<in> set (fls i j)" using mem ij b by auto
  then obtain us vs where uv: "fls i j = us @ b # vs" by (meson split_list)
  define z nx pv where "z = control t" and "nx = hd (vs @ [z])" and "pv = last (z # us)"
  have nodes: "\<exists>s p. lay x = Some (s, True, p)" if "x \<in> set (us @ b # vs)" for x
    using that mem [of x] by (auto simp: uv)
  have list: "chain (heap t) z (us @ b # vs) z" "distinct (us @ b # vs)"
    using fls uv unfolding linked_def z_def by metis+
  note ln = listed_nodes [OF ok(1,2), of "us @ b # vs", OF nodes, folded z_def]
  note rem = chain_remove [OF list ln(1,2), folded nx_def pv_def]
  have nx: "nx \<in> set (z # vs)" and pv: "pv \<in> set (z # us)" by (cases vs; simp add: nx_def) (auto simp: pv_def last_in_set)
  have "nx \<in> set (z # us @ b # vs)" "pv \<in> set (z # us @ b # vs)" using nx pv by auto
  then have nonnull: "nx \<noteq> 0" "pv \<noteq> 0" using ln(3) by metis+
  define h' where "h' = (heap t)(nx + 24 := pv, pv + 16 := nx)"
  have cells: "link_cell lay z (nx + 24)" "link_cell lay z (pv + 16)"
    using nx pv nodes unfolding link_cell_def by (metis Un_iff list.set_intros(2) set_ConsD set_append)+
  have hdr: "headers lay h'" unfolding h'_def
    using headers_link [OF ok(1,2) headers_link [OF ok]] cells by (simp add: z_def)
  have keep: "h' a = heap t a" if "a \<in> used_data lay \<union> outside P z" for a
    using link_cell_writable [OF ok(1,2), folded z_def] cells that unfolding h'_def by (metis fun_upd_other)
  have head: "blocks t i j = b \<longleftrightarrow> us = []" "vs = [] \<longleftrightarrow> nx = z"
    using fls ij list(2) ln(1) by (auto simp: linked_def uv hd_append nx_def z_def neq_Nil_conv split: list.splits)
  have bits: "bit (sl_bitmap t i) k = (fls i k \<noteq> [])" "bit (fl_bitmap t) k = (\<exists>j. fls k j \<noteq> [])" for k
    using fls ij(2) by (auto simp: linked_def)
  define t1 where "t1 = poke (pv + 16) nx (poke (nx + 24) pv t)"
  define t2 where "t2 = (if us = [] then set_head fl sl nx t1 else t1)"
  define w where "w = sl_bitmap t i AND NOT (push_bit j 1)"
  have w: "bit w k \<longleftrightarrow> bit (sl_bitmap t i) k \<and> k \<noteq> j" for k unfolding w_def by (rule bit_clear)
  define t3 where "t3 = (if us = [] \<and> vs = [] then set_sl_bitmap fl w t2 else t2)"
  define t' where "t' = (if us = [] \<and> vs = [] \<and> sl_bitmap t3 i = 0
     then t3\<lparr>fl_bitmap := fl_bitmap t3 AND NOT (push_bit i 1)\<rparr> else t3)"
  have run: "remove_free_block b fl sl t = Inr t'"
    using nonnull rem(1,2) head ij(2,3)
    by (simp add: remove_free_block_def flsl Let_def t'_def t3_def t2_def t1_def z_def w_def)
  have t': "heap t' = h'" "control t' = z"
    by (simp_all add: t'_def t3_def t2_def t1_def h'_def z_def)
  have "linked lay (insert b X) t' (set_list i j (us @ vs) fls)"
  proof (rule relink [OF ok(1,2) fls b(1) ij])
    show "chain (heap t') (control t) (us @ vs) (control t)" using rem(3) t' by (simp add: h'_def z_def)
    show "distinct (us @ vs)" using list(2) by auto
    show "x \<in> set (us @ vs) \<longleftrightarrow> x \<notin> insert b X \<and> (\<exists>s p. lay x = Some (s, True, p) \<and> mapping_insert s = (int i, int j))" for x
      using mem [of x] list(2) by (auto simp: uv)
    show "\<exists>y \<in> set (control t # b # fls i j). a = y + 16 \<or> a = y + 24" if "heap t' a \<noteq> heap t a" for a
      using that nx pv unfolding t' h'_def uv z_def by (auto split: if_splits)
    show "blocks t' i' j' = (if i' = i \<and> j' = j then hd ((us @ vs) @ [control t]) else blocks t i' j')"
      if "i' < 25" "j' < 32" for i' j'
      using fls ij that by (auto simp: t'_def t3_def t2_def t1_def flsl nx_def z_def linked_def uv hd_append)
    show "bit (sl_bitmap t' i') j' = (if i' = i \<and> j' = j then us @ vs \<noteq> [] else bit (sl_bitmap t i') j')"
      if "i' < 25" for i' j'
      using bits(1) [of j] w by (auto simp: t'_def t3_def t2_def t1_def flsl uv)
    have "fls i j \<noteq> []" by (simp add: uv)
    then have "bit (fl_bitmap t) i" "bit (sl_bitmap t i) j" using bits(1) [of j] bits(2) [of i] by blast+
    then show "bit (fl_bitmap t') i' = (if i' = i then sl_bitmap t' i \<noteq> 0 else bit (fl_bitmap t) i')" for i'
      using bit_clear [of "fl_bitmap t" i i'] by (auto simp: t'_def t3_def t2_def t1_def flsl)
  qed (use t' in \<open>auto simp: z_def\<close>)
  then show ?thesis
    using run ok hdr t' keep unfolding heap_inv_def keeps_def z_def by metis
qed

lemma block_remove_ok:
  assumes "heap_inv P lay X t" and "lay b = Some (s, True, p)" and "b \<notin> X"
  shows "\<exists>t'. block_remove b t = Inr t' \<and> heap_inv P lay (insert b X) t' \<and> keeps P lay t t'"
  using remove_free_block_ok [OF assms] read_header(1) [OF assms(1,2)]
  by (cases "mapping_insert s") (simp add: block_remove_def)

lemma align_ptr_block:
  assumes "8 dvd b" and "b + 48 < 2 ^ 63"
  shows "align_ptr (b + 16) ALIGN_SIZE = Inr (b + 16)"
proof -
  have "align_ptr (b + 16) (2 ^ 3) = Inr ((b + 16 + (2 ^ 3 - 1)) div 2 ^ 3 * 2 ^ 3)"
    using assms(2) by (intro align_ptr_pow2) auto
  moreover have "(b + 16 + 7) div 8 * 8 = b + 16" using assms(1) by auto
  ultimately show ?thesis by simp
qed

lemma block_insert_ok:
  assumes inv: "heap_inv P lay (insert b X) t" and b: "lay b = Some (s, True, p)" "b \<notin> X"
  shows "\<exists>t'. block_insert b t = Inr t' \<and> heap_inv P lay X t' \<and> keeps P lay t t'"
proof -
  have ok: "pools_ok P (control t)" "layout_ok P lay" "headers lay (heap t)" using inv by (auto simp: heap_inv_def)
  obtain fls where fls: "linked lay (insert b X) t fls" using inv by (auto simp: heap_inv_def)
  obtain i j where ij: "mapping_insert s = (int i, int j)" "i < 25" "j < 32" by (rule class_of_block [OF inv b(1)])
  have mem: "x \<in> set (fls i j) \<longleftrightarrow> x \<noteq> b \<and> x \<notin> X \<and> (\<exists>s p. lay x = Some (s, True, p) \<and> mapping_insert s = (int i, int j))" for x
    using fls unfolding linked_def by blast
  define z xs where "z = control t" and "xs = fls i j"
  define cur where "cur = hd (xs @ [z])"
  have nodes: "\<exists>s p. lay x = Some (s, True, p)" if "x \<in> set (b # xs)" for x
    using that mem [of x] b by (auto simp: xs_def)
  have list: "chain (heap t) z xs z" "distinct (b # xs)"
    using fls mem [of b] unfolding linked_def z_def xs_def by auto
  note ln = listed_nodes [OF ok(1,2), of "b # xs", OF nodes, folded z_def]
  note ins = chain_insert [OF list ln(1,2), folded cur_def]
  have "cur \<in> set (z # xs)" by (cases xs) (auto simp: cur_def)
  then have cur: "cur \<in> set (z # b # xs)" by auto
  then have nonnull: "cur \<noteq> 0" "b \<noteq> 0" using ln(3) by (metis, auto)
  define h' where "h' = (heap t)(b + 16 := cur, b + 24 := z, cur + 24 := b)"
  have cells: "link_cell lay z (b + 16)" "link_cell lay z (b + 24)" "link_cell lay z (cur + 24)"
    using cur nodes b(1) unfolding link_cell_def by (blast, blast, metis set_ConsD)
  have hdr: "headers lay h'" unfolding h'_def
    using headers_link [OF ok(1,2) headers_link [OF ok(1,2) headers_link [OF ok]]] cells by (simp add: z_def)
  have keep: "h' a = heap t a" if "a \<in> used_data lay \<union> outside P z" for a
    using link_cell_writable [OF ok(1,2), folded z_def] cells that unfolding h'_def by (metis fun_upd_other)
  have head: "blocks t i j = cur" using fls ij by (simp add: linked_def cur_def xs_def z_def)
  have bits: "bit (fl_bitmap t) k = (\<exists>j. fls k j \<noteq> [])" for k using fls by (auto simp: linked_def)
  define w v where "w = sl_bitmap t i OR push_bit j 1" and "v = fl_bitmap t OR push_bit i 1"
  have w: "bit w k \<longleftrightarrow> bit (sl_bitmap t i) k \<or> k = j" for k unfolding w_def by (rule bit_mark [OF ij(3)])
  have v: "bit v k \<longleftrightarrow> bit (fl_bitmap t) k \<or> k = i" for k unfolding v_def using ij(2) by (intro bit_mark) simp
  define t1 where "t1 = poke (cur + 24) b (poke (b + 24) (control t) (poke (b + 16) cur t))"
  define t2 where "t2 = (set_head (int i) (int j) b t1)\<lparr>fl_bitmap := v\<rparr>"
  define t' where "t' = set_sl_bitmap (int i) w t2"
  have "8 dvd b" "b + 48 < 2 ^ 63" using layoutD(1) [OF ok(2) b(1)] in_pool_range(2) [OF ok(1) layoutD(3) [OF ok(2) b(1)]] by auto
  then have run: "block_insert b t = Inr t'"
    using nonnull head ij read_header(1,7) [OF inv b(1)] align_ptr_block [of b]
    by (simp add: block_insert_def insert_free_block_def Let_def t'_def t2_def t1_def w_def v_def)
  have t': "heap t' = h'" "control t' = z" by (simp_all add: t'_def t2_def t1_def h'_def z_def)
  have "linked lay X t' (set_list i j (b # xs) fls)"
  proof (rule relink [OF ok(1,2) fls b(1) ij])
    show "chain (heap t') (control t) (b # xs) (control t)" using ins t' by (simp add: h'_def z_def)
    show "distinct (b # xs)" using list(2) .
    show "x \<in> set (b # xs) \<longleftrightarrow> x \<notin> X \<and> (\<exists>s p. lay x = Some (s, True, p) \<and> mapping_insert s = (int i, int j))" for x
      using mem [of x] b ij by (auto simp: xs_def)
    show "\<exists>y \<in> set (control t # b # fls i j). a = y + 16 \<or> a = y + 24" if "heap t' a \<noteq> heap t a" for a
      using that cur unfolding t' h'_def xs_def z_def by (auto split: if_splits)
    show "blocks t' i' j' = (if i' = i \<and> j' = j then hd ((b # xs) @ [control t]) else blocks t i' j')"
      if "i' < 25" "j' < 32" for i' j' by (simp add: t'_def t2_def t1_def)
    show "bit (sl_bitmap t' i') j' = (if i' = i \<and> j' = j then b # xs \<noteq> [] else bit (sl_bitmap t i') j')"
      if "i' < 25" for i' j' using w by (simp add: t'_def t2_def t1_def)
    have "w \<noteq> 0" using w [of j] by auto
    then show "bit (fl_bitmap t') i' = (if i' = i then sl_bitmap t' i \<noteq> 0 else bit (fl_bitmap t) i')" for i'
      using v by (simp add: t'_def t2_def)
  qed (use t' in \<open>auto simp: z_def\<close>)
  then show ?thesis
    using run ok hdr t' keep unfolding heap_inv_def keeps_def z_def by metis
qed

section \<open>Searching\<close>

lemma bit_from: "bit (w AND push_bit n (NOT 0)) k \<longleftrightarrow> bit w k \<and> n \<le> k" for w :: "32 word"
  using bit_imp_le_length [of w k] by (auto simp: bit_simps)

lemma lowest_from:
  fixes w :: "32 word"
  assumes "w \<noteq> 0"
  obtains n where "tlsf_ffs w = int n" "bit w n" "n < 32"
  using ex_lowest_bit [OF assms] tlsf_ffs_spec by metis

lemma search_suitable_block_ok:
  assumes inv: "heap_inv P lay X t" and ij: "i < 25" "j < 32"
  shows "\<exists>b fl sl. search_suitable_block (int i) (int j) t = Inr (b, fl, sl) \<and>
    (if b = 0 then \<forall>x s p. lay x = Some (s, True, p) \<longrightarrow> x \<notin> X \<longrightarrow> \<not> class_le (int i, int j) (mapping_insert s)
     else \<exists>s p. lay b = Some (s, True, p) \<and> b \<notin> X \<and> mapping_insert s = (fl, sl) \<and> class_le (int i, int j) (fl, sl))"
proof -
  have ok: "pools_ok P (control t)" "layout_ok P lay" using inv by (auto simp: heap_inv_def)
  obtain fls where fls: "linked lay X t fls" using inv by (auto simp: heap_inv_def)
  have mem: "x \<in> set (fls i' j') \<longleftrightarrow> x \<notin> X \<and> (\<exists>s p. lay x = Some (s, True, p) \<and> mapping_insert s = (int i', int j'))" for x i' j'
    using fls unfolding linked_def by blast
  have head: "blocks t i' j' = hd (fls i' j' @ [control t])" if "i' < 25" "j' < 32" for i' j'
    using fls that by (auto simp: linked_def)
  have sl: "bit (sl_bitmap t i') j' = (fls i' j' \<noteq> [])" if "i' < 25" for i' j' using fls that by (auto simp: linked_def)
  have fl: "bit (fl_bitmap t) i' = (\<exists>j. fls i' j \<noteq> [])" for i' using fls by (auto simp: linked_def)
  have fl25: "i' < 25" "j' < 32" if "fls i' j' \<noteq> []" for i' j'
  proof -
    obtain x where "x \<in> set (fls i' j')" using \<open>fls i' j' \<noteq> []\<close> by (cases "fls i' j'") auto
    then obtain s p where x: "lay x = Some (s, True, p)" "mapping_insert s = (int i', int j')" using mem by blast
    from class_of_block [OF inv x(1)] x(2) show "i' < 25" "j' < 32" by auto
  qed
  have found: "\<exists>s p. lay b = Some (s, True, p) \<and> b \<notin> X \<and> mapping_insert s = (int i', int j') \<and> b \<noteq> 0"
    if "fls i' j' \<noteq> []" "b = hd (fls i' j' @ [control t])" for b i' j'
  proof -
    have "b \<in> set (fls i' j')" using that by simp
    then obtain s p where "lay b = Some (s, True, p)" "b \<notin> X" "mapping_insert s = (int i', int j')" using mem by blast
    moreover from this have "0 < b" using in_pool_range(1) [OF ok(1) layoutD(3) [OF ok(2)]] by blast
    ultimately show ?thesis by blast
  qed
  define sm where "sm = sl_bitmap t i AND push_bit j (NOT 0)"
  define fm where "fm = fl_bitmap t AND push_bit (Suc i) (NOT 0)"
  have sm: "bit sm k \<longleftrightarrow> fls i k \<noteq> [] \<and> j \<le> k" for k unfolding sm_def bit_from using sl [OF ij(1)] by simp
  have fm: "bit fm k \<longleftrightarrow> (\<exists>j. fls k j \<noteq> []) \<and> Suc i \<le> k" for k unfolding fm_def bit_from fl by simp
  have e: "nat (int i + 1) = Suc i" by simp
  have unf: "search_suitable_block (int i) (int j) t =
    (if sm = 0
     then if fm = 0 then Inr (0, int i, int j)
          else res_bind (check_index (tlsf_ffs fm) 0) (\<lambda>_.
               res_bind (gpcl_assert (sl_bitmap t (nat (tlsf_ffs fm)) \<noteq> 0)) (\<lambda>_.
               res_bind (check_index (tlsf_ffs fm) (tlsf_ffs (sl_bitmap t (nat (tlsf_ffs fm))))) (\<lambda>_.
               Inr (blocks t (nat (tlsf_ffs fm)) (nat (tlsf_ffs (sl_bitmap t (nat (tlsf_ffs fm))))), tlsf_ffs fm,
                 tlsf_ffs (sl_bitmap t (nat (tlsf_ffs fm)))))))
     else res_bind (check_index (int i) (tlsf_ffs sm)) (\<lambda>_. Inr (blocks t i (nat (tlsf_ffs sm)), int i, tlsf_ffs sm)))"
    unfolding search_suitable_block_def Let_def in_arrays_of_nat [OF ij] res_bind_simps nat_int e sm_def fm_def ..
  show ?thesis
  proof (cases "sm = 0")
    case False
    then obtain n where n: "tlsf_ffs sm = int n" "bit sm n" "n < 32" by (rule lowest_from)
    have "search_suitable_block (int i) (int j) t = Inr (blocks t i n, int i, int n)"
      using False n ij by (simp add: unf)
    moreover have "fls i n \<noteq> []" "j \<le> n" using n(2) sm by auto
    ultimately show ?thesis using found [of i n] head [OF ij(1) n(3)] by (auto simp: class_le_def)
  next
    case no_sm: True
    show ?thesis
    proof (cases "fm = 0")
      case True
      have "search_suitable_block (int i) (int j) t = Inr (0, int i, int j)"
        using no_sm True ij by (simp add: unf)
      moreover have "\<not> class_le (int i, int j) (mapping_insert s)" if x: "lay x = Some (s, True, p)" "x \<notin> X" for x s p
      proof -
        obtain i' j' where m: "mapping_insert s = (int i', int j')" by (rule class_of_block [OF inv x(1)])
        then have "x \<in> set (fls i' j')" using mem x by blast
        then have "fls i' j' \<noteq> []" by auto
        then show ?thesis using sm [of j'] fm [of i'] no_sm True m by (auto simp: class_le_def)
      qed
      ultimately show ?thesis by auto
    next
      case False
      then obtain m where m: "tlsf_ffs fm = int m" "bit fm m" by (rule lowest_from)
      then obtain k where k: "fls m k \<noteq> []" "Suc i \<le> m" using fm by auto
      note m25 = fl25 [OF k(1)]
      have "bit (sl_bitmap t m) k" using sl [OF m25(1)] k(1) by simp
      then have "sl_bitmap t m \<noteq> 0" by auto
      then obtain n where n: "tlsf_ffs (sl_bitmap t m) = int n" "bit (sl_bitmap t m) n" "n < 32" by (rule lowest_from)
      have "check_index (int m) 0 = Inr ()" using in_arrays_of_nat [OF m25(1), of 0] by simp
      then have "search_suitable_block (int i) (int j) t = Inr (blocks t m n, int m, int n)"
        using no_sm False m n ij m25(1) \<open>sl_bitmap t m \<noteq> 0\<close>
        by (simp add: unf)
      moreover have "fls m n \<noteq> []" using n(2) sl [OF m25(1)] by auto
      ultimately show ?thesis using found [of m n] head [OF m25(1) n(3)] k(2) by (auto simp: class_le_def)
    qed
  qed
qed

end
