(* ===== verification/Tlsf_Blocks.thy ===== *)
theory Tlsf_Blocks
  imports Tlsf_Heap
begin

text \<open>
  The operations that change the division of the pools into blocks: taking a block out of the lists,
  marking, splitting and merging. Each is shown to perform the corresponding operation on the layout.
\<close>

section \<open>Locating a block\<close>

lemma mapping_insert_limit: "mapping_insert (2 ^ 32) = (25, 0)"
  using mapping_insert_large [of "2 ^ 32" 32] by (simp add: is_fls_def)

lemma large_class: "2 ^ 32 \<le> u \<Longrightarrow> u < 2 ^ 64 \<Longrightarrow> 25 \<le> fst (mapping_insert u)"
  using mapping_insert_mono [of "2 ^ 32" u] mapping_insert_limit by (auto simp: class_le_def)

lemma block_locate_free_ok:
  assumes inv: "heap_inv P lay {} t" and sz: "8 dvd sz" "0 < sz" "sz < 2 ^ 32"
  shows "\<exists>b t'. block_locate_free sz t = Inr (b, t') \<and>
    (if b = 0 then t' = t \<and> (\<forall>x s p. lay x = Some (s, True, p) \<longrightarrow> 32 * s < 33 * sz)
     else (\<exists>s p. lay b = Some (s, True, p) \<and> sz \<le> s) \<and> heap_inv P lay {b} t' \<and> keeps P lay t t')"
proof -
  define u where "u = search_size sz"
  have u: "32 * u \<le> 33 * sz" "u < 2 ^ 33" "mapping_search sz = Inr (mapping_insert u)"
    using search_size_bounds [OF sz(3)] by (auto simp: u_def)
  have small: "s < 2 ^ 32" if "lay x = Some (s, f, p)" for x s f p
    using in_pool_range(4) [of P "control t" x s] layoutD(3) [of P lay x s f p] inv that by (auto simp: heap_inv_def)
  obtain fl sl where c: "mapping_insert u = (fl, sl)" by (cases "mapping_insert u")
  show ?thesis
  proof (cases "u < 2 ^ 32")
    case False
    then have "25 \<le> fl" using large_class [of u] u(2) c by simp
    then have "block_locate_free sz t = Inr (0, t)" using u(3) c sz(2) by (simp add: block_locate_free_def)
    moreover have "32 * s < 33 * sz" if "lay x = Some (s, True, p)" for x s p
      using small [OF that] False u(1) by linarith
    ultimately show ?thesis by auto
  next
    case True
    obtain i j where ij: "fl = int i" "sl = int j" "i < 25" "j < 32"
      using mapping_insert_bounds [OF True c] by (metis int_nat_eq nat_less_iff of_nat_numeral)
    obtain b fl' sl' where r: "search_suitable_block fl sl t = Inr (b, fl', sl')"
      "if b = 0 then \<forall>x s p. lay x = Some (s, True, p) \<longrightarrow> x \<notin> {} \<longrightarrow> \<not> class_le (fl, sl) (mapping_insert s)
       else \<exists>s p. lay b = Some (s, True, p) \<and> b \<notin> {} \<and> mapping_insert s = (fl', sl') \<and> class_le (fl, sl) (fl', sl')"
      using search_suitable_block_ok [OF inv ij(3,4)] unfolding ij(1,2) by blast
    show ?thesis
    proof (cases "b = 0")
      case null: True
      then have "block_locate_free sz t = Inr (0, t)" using u(3) c sz(2) r(1) ij by (simp add: block_locate_free_def)
      moreover have "32 * s < 33 * sz" if x: "lay x = Some (s, True, p)" for x s p
      proof (rule ccontr)
        assume "\<not> 32 * s < 33 * sz"
        then have "u \<le> s" using u(1) by linarith
        then have "class_le (fl, sl) (mapping_insert s)" using mapping_insert_mono [of u s] small [OF x] c by simp
        then show False using r(2) null x by auto
      qed
      ultimately show ?thesis by auto
    next
      case False
      then obtain s p where b: "lay b = Some (s, True, p)" "mapping_insert s = (fl', sl')" "class_le (fl, sl) (fl', sl')"
        using r(2) by auto
      have fits: "sz \<le> s" using search_class_fits [OF sz(1,3), of s] small [OF b(1)] b(2,3) c by (simp add: u_def)
      obtain t' where t': "remove_free_block b fl' sl' t = Inr t'" "heap_inv P lay {b} t'" "keeps P lay t t'"
        using remove_free_block_ok [OF inv b(1) _ b(2)] by auto
      have "block_locate_free sz t = Inr (b, t')"
        using u(3) c sz(2) r(1) ij False t'(1) fits read_header(1) [OF inv b(1)] by (simp add: block_locate_free_def)
      then show ?thesis using False b(1) fits t'(2,3) by auto
    qed
  qed
qed

section \<open>Writing headers\<close>

definition same_lists :: "tlsf \<Rightarrow> tlsf \<Rightarrow> bool" where
  "same_lists t t' \<longleftrightarrow> control t' = control t \<and> fl_bitmap t' = fl_bitmap t \<and> sl_bitmap t' = sl_bitmap t \<and> blocks t' = blocks t"

lemma same_lists_poke [simp]: "same_lists t (poke a v t') \<longleftrightarrow> same_lists t t'" "same_lists t t"
  by (simp_all add: same_lists_def)

definition touches :: "nat set \<Rightarrow> layout \<Rightarrow> nat set \<Rightarrow> nat \<Rightarrow> bool" where
  "touches B lay X a \<longleftrightarrow> (\<exists>x s f p. x \<in> B \<and> lay x = Some (s, f, p) \<and> in_block x s a \<and>
     (f \<longrightarrow> x \<notin> X \<longrightarrow> a \<noteq> x + 16 \<and> a \<noteq> x + 24))"

lemma touchesI:
  "lay x = Some (s, f, p) \<Longrightarrow> x \<in> B \<Longrightarrow> in_block x s a \<Longrightarrow> \<not> f \<or> x \<in> X \<or> a \<noteq> x + 16 \<and> a \<noteq> x + 24 \<Longrightarrow> touches B lay X a"
  unfolding touches_def by blast

definition free_cell :: "layout \<Rightarrow> nat \<Rightarrow> bool" where
  "free_cell lay a \<longleftrightarrow> (\<exists>x s f p. lay x = Some (s, f, p) \<and> in_block x s a \<and> (f \<or> a = x + 8))"

lemma free_cellI: "lay x = Some (s, f, p) \<Longrightarrow> in_block x s a \<Longrightarrow> f \<or> a = x + 8 \<Longrightarrow> free_cell lay a"
  unfolding free_cell_def by blast

text \<open>
  A group of writes to the cells of some blocks of the old layout that spares the links of listed
  blocks. \<open>B\<close> are the headers whose description may differ between the layouts.
\<close>

lemma inv_update_pools:
  assumes inv: "heap_inv P lay X t" and same: "same_lists t t'"
    and cells: "\<And>a. heap t' a \<noteq> heap t a \<Longrightarrow> touches B lay X a"
    and pools: "pools_ok P' (control t)" and ok: "layout_ok P' lay'" and rest: "\<And>x. x \<notin> B \<Longrightarrow> lay' x = lay x"
    and hdrs: "\<And>x s f p. x \<in> B \<Longrightarrow> lay' x = Some (s, f, p) \<Longrightarrow> heap t' (x + 8) = hdr_val s f p \<and> (f \<longrightarrow> heap t' (x + s + 8) = x)"
    and listed: "\<And>x s. x \<in> B \<Longrightarrow> x \<notin> X' \<and> (\<exists>p. lay' x = Some (s, True, p)) \<longleftrightarrow> x \<notin> X \<and> (\<exists>p. lay x = Some (s, True, p))"
      "X' - B = X - B"
  shows "heap_inv P' lay' X' t'"
proof -
  have old: "pools_ok P (control t)" "layout_ok P lay" "headers lay (heap t)" using inv by (auto simp: heap_inv_def)
  obtain fls where fls: "linked lay X t fls" using inv by (auto simp: heap_inv_def)
  have keep: "heap t' a = heap t a" if "lay x = Some (s, f, p)" "x \<notin> B" "in_block x s a" for x s f p a
    using cells [of a] in_block_unique [OF old(2) that(1)] that unfolding touches_def by metis
  have "headers lay' (heap t')"
    unfolding headers_def
  proof (intro allI impI)
    fix x s f p assume x: "lay' x = Some (s, f, p)"
    show "heap t' (x + 8) = hdr_val s f p \<and> (f \<longrightarrow> heap t' (x + s + 8) = x)"
    proof (cases "x \<in> B")
      case False
      then have l: "lay x = Some (s, f, p)" using rest x by simp
      then show ?thesis
        using keep [OF l False, of "x + 8"] keep [OF l False, of "x + s + 8"] old(3)
        unfolding headers_def by (auto simp: in_block_def)
    qed (use hdrs x in blast)
  qed
  moreover have mem: "x \<notin> X' \<and> (\<exists>s p. lay' x = Some (s, True, p) \<and> mapping_insert s = m) \<longleftrightarrow>
      x \<notin> X \<and> (\<exists>s p. lay x = Some (s, True, p) \<and> mapping_insert s = m)" for x m
  proof (cases "x \<in> B")
    case True
    show ?thesis using listed(1) [OF True] by metis
  next
    case False
    then have "x \<in> X' \<longleftrightarrow> x \<in> X" "lay' x = lay x" using listed(2) rest by auto
    then show ?thesis by simp
  qed
  have "chain (heap t') (control t) (fls i j) (control t) = chain (heap t) (control t) (fls i j) (control t)" for i j
  proof (rule chain_cong)
    fix x assume "x \<in> set (fls i j)"
    then obtain s p where x: "x \<notin> X" "lay x = Some (s, True, p)" using fls unfolding linked_def by blast
    have "24 \<le> s" using layoutD(4,5) [OF old(2) x(2)] by blast
    have "heap t' a = heap t a" if a: "a = x + 16 \<or> a = x + 24" for a
    proof (rule ccontr)
      assume "heap t' a \<noteq> heap t a"
      then obtain y sy fy py where y: "lay y = Some (sy, fy, py)" "in_block y sy a" "fy \<longrightarrow> y \<notin> X \<longrightarrow> a \<noteq> y + 16 \<and> a \<noteq> y + 24"
        using cells unfolding touches_def by blast
      have "in_block x s a" using a \<open>24 \<le> s\<close> by (auto simp: in_block_def)
      then have "x = y" using in_block_unique [OF old(2) x(2) y(1) _ y(2)] by blast
      then show False using x y a by auto
    qed
    then show "heap t' (x + 16) = heap t (x + 16) \<and> heap t' (x + 24) = heap t (x + 24)" by blast
  qed
  then have "linked lay' X' t' fls"
    using fls same unfolding linked_def same_lists_def mem by simp
  ultimately show ?thesis using pools ok same unfolding heap_inv_def same_lists_def by auto
qed

lemma inv_update:
  assumes inv: "heap_inv P lay X t" and "same_lists t t'"
    and "\<And>a. heap t' a \<noteq> heap t a \<Longrightarrow> touches B lay X a"
    and "layout_ok P lay'" and "\<And>x. x \<notin> B \<Longrightarrow> lay' x = lay x"
    and "\<And>x s f p. x \<in> B \<Longrightarrow> lay' x = Some (s, f, p) \<Longrightarrow> heap t' (x + 8) = hdr_val s f p \<and> (f \<longrightarrow> heap t' (x + s + 8) = x)"
    and "\<And>x s. x \<in> B \<Longrightarrow> x \<notin> X' \<and> (\<exists>p. lay' x = Some (s, True, p)) \<longleftrightarrow> x \<notin> X \<and> (\<exists>p. lay x = Some (s, True, p))"
      "X' - B = X - B"
  shows "heap_inv P lay' X' t'"
proof -
  have "pools_ok P (control t)" using inv by (simp add: heap_inv_def)
  show ?thesis by (rule inv_update_pools [OF inv assms(2)]; fact)
qed

lemma keeps_update:
  assumes "heap_inv P lay X t" and "same_lists t t'" and "layout_ok P lay'"
    and "\<And>a. heap t' a \<noteq> heap t a \<Longrightarrow> free_cell lay' a"
  shows "keeps P lay' t t'"
  using assms(2) assms(4) writable [OF assms(3)] unfolding keeps_def same_lists_def free_cell_def by metis

lemma hdr_ranges:
  assumes "heap_inv P lay X t" and "lay b = Some (s, f, p)"
  shows "4 dvd s" "s < 2 ^ 63" "s < 2 ^ 32" "8 dvd b" "8 dvd s" "b + s + 48 < 2 ^ 63"
proof -
  have ok: "pools_ok P (control t)" "layout_ok P lay" using assms(1) by (auto simp: heap_inv_def)
  note d = layoutD [OF ok(2) assms(2)] and r = in_pool_range [OF ok(1) layoutD(3) [OF ok(2) assms(2)]]
  show "4 dvd s" "s < 2 ^ 63" "s < 2 ^ 32" "8 dvd b" "8 dvd s" "b + s + 48 < 2 ^ 63"
    using d(1,2) r by (auto intro: dvd_trans [of 4 8 s])
qed

text \<open>Marking a block, which the next block records.\<close>

lemma lay_mark_eq:
  "lay b = Some (s, f, p) \<Longrightarrow> lay (b + s + 8) = Some (s', f', p') \<Longrightarrow>
    lay_mark b g lay = lay(b \<mapsto> (s, g, p), b + s + 8 \<mapsto> (s', f', g))"
  by (simp add: lay_mark_def)

lemma next_block:
  assumes "heap_inv P lay X t" and "lay b = Some (s, f, p)" and "s \<noteq> 0"
  obtains n s' f' where "b + s + 8 = n" "lay n = Some (s', f', f)" "b + 32 \<le> n" "24 \<le> s"
    "f' \<Longrightarrow> heap t (n + s' + 8) = n" "f' \<Longrightarrow> 24 \<le> s'" "heap t (n + 8) = hdr_val s' f' f" "block_next b t = Inr n"
proof -
  have ok: "layout_ok P lay" "headers lay (heap t)" using assms(1) by (auto simp: heap_inv_def)
  obtain s' f' where n: "lay (b + s + 8) = Some (s', f', f)" using layoutD(6) [OF ok(1) assms(2,3)] by blast
  have "24 \<le> s" using layoutD(5) [OF ok(1) assms(2,3)] .
  moreover have "heap t (b + s + 8 + 8) = hdr_val s' f' f" "f' \<Longrightarrow> heap t (b + s + 8 + s' + 8) = b + s + 8"
    using ok(2) n unfolding headers_def by blast+
  moreover have "f' \<Longrightarrow> 24 \<le> s'" using layoutD(4,5) [OF ok(1) n] by blast
  ultimately show thesis using that [OF refl n] read_header(5) [OF assms] by simp
qed

lemma block_mark_as_free_ok:
  assumes inv: "heap_inv P lay X t" and b: "lay b = Some (s, False, p)" "s \<noteq> 0"
  shows "\<exists>t'. block_mark_as_free b t = Inr t' \<and> heap_inv P (lay_mark b True lay) (insert b X) t' \<and>
    keeps P (lay_mark b True lay) t t'"
proof -
  have ok: "layout_ok P lay" using inv by (auto simp: heap_inv_def)
  obtain n s' f' where nb: "b + s + 8 = n" "b + 32 \<le> n" and n: "lay n = Some (s', f', False)"
    and nn: "f' \<Longrightarrow> heap t (n + s' + 8) = n" "f' \<Longrightarrow> 24 \<le> s'" "heap t (n + 8) = hdr_val s' f' False" "block_next b t = Inr n"
    using next_block [OF inv b] by metis
  define t' where "t' = poke (b + 8) (hdr_val s True p) (poke (n + 8) (hdr_val s' f' True) (poke n b t))"
  define L where "L = lay_mark b True lay"
  have L: "L = lay(b \<mapsto> (s, True, p), n \<mapsto> (s', f', True))" using b n by (simp add: L_def lay_mark_def nb(1))
  have run: "block_mark_as_free b t = Inr t'"
    using nb nn read_header(6) [OF inv b(1)]
      hdr_val_ops(4) [OF hdr_ranges(1,2) [OF inv b(1)]] hdr_val_ops(5) [OF hdr_ranges(1,2) [OF inv n]]
    by (simp add: block_mark_as_free_def block_link_next_def block_set_free_def block_set_prev_free_def t'_def)
  have same: "same_lists t t'" by (simp add: t'_def)
  have okL: "layout_ok P L" unfolding L_def by (rule lay_mark_ok [OF ok b])
  have ch: "a = b + 8 \<or> a = n + 8 \<or> a = n" if "heap t' a \<noteq> heap t a" for a
    using that by (auto simp: t'_def split: if_splits)
  have "heap_inv P L (insert b X) t'"
  proof (rule inv_update [OF inv same _ okL, of "{b, n}"])
    show "touches {b, n} lay X a" if "heap t' a \<noteq> heap t a" for a
      using ch [OF that] b(1) n nb by (auto simp: in_block_def intro: touchesI [of lay b s] touchesI [of lay n s'])
    show "heap t' (x + 8) = hdr_val sx fx px \<and> (fx \<longrightarrow> heap t' (x + sx + 8) = x)"
      if "x \<in> {b, n}" "L x = Some (sx, fx, px)" for x sx fx px
      using that nb nn by (auto simp: L t'_def split: if_splits)
    show "x \<notin> insert b X \<and> (\<exists>p. L x = Some (sx, True, p)) \<longleftrightarrow> x \<notin> X \<and> (\<exists>p. lay x = Some (sx, True, p))"
      if "x \<in> {b, n}" for x sx using that b n nb by (auto simp: L)
  qed (auto simp: L)
  moreover have "free_cell L a" if "heap t' a \<noteq> heap t a" for a
    using ch [OF that] nb by (auto simp: in_block_def L intro: free_cellI [of _ b s True p] free_cellI [of _ n s' f' True])
  then have "keeps P L t t'" using keeps_update [OF inv same okL] by blast
  ultimately show ?thesis using run unfolding L_def by blast
qed

lemma block_mark_as_used_ok:
  assumes inv: "heap_inv P lay X t" and b: "lay b = Some (s, True, p)" "b \<in> X"
  shows "\<exists>t'. block_mark_as_used b t = Inr t' \<and> heap_inv P (lay_mark b False lay) (X - {b}) t' \<and> keeps P lay t t'"
proof -
  have ok: "layout_ok P lay" using inv by (auto simp: heap_inv_def)
  have s0: "s \<noteq> 0" using layoutD(4) [OF ok b(1)] by auto
  obtain n s' f' where nb: "b + s + 8 = n" "b + 32 \<le> n" and n: "lay n = Some (s', f', True)"
    and nn: "f' \<Longrightarrow> heap t (n + s' + 8) = n" "f' \<Longrightarrow> 24 \<le> s'" "heap t (n + 8) = hdr_val s' f' True" "block_next b t = Inr n"
    using next_block [OF inv b(1) s0] by metis
  define t' where "t' = poke (b + 8) (hdr_val s False p) (poke (n + 8) (hdr_val s' f' False) t)"
  define L where "L = lay_mark b False lay"
  have L: "L = lay(b \<mapsto> (s, False, p), n \<mapsto> (s', f', False))" using b n by (simp add: L_def lay_mark_def nb(1))
  have run: "block_mark_as_used b t = Inr t'"
    using nb nn read_header(6) [OF inv b(1)]
      hdr_val_ops(6) [OF hdr_ranges(1,2) [OF inv b(1)]] hdr_val_ops(7) [OF hdr_ranges(1,2) [OF inv n]]
    by (simp add: block_mark_as_used_def block_set_used_def block_set_prev_used_def t'_def)
  have same: "same_lists t t'" by (simp add: t'_def)
  have okL: "layout_ok P L" unfolding L_def by (rule lay_mark_ok [OF ok b(1) s0])
  have ch: "a = b + 8 \<or> a = n + 8" if "heap t' a \<noteq> heap t a" for a
    using that by (auto simp: t'_def split: if_splits)
  have "heap_inv P L (X - {b}) t'"
  proof (rule inv_update [OF inv same _ okL, of "{b, n}"])
    show "touches {b, n} lay X a" if "heap t' a \<noteq> heap t a" for a
      using ch [OF that] b n by (auto simp: in_block_def intro: touchesI [of lay b s] touchesI [of lay n s'])
    show "heap t' (x + 8) = hdr_val sx fx px \<and> (fx \<longrightarrow> heap t' (x + sx + 8) = x)"
      if "x \<in> {b, n}" "L x = Some (sx, fx, px)" for x sx fx px
      using that nb nn by (auto simp: L t'_def split: if_splits)
    show "x \<notin> X - {b} \<and> (\<exists>p. L x = Some (sx, True, p)) \<longleftrightarrow> x \<notin> X \<and> (\<exists>p. lay x = Some (sx, True, p))"
      if "x \<in> {b, n}" for x sx using that b n nb by (auto simp: L)
  qed (auto simp: L)
  moreover have "free_cell lay a" if "heap t' a \<noteq> heap t a" for a
    using ch [OF that] b n by (auto simp: in_block_def intro: free_cellI [of _ b s] free_cellI [of _ n s'])
  then have "keeps P lay t t'" using keeps_update [OF inv same ok] by blast
  ultimately show ?thesis using run unfolding L_def by blast
qed

section \<open>Splitting\<close>

text \<open>The free blocks that should have been merged with the block before them.\<close>

definition unmerged :: "layout \<Rightarrow> nat set" where
  "unmerged lay = {x. \<exists>s. lay x = Some (s, True, True)}"

lemma lay_split_eq:
  assumes "lay b = Some (s, f, p)" and "b + s + 8 = n" and "lay n = Some (s', f', p')"
  shows "lay_split b sz lay = lay(b \<mapsto> (sz, f, p), b + sz + 8 \<mapsto> (s - sz - 8, True, f), n \<mapsto> (s', f', True))"
  using assms by (auto simp: lay_split_def)

text \<open>
  What the writes of \<open>block_split\<close> and of its caller amount to: a free remainder \<open>r\<close> behind the block,
  whose link to the block is only kept up if the block is free.
\<close>

definition split_heap :: "nat \<Rightarrow> nat \<Rightarrow> nat \<Rightarrow> bool \<Rightarrow> bool \<Rightarrow> nat \<Rightarrow> bool \<Rightarrow> (nat \<Rightarrow> nat) \<Rightarrow> nat \<Rightarrow> nat" where
  "split_heap b s sz f p s' f' h =
     (let r = b + sz + 8; n = b + s + 8;
          h = h(r + 8 := hdr_val (s - sz - 8) True f, b + 8 := hdr_val sz f p, n := r, n + 8 := hdr_val s' f' True)
      in if f then h(r := b) else h)"

lemma split_new:
  assumes "heap_inv P lay X t" and "lay b = Some (s, f, p)" and "sz + 32 \<le> s" and "r = b + sz + 8"
  shows "lay r = None"
proof (rule ccontr)
  assume "lay r \<noteq> None"
  then obtain v where "lay r = Some v" by auto
  from layout_spaced [OF _ assms(2) this] show False using assms by (auto simp: heap_inv_def)
qed

lemma split_heap_ok:
  assumes inv: "heap_inv P lay X t" and b: "lay b = Some (s, f, p)" "f \<longrightarrow> b \<in> X"
    and sz: "8 dvd sz" "24 \<le> sz" "sz + 32 \<le> s"
    and n: "lay (b + s + 8) = Some (s', f', f)"
    and t': "same_lists t t'" "heap t' = split_heap b s sz f p s' f' (heap t)"
  shows "heap_inv P (lay_split b sz lay) (insert (b + sz + 8) X) t'" "keeps P (lay_split b sz lay) t t'"
    "f \<Longrightarrow> keeps P lay t t'"
proof -
  have ok: "layout_ok P lay" using inv by (auto simp: heap_inv_def)
  define r n where "r = b + sz + 8" and "n = b + s + 8"
  have n': "lay n = Some (s', f', f)" using n by (simp add: n_def)
  have nn: "f' \<Longrightarrow> heap t (n + s' + 8) = n" "f' \<Longrightarrow> 24 \<le> s'"
    using inv n' layoutD(4,5) [OF ok n'] by (auto simp: heap_inv_def headers_def)
  have geo: "b + 32 \<le> r" "r + 32 \<le> n" "r + (s - sz - 8) + 8 = n" "b + sz + 8 = r" "b + s + 8 = n" "in_block b s (r + 8)" "in_block b s n" "in_block b s r"
    using sz by (auto simp: r_def n_def in_block_def)
  define L where "L = lay_split b sz lay"
  have L: "L = lay(b \<mapsto> (sz, f, p), r \<mapsto> (s - sz - 8, True, f), n \<mapsto> (s', f', True))"
    unfolding L_def r_def by (rule lay_split_eq [OF b(1) _ n']) (simp add: n_def)
  have okL: "layout_ok P L" unfolding L_def by (rule lay_split_ok [OF ok b(1) sz])
  have h': "heap t' a = (if f \<and> a = r then b else if a = n + 8 then hdr_val s' f' True else if a = n then r
      else if a = b + 8 then hdr_val sz f p else if a = r + 8 then hdr_val (s - sz - 8) True f else heap t a)" for a
    using geo(1,2) unfolding t'(2) split_heap_def Let_def r_def [symmetric] n_def [symmetric] by auto
  have ch: "f \<and> a = r \<or> a = n + 8 \<or> a = n \<or> a = b + 8 \<or> a = r + 8" if "heap t' a \<noteq> heap t a" for a
    using that unfolding h' by (auto split: if_splits)
  have new: "lay r = None" using split_new [OF inv b(1) sz(3) r_def] .
  show "heap_inv P (lay_split b sz lay) (insert (b + sz + 8) X) t'"
    unfolding L_def [symmetric] r_def [symmetric]
  proof (rule inv_update [OF inv t'(1) _ okL, of "{b, r, n}"])
    show "touches {b, r, n} lay X a" if "heap t' a \<noteq> heap t a" for a
      using ch [OF that] b n' geo by (auto simp: in_block_def intro: touchesI [of lay b s] touchesI [of lay n s'])
    show "heap t' (x + 8) = hdr_val sx fx px \<and> (fx \<longrightarrow> heap t' (x + sx + 8) = x)"
      if x: "x \<in> {b, r, n}" "L x = Some (sx, fx, px)" for x sx fx px
    proof -
      have cases: "x = b \<and> sx = sz \<and> fx = f \<and> px = p \<or> x = r \<and> sx = s - sz - 8 \<and> fx \<and> px = f \<or> x = n \<and> sx = s' \<and> fx = f' \<and> px"
        using x geo(1,2) by (auto simp: L split: if_splits)
      have hb: "heap t' (b + 8) = hdr_val sz f p" "f \<longrightarrow> heap t' r = b" using geo(1,2) by (simp_all add: h')
      have hr: "heap t' (r + 8) = hdr_val (s - sz - 8) True f" "heap t' n = r" using geo(1,2) by (simp_all add: h')
      have hn: "heap t' (n + 8) = hdr_val s' f' True" using geo(1,2) by (simp add: h')
      have "heap t' (n + s' + 8) = n" if f' using geo(1,2) nn(1) [OF that] nn(2) [OF that] by (simp add: h')
      with cases show ?thesis using hb hr hn geo(3,4) by (elim disjE conjE) simp_all
    qed
    show "x \<notin> insert r X \<and> (\<exists>p. L x = Some (sx, True, p)) \<longleftrightarrow> x \<notin> X \<and> (\<exists>p. lay x = Some (sx, True, p))"
      if "x \<in> {b, r, n}" for x sx using that b n' geo new by (auto simp: L)
  qed (auto simp: L)
  have "free_cell L a" if "heap t' a \<noteq> heap t a" for a
    using ch [OF that] geo
    by (auto simp: in_block_def L intro: free_cellI [of _ b sz f p] free_cellI [of _ n s' f' True] free_cellI [of _ r "s - sz - 8" True f])
  then show "keeps P (lay_split b sz lay) t t'" using keeps_update [OF inv t'(1) okL] by (simp add: L_def)
  have "free_cell lay a" if "heap t' a \<noteq> heap t a" f for a
    using ch [OF that(1)] geo b n' that(2) by (auto simp: in_block_def intro: free_cellI [of _ b s f p] free_cellI [of _ n s'])
  then show "keeps P lay t t'" if f using keeps_update [OF inv t'(1) ok] that by blast
qed

text \<open>The writes of \<open>block_split\<close> itself leave the second flag of the remainder as they find it.\<close>

lemma block_split_run:
  assumes inv: "heap_inv P lay X t" and b: "lay b = Some (s, f, p)"
    and sz: "8 dvd sz" "sz + 32 \<le> s"
    and r_def: "r = b + sz + 8" and n_def: "n = b + s + 8" and n': "lay n = Some (s', f', f)"
  shows "block_split b sz t = Inr (r, t\<lparr>heap := (heap t)(r + 8 := hdr_val (s - sz - 8) True (bit (heap t (r + 8)) 1),
    b + 8 := hdr_val sz f p, n := r, n + 8 := hdr_val s' f' True)\<rparr>)"
proof -
  define rs v where "rs = s - sz - 8" and "v = heap t (r + 8)"
  have rng: "s < 2 ^ 32" "8 dvd b" "8 dvd s" "b + s + 48 < 2 ^ 63" using hdr_ranges [OF inv b] by auto
  note hb = read_header [OF inv b] and hn = read_header(6) [OF inv n']
  have geo: "b + 8 \<le> r" "r + 32 \<le> n" "r + rs + 8 = n" "24 \<le> rs" "8 dvd rs" "8 dvd r" "n + 48 < 2 ^ 63 + 16"
    using sz rng by (auto simp: r_def n_def rs_def dvd_diff_nat)
  have rs4: "4 dvd rs" "rs < 2 ^ 63" using geo(5) rng(1) by (auto simp: rs_def intro: dvd_trans [of 4 8 rs])
  have sz4: "4 dvd sz" "sz < 2 ^ 63" using sz rng(1) by (auto intro: dvd_trans [of 4 8 sz])
  note o_rs = hdr_val_ops [OF rs4] and o_sz = hdr_val_ops [OF sz4] and o_n = hdr_val_ops [OF hdr_ranges(1,2) [OF inv n']]
  define t1 where "t1 = poke (r + 8) (hdr_val rs (bit v 0) (bit v 1)) t"
  define t2 where "t2 = poke (b + 8) (hdr_val sz f p) t1"
  have fp: "bit (hdr_val s f p) 0 = f" "bit (hdr_val s f p) 1 = p"
    using bit_hdr_val [of s f p] hdr_ranges(1) [OF inv b] by auto
  have e1: "block_set_size r rs t = t1" unfolding block_set_size_def Let_def t1_def v_def o_rs(8) ..
  have e2: "block_set_size b sz t1 = t2" using geo(1) unfolding block_set_size_def Let_def t2_def
    by (simp add: t1_def hb(6) o_sz(8) fp del: One_nat_def)
  have r2: "heap t2 (r + 8) = hdr_val rs (bit v 0) (bit v 1)" "heap t1 (r + 8) = hdr_val rs (bit v 0) (bit v 1)"
    using geo(1) by (simp_all add: t1_def t2_def)
  have bs: "block_size r t1 = rs" "block_size r t2 = rs" unfolding block_size_def r2 by (rule o_rs)+
  have ptr: "block_to_ptr r = r + 16" using geo rng by (simp add: block_to_ptr_def)
  have nx: "block_next r t2 = Inr n"
    using geo rng by (simp add: block_next_def block_is_last_def bs ptr offset_to_block_def)
  have mark: "block_mark_as_free r t2 = Inr (poke (r + 8) (hdr_val rs True (bit v 1)) (poke (n + 8) (hdr_val s' f' True) (poke n r t2)))"
    using nx geo(1,2) hn o_n(5) r2(1) o_rs(4)
    by (simp add: block_mark_as_free_def block_link_next_def block_set_free_def block_set_prev_free_def t2_def t1_def)
  have off: "offset_to_block (block_to_ptr b) (size_sub sz block_header_overhead) = r"
  proof (cases "sz = 0")
    case True
    then show ?thesis using rng by (simp add: offset_to_block_def hb(7) r_def size_sub_def size_t_def le_mod_geq)
  next
    case False
    then have "8 \<le> sz" using sz(1) by (auto elim: dvdE)
    then show ?thesis using sz rng by (simp add: offset_to_block_def hb(7) r_def)
  qed
  have al: "align_ptr (r + 16) ALIGN_SIZE = Inr (r + 16)" using geo rng by (intro align_ptr_block) auto
  have rem: "size_sub (block_size b t) (size_t (sz + block_header_overhead)) = rs" "size_t (rs + sz + block_header_overhead) = s"
    using sz rng by (simp_all add: hb(1) rs_def)
  have "block_split b sz t = Inr (r, poke (r + 8) (hdr_val rs True (bit v 1)) (poke (n + 8) (hdr_val s' f' True) (poke n r t2)))"
    unfolding block_split_def Let_def off rem ptr al
    using geo(4) by (simp add: hb(1) rem e1 e2 bs mark)
  also have "poke (r + 8) (hdr_val rs True (bit v 1)) (poke (n + 8) (hdr_val s' f' True) (poke n r t2)) =
    t\<lparr>heap := (heap t)(r + 8 := hdr_val rs True (bit v 1), b + 8 := hdr_val sz f p, n := r, n + 8 := hdr_val s' f' True)\<rparr>"
    using geo(1,2) by (auto simp: t2_def t1_def poke_def fun_eq_iff)
  finally show ?thesis unfolding rs_def v_def .
qed

text \<open>The split of a free block, with the two writes by which the callers complete it.\<close>

lemma split_free:
  assumes inv: "heap_inv P lay {b} t" and b: "lay b = Some (s, True, p)" and sz: "8 dvd sz" "24 \<le> sz" "sz + 32 \<le> s"
    and r_def: "r = b + sz + 8"
  obtains t1 t2 L where "block_split b sz t = Inr (r, t1)" "block_link_next b t1 = Inr (r, poke r b t1)"
    "block_set_prev_free r (poke r b t1) = t2" "block_link_next b (block_set_prev_free r t1) = Inr (r, t2)"
    "heap_inv P L {r, b} t2" "keeps P lay t t2" "L b = Some (sz, True, p)" "L r = Some (s - sz - 8, True, True)"
    "used L = used lay" "unmerged L \<subseteq> unmerged lay \<union> {r}"
proof -
  have s0: "s \<noteq> 0" using sz by simp
  obtain n s' f' where n: "n = b + s + 8" "lay n = Some (s', f', True)" using next_block [OF inv b s0] by metis
  note rng = hdr_ranges [OF inv b]
  define rs v where "rs = s - sz - 8" and "v = heap t (r + 8)"
  define t1 where "t1 = t\<lparr>heap := (heap t)(r + 8 := hdr_val rs True (bit v 1), b + 8 := hdr_val sz True p, n := r, n + 8 := hdr_val s' f' True)\<rparr>"
  have split: "block_split b sz t = Inr (r, t1)"
    using block_split_run [OF inv b sz(1,3) r_def n] by (simp only: t1_def rs_def v_def)
  have geo: "b + 32 \<le> r" "r + 32 \<le> n" "8 dvd rs" "r + rs + 48 < 2 ^ 63"
    using sz rng by (auto simp: r_def n(1) rs_def dvd_diff_nat)
  have link: "block_link_next b u = Inr (r, poke r b u)" if "heap u (b + 8) = hdr_val sz True p" for u
    using header_word(5) [of u b sz True p] sz rng that by (simp add: block_link_next_def r_def)
  have flag: "block_set_prev_free r u = poke (r + 8) (hdr_val rs True True) u" if "heap u (r + 8) = hdr_val rs True (bit v 1)" for u
    using that geo by (intro header_word(9)) auto
  define t2 where "t2 = poke (r + 8) (hdr_val rs True True) (poke r b t1)"
  have h1: "heap t1 (b + 8) = hdr_val sz True p" "heap t1 (r + 8) = hdr_val rs True (bit v 1)"
    using geo(1,2) by (simp_all add: t1_def)
  have set: "block_set_prev_free r (poke r b t1) = t2" unfolding t2_def using h1 geo(1) by (intro flag) simp
  have swap: "poke r b (poke (r + 8) (hdr_val rs True True) t1) = t2" by (simp add: t2_def poke_def fun_upd_twist)
  have link2: "block_link_next b (block_set_prev_free r t1) = Inr (r, t2)"
    using flag [OF h1(2)] link [of "poke (r + 8) (hdr_val rs True True) t1"] h1 geo(1) swap by simp
  have t2: "same_lists t t2" "heap t2 = split_heap b s sz True p s' f' (heap t)"
    using geo(1,2) by (auto simp: t2_def t1_def same_lists_def split_heap_def Let_def fun_eq_iff rs_def r_def n(1))
  define L where "L = lay_split b sz lay"
  note sp = split_heap_ok [OF inv b _ sz n(2) [unfolded n(1)] t2, folded L_def r_def]
  have L: "L = lay(b \<mapsto> (sz, True, p), r \<mapsto> (rs, True, True), n \<mapsto> (s', f', True))"
    unfolding L_def r_def rs_def by (rule lay_split_eq [OF b n(1) [symmetric] n(2)])
  have Lb: "L b = Some (sz, True, p)" "L r = Some (s - sz - 8, True, True)" using geo(1,2) by (auto simp: L rs_def)
  have used: "used L = used lay" using b n split_new [OF inv b sz(3) r_def] geo(1,2) by (auto simp: L used_def split: if_splits)
  have un: "unmerged L \<subseteq> unmerged lay \<union> {r}" using b n by (auto simp: L unmerged_def split: if_splits)
  show thesis by (rule that [OF split link [OF h1(1)] set link2 _ _ Lb used un]) (use sp in auto)
qed

lemma block_trim_free_ok:
  assumes inv: "heap_inv P lay {b} t" and b: "lay b = Some (s, True, p)" and sz: "8 dvd sz" "24 \<le> sz" "sz \<le> s"
  shows "\<exists>t' s2 L. block_trim_free b sz t = Inr t' \<and> heap_inv P L {b} t' \<and> keeps P lay t t' \<and> L b = Some (s2, True, p) \<and>
    sz \<le> s2 \<and> s2 \<le> s \<and> used L = used lay \<and> unmerged L \<subseteq> unmerged lay \<union> {b + s2 + 8}"
proof (cases "sz + 32 \<le> s")
  case False
  then have "block_trim_free b sz t = Inr t"
    using read_header [OF inv b] hdr_ranges(3) [OF inv b] sz by (simp add: block_trim_free_def block_can_split_def)
  then show ?thesis using inv b sz False keeps_refl by auto
next
  case True
  define r where "r = b + sz + 8"
  obtain t1 t2 L where sp: "block_split b sz t = Inr (r, t1)" "block_link_next b t1 = Inr (r, poke r b t1)"
    "block_set_prev_free r (poke r b t1) = t2" "heap_inv P L {r, b} t2" "keeps P lay t t2" "L b = Some (sz, True, p)"
    "L r = Some (s - sz - 8, True, True)" "used L = used lay" "unmerged L \<subseteq> unmerged lay \<union> {r}"
    using split_free [OF inv b sz(1,2) True r_def] by metis
  obtain t' where t': "block_insert r t2 = Inr t'" "heap_inv P L {b} t'" "keeps P L t2 t'"
    using block_insert_ok [OF sp(4,7)] by (auto simp: r_def)
  have "block_trim_free b sz t = Inr t'"
    using read_header [OF inv b] hdr_ranges(3) [OF inv b] True sp(1-3) t'(1) by (simp add: block_trim_free_def block_can_split_def)
  moreover have "keeps P lay t t'" using keeps_trans [OF sp(5) t'(3)] sp(8) by (simp add: used_data_def)
  moreover have "sz \<le> sz" "sz \<le> s" using True by auto
  ultimately show ?thesis using t'(2) sp(6,8,9) unfolding r_def by blast
qed

lemma block_trim_free_leading_ok:
  assumes inv: "heap_inv P lay {b} t" and b: "lay b = Some (s, True, p)" and gap: "8 dvd gap" "32 \<le> gap" "gap + 32 \<le> s"
  shows "\<exists>t' L. block_trim_free_leading b gap t = Inr (b + gap, t') \<and> heap_inv P L {b + gap} t' \<and> keeps P lay t t' \<and>
    L (b + gap) = Some (s - gap, True, True) \<and> used L = used lay \<and> unmerged L \<subseteq> unmerged lay \<union> {b + gap}"
proof -
  define r sz where "r = b + gap" and "sz = gap - 8"
  have sz: "8 dvd sz" "24 \<le> sz" "sz + 32 \<le> s" and r: "r = b + sz + 8" "s - sz - 8 = s - gap"
    using gap by (auto simp: sz_def r_def dvd_diff_nat)
  obtain t1 t2 L where sp: "block_split b sz t = Inr (r, t1)" "block_link_next b (block_set_prev_free r t1) = Inr (r, t2)"
    "heap_inv P L {r, b} t2" "keeps P lay t t2" "L b = Some (sz, True, p)"
    "L r = Some (s - sz - 8, True, True)" "used L = used lay" "unmerged L \<subseteq> unmerged lay \<union> {r}"
    using split_free [OF inv b sz r(1)] by metis
  have "heap_inv P L (insert b {r}) t2" using sp(3) by (simp add: insert_commute)
  then obtain t' where t': "block_insert b t2 = Inr t'" "heap_inv P L {r} t'" "keeps P L t2 t'"
    using block_insert_ok [of P L b "{r}" t2] sp(5) r(1) by auto
  have "block_trim_free_leading b gap t = Inr (r, t')"
    using read_header [OF inv b] hdr_ranges(3) [OF inv b] gap sp(1,2) t'(1)
    by (simp add: block_trim_free_leading_def block_can_split_def sz_def)
  moreover have "keeps P lay t t'" using keeps_trans [OF sp(4) t'(3)] sp(7) by (simp add: used_data_def)
  ultimately show ?thesis using t'(2) sp(6-8) r(2) unfolding r_def by auto
qed

section \<open>Merging\<close>

lemma lay_merge_eq:
  assumes "lay b = Some (s, f, p)" and "b + s + 8 = n" and "lay n = Some (sn, fn, pn)" and "n + sn + 8 = m"
    and "lay m = Some (sm, fm, pm)"
  shows "lay_merge b lay = lay(n := None, b \<mapsto> (s + sn + 8, f, p), m \<mapsto> (sm, fm, f))"
  using assms by (auto simp: lay_merge_def)

lemma block_absorb_ok:
  assumes inv: "heap_inv P lay X t" and b: "lay b = Some (s, True, p)" "b \<in> X"
    and n: "b + s + 8 = n" "lay n = Some (sn, True, pn)" "n \<in> X"
  shows "\<exists>t'. block_absorb b n t = Inr (b, t') \<and> heap_inv P (lay_merge b lay) (X - {n}) t' \<and> keeps P lay t t'"
proof -
  have pools: "pools_ok P (control t)" and ok: "layout_ok P lay" using inv by (auto simp: heap_inv_def)
  have s0: "s \<noteq> 0" "sn \<noteq> 0" using layoutD(4) [OF ok b(1)] layoutD(4) [OF ok n(2)] by auto
  then have s24: "24 \<le> s" "24 \<le> sn" using layoutD(5) [OF ok b(1)] layoutD(5) [OF ok n(2)] by auto
  obtain m sm fm where m: "n + sn + 8 = m" "lay m = Some (sm, fm, True)"
    and mm: "fm \<Longrightarrow> heap t (m + sm + 8) = m" "fm \<Longrightarrow> 24 \<le> sm" "heap t (m + 8) = hdr_val sm fm True"
    using next_block [OF inv n(2) s0(2)] by metis
  define L where "L = lay_merge b lay"
  have L: "L = lay(n := None, b \<mapsto> (s + sn + 8, True, p), m \<mapsto> (sm, fm, True))"
    unfolding L_def by (rule lay_merge_eq [OF b(1) n(1,2) m])
  have okL: "layout_ok P L" unfolding L_def using lay_merge_ok [OF pools ok b(1) s0(1)] n by blast
  have geo: "b + 32 \<le> n" "n + 32 \<le> m" "b + (s + sn + 8) + 8 = m" using s24 n(1) m(1) by auto
  have Lb: "L b = Some (s + sn + 8, True, p)" using geo by (simp add: L)
  have rng: "8 dvd s + sn + 8" "b + (s + sn + 8) + 48 < 2 ^ 63" "s + sn + 8 < 2 ^ 32"
    using layoutD(2) [OF okL Lb] in_pool_range [OF pools layoutD(3) [OF okL Lb]] by auto
  define t' where "t' = poke m b (poke (b + 8) (hdr_val (s + sn + 8) True p) t)"
  have w: "size_t (heap t (b + 8) + (block_size n t + block_header_overhead)) = hdr_val (s + sn + 8) True p"
    using read_header(6) [OF inv b(1)] read_header(1) [OF inv n(2)] rng(3)
    by (cases p) (simp_all add: hdr_val_def)
  have nx: "block_next b (poke (b + 8) (hdr_val (s + sn + 8) True p) t) = Inr m"
    using header_word(5) [of "poke (b + 8) (hdr_val (s + sn + 8) True p) t" b "s + sn + 8" True p] rng geo(3) by simp
  have run: "block_absorb b n t = Inr (b, t')"
    using read_header(4) [OF inv b(1)] s0(1) nx w by (simp add: block_absorb_def block_link_next_def Let_def t'_def)
  have same: "same_lists t t'" by (simp add: t'_def)
  have ch: "a = b + 8 \<or> a = m" if "heap t' a \<noteq> heap t a" for a using that by (auto simp: t'_def split: if_splits)
  have in_n: "in_block n sn m" "m \<noteq> n + 16" "m \<noteq> n + 24" using m(1) s24 by (auto simp: in_block_def)
  have "heap_inv P L (X - {n}) t'"
  proof (rule inv_update [OF inv same _ okL, of "{b, n, m}"])
    show "touches {b, n, m} lay X a" if "heap t' a \<noteq> heap t a" for a
      using ch [OF that] b n in_n by (auto simp: in_block_def intro: touchesI [of lay b s] touchesI [of lay n sn])
    show "heap t' (x + 8) = hdr_val sx fx px \<and> (fx \<longrightarrow> heap t' (x + sx + 8) = x)"
      if x: "x \<in> {b, n, m}" "L x = Some (sx, fx, px)" for x sx fx px
    proof -
      have cases: "x = b \<and> sx = s + sn + 8 \<and> fx \<and> px = p \<or> x = m \<and> sx = sm \<and> fx = fm \<and> px"
        using x geo(1,2) by (auto simp: L split: if_splits)
      have "heap t' (m + sm + 8) = m" if fm using geo(1,2) mm(1) [OF that] mm(2) [OF that] by (simp add: t'_def)
      with cases show ?thesis using geo mm(3) by (elim disjE conjE) (simp_all add: t'_def)
    qed
    show "x \<notin> X - {n} \<and> (\<exists>p. L x = Some (sx, True, p)) \<longleftrightarrow> x \<notin> X \<and> (\<exists>p. lay x = Some (sx, True, p))"
      if "x \<in> {b, n, m}" for x sx using that b n m geo by (auto simp: L)
  qed (auto simp: L)
  moreover have "free_cell lay a" if "heap t' a \<noteq> heap t a" for a
    using ch [OF that] b n in_n by (auto simp: in_block_def intro: free_cellI [of _ b s] free_cellI [of _ n sn])
  then have "keeps P lay t t'" using keeps_update [OF inv same ok] by blast
  ultimately show ?thesis using run unfolding L_def by blast
qed

lemma lay_merge_facts:
  assumes inv: "heap_inv P lay X t" and b: "lay b = Some (s, True, p)" and n: "b + s + 8 = n" "lay n = Some (sn, True, pn)"
  shows "used (lay_merge b lay) = used lay" "lay_merge b lay b = Some (s + sn + 8, True, p)"
    "unmerged (lay_merge b lay) = unmerged lay - {n}"
proof -
  have ok: "layout_ok P lay" using inv by (auto simp: heap_inv_def)
  have "sn \<noteq> 0" using layoutD(4) [OF ok n(2)] by auto
  then obtain m sm fm where m: "n + sn + 8 = m" "lay m = Some (sm, fm, True)" using next_block [OF inv n(2)] by metis
  have L: "lay_merge b lay = lay(n := None, b \<mapsto> (s + sn + 8, True, p), m \<mapsto> (sm, fm, True))"
    by (rule lay_merge_eq [OF b n m])
  have ne: "b \<noteq> n" "n \<noteq> m" "b \<noteq> m" using n(1) m(1) by auto
  show "used (lay_merge b lay) = used lay" using b n m ne by (auto simp: L used_def split: if_splits)
  show "lay_merge b lay b = Some (s + sn + 8, True, p)" using ne by (simp add: L)
  show "unmerged (lay_merge b lay) = unmerged lay - {n}" using b n m ne by (auto simp: L unmerged_def split: if_splits)
qed

lemma block_merge_next_ok:
  assumes inv: "heap_inv P lay {b} t" and b: "lay b = Some (s, True, p)"
  shows "\<exists>t' L s2. block_merge_next b t = Inr (b, t') \<and> heap_inv P L {b} t' \<and> keeps P lay t t' \<and> L b = Some (s2, True, p) \<and>
    used L = used lay \<and> unmerged L = unmerged lay - {b + s + 8} \<and> s \<le> s2"
proof -
  have ok: "layout_ok P lay" "pools_ok P (control t)" using inv by (auto simp: heap_inv_def)
  have s0: "s \<noteq> 0" using layoutD(4) [OF ok(1) b] by auto
  obtain n s' f' where n: "b + s + 8 = n" "lay n = Some (s', f', True)" "block_next b t = Inr n"
    using next_block [OF inv b s0] by metis
  have nz: "n \<noteq> 0" using n(1) by auto
  show ?thesis
  proof (cases f')
    case False
    then have "block_merge_next b t = Inr (b, t)"
      using n nz read_header(2) [OF inv n(2)] by (simp add: block_merge_next_def)
    moreover have "n \<notin> unmerged lay" using n(2) False by (auto simp: unmerged_def)
    ultimately show ?thesis using inv b keeps_refl n(1) by auto
  next
    case True
    then have nf: "lay n = Some (s', True, True)" using n(2) by simp
    have "n \<notin> {b}" using n(1) by auto
    from block_remove_ok [OF inv nf this] obtain t1
      where t1: "block_remove n t = Inr t1" "heap_inv P lay (insert n {b}) t1" "keeps P lay t t1" by blast
    obtain t2 where t2: "block_absorb b n t1 = Inr (b, t2)" "heap_inv P (lay_merge b lay) (insert n {b} - {n}) t2" "keeps P lay t1 t2"
      using block_absorb_ok [OF t1(2) b _ n(1) nf] by auto
    have "insert n {b} - {n} = {b}" using \<open>n \<notin> {b}\<close> by auto
    moreover have "block_merge_next b t = Inr (b, t2)"
      using n nz read_header(2) [OF inv nf] read_header(4) [OF inv b] s0 t1(1) t2(1) by (simp add: block_merge_next_def)
    ultimately show ?thesis
      using t2(2) keeps_trans [OF t1(3) t2(3)] lay_merge_facts [OF inv b n(1) nf] n(1) by auto
  qed
qed

lemma block_merge_prev_ok:
  assumes inv: "heap_inv P lay {b} t" and b: "lay b = Some (s, True, p)"
  shows "\<exists>t' L b' s2 p'. block_merge_prev b t = Inr (b', t') \<and> heap_inv P L {b'} t' \<and> keeps P lay t t' \<and>
    L b' = Some (s2, True, p') \<and> b' + s2 = b + s \<and> used L = used lay \<and> unmerged L = unmerged lay - {b}"
proof (cases p)
  case False
  then have "block_merge_prev b t = Inr (b, t)" using read_header(3) [OF inv b] by (simp add: block_merge_prev_def)
  moreover have "b \<notin> unmerged lay" using b False by (auto simp: unmerged_def)
  ultimately show ?thesis using inv b keeps_refl by auto
next
  case True
  have ok: "layout_ok P lay" "pools_ok P (control t)" "headers lay (heap t)" using inv by (auto simp: heap_inv_def)
  obtain b0 s0 p0 where 0: "lay b0 = Some (s0, True, p0)" "b = b0 + s0 + 8" using layoutD(7) [OF ok(1) b] True by auto
  have link: "heap t b = b0" using ok(3) 0 unfolding headers_def by blast
  have nz: "b0 \<noteq> 0" using in_pool_range(1) [OF ok(2) layoutD(3) [OF ok(1) 0(1)]] by simp
  have "b0 \<notin> {b}" using 0(2) by auto
  from block_remove_ok [OF inv 0(1) this] obtain t1
    where t1: "block_remove b0 t = Inr t1" "heap_inv P lay (insert b0 {b}) t1" "keeps P lay t t1" by blast
  obtain t2 where t2: "block_absorb b0 b t1 = Inr (b0, t2)" "heap_inv P (lay_merge b0 lay) (insert b0 {b} - {b}) t2" "keeps P lay t1 t2"
    using block_absorb_ok [OF t1(2) 0(1) _ 0(2) [symmetric] b] by auto
  have "insert b0 {b} - {b} = {b0}" using \<open>b0 \<notin> {b}\<close> by auto
  moreover have "block_merge_prev b t = Inr (b0, t2)"
    using read_header(3) [OF inv b] read_header(2) [OF inv 0(1)] True link nz t1(1) t2(1)
    by (simp add: block_merge_prev_def block_prev_def)
  ultimately show ?thesis
    using t2(2) keeps_trans [OF t1(3) t2(3)] lay_merge_facts [OF inv 0(1) 0(2) [symmetric] b] 0(2) by auto
qed

section \<open>Resizing a used block\<close>

lemma block_trim_used_ok:
  assumes inv: "heap_inv P lay {} t" and b: "lay b = Some (s, False, p)" and sz: "8 dvd sz" "24 \<le> sz" "sz \<le> s"
    and un: "unmerged lay = {}"
  shows "\<exists>t' L s2. block_trim_used b sz t = Inr t' \<and> heap_inv P L {} t' \<and> unmerged L = {} \<and> sz \<le> s2 \<and> s2 \<le> s \<and>
    used L = insert (b, s2) (used lay - {(b, s)}) \<and> keeps P L t t'"
proof (cases "sz + 32 \<le> s")
  case False
  then have "block_trim_used b sz t = Inr t"
    using read_header [OF inv b] hdr_ranges(3) [OF inv b] sz by (simp add: block_trim_used_def block_can_split_def)
  moreover have "used lay = insert (b, s) (used lay - {(b, s)})" using b sz by (auto simp: used_def)
  ultimately show ?thesis using inv un sz keeps_refl by blast
next
  case True
  have s0: "s \<noteq> 0" using True by simp
  define r rs v where "r = b + sz + 8" and "rs = s - sz - 8" and "v = heap t (r + 8)"
  obtain n s' f' where n: "n = b + s + 8" "lay n = Some (s', f', False)" using next_block [OF inv b s0] by metis
  note rng = hdr_ranges [OF inv b]
  define t1 where "t1 = t\<lparr>heap := (heap t)(r + 8 := hdr_val rs True (bit v 1), b + 8 := hdr_val sz False p, n := r, n + 8 := hdr_val s' f' True)\<rparr>"
  have split: "block_split b sz t = Inr (r, t1)"
    using block_split_run [OF inv b sz(1) True r_def n] by (simp only: t1_def rs_def v_def)
  have geo: "b + 32 \<le> r" "r + 32 \<le> n" "8 dvd rs" "r + rs + 48 < 2 ^ 63" "r + rs + 8 = n"
    using sz rng True by (auto simp: r_def n(1) rs_def dvd_diff_nat)
  define t2 where "t2 = poke (r + 8) (hdr_val rs True False) t1"
  have set: "block_set_prev_used r t1 = t2"
    unfolding t2_def using geo by (intro header_word(10) [of _ _ _ _ "bit v 1"]) (simp_all add: t1_def)
  have t2: "same_lists t t2" "heap t2 = split_heap b s sz False p s' f' (heap t)"
    using geo(1,2) by (auto simp: t2_def t1_def same_lists_def split_heap_def Let_def fun_eq_iff rs_def r_def n(1))
  define L where "L = lay_split b sz lay"
  note sp = split_heap_ok [OF inv b _ sz(1,2) True n(2) [unfolded n(1)] t2, folded L_def r_def]
  have L: "L = lay(b \<mapsto> (sz, False, p), r \<mapsto> (rs, True, False), n \<mapsto> (s', f', True))"
    unfolding L_def r_def rs_def by (rule lay_split_eq [OF b n(1) [symmetric] n(2)])
  have ne: "r \<noteq> n" "b \<noteq> r" "b \<noteq> n" using geo by auto
  have Lr: "L r = Some (rs, True, False)" using ne by (auto simp: L)
  have used: "used L = insert (b, sz) (used lay - {(b, s)})"
    using b n(2) split_new [OF inv b True r_def] ne sz(2) by (auto simp: L used_def split: if_splits)
  have "unmerged L \<subseteq> unmerged lay \<union> {n}" using b n(2) by (auto simp: L unmerged_def split: if_splits)
  then have unL: "unmerged L \<subseteq> {r + rs + 8}" using un geo(5) by auto
  obtain t3 L3 s3 where t3: "block_merge_next r t2 = Inr (r, t3)" "heap_inv P L3 {r} t3" "keeps P L t2 t3" "L3 r = Some (s3, True, False)"
    "used L3 = used L" "unmerged L3 = unmerged L - {r + rs + 8}"
    using block_merge_next_ok [of P L r t2 rs False] sp(1) Lr by auto
  obtain t4 where t4: "block_insert r t3 = Inr t4" "heap_inv P L3 {} t4" "keeps P L3 t3 t4"
    using block_insert_ok [OF t3(2,4)] by auto
  have "block_trim_used b sz t = Inr t4"
    using read_header [OF inv b] rng True split set t3(1) t4(1) by (simp add: block_trim_used_def block_can_split_def)
  moreover have "keeps P L t t4" using keeps_trans [OF keeps_trans [OF sp(2) t3(3)] t4(3)] t3(5) by (simp add: used_data_def)
  then have "keeps P L3 t t4" using t3(5) by (simp add: keeps_def used_data_def)
  moreover have "unmerged L3 = {}" using t3(6) unL by auto
  moreover have "sz \<le> sz" "sz \<le> s" using True by auto
  ultimately show ?thesis using t4(2) used t3(5) by blast
qed

text \<open>A used block that grows into the free block behind it.\<close>

lemma grow_used_ok:
  assumes inv: "heap_inv P lay {} t" and b: "lay b = Some (s, False, p)" "s \<noteq> 0"
    and n: "b + s + 8 = n" "lay n = Some (sn, True, False)"
  shows "\<exists>t1 t'. block_merge_next b t = Inr (b, t1) \<and> block_mark_as_used b t1 = Inr t' \<and> heap_inv P (lay_merge b lay) {} t' \<and>
    keeps P lay t t'"
proof -
  have pools: "pools_ok P (control t)" and ok: "layout_ok P lay" using inv by (auto simp: heap_inv_def)
  have sn0: "sn \<noteq> 0" using layoutD(4) [OF ok n(2)] by auto
  then have s24: "24 \<le> s" "24 \<le> sn" using layoutD(5) [OF ok b] layoutD(5) [OF ok n(2)] by auto
  obtain m sm fm where m: "n + sn + 8 = m" "lay m = Some (sm, fm, True)" using next_block [OF inv n(2) sn0] by metis
  obtain t0 where t0: "block_remove n t = Inr t0" "heap_inv P lay {n} t0" "keeps P lay t t0"
    using block_remove_ok [OF inv n(2)] by auto
  have mm: "fm \<Longrightarrow> heap t0 (m + sm + 8) = m" "fm \<Longrightarrow> 24 \<le> sm" "heap t0 (m + 8) = hdr_val sm fm True"
    using t0(2) m(2) layoutD(4,5) [OF ok m(2)] by (auto simp: heap_inv_def headers_def)
  define L where "L = lay_merge b lay"
  have L: "L = lay(n := None, b \<mapsto> (s + sn + 8, False, p), m \<mapsto> (sm, fm, False))"
    unfolding L_def by (rule lay_merge_eq [OF b(1) n m])
  have okL: "layout_ok P L" unfolding L_def using lay_merge_ok [OF pools ok b] n by blast
  have geo: "b + 32 \<le> n" "n + 32 \<le> m" "b + (s + sn + 8) + 8 = m" using s24 n(1) m(1) by auto
  have Lb: "L b = Some (s + sn + 8, False, p)" using geo by (simp add: L)
  have rng: "8 dvd s + sn + 8" "b + (s + sn + 8) + 48 < 2 ^ 63" "s + sn + 8 < 2 ^ 32"
    using layoutD(2) [OF okL Lb] in_pool_range [OF pools layoutD(3) [OF okL Lb]] by auto
  define w where "w = hdr_val (s + sn + 8) False p"
  define t1 where "t1 = poke m b (poke (b + 8) w t0)"
  define t' where "t' = poke (b + 8) w (poke (m + 8) (hdr_val sm fm False) t1)"
  have w: "size_t (heap t0 (b + 8) + (block_size n t0 + block_header_overhead)) = w"
    using read_header(6) [OF t0(2) b(1)] read_header(1) [OF t0(2) n(2)] rng(3)
    by (cases p) (simp_all add: hdr_val_def w_def)
  have nx: "block_next b (poke (b + 8) w t0) = Inr m" "block_next b t1 = Inr m"
    using header_word(5) [of "poke (b + 8) w t0" b "s + sn + 8" False p] header_word(5) [of t1 b "s + sn + 8" False p] rng geo
    by (simp_all add: w_def t1_def)
  have "block_absorb b n t0 = Inr (b, t1)"
    using read_header(4) [OF t0(2) b(1)] b(2) nx w by (simp add: block_absorb_def block_link_next_def Let_def t1_def)
  then have run1: "block_merge_next b t = Inr (b, t1)"
    using read_header(5,4) [OF inv b(1)] b(2) n(1) read_header(2) [OF inv n(2)] t0(1) geo(1) by (simp add: block_merge_next_def)
  have "block_set_prev_used m t1 = poke (m + 8) (hdr_val sm fm False) t1"
    using hdr_ranges [OF t0(2) m(2)] mm(3) geo by (intro header_word(10) [of _ _ _ _ True]) (simp_all add: t1_def)
  moreover have "block_set_used b (poke (m + 8) (hdr_val sm fm False) t1) = t'"
    unfolding t'_def w_def using rng geo by (intro header_word(8) [of _ _ _ False]) (simp_all add: t1_def w_def)
  ultimately have run2: "block_mark_as_used b t1 = Inr t'" using nx(2) by (simp add: block_mark_as_used_def)
  have same: "same_lists t0 t'" by (simp add: t'_def t1_def)
  have ch: "a = b + 8 \<or> a = m \<or> a = m + 8" if "heap t' a \<noteq> heap t0 a" for a using that by (auto simp: t'_def t1_def split: if_splits)
  have in_n: "in_block n sn m" "m \<noteq> n + 16" "m \<noteq> n + 24" using m(1) s24 by (auto simp: in_block_def)
  have "heap_inv P L {} t'"
  proof (rule inv_update [OF t0(2) same _ okL, of "{b, n, m}"])
    show "touches {b, n, m} lay {n} a" if "heap t' a \<noteq> heap t0 a" for a
      using ch [OF that] b n m in_n
      by (auto simp: in_block_def intro: touchesI [of lay b s] touchesI [of lay n sn] touchesI [of lay m sm])
    show "heap t' (x + 8) = hdr_val sx fx px \<and> (fx \<longrightarrow> heap t' (x + sx + 8) = x)"
      if x: "x \<in> {b, n, m}" "L x = Some (sx, fx, px)" for x sx fx px
    proof -
      have cases: "x = b \<and> sx = s + sn + 8 \<and> \<not> fx \<and> px = p \<or> x = m \<and> sx = sm \<and> fx = fm \<and> \<not> px"
        using x geo(1,2) by (auto simp: L split: if_splits)
      have "heap t' (m + sm + 8) = m" if fm using geo(1,2) mm(1) [OF that] mm(2) [OF that] by (simp add: t'_def t1_def)
      with cases show ?thesis using geo by (elim disjE conjE) (simp_all add: t'_def t1_def w_def)
    qed
    show "x \<notin> {} \<and> (\<exists>p. L x = Some (sx, True, p)) \<longleftrightarrow> x \<notin> {n} \<and> (\<exists>p. lay x = Some (sx, True, p))"
      if "x \<in> {b, n, m}" for x sx using that b n m geo by (auto simp: L)
  qed (auto simp: L)
  moreover have "free_cell lay a" if "heap t' a \<noteq> heap t0 a" for a
    using ch [OF that] b n m in_n
    by (auto simp: in_block_def intro: free_cellI [of _ b s] free_cellI [of _ n sn] free_cellI [of _ m sm])
  then have "keeps P lay t0 t'" using keeps_update [OF t0(2) same ok] by blast
  then have "keeps P lay t t'" using keeps_trans [OF t0(3)] by blast
  ultimately show ?thesis using run1 run2 unfolding L_def by blast
qed

end
