(* ===== verification/Tlsf_Alloc.thy ===== *)
theory Tlsf_Alloc
  imports Tlsf_Blocks
begin

text \<open>
  The calls of the interface: \<open>tlsf_malloc\<close>, \<open>tlsf_memalign\<close>, \<open>tlsf_free\<close>, \<open>tlsf_realloc\<close> and
  \<open>tlsf_add_pool\<close>. Each is shown to succeed on a state whose blocks are in order and completely merged,
  to yield such a state again, to change the set of used blocks as it should and to leave the data of
  the other used blocks alone.
\<close>

definition tinv :: "(nat \<times> nat) set \<Rightarrow> layout \<Rightarrow> tlsf \<Rightarrow> bool" where
  "tinv P lay t \<longleftrightarrow> heap_inv P lay {} t \<and> unmerged lay = {}"

lemma keeps_used:
  "keeps P lay t t' \<Longrightarrow> used lay' \<subseteq> used lay \<Longrightarrow> keeps P lay' t t'"
  unfolding keeps_def used_data_def by blast

section \<open>Freeing\<close>

lemma lay_mark_free_facts:
  assumes inv: "heap_inv P lay X t" and b: "lay b = Some (s, False, p)" "s \<noteq> 0"
  shows "used (lay_mark b True lay) = used lay - {(b, s)}" "lay_mark b True lay b = Some (s, True, p)"
    "unmerged (lay_mark b True lay) \<subseteq> unmerged lay \<union> {b, b + s + 8}"
proof -
  obtain n s' f' where n: "b + s + 8 = n" "lay n = Some (s', f', False)" using next_block [OF inv b] by metis
  have L: "lay_mark b True lay = lay(b \<mapsto> (s, True, p), n \<mapsto> (s', f', True))" using b n by (simp add: lay_mark_def)
  have ne: "b \<noteq> n" using n(1) by auto
  show "used (lay_mark b True lay) = used lay - {(b, s)}" using b n ne by (auto simp: L used_def split: if_splits)
  show "lay_mark b True lay b = Some (s, True, p)" using ne by (simp add: L)
  show "unmerged (lay_mark b True lay) \<subseteq> unmerged lay \<union> {b, b + s + 8}"
    using n by (auto simp: L unmerged_def split: if_splits)
qed

lemma tlsf_free_ok:
  assumes tinv: "tinv P lay t" and b: "lay b = Some (s, False, p)" "s \<noteq> 0"
  shows "\<exists>t' L. tlsf_free (b + 16) t = Inr t' \<and> tinv P L t' \<and> used L = used lay - {(b, s)} \<and> keeps P L t t'"
proof -
  have inv: "heap_inv P lay {} t" and un: "unmerged lay = {}" using tinv by (auto simp: tinv_def)
  define L1 where "L1 = lay_mark b True lay"
  obtain t1 where t1: "block_mark_as_free b t = Inr t1" "heap_inv P L1 {b} t1" "keeps P L1 t t1"
    using block_mark_as_free_ok [OF inv b] by (auto simp: L1_def)
  note f1 = lay_mark_free_facts [OF inv b, folded L1_def]
  obtain t2 L2 b2 s2 p2 where t2: "block_merge_prev b t1 = Inr (b2, t2)" "heap_inv P L2 {b2} t2" "keeps P L1 t1 t2"
    "L2 b2 = Some (s2, True, p2)" "b2 + s2 = b + s" "used L2 = used L1" "unmerged L2 = unmerged L1 - {b}"
    using block_merge_prev_ok [OF t1(2) f1(2)] by metis
  obtain t3 L3 s3 where t3: "block_merge_next b2 t2 = Inr (b2, t3)" "heap_inv P L3 {b2} t3" "keeps P L2 t2 t3"
    "L3 b2 = Some (s3, True, p2)" "used L3 = used L2" "unmerged L3 = unmerged L2 - {b2 + s2 + 8}"
    using block_merge_next_ok [OF t2(2,4)] by metis
  obtain t4 where t4: "block_insert b2 t3 = Inr t4" "heap_inv P L3 {} t4" "keeps P L3 t3 t4"
    using block_insert_ok [OF t3(2,4)] by auto
  have "tlsf_free (b + 16) t = Inr t4"
    using read_header(2,8) [OF inv b(1)] t1(1) t2(1) t3(1) t4(1) by (simp add: tlsf_free_def)
  moreover have "unmerged L3 = {}" using f1(3) un t2(5,7) t3(6) by auto
  moreover have data: "used_data L3 = used_data L1" using t2(6) t3(5) by (simp add: used_data_def)
  moreover have "keeps P L3 t t4"
    using keeps_trans [OF keeps_trans [OF keeps_trans [OF t1(3) t2(3)] t3(3)] t4(3)] t2(6) t3(5)
    by (simp add: used_data_def keeps_def)
  ultimately show ?thesis using t4(2) f1(1) t2(6) t3(5) unfolding tinv_def by blast
qed

section \<open>Allocating\<close>

lemma lay_mark_used_facts:
  assumes inv: "heap_inv P lay X t" and b: "lay b = Some (s, True, p)"
  shows "used (lay_mark b False lay) = insert (b, s) (used lay)"
    "unmerged (lay_mark b False lay) = unmerged lay - {b, b + s + 8}"
proof -
  have s0: "s \<noteq> 0" using layoutD(4) [of P lay b s] inv b by (auto simp: heap_inv_def)
  obtain n s' f' where n: "b + s + 8 = n" "lay n = Some (s', f', True)" using next_block [OF inv b s0] by metis
  have L: "lay_mark b False lay = lay(b \<mapsto> (s, False, p), n \<mapsto> (s', f', False))" using b n by (simp add: lay_mark_def)
  have ne: "b \<noteq> n" using n(1) by auto
  show "used (lay_mark b False lay) = insert (b, s) (used lay)"
    using b n(2) ne s0 by (auto simp: L used_def split: if_splits)
  show "unmerged (lay_mark b False lay) = unmerged lay - {b, b + s + 8}"
    unfolding n(1) using b n(2) ne by (auto simp: L unmerged_def split: if_splits)
qed

lemma block_prepare_used_ok:
  assumes inv: "heap_inv P lay {b} t" and b: "lay b = Some (s, True, p)" and sz: "8 dvd sz" "24 \<le> sz" "sz \<le> s"
    and un: "unmerged lay \<subseteq> {b}"
  shows "\<exists>t' L s2. block_prepare_used b sz t = Inr (b + 16, t') \<and> tinv P L t' \<and> sz \<le> s2 \<and>
    used L = insert (b, s2) (used lay) \<and> keeps P lay t t'"
proof -
  obtain t1 s2 L1 where t1: "block_trim_free b sz t = Inr t1" "heap_inv P L1 {b} t1" "keeps P lay t t1" "L1 b = Some (s2, True, p)"
    "sz \<le> s2" "used L1 = used lay" "unmerged L1 \<subseteq> unmerged lay \<union> {b + s2 + 8}"
    using block_trim_free_ok [OF inv b sz] by metis
  obtain t2 where t2: "block_mark_as_used b t1 = Inr t2" "heap_inv P (lay_mark b False L1) ({b} - {b}) t2" "keeps P L1 t1 t2"
    using block_mark_as_used_ok [OF t1(2,4)] by auto
  have "b \<noteq> 0" using in_pool_range(1) [of P "control t" b s] layoutD(3) [of P lay b s True p] inv b by (auto simp: heap_inv_def)
  then have "block_prepare_used b sz t = Inr (b + 16, t2)"
    using sz t1(1) t2(1) read_header(7) [OF inv b] by (simp add: block_prepare_used_def)
  moreover have "tinv P (lay_mark b False L1) t2"
    using lay_mark_used_facts(2) [OF t1(2,4)] t2(2) t1(7) un unfolding tinv_def by auto
  moreover have "used (lay_mark b False L1) = insert (b, s2) (used lay)"
    using lay_mark_used_facts(1) [OF t1(2,4)] t1(6) by simp
  moreover have "keeps P lay t t2" using keeps_trans [OF t1(3) t2(3)] t1(6) by (simp add: used_data_def)
  ultimately show ?thesis using t1(5) by blast
qed

text \<open>The size that a request is rounded to.\<close>

definition adjusted :: "nat \<Rightarrow> nat" where
  "adjusted n = max ((n + 7) div 8 * 8) 24"

lemma adjusted_bounds: "n \<le> adjusted n" "8 dvd adjusted n" "24 \<le> adjusted n" "adjusted n \<le> max (n + 7) 24"
proof -
  have "n \<le> (n + 7) div 8 * 8" by presburger
  then show "n \<le> adjusted n" "24 \<le> adjusted n" by (auto simp: adjusted_def)
  show "8 dvd adjusted n" by (auto simp: adjusted_def max_def)
  show "adjusted n \<le> max (n + 7) 24" by (auto simp: adjusted_def max_def)
qed

lemma adjust_request_size_8:
  assumes "n + 7 < 2 ^ 64"
  shows "adjust_request_size n ALIGN_SIZE = Inr (if n \<noteq> 0 \<and> adjusted n < 2 ^ 32 then adjusted n else 0)"
proof (cases "n = 0")
  case False
  have "align_up n (2 ^ 3) = Inr ((n + (2 ^ 3 - 1)) div 2 ^ 3 * 2 ^ 3)" using assms by (intro align_up_pow2) auto
  then have "align_up n 8 = Inr ((n + 7) div 8 * 8)" by simp
  moreover have "adjusted n < 2 ^ 32 \<longleftrightarrow> (n + 7) div 8 * 8 < 4294967296" by (auto simp: adjusted_def)
  ultimately show ?thesis using False by (simp add: adjust_request_size_def adjusted_def)
qed (simp add: adjust_request_size_def)

text \<open>
  What a successful allocation does: one more used block, of at least the requested size, at the
  address returned.
\<close>

definition granted :: "(nat \<times> nat) set \<Rightarrow> layout \<Rightarrow> tlsf \<Rightarrow> nat \<Rightarrow> nat \<Rightarrow> tlsf \<Rightarrow> bool" where
  "granted P lay t n p t' \<longleftrightarrow> (\<exists>L b s. p = b + 16 \<and> tinv P L t' \<and> n \<le> s \<and> used L = insert (b, s) (used lay) \<and>
     b \<notin> fst ` used lay \<and> keeps P lay t t')"

lemma prepare_granted:
  assumes inv: "heap_inv P lay {b} t" and b: "lay b = Some (s, True, p)" and sz: "8 dvd sz" "24 \<le> sz" "sz \<le> s" "n \<le> sz"
    and un: "unmerged lay \<subseteq> {b}" and old: "keeps P lay0 t0 t" "used lay = used lay0"
  shows "\<exists>t'. block_prepare_used b sz t = Inr (b + 16, t') \<and> granted P lay0 t0 n (b + 16) t'"
proof -
  obtain t' L s2 where t': "block_prepare_used b sz t = Inr (b + 16, t')" "tinv P L t'" "sz \<le> s2"
    "used L = insert (b, s2) (used lay)" "keeps P lay t t'"
    using block_prepare_used_ok [OF inv b sz(1-3) un] by metis
  have "b \<notin> fst ` used lay0" using b old(2) [symmetric] by (auto simp: used_def)
  moreover have "keeps P lay0 t0 t'" using keeps_trans [OF old(1) t'(5)] old(2) by (simp add: used_data_def)
  moreover have "n \<le> s2" "b + 16 = b + 16" using sz(4) t'(3) by auto
  ultimately show ?thesis using t'(1,2,4) old(2) unfolding granted_def by metis
qed

lemma tlsf_malloc_ok:
  assumes tinv: "tinv P lay t" and n: "n + 7 < 2 ^ 64"
  shows "\<exists>p t'. tlsf_malloc n t = Inr (p, t') \<and>
    (if p = 0
     then t' = t \<and> (n = 0 \<or> 2 ^ 32 \<le> adjusted n \<or> (\<forall>x s p. lay x = Some (s, True, p) \<longrightarrow> 32 * s < 33 * adjusted n))
     else granted P lay t n p t')"
proof (cases "n \<noteq> 0 \<and> adjusted n < 2 ^ 32")
  case False
  then have "adjust_request_size n ALIGN_SIZE = Inr 0" using adjust_request_size_8 [OF n] by presburger
  then have "tlsf_malloc n t = Inr (0, t)" by (simp add: tlsf_malloc_def block_locate_free_def block_prepare_used_def)
  then show ?thesis using False by auto
next
  case True
  have inv: "heap_inv P lay {} t" and un: "unmerged lay = {}" using tinv by (auto simp: tinv_def)
  define sz where "sz = adjusted n"
  have sz: "8 dvd sz" "24 \<le> sz" "0 < sz" "sz < 2 ^ 32" "n \<le> sz" using adjusted_bounds [of n] True by (auto simp: sz_def)
  have adj: "adjust_request_size n ALIGN_SIZE = Inr sz" using adjust_request_size_8 [OF n] True by (simp add: sz_def)
  obtain b t1 where b: "block_locate_free sz t = Inr (b, t1)"
    "if b = 0 then t1 = t \<and> (\<forall>x s p. lay x = Some (s, True, p) \<longrightarrow> 32 * s < 33 * sz)
     else (\<exists>s p. lay b = Some (s, True, p) \<and> sz \<le> s) \<and> heap_inv P lay {b} t1 \<and> keeps P lay t t1"
    using block_locate_free_ok [OF inv sz(1,3,4)] by blast
  show ?thesis
  proof (cases "b = 0")
    case null: True
    then have "tlsf_malloc n t = Inr (0, t)" using adj b by (simp add: tlsf_malloc_def block_prepare_used_def)
    then show ?thesis using b(2) null by (auto simp: sz_def)
  next
    case False
    then obtain s p where s: "lay b = Some (s, True, p)" "sz \<le> s" "heap_inv P lay {b} t1" "keeps P lay t t1" using b(2) by auto
    obtain t2 where t2: "block_prepare_used b sz t1 = Inr (b + 16, t2)" "granted P lay t n (b + 16) t2"
      using prepare_granted [OF s(3,1) sz(1,2) s(2) sz(5) _ s(4)] un by auto
    have "tlsf_malloc n t = Inr (b + 16, t2)" using adj b(1) t2(1) by (simp add: tlsf_malloc_def)
    then show ?thesis using t2(2) by simp
  qed
qed

section \<open>Aligned allocation\<close>

lemma round_up:
  fixes x a :: nat
  assumes "0 < a"
  shows "x \<le> (x + (a - 1)) div a * a" "(x + (a - 1)) div a * a < x + a" "a dvd (x + (a - 1)) div a * a"
proof -
  define y where "y = x + (a - 1)"
  have "y mod a < a" "y = y div a * a + y mod a" using assms by auto
  then show "x \<le> (x + (a - 1)) div a * a" "(x + (a - 1)) div a * a < x + a"
    unfolding y_def using assms by linarith+
qed simp

lemma round_up_dvd: "(a::nat) dvd x \<Longrightarrow> 0 < a \<Longrightarrow> (x + (a - 1)) div a * a = x"
  using round_up [of a x] by (metis add.commute add_diff_cancel_left' dvd_diff_nat dvd_imp_le le_add_diff_inverse less_diff_conv2 not_less zero_less_diff le_neq_implies_less)

lemma align_gap_ok:
  assumes ptr: "8 dvd ptr" "ptr < 2 ^ 63" and k: "k < 61"
  shows "\<exists>gap. align_gap ptr (2 ^ k) = Inr (ptr + gap, gap) \<and> 2 ^ k dvd ptr + gap \<and> 8 dvd gap \<and> (gap = 0 \<or> 32 \<le> gap) \<and>
    gap \<le> 2 ^ k + 24 \<and> (k \<le> 3 \<longrightarrow> gap = 0)"
proof -
  define a A g where "a = (2::nat) ^ k" and "A = (ptr + (a - 1)) div a * a" and "g = A - ptr"
  have "a < 2 ^ 61" unfolding a_def using k by (intro power_strict_increasing) auto
  then have a: "0 < a" "a < 2 ^ 61" by (auto simp: a_def)
  have A: "ptr \<le> A" "A < ptr + a" "a dvd A" unfolding A_def by (rule round_up [OF a(1)])+
  have al: "align_ptr x a = Inr ((x + (a - 1)) div a * a)" if "x < 2 ^ 63 + 2 ^ 62 + 32" for x
    unfolding a_def using that k a(2) by (intro align_ptr_pow2) (auto simp: a_def)
  have sub: "size_sub y ptr = y - ptr" if "ptr \<le> y" "y < 2 ^ 64" for y using that by (rule size_sub_le)
  have Ag1: "A = ptr + g" "g < a" using A by (auto simp: g_def)
  have "size_sub A ptr = g" using sub [OF A(1)] A(2) ptr(2) a(2) by (simp add: g_def)
  moreover have "align_ptr ptr a = Inr A" unfolding A_def using ptr(2) by (intro al) simp
  ultimately have Ag: "A = ptr + g" "g < a" "size_sub A ptr = g" "align_ptr ptr a = Inr A" using Ag1 by auto
  show ?thesis
  proof (cases "k \<le> 3")
    case True
    then have "a dvd 8" using power_le_dvd [of 2 3 "8::nat" k] by (simp add: a_def)
    then have "a dvd ptr" using ptr(1) by (rule dvd_trans)
    then have "A = ptr" unfolding A_def using a(1) by (rule round_up_dvd)
    then have "g = 0" by (simp add: g_def)
    then show ?thesis using Ag A(3) by (intro exI [of _ 0]) (simp add: align_gap_def a_def)
  next
    case False
    have a16: "a = 16 * 2 ^ (k - 4)" using False power_add [of "2::nat" 4 "k - 4"] by (simp add: a_def)
    then have "8 dvd a" by simp
    then have "8 dvd A" using A(3) dvd_trans by blast
    then have g8: "8 dvd g" using ptr(1) by (simp add: g_def)
    show ?thesis
    proof (cases "g \<noteq> 0 \<and> g < 32")
      case no: False
      then have "align_gap ptr a = Inr (ptr + g, g)" using Ag by (auto simp: align_gap_def)
      then show ?thesis using no A(3) Ag g8 False by (intro exI [of _ g]) (auto simp: a_def)
    next
      case True
      define B where "B = (if 32 - g \<le> a then A + a else A + 32)"
      have B: "(A + max (32 - g) a + (a - 1)) div a * a = B \<and> a dvd B \<and> 32 \<le> B - ptr \<and> B - ptr \<le> a + 24"
      proof (cases "32 - g \<le> a")
        case le: True
        then have "max (32 - g) a = a" by simp
        moreover have "(A + a + (a - 1)) div a * a = A + a" using A(3) a(1) by (intro round_up_dvd) auto
        moreover have "g \<le> 24" using True g8 by (auto elim!: dvdE)
        ultimately show ?thesis using le A(3) Ag(1) by (auto simp: B_def)
      next
        case gt: False
        have "2 ^ (k - 4) < (2::nat)" using gt a16 by simp
        then have "k - 4 = 0" by (metis One_nat_def less_2_cases_iff less_exp less_one power_one_right one_less_power not_gr_zero not_less_iff_gr_or_eq numeral_2_eq_2)
        then have a16': "a = 16" using a16 by simp
        then have "g = 8" using gt g8 True by (auto elim!: dvdE)
        moreover obtain c where "A = 16 * c" using A(3) a16' by auto
        ultimately show ?thesis using gt a16' Ag(1) by (auto simp: B_def)
      qed
      have "max (32 - g) a \<le> a + 32" by simp
      then have "A + max (32 - g) a < 2 ^ 63 + 2 ^ 62 + 32" using A(2) ptr(2) a(2) by simp
      then have "align_ptr (A + max (32 - g) a) a = Inr B" "size_t (A + max (32 - g) a) = A + max (32 - g) a"
        using al B by auto
      moreover have "size_sub B ptr = B - ptr" using A ptr(2) a(2) by (intro sub) (auto simp: B_def)
      ultimately have "align_gap ptr a = Inr (B, B - ptr)" using Ag(3,4) True by (simp add: align_gap_def Let_def)
      moreover have "B = ptr + (B - ptr)" using A(1) by (simp add: B_def)
      moreover have "8 dvd B" using B \<open>8 dvd a\<close> dvd_trans by blast
      then have "8 dvd B - ptr" using ptr(1) by simp
      ultimately show ?thesis using B False by (intro exI [of _ "B - ptr"]) (auto simp: a_def)
    qed
  qed
qed

lemma gap_size:
  assumes "k < 61" and "m < 2 ^ 32"
  shows "\<exists>g. adjust_request_size (size_t (m + 2 ^ k + 32)) (2 ^ k) = Inr g \<and>
    (g = 0 \<or> g < 2 ^ 32 \<and> m + 2 ^ k + 32 \<le> g \<and> 2 ^ k dvd g)"
proof -
  define a x where "a = (2::nat) ^ k" and "x = m + a + 32"
  define A where "A = (x + (a - 1)) div a * a"
  have "a < 2 ^ 61" unfolding a_def using assms(1) by (intro power_strict_increasing) auto
  then have a: "0 < a" "a < 2 ^ 61" by (auto simp: a_def)
  have A: "x \<le> A" "a dvd A" unfolding A_def using round_up [OF a(1)] by blast+
  have "x + (a - 1) < 2 ^ 64" using a(2) assms(2) by (simp add: x_def)
  then have "align_up x a = Inr A" unfolding a_def A_def using assms(1) by (intro align_up_pow2) (auto simp: a_def)
  moreover have "size_t x = x" "x \<noteq> 0" using a(2) assms(2) by (auto simp: x_def)
  ultimately have "adjust_request_size (size_t x) a = Inr (if A < 2 ^ 32 then A else 0)"
    using A(1) by (simp add: adjust_request_size_def max_def x_def)
  then show ?thesis using A unfolding x_def a_def by (intro exI [of _ "if A < 2 ^ 32 then A else 0"]) auto
qed

lemma tlsf_memalign_ok:
  assumes tinv: "tinv P lay t" and n: "n + 7 < 2 ^ 64" and k: "k < 61"
  shows "\<exists>p t'. tlsf_memalign (2 ^ k) n t = Inr (p, t') \<and>
    (if p = 0 then t' = t else granted P lay t n p t' \<and> 2 ^ k dvd p)"
proof -
  have inv: "heap_inv P lay {} t" and un: "unmerged lay = {}" using tinv by (auto simp: tinv_def)
  have ok: "pools_ok P (control t)" "layout_ok P lay" using inv by (auto simp: heap_inv_def)
  define m where "m = (if n \<noteq> 0 \<and> adjusted n < 2 ^ 32 then adjusted n else 0)"
  have adj: "adjust_request_size n ALIGN_SIZE = Inr m" using adjust_request_size_8 [OF n] by (simp only: m_def)
  have m: "m < 2 ^ 32" "8 dvd m" "m \<noteq> 0 \<Longrightarrow> 24 \<le> m \<and> n \<le> m" using adjusted_bounds [of n] by (auto simp: m_def split: if_splits)
  obtain g where g: "adjust_request_size (size_t (m + 2 ^ k + 32)) (2 ^ k) = Inr g"
    "g = 0 \<or> g < 2 ^ 32 \<and> m + 2 ^ k + 32 \<le> g \<and> 2 ^ k dvd g" using gap_size [OF k m(1)] by blast
  define z where "z = (if m \<noteq> 0 \<and> ALIGN_SIZE < 2 ^ k then g else m)"
  have start: "tlsf_memalign (2 ^ k) n t = res_bind (block_locate_free z t) (\<lambda>(block, t).
      res_bind (if block \<noteq> 0
                then res_bind (align_gap (block_to_ptr block) (2 ^ k)) (\<lambda>(aligned, gap).
                     if gap \<noteq> 0 then res_bind (gpcl_assert (gap \<ge> 32)) (\<lambda>_. block_trim_free_leading block gap t) else Inr (block, t))
                else Inr (block, t)) (\<lambda>(block, t). block_prepare_used block m t))"
    unfolding tlsf_memalign_def Let_def z_def by (simp add: adj g(1) del: tlsf_constants(2))
  have "k \<le> 3 \<longleftrightarrow> \<not> ALIGN_SIZE < 2 ^ k"
    using power_increasing_iff [of "2::nat" k 3] by (simp add: not_less)
  then have z: "z = 0 \<or> m \<noteq> 0 \<and> 8 dvd z \<and> z < 2 ^ 32 \<and> m \<le> z \<and> (3 < k \<longrightarrow> m + 2 ^ k + 32 \<le> z)"
  proof (cases "m \<noteq> 0 \<and> ALIGN_SIZE < 2 ^ k")
    case True
    then have "3 < k" using \<open>k \<le> 3 \<longleftrightarrow> \<not> ALIGN_SIZE < 2 ^ k\<close> by auto
    then have "(8::nat) dvd 2 ^ k" using le_imp_power_dvd [of 3 k "2::nat"] by simp
    then show ?thesis using g(2) True by (auto simp: z_def intro: dvd_trans)
  qed (use m \<open>k \<le> 3 \<longleftrightarrow> \<not> ALIGN_SIZE < 2 ^ k\<close> in \<open>auto simp: z_def\<close>)
  show ?thesis
  proof (cases "z = 0")
    case True
    then show ?thesis using start by (simp add: block_locate_free_def block_prepare_used_def)
  next
    case False
    obtain b t1 where b: "block_locate_free z t = Inr (b, t1)"
      "if b = 0 then t1 = t \<and> (\<forall>x s p. lay x = Some (s, True, p) \<longrightarrow> 32 * s < 33 * z)
       else (\<exists>s p. lay b = Some (s, True, p) \<and> z \<le> s) \<and> heap_inv P lay {b} t1 \<and> keeps P lay t t1"
      using block_locate_free_ok [OF inv, of z] z False by blast
    show ?thesis
    proof (cases "b = 0")
      case True
      then show ?thesis using start b by (simp add: block_prepare_used_def)
    next
      case b0: False
      then obtain s p where s: "lay b = Some (s, True, p)" "z \<le> s" "heap_inv P lay {b} t1" "keeps P lay t t1" using b(2) by auto
      note rng = hdr_ranges [OF s(3,1)] and ptr = read_header(7) [OF s(3,1)]
      have "8 dvd b + 16" "b + 16 < 2 ^ 63" using rng by auto
      from align_gap_ok [OF this k] obtain gap where gap: "align_gap (b + 16) (2 ^ k) = Inr (b + 16 + gap, gap)" "2 ^ k dvd b + 16 + gap"
        "8 dvd gap" "gap = 0 \<or> 32 \<le> gap" "gap \<le> 2 ^ k + 24" "k \<le> 3 \<longrightarrow> gap = 0" by blast
      show ?thesis
      proof (cases "gap = 0")
        case True
        obtain t2 where t2: "block_prepare_used b m t1 = Inr (b + 16, t2)" "granted P lay t n (b + 16) t2"
          using prepare_granted [OF s(3,1) m(2) _ _ _ _ s(4), of n] m(3) z False s(2) un by auto
        then have "tlsf_memalign (2 ^ k) n t = Inr (b + 16, t2)" using start b(1) b0 gap(1) True by (simp add: ptr)
        then show ?thesis using t2(2) gap(2) True by simp
      next
        case False
        then have g32: "32 \<le> gap" "gap + 32 \<le> s" "m \<le> s - gap" using gap(4,5,6) z \<open>z \<noteq> 0\<close> s(2) m(3) by auto
        obtain t2 L where t2: "block_trim_free_leading b gap t1 = Inr (b + gap, t2)" "heap_inv P L {b + gap} t2" "keeps P lay t1 t2"
          "L (b + gap) = Some (s - gap, True, True)" "used L = used lay" "unmerged L \<subseteq> unmerged lay \<union> {b + gap}"
          using block_trim_free_leading_ok [OF s(3,1) gap(3) g32(1,2)] by metis
        have keep: "keeps P lay t t2" using keeps_trans [OF s(4) t2(3)] by simp
        obtain t3 where t3: "block_prepare_used (b + gap) m t2 = Inr (b + gap + 16, t3)" "granted P lay t n (b + gap + 16) t3"
          using prepare_granted [OF t2(2,4) m(2) _ g32(3) _ _ keep t2(5), of n] m(3) z \<open>z \<noteq> 0\<close> t2(6) un by auto
        have "tlsf_memalign (2 ^ k) n t = Inr (b + gap + 16, t3)"
          using start b(1) b0 gap(1) False t2(1) t3(1) g32(1) by (simp add: ptr)
        moreover have "b + gap + 16 = b + 16 + gap" by simp
        ultimately show ?thesis using t3(2) gap(2) by (metis add_is_0 zero_neq_numeral)
      qed
    qed
  qed
qed

section \<open>Reallocating\<close>

text \<open>
  What a successful reallocation does: the block \<open>(b, s)\<close> is replaced by a block of at least the
  requested size, which starts with the data of the old one; all other used blocks keep their data.
\<close>

definition moved :: "(nat \<times> nat) set \<Rightarrow> layout \<Rightarrow> tlsf \<Rightarrow> nat \<Rightarrow> nat \<Rightarrow> nat \<Rightarrow> nat \<Rightarrow> tlsf \<Rightarrow> bool" where
  "moved P lay t b s n p t' \<longleftrightarrow> (\<exists>L b' s'. p = b' + 16 \<and> tinv P L t' \<and> n \<le> s' \<and>
     used L = insert (b', s') (used lay - {(b, s)}) \<and> b' \<notin> fst ` (used lay - {(b, s)}) \<and>
     control t' = control t \<and> (\<forall>i < min s s'. heap t' (p + i) = heap t (b + 16 + i)) \<and>
     (\<forall>x sx i. (x, sx) \<in> used lay \<longrightarrow> x \<noteq> b \<longrightarrow> i < sx \<longrightarrow> heap t' (x + 16 + i) = heap t (x + 16 + i)))"

lemma used_unique: "(x, s) \<in> used lay \<Longrightarrow> (x, s') \<in> used lay \<Longrightarrow> s = s'"
  by (auto simp: used_def)

lemma usedD: "(x, s) \<in> used lay \<Longrightarrow> s \<noteq> 0 \<and> (\<exists>p. lay x = Some (s, False, p))"
  by (auto simp: used_def)

lemma keeps_data: "keeps P lay t t' \<Longrightarrow> (x, s) \<in> used lay \<Longrightarrow> i < s \<Longrightarrow> heap t' (x + 16 + i) = heap t (x + 16 + i)"
  unfolding keeps_def used_data_def by (metis (mono_tags, lifting) UnI1 le_add1 mem_Collect_eq nat_add_left_cancel_less)

lemma moved_in_place:
  assumes b: "lay b = Some (s, False, p)" "s \<noteq> 0" and L: "tinv P L t'" "used L = insert (b, s') (used lay - {(b, s)})" "n \<le> s'"
    and data: "keeps P lay t t' \<or> keeps P L t t'"
  shows "moved P lay t b s n (b + 16) t'"
proof -
  have "(b, s) \<in> used lay" using b by (auto simp: used_def)
  then have "b \<notin> fst ` (used lay - {(b, s)})" using used_unique by fastforce
  moreover have "heap t' (b + 16 + i) = heap t (b + 16 + i)" if "i < min s s'" for i
    using data keeps_data [of P lay t t' b s i] keeps_data [of P L t t' b s' i] L(2) \<open>(b, s) \<in> used lay\<close> that by auto
  moreover have "heap t' (x + 16 + i) = heap t (x + 16 + i)" if "(x, sx) \<in> used lay" "x \<noteq> b" "i < sx" for x sx i
    using data keeps_data [of P lay t t' x sx i] keeps_data [of P L t t' x sx i] L(2) that by auto
  moreover have "control t' = control t" using data by (auto simp: keeps_def)
  ultimately show ?thesis unfolding moved_def using L by blast
qed

lemma copy_cells_inv:
  assumes inv: "heap_inv P lay X t" and b: "lay b = Some (s, False, p)" and n: "n \<le> s"
  shows "heap_inv P lay X (copy_cells (b + 16) src n t)"
proof (rule inv_update [OF inv, of _ "{b}"])
  have ok: "layout_ok P lay" using inv by (auto simp: heap_inv_def)
  define t' where "t' = copy_cells (b + 16) src n t"
  have ch: "b + 16 \<le> a \<and> a < b + 16 + n" if "heap t' a \<noteq> heap t a" for a
    using that by (auto simp: t'_def copy_cells_def split: if_splits)
  show "same_lists t (copy_cells (b + 16) src n t)" by (simp add: same_lists_def copy_cells_def)
  show "touches {b} lay X a" if "heap (copy_cells (b + 16) src n t) a \<noteq> heap t a" for a
    using ch [folded t'_def, OF that [folded t'_def]] n b by (auto simp: in_block_def intro: touchesI [of lay b s])
  show "layout_ok P lay" by (rule ok)
  show "heap (copy_cells (b + 16) src n t) (x + 8) = hdr_val sx fx px \<and> (fx \<longrightarrow> heap (copy_cells (b + 16) src n t) (x + sx + 8) = x)"
    if "x \<in> {b}" "lay x = Some (sx, fx, px)" for x sx fx px
    using that b read_header(6) [OF inv b] by (simp add: copy_cells_def)
qed simp_all

lemma grow_used_facts:
  assumes inv: "heap_inv P lay X t" and b: "lay b = Some (s, False, p)" "s \<noteq> 0"
    and n: "b + s + 8 = n" "lay n = Some (sn, True, False)"
  shows "used (lay_merge b lay) = insert (b, s + sn + 8) (used lay - {(b, s)})"
    "lay_merge b lay b = Some (s + sn + 8, False, p)" "unmerged (lay_merge b lay) \<subseteq> unmerged lay"
proof -
  have ok: "layout_ok P lay" using inv by (auto simp: heap_inv_def)
  have "sn \<noteq> 0" using layoutD(4) [OF ok n(2)] by auto
  then obtain m sm fm where m: "n + sn + 8 = m" "lay m = Some (sm, fm, True)" using next_block [OF inv n(2)] by metis
  have L: "lay_merge b lay = lay(n := None, b \<mapsto> (s + sn + 8, False, p), m \<mapsto> (sm, fm, False))"
    by (rule lay_merge_eq [OF b(1) n m])
  have ne: "b \<noteq> n" "n \<noteq> m" "b \<noteq> m" using n(1) m(1) by auto
  show "used (lay_merge b lay) = insert (b, s + sn + 8) (used lay - {(b, s)})"
    using b n(2) m(2) ne by (auto simp: L used_def split: if_splits)
  show "lay_merge b lay b = Some (s + sn + 8, False, p)" using ne by (simp add: L)
  show "unmerged (lay_merge b lay) \<subseteq> unmerged lay" using b ne by (auto simp: L unmerged_def split: if_splits)
qed

lemma copy_granted:
  assumes tinv: "tinv P lay t" and b: "(b, s) \<in> used lay" and g: "granted P lay t n q t1" and n: "s \<le> n"
  shows "\<exists>t'. tlsf_free (b + 16) (copy_cells q (b + 16) s t1) = Inr t' \<and> moved P lay t b s n q t'"
proof -
  obtain L1 b1 s1 where L1: "q = b1 + 16" "tinv P L1 t1" "n \<le> s1" "used L1 = insert (b1, s1) (used lay)"
    "b1 \<notin> fst ` used lay" "keeps P lay t t1" using g unfolding granted_def by blast
  define t2 where "t2 = copy_cells q (b + 16) s t1"
  have in1: "(b, s) \<in> used L1" "(b1, s1) \<in> used L1" using b L1(4) by auto
  obtain p where Lb: "L1 b = Some (s, False, p)" "s \<noteq> 0" using usedD [OF in1(1)] by blast
  obtain p1 where Lb1: "L1 b1 = Some (s1, False, p1)" using usedD [OF in1(2)] by blast
  have inv1: "heap_inv P L1 {} t1" "layout_ok P L1" "unmerged L1 = {}" using L1(2) by (auto simp: tinv_def heap_inv_def)
  have "tinv P L1 t2"
    using copy_cells_inv [OF inv1(1) Lb1, of s "b + 16"] inv1(3) L1(1,3) n by (simp add: t2_def tinv_def)
  from tlsf_free_ok [OF this Lb] obtain t3 L3 where t3: "tlsf_free (b + 16) t2 = Inr t3" "tinv P L3 t3"
    "used L3 = used L1 - {(b, s)}" "keeps P L3 t2 t3" by blast
  have ne: "b1 \<noteq> b" using L1(5) b by force
  have used3: "used L3 = insert (b1, s1) (used lay - {(b, s)})" using t3(3) L1(4) ne by auto
  have copied: "heap t2 (b1 + 16 + i) = heap t (b + 16 + i)" if "i < s" for i
    using keeps_data [OF L1(6) b that] that by (simp add: t2_def copy_cells_def L1(1))
  have other: "heap t2 (x + 16 + i) = heap t1 (x + 16 + i)" if x: "(x, sx) \<in> used lay" "i < sx" for x sx i
  proof -
    have "(x, sx) \<in> used L1" using x(1) L1(4) by simp
    then obtain px where "L1 x = Some (sx, False, px)" using usedD by blast
    moreover have "x \<noteq> b1" using L1(5) x(1) by force
    moreover have "in_block x sx (x + 16 + i)" using x(2) by (simp add: in_block_def)
    ultimately have "\<not> in_block b1 s1 (x + 16 + i)" using in_block_unique [OF inv1(2) _ Lb1] by blast
    then show ?thesis using L1(3) n by (auto simp: t2_def copy_cells_def L1(1) in_block_def)
  qed
  have "moved P lay t b s n q t3"
    unfolding moved_def
  proof (intro exI conjI allI impI)
    show "b1 \<notin> fst ` (used lay - {(b, s)})" using L1(5) by auto
    show "control t3 = control t" using t3(4) L1(6) by (simp add: keeps_def t2_def copy_cells_def)
    show "heap t3 (q + i) = heap t (b + 16 + i)" if "i < min s s1" for i
      using keeps_data [OF t3(4), of b1 s1 i] used3 copied [of i] that L1(1) by simp
    show "heap t3 (x + 16 + i) = heap t (x + 16 + i)" if "(x, sx) \<in> used lay" "x \<noteq> b" "i < sx" for x sx i
      using keeps_data [OF t3(4), of x sx i] used3 other [OF that(1,3)] keeps_data [OF L1(6) that(1,3)] that by simp
  qed (fact L1(1,3) t3(2) used3)+
  then show ?thesis using t3(1) by (simp add: t2_def)
qed

lemma tlsf_realloc_ok:
  assumes tinv: "tinv P lay t" and b: "lay b = Some (s, False, p)" "s \<noteq> 0" and n: "0 < n" "adjusted n < 2 ^ 32"
  shows "\<exists>q t'. tlsf_realloc (b + 16) n t = Inr (q, t') \<and> (if q = 0 then t' = t else moved P lay t b s n q t')"
proof -
  have inv: "heap_inv P lay {} t" and un: "unmerged lay = {}" using tinv by (auto simp: tinv_def)
  have ok: "pools_ok P (control t)" "layout_ok P lay" using inv by (auto simp: heap_inv_def)
  define m where "m = adjusted n"
  have m: "8 dvd m" "24 \<le> m" "n \<le> m" using adjusted_bounds [of n] by (auto simp: m_def)
  have n64: "n + 7 < 2 ^ 64" using m(3) n(2) by (simp add: m_def)
  have adj: "adjust_request_size n ALIGN_SIZE = Inr m" using adjust_request_size_8 [OF n64] n by (simp add: m_def)
  obtain nx s' f' where nx: "b + s + 8 = nx" "lay nx = Some (s', f', False)" "block_next b t = Inr nx"
    using next_block [OF inv b] by metis
  note hb = read_header [OF inv b(1)] and hn = read_header [OF inv nx(2)] and rb = hdr_ranges [OF inv b(1)] and rn = hdr_ranges [OF inv nx(2)]
  have comb: "size_t (s + s' + block_header_overhead) = s + s' + 8" using rb(3) rn(3) by simp
  have ne: "(b + 16 \<noteq> 0 \<and> n = 0) = False" "(b + 16 = 0) = False" using n(1) by auto
  have start: "tlsf_realloc (b + 16) n t =
    (if m > s \<and> (\<not> f' \<or> m > s + s' + 8)
     then res_bind (tlsf_malloc n t) (\<lambda>(p, t). if p \<noteq> 0
       then res_bind (tlsf_free (b + 16) (copy_cells p (b + 16) (min s n) t)) (\<lambda>t. Inr (p, t)) else Inr (p, t))
     else res_bind (if m > s then res_bind (block_merge_next b t) (\<lambda>(_, t). block_mark_as_used b t) else Inr t) (\<lambda>t.
       res_bind (block_trim_used b m t) (\<lambda>t. Inr (b + 16, t))))"
    unfolding tlsf_realloc_def ne if_False Let_def hb(8) nx(3) res_bind_simps hb(1,2) hn(1,2) comb adj
      not_False_eq_True gpcl_assert_simps(1) using n(1) by simp
  show ?thesis
  proof (cases "m \<le> s")
    case True
    obtain t' L s2 where t': "block_trim_used b m t = Inr t'" "heap_inv P L {} t'" "unmerged L = {}" "m \<le> s2"
      "used L = insert (b, s2) (used lay - {(b, s)})" "keeps P L t t'"
      using block_trim_used_ok [OF inv b(1) m(1,2) True un] by metis
    have "moved P lay t b s n (b + 16) t'"
      using t' m(3) by (intro moved_in_place [OF b _ t'(5)]) (auto simp: tinv_def)
    moreover have "tlsf_realloc (b + 16) n t = Inr (b + 16, t')" using start True t'(1) by simp
    ultimately show ?thesis by simp
  next
    case big: False
    show ?thesis
    proof (cases "f' \<and> m \<le> s + s' + 8")
      case True
      then have nf: "lay nx = Some (s', True, False)" using nx(2) by simp
      obtain t1 t2 where t2: "block_merge_next b t = Inr (b, t1)" "block_mark_as_used b t1 = Inr t2"
        "heap_inv P (lay_merge b lay) {} t2" "keeps P lay t t2"
        using grow_used_ok [OF inv b nx(1) nf] by blast
      note gf = grow_used_facts [OF inv b nx(1) nf]
      have mle: "m \<le> s + s' + 8" "unmerged (lay_merge b lay) = {}" using True gf(3) un by auto
      obtain t3 L s2 where t3: "block_trim_used b m t2 = Inr t3" "heap_inv P L {} t3" "unmerged L = {}" "m \<le> s2"
        "used L = insert (b, s2) (used (lay_merge b lay) - {(b, s + s' + 8)})" "keeps P L t2 t3"
        using block_trim_used_ok [OF t2(3) gf(2) m(1,2) mle] by metis
      have bu: "(b, s) \<in> used lay" using b by (auto simp: used_def)
      have "(b, s + s' + 8) \<notin> used lay - {(b, s)}" using used_unique [OF bu, of "s + s' + 8"] by auto
      then have usedL: "used L = insert (b, s2) (used lay - {(b, s)})" unfolding t3(5) gf(1) by (simp add: insert_Diff_if)
      have "used_data lay \<subseteq> used_data L"
      proof
        fix a assume "a \<in> used_data lay"
        then obtain x sx where x: "(x, sx) \<in> used lay" "x + 16 \<le> a" "a < x + 16 + sx" unfolding used_data_def by blast
        have "(x, if (x, sx) = (b, s) then s2 else sx) \<in> used L" using x(1) usedL by auto
        moreover have "a < x + 16 + (if (x, sx) = (b, s) then s2 else sx)" using x(3) big t3(4) by auto
        ultimately show "a \<in> used_data L" unfolding used_data_def using x(2) by blast
      qed
      then have "keeps P lay t t3" using keeps_trans [OF t2(4) t3(6)] by simp
      then have "moved P lay t b s n (b + 16) t3"
        using t3 m(3) by (intro moved_in_place [OF b _ usedL]) (auto simp: tinv_def)
      moreover have "tlsf_realloc (b + 16) n t = Inr (b + 16, t3)" using start True big t2(1,2) t3(1) by simp
      ultimately show ?thesis by simp
    next
      case False
      have "s < n"
      proof -
        have "24 \<le> s" using layoutD(5) [OF ok(2) b] .
        then have "s < (n + 7) div 8 * 8" using big by (auto simp: m_def adjusted_def max_def split: if_splits)
        then show ?thesis using rb(5) by (auto elim!: dvdE)
      qed
      then have mn: "min s n = s" by simp
      obtain q t1 where q: "tlsf_malloc n t = Inr (q, t1)" "if q = 0 then t1 = t else granted P lay t n q t1"
        using tlsf_malloc_ok [OF tinv n64] by (metis (no_types, lifting))
      have bu: "(b, s) \<in> used lay" using b by (auto simp: used_def)
      show ?thesis
      proof (cases "q = 0")
        case True
        then show ?thesis using start big False q by (auto simp: mn)
      next
        case q0: False
        then obtain t' where t': "tlsf_free (b + 16) (copy_cells q (b + 16) s t1) = Inr t'" "moved P lay t b s n q t'"
          using copy_granted [OF tinv bu, of n q t1] q(2) \<open>s < n\<close> by auto
        then show ?thesis using start big False q(1) q0 by (auto simp: mn)
      qed
    qed
  qed
qed

end
