(* ===== verification/Tlsf_Pools.thy ===== *)
theory Tlsf_Pools
  imports Tlsf_Alloc
begin

text \<open>
  Creation of the control structure and addition of pools. A new pool is one free block followed by
  its sentinel.
\<close>

lemma poke_commutes:
  "poke a v (set_head i j b t) = set_head i j b (poke a v t)"
  "poke a v (set_sl_bitmap i w t) = set_sl_bitmap i w (poke a v t)"
  "poke a v (t\<lparr>fl_bitmap := x\<rparr>) = (poke a v t)\<lparr>fl_bitmap := x\<rparr>"
  by (cases t, simp add: poke_def set_head_def set_sl_bitmap_def)+

lemma block_insert_poke:
  assumes "a \<noteq> b + 8" "a \<noteq> b + 16" "a \<noteq> b + 24"
    and "\<And>i j. i < 25 \<Longrightarrow> j < 32 \<Longrightarrow> a \<noteq> blocks t i j + 24"
  shows "block_insert b (poke a v t) = res_bind (block_insert b t) (\<lambda>t'. Inr (poke a v t'))"
proof -
  have bs: "block_size b (poke a v t) = block_size b t" using assms(1) by (simp add: block_size_def)
  obtain fl sl where c: "mapping_insert (block_size b t) = (fl, sl)" by (cases "mapping_insert (block_size b t)")
  show ?thesis
  proof (cases "in_arrays fl sl")
    case False
    then show ?thesis by (simp add: block_insert_def bs c insert_free_block_def check_index_def)
  next
    case True
    then have "a \<noteq> blocks t (nat fl) (nat sl) + 24" using assms(4) [of "nat fl" "nat sl"] by (simp add: in_arrays_def nat_less_iff)
    then have comm: "poke (blocks t (nat fl) (nat sl) + 24) b (poke (b + 24) (control t) (poke (b + 16) (blocks t (nat fl) (nat sl)) (poke a v t))) =
      poke a v (poke (blocks t (nat fl) (nat sl) + 24) b (poke (b + 24) (control t) (poke (b + 16) (blocks t (nat fl) (nat sl)) t)))"
      using assms(2,3) by (auto simp: poke_def fun_eq_iff)
    show ?thesis
      using True
      by (simp add: block_insert_def bs c insert_free_block_def check_index_def Let_def res_bind_assoc comm poke_commutes)
  qed
qed

lemma new_header:
  assumes "4 dvd s" and "s < 2 ^ 63"
  shows "block_set_prev_used b (block_set_free b (block_set_size b s t)) = poke (b + 8) (hdr_val s True False) t"
  using hdr_val_ops [OF assms]
  by (simp add: block_set_prev_used_def block_set_free_def block_set_size_def Let_def poke_def)

lemma new_sentinel:
  "block_set_prev_free b (block_set_used b (block_set_size b 0 t)) = poke (b + 8) (hdr_val 0 False True) t"
proof -
  have h: "4 dvd (0::nat)" "(0::nat) < 2 ^ 63" by auto
  show ?thesis
    using hdr_val_ops [OF h]
    by (simp add: block_set_prev_free_def block_set_used_def block_set_size_def Let_def poke_def)
qed

section \<open>The empty allocator\<close>

lemma control_construct_inv:
  assumes "8 dvd mem" and "0 < mem" and "mem + 32 < 2 ^ 63"
  shows "tinv {} (\<lambda>_. None) (control_construct mem h)"
proof -
  have "linked (\<lambda>_. None) {} (control_construct mem h) (\<lambda>_ _. [])"
    by (simp add: linked_def control_construct_def)
  moreover have "control (control_construct mem h) = mem" by (simp add: control_construct_def)
  moreover have "layout_ok {} (\<lambda>_. None)" by (simp add: layout_ok_def spaced_def anchored_def)
  ultimately show ?thesis
    using assms by (auto simp: tinv_def heap_inv_def pools_ok_def headers_def unmerged_def)
qed

section \<open>Adding a pool\<close>

definition lay_pool :: "nat \<Rightarrow> nat \<Rightarrow> layout \<Rightarrow> layout" where
  "lay_pool lo hi lay = lay(lo \<mapsto> (hi - lo - 8, True, False), hi \<mapsto> (0, False, True))"

lemma pool_apart:
  assumes "pools_ok (insert (lo, hi) P) c" and "layout_ok P lay" and "(lo, hi) \<notin> P" and "lay x = Some (s, f, p)"
  shows "hi + 8 \<le> x \<or> x + s + 8 \<le> lo"
proof -
  obtain lo' hi' where 1: "(lo', hi') \<in> P" "lo' \<le> x" "if s = 0 then x = hi' else x + s + 8 \<le> hi'"
    using layoutD(3) [OF assms(2,4)] by (auto simp: in_pool_def)
  have "(lo', hi') \<noteq> (lo, hi)" using 1(1) assms(3) by auto
  then have "hi' + 8 \<le> lo \<or> hi + 8 \<le> lo'" using assms(1) 1(1) unfolding pools_ok_def by blast
  then show ?thesis using 1(2,3) by (auto split: if_splits)
qed

lemma lay_pool_ok:
  assumes pools: "pools_ok (insert (lo, hi) P) c" and ok: "layout_ok P lay" and new: "(lo, hi) \<notin> P" and hi: "8 dvd hi"
  shows "layout_ok (insert (lo, hi) P) (lay_pool lo hi lay)"
proof -
  define L Q where "L = lay_pool lo hi lay" and "Q = insert (lo, hi) P"
  have geo: "8 dvd lo" "lo + 32 \<le> hi" using pools unfolding pools_ok_def by blast+
  note apart = pool_apart [OF pools ok new]
  have L: "L = lay(lo \<mapsto> (hi - lo - 8, True, False), hi \<mapsto> (0, False, True))" by (simp add: L_def lay_pool_def)
  have cases: "x = lo \<and> sx = hi - lo - 8 \<and> fx \<and> \<not> px \<or> x = hi \<and> sx = 0 \<and> \<not> fx \<and> px \<or> x \<notin> {lo, hi} \<and> lay x = Some (sx, fx, px)"
    if "L x = Some (sx, fx, px)" for x sx fx px using that geo by (auto simp: L split: if_splits)
  have old: "L x = lay x" if "lay x \<noteq> None" for x
    using that apart [of x] geo by (cases "lay x") (auto simp: L)
  have in_old: "in_pool Q x s" if "in_pool P x s" for x s using that unfolding in_pool_def Q_def by blast
  have in_new: "in_pool Q lo (hi - lo - 8)" "in_pool Q hi 0"
  proof -
    have "(lo, hi) \<in> Q" "lo \<le> lo" "lo + (hi - lo - 8) + 8 \<le> hi" "hi - lo - 8 \<noteq> 0" "lo \<le> hi" using geo by (auto simp: Q_def)
    then show "in_pool Q lo (hi - lo - 8)" "in_pool Q hi 0" unfolding in_pool_def by auto
  qed
  have "block_ok Q L x sx fx px" if x: "L x = Some (sx, fx, px)" for x sx fx px
    using cases [OF x]
  proof (elim disjE conjE)
    assume *: "x = lo" "sx = hi - lo - 8" "fx" "\<not> px"
    then have "8 dvd sx" using geo hi by (simp add: dvd_diff_nat)
    then show ?thesis using * geo in_new by (intro block_okI) (auto simp: has_next_def L)
  next
    assume *: "x = hi" "sx = 0" "\<not> fx" "px"
    then show ?thesis using geo hi in_new by (intro block_okI) (auto simp: L intro!: has_prevI [of _ lo "hi - lo - 8"])
  next
    assume *: "x \<notin> {lo, hi}" "lay x = Some (sx, fx, px)"
    note d = layoutD [OF ok *(2)]
    show ?thesis
    proof (rule block_okI)
      show "has_next L (x + sx + 8) fx" if "sx \<noteq> 0" using d(6) [OF that] old [of "x + sx + 8"] by (auto simp: has_next_def)
      show "has_prev L x" if px
      proof -
        obtain b0 s0 p0 where "lay b0 = Some (s0, True, p0)" "x = b0 + s0 + 8" using d(7) [OF \<open>px\<close>] by blast
        then show ?thesis using old [of b0] by (intro has_prevI [of _ b0 s0 p0]) auto
      qed
    qed (use d in_old in auto)
  qed
  moreover have "spaced L"
    unfolding spaced_def
  proof (intro allI impI)
    fix x sx fx px y v assume x: "L x = Some (sx, fx, px)" and y: "L y = Some v" and "x < y"
    obtain sy fy py where v: "v = (sy, fy, py)" by (cases v)
    show "x + sx + 8 \<le> y"
      using cases [OF x] cases [OF y [unfolded v]] \<open>x < y\<close> geo apart [of x sx fx px] apart [of y sy fy py]
        layout_spaced [OF ok, of x sx fx px y] by auto
  qed
  moreover have "anchored Q L"
    unfolding anchored_def Q_def
  proof (intro allI impI)
    fix lo' hi' assume "(lo', hi') \<in> insert (lo, hi) P"
    then consider "lo' = lo" "hi' = hi" | "lay lo' \<noteq> None" "\<exists>p. lay hi' = Some (0, False, p)"
      using ok unfolding layout_ok_def anchored_def by blast
    then show "L lo' \<noteq> None \<and> (\<exists>p. L hi' = Some (0, False, p))"
    proof cases
      case 1
      then show ?thesis using geo by (auto simp: L)
    next
      case 2
      then have "L lo' = lay lo'" "L hi' = lay hi'" using old by auto
      then show ?thesis using 2 by simp
    qed
  qed
  ultimately show ?thesis unfolding L_def Q_def layout_ok_def by blast
qed

text \<open>The size of the first block of a pool in memory of \<open>bytes\<close> bytes.\<close>

definition pool_bytes :: "nat \<Rightarrow> nat" where
  "pool_bytes bytes = (bytes - 16) div 8 * 8"

lemma tlsf_add_pool_ok:
  assumes tinv: "tinv P lay t" and mem: "8 dvd mem" "8 < mem" and bytes: "40 \<le> bytes" "bytes < 2 ^ 32 + 16"
    and lo: "lo = mem - 8" and hi: "hi = lo + pool_bytes bytes + 8"
    and pools: "pools_ok (insert (lo, hi) P) (control t)" and new: "(lo, hi) \<notin> P"
  shows "\<exists>t' L. tlsf_add_pool mem bytes t = Inr (mem, t') \<and> tinv (insert (lo, hi) P) L t' \<and> used L = used lay \<and>
    keeps (insert (lo, hi) P) lay t t'"
proof -
  have inv: "heap_inv P lay {} t" and un: "unmerged lay = {}" using tinv by (auto simp: tinv_def)
  have ok: "layout_ok P lay" "headers lay (heap t)" using inv by (auto simp: heap_inv_def)
  obtain fls where fls: "linked lay {} t fls" using inv by (auto simp: heap_inv_def)
  define pb Q L c where "pb = pool_bytes bytes" and "Q = insert (lo, hi) P" and "L = lay_pool lo hi lay" and "c = control t"
  have pb: "24 \<le> pb" "8 dvd pb" "pb < 2 ^ 32" "pb = hi - lo - 8" "hi = lo + pb + 8"
    using bytes hi by (auto simp: pb_def pool_bytes_def)
  have geo: "8 dvd lo" "0 < lo" "lo + 32 \<le> hi" "hi + 48 < 2 ^ 63" "c + 32 \<le> lo + 8 \<or> hi + 16 \<le> c" "mem = lo + 8" "8 dvd hi"
  proof -
    have "8 dvd lo \<and> 0 < lo \<and> lo + 32 \<le> hi \<and> hi + 48 < 2 ^ 63 \<and> (c + 32 \<le> lo + 8 \<or> hi + 16 \<le> c)"
      using pools unfolding pools_ok_def c_def by blast
    then show "8 dvd lo" "0 < lo" "lo + 32 \<le> hi" "hi + 48 < 2 ^ 63" "c + 32 \<le> lo + 8 \<or> hi + 16 \<le> c" by blast+
    then show "mem = lo + 8" "8 dvd hi" using mem lo pb(2,5) by simp_all
  qed
  note apart = pool_apart [OF pools ok(1) new]
  have okL: "layout_ok Q L" unfolding Q_def L_def by (rule lay_pool_ok [OF pools ok(1) new geo(7)])
  have L: "L = lay(lo \<mapsto> (pb, True, False), hi \<mapsto> (0, False, True))" by (simp add: L_def lay_pool_def pb(4))
  have none: "lay x = None" if "x = lo \<or> x = hi" for x
  proof (rule ccontr)
    assume "lay x \<noteq> None"
    then obtain s f p where "lay x = Some (s, f, p)" by (cases "lay x") auto
    then have "hi + 8 \<le> x \<or> x + s + 8 \<le> lo" by (rule apart)
    then show False using that geo(3) by auto
  qed
  define t1 where "t1 = poke (lo + 8) (hdr_val pb True False) t"
  define tA where "tA = poke (hi + 8) (hdr_val 0 False True) (poke hi lo t1)"
  have ch: "a = lo + 8 \<or> a = hi \<or> a = hi + 8" if "heap tA a \<noteq> heap t a" for a
    using that by (auto simp: tA_def t1_def split: if_splits)
  have free_cells: "\<not> in_block x s a" if "lay x = Some (s, f, p)" "lo + 8 \<le> a" "a < hi + 16" for x s f p a
    using apart [OF that(1)] that(2,3) by (auto simp: in_block_def)
  have same: "heap tA a = heap t a" if "lay x = Some (s, f, p)" "in_block x s a" for x s f p a
  proof (rule ccontr)
    assume "heap tA a \<noteq> heap t a"
    then have "lo + 8 \<le> a" "a < hi + 16" using ch [of a] geo(3) by auto
    then show False using free_cells [OF that(1)] that(2) by blast
  qed
  have "headers L (heap tA)"
    unfolding headers_def
  proof (intro allI impI)
    fix x s f p assume x: "L x = Some (s, f, p)"
    have "x = lo \<and> s = pb \<and> f \<and> \<not> p \<or> x = hi \<and> s = 0 \<and> \<not> f \<and> p \<or> lay x = Some (s, f, p)"
      using x unfolding L by (simp split: if_splits)
    then consider "x = lo" "s = pb" "f" "\<not> p" | "x = hi" "s = 0" "\<not> f" "p" | "lay x = Some (s, f, p)" by blast
    then show "heap tA (x + 8) = hdr_val s f p \<and> (f \<longrightarrow> heap tA (x + s + 8) = x)"
    proof cases
      case 3
      have "heap tA (x + 8) = heap t (x + 8)" "heap tA (x + s + 8) = heap t (x + s + 8)"
        using same [OF 3, of "x + 8"] same [OF 3, of "x + s + 8"] by (simp_all add: in_block_def)
      moreover have "heap t (x + 8) = hdr_val s f p \<and> (f \<longrightarrow> heap t (x + s + 8) = x)"
        using ok(2) 3 unfolding headers_def by blast
      ultimately show ?thesis by simp
    qed (use geo(3) pb(5) in \<open>simp_all add: tA_def t1_def\<close>)
  qed
  moreover have "linked L {lo} tA fls"
  proof -
    have mem': "x \<in> set (fls i j) \<longleftrightarrow> (\<exists>s p. lay x = Some (s, True, p) \<and> mapping_insert s = (int i, int j))" for x i j
      using fls unfolding linked_def by blast
    have "chain (heap tA) c (fls i j) c = chain (heap t) c (fls i j) c" for i j
    proof (rule chain_cong)
      fix x assume "x \<in> set (fls i j)"
      then obtain s p where x: "lay x = Some (s, True, p)" using mem' by blast
      have "24 \<le> s" using layoutD(4,5) [OF ok(1) x] by blast
      then show "heap tA (x + 16) = heap t (x + 16) \<and> heap tA (x + 24) = heap t (x + 24)"
        using same [OF x, of "x + 16"] same [OF x, of "x + 24"] by (simp add: in_block_def)
    qed
    moreover have "x \<notin> {lo} \<and> (\<exists>s p. L x = Some (s, True, p) \<and> mapping_insert s = m) \<longleftrightarrow>
        (\<exists>s p. lay x = Some (s, True, p) \<and> mapping_insert s = m)" for x m
      using none geo(3) by (auto simp: L)
    ultimately show ?thesis using fls unfolding linked_def by (simp add: tA_def t1_def c_def)
  qed
  ultimately have invA: "heap_inv Q L {lo} tA" using pools okL unfolding heap_inv_def Q_def by (auto simp: tA_def t1_def)
  have Llo: "L lo = Some (pb, True, False)" using geo(3) by (simp add: L)
  obtain tB where tB: "block_insert lo tA = Inr tB" "heap_inv Q L {} tB" "keeps Q L tA tB"
    using block_insert_ok [OF invA Llo] by auto
  have heads: "a \<noteq> blocks t i j + 24" if "i < 25" "j < 32" "a = hi \<or> a = hi + 8" for a i j
  proof (cases "fls i j")
    case Nil
    then have "blocks t i j = c" using fls that unfolding linked_def c_def by simp
    then show ?thesis using geo(3,5) that(3) by auto
  next
    case (Cons x xs)
    then have "blocks t i j = x" "x \<in> set (fls i j)" using fls that unfolding linked_def by auto
    moreover obtain s p where x: "lay x = Some (s, True, p)"
      using fls \<open>x \<in> set (fls i j)\<close> unfolding linked_def by blast
    moreover have "24 \<le> s" using layoutD(4,5) [OF ok(1) x] by blast
    ultimately show ?thesis using free_cells [OF x, of a] geo(3) that(3) by (auto simp: in_block_def)
  qed
  have cells: "a \<noteq> lo + 8" "a \<noteq> lo + 16" "a \<noteq> lo + 24" if "a = hi \<or> a = hi + 8" for a using that geo(3) by auto
  have "block_insert lo tA = res_bind (block_insert lo t1) (\<lambda>t'. Inr (poke (hi + 8) (hdr_val 0 False True) (poke hi lo t')))"
  proof -
    have ins: "block_insert lo (poke a v t') = res_bind (block_insert lo t') (\<lambda>t'. Inr (poke a v t'))"
      if "a = hi \<or> a = hi + 8" "blocks t' = blocks t" for a v t'
      using cells [OF that(1)] heads [OF _ _ that(1)] that(2) by (intro block_insert_poke) auto
    have "blocks t1 = blocks t" "blocks (poke hi lo t1) = blocks t" by (simp_all add: t1_def)
    then show ?thesis unfolding tA_def by (simp add: ins res_bind_assoc)
  qed
  then obtain t2 where t2: "block_insert lo t1 = Inr t2" "tB = poke (hi + 8) (hdr_val 0 False True) (poke hi lo t2)"
    using tB(1) by (cases "block_insert lo t1") auto
  have "heap tB (lo + 8) = hdr_val pb True False" using tB(2) Llo by (auto simp: heap_inv_def headers_def)
  moreover have "heap tB (lo + 8) = heap t2 (lo + 8)" unfolding t2(2) using cells(1) [of hi] cells(1) [of "hi + 8"] by simp
  ultimately have w2: "heap t2 (lo + 8) = hdr_val pb True False" by simp
  have "lo + pb + 48 < 2 ^ 63" "pb \<noteq> 0" using geo(4) pb(1,5) by linarith+
  then have "block_next lo t2 = Inr (lo + pb + 8)" using header_word(5) [OF w2 pb(2)] by blast
  then have "block_next lo t2 = Inr hi" unfolding pb(5) .
  then have link: "block_link_next lo t2 = Inr (hi, poke hi lo t2)" by (simp add: block_link_next_def)
  have "bytes < 2 ^ 64" using bytes by simp
  then have down: "align_down (size_sub bytes tlsf_pool_overhead) ALIGN_SIZE = Inr pb"
    using align_down_pow2 [of 3 "bytes - 16"] bytes(1) by (simp add: tlsf_pool_overhead_def pb_def pool_bytes_def)
  have blk: "offset_to_block mem (size_sub 0 block_header_overhead) = lo"
    using geo by (simp add: offset_to_block_def size_sub_def size_t_def)
  have "4 dvd pb" "pb < 2 ^ 63" using pb(2,3) by auto
  note hd = new_header [OF this, of lo t, folded t1_def]
  have run: "tlsf_add_pool mem bytes t = Inr (mem, tB)"
    using mem(1) pb(1,3) down blk hd t2 link by (simp add: tlsf_add_pool_def new_sentinel Let_def)
  have un': "unmerged L = {}" using un by (auto simp: unmerged_def L)
  have us: "used L = used lay" using none by (auto simp: used_def L split: if_splits)
  have "heap tA a = heap t a" if "a \<in> used_data lay \<union> outside Q c" for a
  proof (rule ccontr)
    assume "heap tA a \<noteq> heap t a"
    then have a: "lo + 8 \<le> a" "a < hi + 16" using ch [of a] geo(3) by auto
    then have "a \<notin> outside Q c" unfolding outside_def Q_def by blast
    then obtain x s p where x: "lay x = Some (s, False, p)" "x + 16 \<le> a" "a < x + 16 + s"
      using \<open>a \<in> used_data lay \<union> outside Q c\<close> unfolding used_data_def used_def by blast
    have "in_block x s a" using x(2,3) by (simp add: in_block_def)
    then show False using free_cells [OF x(1) a] by blast
  qed
  then have "keeps Q lay t tA" by (simp add: keeps_def c_def tA_def t1_def)
  then have "keeps Q lay t tB" using tB(3) us by (intro keeps_trans [of Q lay t tA L tB]) (auto simp: used_data_def)
  then show ?thesis using run tB(2) un' us unfolding tinv_def Q_def by blast
qed

end
