(* ===== verification/Tlsf_Check.thy ===== *)
theory Tlsf_Check
  imports Tlsf_Pools
begin

text \<open>
  The allocator's own consistency checks, \<open>tlsf_check\<close> over the free lists and \<open>tlsf_check_pool\<close> over
  the blocks of a pool. On every state of the invariant both terminate and find nothing.
\<close>

section \<open>The checks\<close>

text \<open>\<open>GPCL_DETAIL_TLSF_INSIST\<close> asserts its condition before it counts a violation.\<close>

definition insist :: "bool \<Rightarrow> int \<Rightarrow> int res" where
  "insist x status = res_bind (gpcl_assert x) (\<lambda>_. Inr (if x then status else status - 1))"

text \<open>The body of the loop over one free list.\<close>

definition check_block :: "nat \<Rightarrow> nat \<Rightarrow> nat \<Rightarrow> int \<Rightarrow> tlsf \<Rightarrow> int res" where
  "check_block i j block status t =
     res_bind (insist (block_is_free block t) status) (\<lambda>status.
     res_bind (insist (\<not> block_is_prev_free block t) status) (\<lambda>status.
     res_bind (block_next block t) (\<lambda>nx.
     res_bind (insist (\<not> block_is_free nx t) status) (\<lambda>status.
     res_bind (insist (block_is_prev_free nx t) status) (\<lambda>status.
     res_bind (insist (block_size block t \<ge> block_size_min) status) (\<lambda>status.
       case mapping_insert (block_size block t) of (fli, sli) \<Rightarrow> insist (fli = int i \<and> sli = int j) status))))))"

partial_function (option) check_list :: "nat \<Rightarrow> nat \<Rightarrow> nat \<Rightarrow> int \<Rightarrow> tlsf \<Rightarrow> int res option" where
  "check_list i j block status t =
     (if block = control t then Some (Inr status)
      else case check_block i j block status t of
        Inl e \<Rightarrow> Some (Inl e)
      | Inr status \<Rightarrow> check_list i j (heap t (block + 16)) status t)"

definition check_class :: "nat \<Rightarrow> nat \<Rightarrow> int \<Rightarrow> tlsf \<Rightarrow> int res option" where
  "check_class i j status t =
     (let fl_map = fl_bitmap t AND push_bit i 1;
          sl_list = sl_bitmap t i;
          sl_map = sl_list AND push_bit j 1;
          block = blocks t i j
      in run_bind (Some (if fl_map = 0 then insist (sl_map = 0) status else Inr status)) (\<lambda>status.
         if sl_map = 0 then Some (insist (block = control t) status)
         else run_bind (Some (insist (sl_list \<noteq> 0) status)) (\<lambda>status.
              run_bind (Some (insist (block \<noteq> control t) status)) (\<lambda>status.
              check_list i j block status t))))"

fun check_classes :: "(nat \<times> nat) list \<Rightarrow> int \<Rightarrow> tlsf \<Rightarrow> int res option" where
  "check_classes [] status t = Some (Inr status)"
| "check_classes ((i, j) # ijs) status t = run_bind (check_class i j status t) (\<lambda>status. check_classes ijs status t)"

definition tlsf_check :: "tlsf \<Rightarrow> int res option" where
  "tlsf_check t = check_classes (List.product [0..<FL_INDEX_COUNT] [0..<SL_INDEX_COUNT]) 0 t"

text \<open>The walker is a function of the data address, the size, the status and the user's state.\<close>

partial_function (option) walk_loop ::
  "(nat \<Rightarrow> nat \<Rightarrow> bool \<Rightarrow> 'u \<Rightarrow> 'u res) \<Rightarrow> nat \<Rightarrow> 'u \<Rightarrow> tlsf \<Rightarrow> 'u res option" where
  "walk_loop walker block user t =
     (if block = 0 \<or> block_is_last block t then Some (Inr user)
      else case res_bind (walker (block_to_ptr block) (block_size block t) (\<not> block_is_free block t) user)
             (\<lambda>user. res_bind (block_next block t) (\<lambda>nx. Inr (nx, user))) of
        Inl e \<Rightarrow> Some (Inl e)
      | Inr r \<Rightarrow> walk_loop walker (fst r) (snd r) t)"

definition tlsf_walk_pool :: "nat \<Rightarrow> (nat \<Rightarrow> nat \<Rightarrow> bool \<Rightarrow> 'u \<Rightarrow> 'u res) \<Rightarrow> 'u \<Rightarrow> tlsf \<Rightarrow> 'u res option" where
  "tlsf_walk_pool pool walker user t = walk_loop walker (offset_to_block pool (size_sub 0 block_header_overhead)) user t"

record integrity =
  prev_status :: int
  status :: int

definition integrity_walker :: "tlsf \<Rightarrow> nat \<Rightarrow> nat \<Rightarrow> bool \<Rightarrow> integrity \<Rightarrow> integrity res" where
  "integrity_walker t ptr sz in_use integ =
     (let block = block_from_ptr ptr;
          this_prev_status = (if block_is_prev_free block t then 1 else 0);
          this_status = (if block_is_free block t then 1 else 0);
          this_block_size = block_size block t
      in res_bind (insist (prev_status integ = this_prev_status) 0) (\<lambda>st.
         res_bind (insist (sz = this_block_size) st) (\<lambda>st.
         Inr \<lparr>prev_status = this_status, status = status integ + st\<rparr>)))"

definition tlsf_check_pool :: "nat \<Rightarrow> tlsf \<Rightarrow> int res option" where
  "tlsf_check_pool pool t =
     run_bind (tlsf_walk_pool pool (integrity_walker t) \<lparr>prev_status = 0, status = 0\<rparr> t) (\<lambda>integ. Some (Inr (status integ)))"

section \<open>Consistent states pass\<close>

lemma insist_True [simp]: "insist True st = Inr st"
  by (simp add: insist_def)

lemma free_neighbours:
  assumes tinv: "tinv P lay t" and b: "lay b = Some (s, True, p)"
  shows "\<not> p" "s \<noteq> 0" "\<exists>s'. lay (b + s + 8) = Some (s', False, True)"
proof -
  have inv: "heap_inv P lay {} t" and un: "unmerged lay = {}" using tinv by (auto simp: tinv_def)
  have ok: "layout_ok P lay" using inv by (simp add: heap_inv_def)
  show "\<not> p" using un b by (auto simp: unmerged_def)
  show s: "s \<noteq> 0" using layoutD(4) [OF ok b] by auto
  obtain s' f' where n: "lay (b + s + 8) = Some (s', f', True)" using layoutD(6) [OF ok b s] by blast
  have "\<not> f'" using un n by (auto simp: unmerged_def)
  then show "\<exists>s'. lay (b + s + 8) = Some (s', False, True)" using n by auto
qed

lemma check_block_ok:
  assumes tinv: "tinv P lay t" and b: "lay b = Some (s, True, p)" and m: "mapping_insert s = (int i, int j)"
  shows "check_block i j b st t = Inr st"
proof -
  have inv: "heap_inv P lay {} t" using tinv by (simp add: tinv_def)
  have ok: "layout_ok P lay" using inv by (simp add: heap_inv_def)
  note f = free_neighbours [OF tinv b]
  obtain s' where n: "lay (b + s + 8) = Some (s', False, True)" using f(3) by blast
  have "24 \<le> s" using layoutD(5) [OF ok b f(2)] .
  then show ?thesis
    using read_header [OF inv b] read_header [OF inv n] f(1,2) m by (simp add: check_block_def)
qed

lemma check_list_ok:
  assumes tinv: "tinv P lay t" and c: "control t \<notin> set xs"
    and xs: "\<And>x. x \<in> set xs \<Longrightarrow> \<exists>s p. lay x = Some (s, True, p) \<and> mapping_insert s = (int i, int j)"
    and ch: "chain (heap t) q xs (control t)"
  shows "check_list i j (hd (xs @ [control t])) st t = Some (Inr st)"
  using c xs ch
proof (induction xs arbitrary: q)
  case Nil
  then show ?case by (simp add: check_list.simps)
next
  case (Cons x xs)
  obtain s p where x: "lay x = Some (s, True, p)" "mapping_insert s = (int i, int j)" using Cons.prems(2) [of x] by auto
  have "check_list i j x st t = check_list i j (heap t (x + 16)) st t"
    using Cons.prems(1) check_block_ok [OF tinv x] by (subst check_list.simps) simp
  then show ?case using Cons.IH [of x] Cons.prems by simp
qed

lemma and_single_bit: "j < 32 \<Longrightarrow> w AND push_bit j 1 = 0 \<longleftrightarrow> \<not> bit w j" for w :: "32 word"
proof -
  assume "j < 32"
  have "bit (w AND push_bit j 1) k \<longleftrightarrow> bit w j \<and> k = j" for k using \<open>j < 32\<close> by (auto simp: bit_and_iff bit_exp_iff possible_bit_word)
  then show ?thesis by (metis word_zero_iff_bits)
qed

lemma check_class_ok:
  assumes tinv: "tinv P lay t" and ij: "i < 25" "j < 32"
  shows "check_class i j st t = Some (Inr st)"
proof -
  have inv: "heap_inv P lay {} t" using tinv by (simp add: tinv_def)
  then obtain fls where fls: "linked lay {} t fls" by (auto simp: heap_inv_def)
  have ok: "pools_ok P (control t)" "layout_ok P lay" using inv by (auto simp: heap_inv_def)
  have mem: "\<exists>s p. lay x = Some (s, True, p) \<and> mapping_insert s = (int i, int j)" if "x \<in> set (fls i j)" for x
    using fls that unfolding linked_def by blast
  have c: "control t \<notin> set (fls i j)" using listed_nodes(1) [OF ok, of "fls i j"] mem by blast
  have "check_list i j (hd (fls i j @ [control t])) st t = Some (Inr st)"
    using fls by (intro check_list_ok [OF tinv c mem, of "control t"]) (auto simp: linked_def)
  moreover have "blocks t i j = hd (fls i j @ [control t])" "bit (sl_bitmap t i) j = (fls i j \<noteq> [])"
    "bit (fl_bitmap t) i = (\<exists>j. fls i j \<noteq> [])" using fls ij unfolding linked_def by auto
  moreover have "sl_bitmap t i \<noteq> 0" if "bit (sl_bitmap t i) j" using that by auto
  moreover have "hd (fls i j @ [control t]) \<noteq> control t" if "fls i j \<noteq> []" using c that by (cases "fls i j") auto
  ultimately show ?thesis using ij and_single_bit [of i "fl_bitmap t"] and_single_bit [of j "sl_bitmap t i"]
    by (cases "fls i j = []") (auto simp: check_class_def Let_def)
qed

lemma tlsf_check_ok:
  assumes "tinv P lay t"
  shows "tlsf_check t = Some (Inr 0)"
proof -
  have "check_classes ijs st t = Some (Inr st)" if "set ijs \<subseteq> {..<25} \<times> {..<32}" for ijs st
    using that
  proof (induction ijs)
    case (Cons ij ijs)
    obtain i j where "ij = (i, j)" by (cases ij)
    then show ?case using Cons check_class_ok [OF assms, of i j] by simp
  qed simp
  moreover have "set (List.product [0..<25] [0..<32]) \<subseteq> {..<25::nat} \<times> {..<32::nat}" by auto
  ultimately show ?thesis by (simp only: tlsf_check_def tlsf_constants)
qed

lemma walk_ok:
  assumes inv: "heap_inv P lay {} t" and b: "lay b = Some (s, f, p)"
  shows "\<exists>f'. walk_loop (integrity_walker t) b \<lparr>prev_status = of_bool p, status = st\<rparr> t =
    Some (Inr \<lparr>prev_status = f', status = st\<rparr>)"
  using b
proof (induction "2 ^ 63 - b" arbitrary: b s f p rule: less_induct)
  case less
  have ok: "pools_ok P (control t)" "layout_ok P lay" using inv by (auto simp: heap_inv_def)
  note r = in_pool_range [OF ok(1) layoutD(3) [OF ok(2) less.prems]]
  note h = read_header [OF inv less.prems]
  show ?case
  proof (cases "s = 0")
    case True
    then show ?thesis using h(4) by (subst walk_loop.simps) auto
  next
    case False
    obtain s' f' where n: "lay (b + s + 8) = Some (s', f', f)" using layoutD(6) [OF ok(2) less.prems False] by blast
    have "integrity_walker t (b + 16) s (\<not> f) \<lparr>prev_status = of_bool p, status = st\<rparr> = Inr \<lparr>prev_status = of_bool f, status = st\<rparr>"
      using h by (simp add: integrity_walker_def Let_def)
    then have "walk_loop (integrity_walker t) b \<lparr>prev_status = of_bool p, status = st\<rparr> t =
        walk_loop (integrity_walker t) (b + s + 8) \<lparr>prev_status = of_bool f, status = st\<rparr> t"
      using h False r(1) by (subst walk_loop.simps) simp
    moreover have "2 ^ 63 - (b + s + 8) < 2 ^ 63 - b" using r(2) by simp
    ultimately show ?thesis using less.hyps [OF _ n] by simp
  qed
qed

lemma tlsf_check_pool_ok:
  assumes tinv: "tinv P lay t" and pool: "(lo, hi) \<in> P"
  shows "tlsf_check_pool (lo + 8) t = Some (Inr 0)"
proof -
  have inv: "heap_inv P lay {} t" using tinv by (simp add: tinv_def)
  have ok: "pools_ok P (control t)" "layout_ok P lay" using inv by (auto simp: heap_inv_def)
  have "lay lo \<noteq> None" using ok(2) pool unfolding layout_ok_def anchored_def by blast
  then obtain s f p where lo: "lay lo = Some (s, f, p)" by (cases "lay lo") auto
  have "\<not> p"
  proof
    assume p
    then obtain b0 s0 p0 where 0: "lay b0 = Some (s0, True, p0)" "lo = b0 + s0 + 8" using layoutD(7) [OF ok(2) lo] by blast
    have "s0 \<noteq> 0" using layoutD(4) [OF ok(2) 0(1)] by auto
    then show False using next_not_first [OF ok 0(1)] 0(2) pool by force
  qed
  then obtain f' where "walk_loop (integrity_walker t) lo \<lparr>prev_status = 0, status = 0\<rparr> t = Some (Inr \<lparr>prev_status = f', status = 0\<rparr>)"
    using walk_ok [OF inv lo, of 0] by auto
  moreover have "offset_to_block (lo + 8) (size_sub 0 block_header_overhead) = lo"
    using in_pool_range(2) [OF ok(1) layoutD(3) [OF ok(2) lo]] by (simp add: offset_to_block_def size_sub_def size_t_def)
  ultimately show ?thesis by (simp add: tlsf_check_pool_def tlsf_walk_pool_def)
qed

end
