(* ===== verification/Tlsf_Overrun.thy ===== *)
theory Tlsf_Overrun
  imports Tlsf_Alloc
begin

text \<open>
  What \<open>tlsf_realloc\<close> does to a block when the size asked for is too large: the adjusted size is 0, and
  the block is trimmed to 0 bytes. The header that the trimming writes into the data of the block ends
  its pool, so that the memory is seen as two pools with the rest of the block at the start of the
  second one.
\<close>

section \<open>Cutting a pool in two\<close>

text \<open>
  The pools and the layout when the block \<open>b\<close> of the pool \<open>(lo, hi)\<close> is cut down to nothing: its header
  becomes the sentinel of the pool before it, which is empty if \<open>b\<close> was its first block.
\<close>

definition cut_pools :: "nat \<Rightarrow> nat \<times> nat \<Rightarrow> (nat \<times> nat) set \<Rightarrow> (nat \<times> nat) set" where
  "cut_pools b pool P = (case pool of (lo, hi) \<Rightarrow>
     P - {(lo, hi)} \<union> {(b + 8, hi)} \<union> (if lo = b then {} else {(lo, b)}))"

definition lay_cut :: "nat \<Rightarrow> nat \<Rightarrow> layout \<Rightarrow> layout" where
  "lay_cut lo b lay = (case lay b of
     Some (s, f, p) \<Rightarrow> (case lay (b + s + 8) of
       Some (s', f', p') \<Rightarrow> lay(b := if lo = b then None else Some (0, False, p), b + 8 \<mapsto> (s - 8, True, False),
         b + s + 8 \<mapsto> (s', f', True))
     | None \<Rightarrow> lay) | None \<Rightarrow> lay)"

lemma pool_cases:
  assumes "x \<in> cut_pools b (lo, hi) P"
  obtains "x \<in> P" "x \<noteq> (lo, hi)" | "x = (b + 8, hi)" | "x = (lo, b)" "lo \<noteq> b"
  using assms by (auto simp: cut_pools_def split: if_splits)

lemma pools_apart:
  assumes "pools_ok P c" and "(lo, hi) \<in> P" and "(lo', hi') \<in> P" and "(lo, hi) \<noteq> (lo', hi')"
  shows "hi + 8 \<le> lo' \<or> hi' + 8 \<le> lo"
  using assms unfolding pools_ok_def by metis

lemma pool_bounds:
  assumes "pools_ok P c" and "(lo, hi) \<in> P"
  shows "8 dvd lo" "0 < lo" "lo + 32 \<le> hi" "hi < lo + 8 + 2 ^ 32" "hi + 48 < 2 ^ 63" "c + 32 \<le> lo + 8 \<or> hi + 16 \<le> c"
  using assms unfolding pools_ok_def by blast+

lemma cut_pools_ok:
  assumes ok: "pools_ok P c" and pool: "(lo, hi) \<in> P" and b: "8 dvd b" "lo = b \<or> lo + 32 \<le> b" "b + 40 \<le> hi"
  shows "pools_ok (cut_pools b (lo, hi) P) c"
proof -
  note d = pool_bounds [OF ok pool]
  have one: "8 dvd l \<and> 0 < l \<and> l + 32 \<le> h \<and> h < l + 8 + 2 ^ 32 \<and> h + 48 < 2 ^ 63 \<and> (c + 32 \<le> l + 8 \<or> h + 16 \<le> c)"
    if "(l, h) \<in> cut_pools b (lo, hi) P" for l h
    using that
  proof (cases rule: pool_cases)
    case 1
    then show ?thesis using pool_bounds [OF ok, of l h] by blast
  qed (use b d in auto)
  have within: "lo \<le> l \<and> h \<le> hi \<or> (l, h) \<in> P \<and> (l, h) \<noteq> (lo, hi)" if "(l, h) \<in> cut_pools b (lo, hi) P" for l h
    using that by (cases rule: pool_cases) (use b in auto)
  have two: "h + 8 \<le> l' \<or> h' + 8 \<le> l"
    if x: "(l, h) \<in> cut_pools b (lo, hi) P" and y: "(l', h') \<in> cut_pools b (lo, hi) P" and ne: "(l, h) \<noteq> (l', h')" for l h l' h'
  proof (cases "(l, h) \<in> P \<and> (l, h) \<noteq> (lo, hi)")
    case xP: True
    show ?thesis
    proof (cases "(l', h') \<in> P \<and> (l', h') \<noteq> (lo, hi)")
      case True
      then show ?thesis using pools_apart [OF ok, of l h l' h'] xP ne by blast
    next
      case False
      then have "lo \<le> l'" "h' \<le> hi" using within [OF y] by auto
      then show ?thesis using pools_apart [OF ok, of l h lo hi] xP pool by auto
    qed
  next
    case xI: False
    have xb: "(l, h) = (b + 8, hi) \<or> (l, h) = (lo, b)" using x xI by (cases rule: pool_cases) auto
    show ?thesis
    proof (cases "(l', h') \<in> P \<and> (l', h') \<noteq> (lo, hi)")
      case True
      have "lo \<le> l" "h \<le> hi" using within [OF x] xI by auto
      then show ?thesis using pools_apart [OF ok, of l' h' lo hi] True pool by auto
    next
      case False
      have "(l', h') = (b + 8, hi) \<or> (l', h') = (lo, b)" using y False by (cases rule: pool_cases) auto
      then show ?thesis using xb ne by auto
    qed
  qed
  have "8 dvd c \<and> 0 < c \<and> c + 32 < 2 ^ 63" using ok unfolding pools_ok_def by blast
  then show ?thesis unfolding pools_ok_def using one two by meson
qed

text \<open>Where the block to be cut lies in its pool.\<close>

lemma block_pool:
  assumes ok: "pools_ok P c" "layout_ok P lay" and b: "lay b = Some (s, False, p)" "s \<noteq> 0"
  obtains lo hi where "(lo, hi) \<in> P" "lo = b \<or> lo + 32 \<le> b" "b + s + 8 \<le> hi"
proof -
  obtain lo hi where pool: "(lo, hi) \<in> P" "lo \<le> b" "b + s + 8 \<le> hi"
    using layoutD(3) [OF ok(2) b(1)] b(2) by (auto simp: in_pool_def)
  have "lo + 32 \<le> b" if "lo \<noteq> b"
  proof -
    obtain v where v: "lay lo = Some v" using ok(2) pool(1) unfolding layout_ok_def anchored_def by blast
    obtain sl fl pl where l: "lay lo = Some (sl, fl, pl)" using v by (cases v) auto
    have "sl \<noteq> 0"
    proof
      assume "sl = 0"
      then obtain lo' where lo': "(lo', lo) \<in> P" using layoutD(3) [OF ok(2) l] by (auto simp: in_pool_def)
      have "(lo', lo) \<noteq> (lo, hi)" using pool_bounds(3) [OF ok(1) pool(1)] by auto
      then have "lo + 8 \<le> lo \<or> hi + 8 \<le> lo'" using pools_apart [OF ok(1) lo' pool(1)] by blast
      then show False using pool_bounds(3) [OF ok(1) lo'] pool_bounds(3) [OF ok(1) pool(1)] by linarith
    qed
    then have "24 \<le> sl" using layoutD(5) [OF ok(2) l] by blast
    then show ?thesis using layout_spaced [OF ok(2) l b(1)] that pool(2) by simp
  qed
  then show thesis using that pool by blast
qed

text \<open>The situation in which a block is cut: \<open>n\<close> is the block behind it.\<close>

definition cuttable :: "(nat \<times> nat) set \<Rightarrow> nat \<Rightarrow> layout \<Rightarrow> nat \<Rightarrow> nat \<Rightarrow> nat \<Rightarrow> nat \<Rightarrow> bool" where
  "cuttable P c lay lo hi b s \<longleftrightarrow> pools_ok P c \<and> layout_ok P lay \<and> (\<exists>p. lay b = Some (s, False, p)) \<and> 32 \<le> s \<and>
     (lo, hi) \<in> P \<and> (lo = b \<or> lo + 32 \<le> b) \<and> b + s + 8 \<le> hi"

lemma cuttableD:
  assumes "cuttable P c lay lo hi b s"
  shows "pools_ok P c" "layout_ok P lay" "\<exists>p. lay b = Some (s, False, p)" "32 \<le> s" "(lo, hi) \<in> P"
    "lo = b \<or> lo + 32 \<le> b" "b + s + 8 \<le> hi"
  using assms by (auto simp: cuttable_def)

lemma lay_cut_eq:
  assumes cut: "cuttable P c lay lo hi b s" and n: "n = b + s + 8"
  obtains p s' f' where "lay b = Some (s, False, p)" "lay n = Some (s', f', False)" "lay (b + 8) = None"
    "lay_cut lo b lay = lay(b := if lo = b then None else Some (0, False, p), b + 8 \<mapsto> (s - 8, True, False), n \<mapsto> (s', f', True))"
    "b + 40 \<le> n" "b + 8 + (s - 8) + 8 = n"
proof -
  note d = cuttableD [OF cut]
  obtain p where b: "lay b = Some (s, False, p)" using d(3) by blast
  have s0: "s \<noteq> 0" using d(4) by simp
  obtain s' f' where lay_n: "lay n = Some (s', f', False)" using layoutD(6) [OF d(2) b s0] unfolding n by blast
  have "lay (b + 8) = None" using layout_spaced [OF d(2) b, of "b + 8"] d(4) by (cases "lay (b + 8)") auto
  then show thesis using that [OF b lay_n] b lay_n d(4) by (simp add: lay_cut_def n)
qed

lemma lay_cut_cases:
  assumes cut: "cuttable P c lay lo hi b s" and n: "n = b + s + 8" and x: "lay_cut lo b lay x = Some (sx, fx, px)"
  shows "x = b \<and> lo \<noteq> b \<and> sx = 0 \<and> \<not> fx \<and> lay b = Some (s, False, px) \<or> x = b + 8 \<and> sx = s - 8 \<and> fx \<and> \<not> px \<or>
    x = n \<and> lay n = Some (sx, fx, False) \<and> px \<or> x \<notin> {b, b + 8, n} \<and> lay x = Some (sx, fx, px)"
proof -
  obtain p s' f' where e: "lay b = Some (s, False, p)" "lay n = Some (s', f', False)" "b + 40 \<le> n"
    "lay_cut lo b lay = lay(b := if lo = b then None else Some (0, False, p), b + 8 \<mapsto> (s - 8, True, False), n \<mapsto> (s', f', True))"
    using lay_cut_eq [OF cut n] by metis
  show ?thesis using x e(1-3) unfolding e(4) by (auto split: if_splits)
qed

lemma cut_apart:
  assumes cut: "cuttable P c lay lo hi b s" and "lay x = Some (sx, fx, px)" "x \<noteq> b"
  shows "x + sx + 8 \<le> b \<or> b + s + 8 \<le> x"
proof -
  note d = cuttableD [OF cut]
  obtain p where b: "lay b = Some (s, False, p)" using d(3) by blast
  show ?thesis using layout_spaced [OF d(2) assms(2) b] layout_spaced [OF d(2) b assms(2)] assms(3) by linarith
qed

lemma cut_in_pool:
  assumes cut: "cuttable P c lay lo hi b s" and x: "lay x = Some (sx, fx, px)" "x \<noteq> b"
  shows "in_pool (cut_pools b (lo, hi) P) x sx"
proof -
  note d = cuttableD [OF cut]
  define Q where "Q = cut_pools b (lo, hi) P"
  obtain l h where l: "(l, h) \<in> P" "l \<le> x" "if sx = 0 then x = h else x + sx + 8 \<le> h"
    using layoutD(3) [OF d(2) x(1)] unfolding in_pool_def by blast
  consider "(l, h) \<noteq> (lo, hi)" | "(l, h) = (lo, hi)" "b + s + 8 \<le> x" | "(l, h) = (lo, hi)" "x + sx + 8 \<le> b"
    using cut_apart [OF cut x] by blast
  then have "in_pool Q x sx"
  proof cases
    case 1
    then have "(l, h) \<in> Q" using l(1) by (auto simp: Q_def cut_pools_def)
    then show ?thesis unfolding in_pool_def using l by blast
  next
    case 2
    have "(b + 8, hi) \<in> Q" by (simp add: Q_def cut_pools_def)
    moreover have "b + 8 \<le> x" using 2(2) by linarith
    ultimately show ?thesis unfolding in_pool_def using l(3) 2(1) by blast
  next
    case 3
    then have "lo \<noteq> b" "sx \<noteq> 0" using l d(7) by (auto split: if_splits)
    then have "(lo, b) \<in> Q" by (simp add: Q_def cut_pools_def)
    then show ?thesis unfolding in_pool_def using l(2) 3 \<open>sx \<noteq> 0\<close> by auto
  qed
  then show ?thesis unfolding Q_def .
qed

lemma cut_has_prev:
  assumes cut: "cuttable P c lay lo hi b s" and x: "has_prev lay x" "x \<noteq> b + s + 8"
  shows "has_prev (lay_cut lo b lay) x"
proof -
  obtain p s' f' where e: "lay b = Some (s, False, p)" "lay (b + s + 8) = Some (s', f', False)" "lay (b + 8) = None"
    "lay_cut lo b lay = lay(b := if lo = b then None else Some (0, False, p), b + 8 \<mapsto> (s - 8, True, False), b + s + 8 \<mapsto> (s', f', True))"
    using lay_cut_eq [OF cut refl] by metis
  obtain b0 s0 p0 where 0: "lay b0 = Some (s0, True, p0)" "x = b0 + s0 + 8" using has_prevE [OF x(1)] .
  then have "b0 \<noteq> b" "b0 \<noteq> b + 8" using e(1,3) by auto
  then have "\<exists>p0. lay_cut lo b lay b0 = Some (s0, True, p0)" using 0(1) e(2) unfolding e(4) by (cases "b0 = b + s + 8") auto
  then show ?thesis using 0(2) has_prevI by blast
qed

lemma cut_has_next:
  assumes cut: "cuttable P c lay lo hi b s" and x: "lay x = Some (sx, fx, px)" "x \<noteq> b" "sx \<noteq> 0"
  shows "has_next (lay_cut lo b lay) (x + sx + 8) fx"
proof -
  note d = cuttableD [OF cut]
  obtain p s' f' where e: "lay b = Some (s, False, p)" "lay (b + 8) = None"
    "lay_cut lo b lay = lay(b := if lo = b then None else Some (0, False, p), b + 8 \<mapsto> (s - 8, True, False), b + s + 8 \<mapsto> (s', f', True))"
    using lay_cut_eq [OF cut refl] by metis
  obtain s2 f2 where nx: "lay (x + sx + 8) = Some (s2, f2, fx)" using layoutD(6) [OF d(2) x(1,3)] by blast
  have "x + sx + 8 \<noteq> b + s + 8" using next_unique [OF d(2) x(1) e(1)] x(2) by auto
  moreover have "x + sx + 8 \<noteq> b + 8" using nx e(2) by auto
  moreover have "lo \<noteq> b \<and> p = fx" if "x + sx + 8 = b"
    using next_not_first [OF d(1,2) x(1,3)] d(5) nx e(1) unfolding that by force
  ultimately show ?thesis using nx e(1) unfolding e(3) by (auto simp: has_next_def)
qed

lemma cut_block_ok:
  assumes cut: "cuttable P c lay lo hi b s" and x: "lay_cut lo b lay x = Some (sx, fx, px)"
  shows "block_ok (cut_pools b (lo, hi) P) (lay_cut lo b lay) x sx fx px"
proof -
  note d = cuttableD [OF cut]
  define Q L n where "Q = cut_pools b (lo, hi) P" and "L = lay_cut lo b lay" and "n = b + s + 8"
  obtain p s' f' where e: "lay b = Some (s, False, p)" "lay n = Some (s', f', False)" "b + 8 + (s - 8) + 8 = n" "b + 40 \<le> n"
    "L = lay(b := if lo = b then None else Some (0, False, p), b + 8 \<mapsto> (s - 8, True, False), n \<mapsto> (s', f', True))"
    using lay_cut_eq [OF cut n_def] unfolding L_def by metis
  note inQ = cut_in_pool [OF cut, folded Q_def] and prev = cut_has_prev [OF cut, folded L_def n_def]
    and nxt = cut_has_next [OF cut, folded L_def]
  have "block_ok Q L x sx fx px"
    using lay_cut_cases [OF cut n_def x]
  proof (elim disjE conjE)
    assume "x = b" "lo \<noteq> b" "sx = 0" "\<not> fx" "lay b = Some (s, False, px)"
    moreover have "in_pool Q b 0" unfolding in_pool_def
      using \<open>lo \<noteq> b\<close> d(6) by (intro exI [of _ lo] exI [of _ b]) (auto simp: Q_def cut_pools_def)
    moreover have "has_prev L b" if px
      using prev [of b] layoutD(7) [OF d(2) \<open>lay b = Some (s, False, px)\<close> that] e(4) by (auto simp: has_prev_def)
    ultimately show ?thesis using layoutD(1) [OF d(2) e(1)] by (intro block_okI) auto
  next
    assume "x = b + 8" "sx = s - 8" fx "\<not> px"
    moreover have "in_pool Q (b + 8) (s - 8)" unfolding in_pool_def
      using d(4,7) by (intro exI [of _ "b + 8"] exI [of _ hi]) (auto simp: Q_def cut_pools_def)
    moreover have "has_next L n True" by (simp add: has_next_def e(5))
    ultimately show ?thesis using layoutD(1,2) [OF d(2) e(1)] d(4) e(3) by (intro block_okI) (auto simp: dvd_diff_nat)
  next
    assume x: "x = n" "lay n = Some (sx, fx, False)" px
    moreover have "L (b + 8) = Some (s - 8, True, False)" using e(4) by (simp add: e(5))
    then have "has_prev L n" using has_prevI e(3) by metis
    moreover have "n \<noteq> b" using e(4) by simp
    ultimately show ?thesis using layoutD(1,2,4,5) [OF d(2) x(2)] inQ [OF x(2)] nxt [OF x(2)] by (intro block_okI) auto
  next
    assume x: "x \<notin> {b, b + 8, n}" "lay x = Some (sx, fx, px)"
    then have "x \<noteq> b" "x \<noteq> n" by auto
    moreover have "has_prev lay x" if px using layoutD(7) [OF d(2) x(2) that] by (auto simp: has_prev_def)
    ultimately show ?thesis using layoutD(1,2,4,5) [OF d(2) x(2)] inQ [OF x(2)] nxt [OF x(2)] prev by (intro block_okI) auto
  qed
  then show ?thesis unfolding Q_def L_def .
qed

lemma cut_spaced:
  assumes cut: "cuttable P c lay lo hi b s"
  shows "spaced (lay_cut lo b lay)"
  unfolding spaced_def
proof (intro allI impI)
  fix x sx fx px y v assume x: "lay_cut lo b lay x = Some (sx, fx, px)" and y: "lay_cut lo b lay y = Some v" and lt: "x < y"
  note d = cuttableD [OF cut]
  define n where "n = b + s + 8"
  have n: "b + 40 \<le> n" "b + 8 + (s - 8) + 8 = n" using d(4) by (auto simp: n_def)
  obtain sy fy py where y': "lay_cut lo b lay y = Some (sy, fy, py)" using y by (cases v) auto
  note cy = lay_cut_cases [OF cut n_def y']
  have far: "x + sx + 8 \<le> y" if "\<exists>f p. lay x = Some (sx, f, p)" "\<exists>f p. lay y = Some (sy, f, p)"
    using layout_spaced [OF d(2)] that lt by blast
  have hy: "y = b \<or> y = b + 8 \<or> y + sy + 8 \<le> b \<or> n \<le> y" using cy cut_apart [OF cut, of y sy fy py] by (auto simp: n_def)
  show "x + sx + 8 \<le> y"
    using lay_cut_cases [OF cut n_def x]
  proof (elim disjE conjE)
    assume "x = n" "lay n = Some (sx, fx, False)"
    moreover have "\<exists>f p. lay y = Some (sy, f, p)" using cy lt n \<open>x = n\<close> by auto
    ultimately show ?thesis using far by blast
  next
    assume x: "x \<notin> {b, b + 8, n}" "lay x = Some (sx, fx, px)"
    consider "x + sx + 8 \<le> b" "b \<le> y" | "x + sx + 8 \<le> b" "y < b" | "n \<le> x"
      using cut_apart [OF cut x(2)] x(1) unfolding n_def by fastforce
    then show ?thesis
    proof cases
      case 2
      then have "\<exists>f p. lay y = Some (sy, f, p)" using cy n by auto
      then show ?thesis using far x(2) by blast
    next
      case 3
      then have "\<exists>f p. lay y = Some (sy, f, p)" using cy lt n by auto
      then show ?thesis using far x(2) by blast
    qed simp
  qed (use hy lt n in auto)
qed

lemma cut_anchored:
  assumes cut: "cuttable P c lay lo hi b s"
  shows "anchored (cut_pools b (lo, hi) P) (lay_cut lo b lay)"
  unfolding anchored_def
proof (intro allI impI)
  fix l h assume "(l, h) \<in> cut_pools b (lo, hi) P"
  note d = cuttableD [OF cut]
  obtain p s' f' where e: "lay b = Some (s, False, p)" "lay (b + s + 8) = Some (s', f', False)" "lay (b + 8) = None" "b + 40 \<le> b + s + 8"
    "lay_cut lo b lay = lay(b := if lo = b then None else Some (0, False, p), b + 8 \<mapsto> (s - 8, True, False), b + s + 8 \<mapsto> (s', f', True))"
    using lay_cut_eq [OF cut refl] by metis
  have old: "lay x \<noteq> None" "\<exists>p. lay y = Some (0, False, p)" if "(x, y) \<in> P" for x y
    using d(2) that by (force simp: layout_ok_def anchored_def)+
  have last: "\<exists>p. lay_cut lo b lay y = Some (0, False, p)" if "\<exists>p. lay y = Some (0, False, p)" for y
    using that e(1-3) d(4) unfolding e(5) by auto
  have first: "lay_cut lo b lay x \<noteq> None" if "lay x \<noteq> None" "x \<noteq> b" for x using that unfolding e(5) by auto
  show "lay_cut lo b lay l \<noteq> None \<and> (\<exists>p. lay_cut lo b lay h = Some (0, False, p))"
    using \<open>(l, h) \<in> cut_pools b (lo, hi) P\<close>
  proof (cases rule: pool_cases)
    case 1
    have "h + 8 \<le> lo \<or> hi + 8 \<le> l" using pools_apart [OF d(1) 1(1) d(5)] 1(2) by blast
    then have "l \<noteq> b" using d(6,7) pool_bounds(3) [OF d(1) 1(1)] by auto
    then show ?thesis using old [OF 1(1)] first last by blast
  next
    case 2
    have "lay_cut lo b lay (b + 8) \<noteq> None" unfolding e(5) using e(4) by simp
    then show ?thesis using 2 old(2) [OF d(5)] last by auto
  next
    case 3
    have "lay_cut lo b lay b = Some (0, False, p)" unfolding e(5) using 3(2) e(4) by simp
    then show ?thesis using 3 old(1) [OF d(5)] first by auto
  qed
qed

lemma lay_cut_ok:
  assumes "pools_ok P c" "layout_ok P lay" and "lay b = Some (s, False, p)" "32 \<le> s"
    and "(lo, hi) \<in> P" "lo = b \<or> lo + 32 \<le> b" "b + s + 8 \<le> hi"
  shows "layout_ok (cut_pools b (lo, hi) P) (lay_cut lo b lay)"
proof -
  have cut: "cuttable P c lay lo hi b s" using assms by (auto simp: cuttable_def)
  show ?thesis unfolding layout_ok_def using cut_block_ok [OF cut] cut_spaced [OF cut] cut_anchored [OF cut] by blast
qed

section \<open>The call\<close>

lemma used_lay_cut:
  assumes "pools_ok P c" "layout_ok P lay" and "lay b = Some (s, False, p)" "32 \<le> s"
    and "(lo, hi) \<in> P" "lo = b \<or> lo + 32 \<le> b" "b + s + 8 \<le> hi"
  shows "used (lay_cut lo b lay) = used lay - {(b, s)}" "lay_cut lo b lay (b + 8) = Some (s - 8, True, False)"
    "unmerged (lay_cut lo b lay) \<subseteq> unmerged lay \<union> {b + s + 8}"
proof -
  have cut: "cuttable P c lay lo hi b s" using assms by (auto simp: cuttable_def)
  obtain p s' f' where e: "lay b = Some (s, False, p)" "lay (b + s + 8) = Some (s', f', False)" "lay (b + 8) = None" "b + 40 \<le> b + s + 8"
    "lay_cut lo b lay = lay(b := if lo = b then None else Some (0, False, p), b + 8 \<mapsto> (s - 8, True, False), b + s + 8 \<mapsto> (s', f', True))"
    using lay_cut_eq [OF cut refl] by metis
  show "used (lay_cut lo b lay) = used lay - {(b, s)}" using e(1-4) unfolding e(5) by (auto simp: used_def split: if_splits)
  show "lay_cut lo b lay (b + 8) = Some (s - 8, True, False)" using e(4) unfolding e(5) by simp
  show "unmerged (lay_cut lo b lay) \<subseteq> unmerged lay \<union> {b + s + 8}"
    using e(1-4) unfolding e(5) by (auto simp: unmerged_def split: if_splits)
qed

text \<open>
  Splitting off everything: the first cell of the data becomes the header of a free block, which is not
  in the lists yet.
\<close>

lemma split_to_nothing:
  assumes inv: "heap_inv P lay {} t" and b: "lay b = Some (s, False, p)" "32 \<le> s"
    and pool: "(lo, hi) \<in> P" "lo = b \<or> lo + 32 \<le> b" "b + s + 8 \<le> hi"
    and Q_def: "Q = cut_pools b (lo, hi) P" and L_def: "L = lay_cut lo b lay"
  shows "\<exists>t1 t2. block_split b 0 t = Inr (b + 8, t1) \<and> block_set_prev_used (b + 8) t1 = t2 \<and> control t2 = control t \<and>
    heap_inv Q L {b + 8} t2 \<and> (\<forall>a \<in> used_data L. heap t2 a = heap t a) \<and> heap t2 (b + 8) = hdr_val 0 False p"
proof -
  have ok: "pools_ok P (control t)" "layout_ok P lay" using inv by (auto simp: heap_inv_def)
  have s0: "s \<noteq> 0" using b(2) by simp
  obtain n s' f' where n: "n = b + s + 8" "lay n = Some (s', f', False)" using next_block [OF inv b(1) s0] by metis
  have L: "L = lay(b := if lo = b then None else Some (0, False, p), b + 8 \<mapsto> (s - 8, True, False), n \<mapsto> (s', f', True))"
    using b n by (simp add: L_def lay_cut_def)
  have bn: "b + 40 \<le> n" "b + 8 + (s - 8) + 8 = n" using b(2) by (auto simp: n(1))
  have rng: "8 dvd b" "8 dvd s" "s < 2 ^ 32" "b + s + 48 < 2 ^ 63" using hdr_ranges [OF inv b(1)] by auto
  have okQ: "pools_ok Q (control t)" unfolding Q_def using pool b(2) rng by (intro cut_pools_ok ok) auto
  have okL: "layout_ok Q L" unfolding Q_def L_def by (rule lay_cut_ok [OF ok b pool])
  have new: "lay (b + 8) = None" using split_new [OF inv b(1), of 0] b(2) by simp
  define v where "v = heap t (b + 16)"
  define t1 where "t1 = t\<lparr>heap := (heap t)(b + 16 := hdr_val (s - 8) True (bit v 1), b + 8 := hdr_val 0 False p, n := b + 8, n + 8 := hdr_val s' f' True)\<rparr>"
  have split: "block_split b 0 t = Inr (b + 8, t1)"
    using block_split_run [OF inv b(1), of 0 "b + 8" n s' f'] b(2) n by (simp add: t1_def v_def add.commute)
  define t2 where "t2 = poke (b + 16) (hdr_val (s - 8) True False) t1"
  have set: "block_set_prev_used (b + 8) t1 = t2"
    using header_word(10) [of t1 "b + 8" "s - 8" True "bit v 1"] bn(1) rng b(2) by (simp add: t1_def t2_def dvd_diff_nat add.commute)
  have h2: "heap t2 a = (if a = b + 16 then hdr_val (s - 8) True False else if a = n + 8 then hdr_val s' f' True
      else if a = n then b + 8 else if a = b + 8 then hdr_val 0 False p else heap t a)" for a
    using bn(1) by (auto simp: t2_def t1_def)
  have ch: "a = b + 8 \<or> a = b + 16 \<or> a = n \<or> a = n + 8" if "heap t2 a \<noteq> heap t a" for a
    using that unfolding h2 by (auto split: if_splits)
  have nn: "f' \<Longrightarrow> heap t (n + s' + 8) = n" "f' \<Longrightarrow> 24 \<le> s'"
    using inv n(2) layoutD(4,5) [OF ok(2) n(2)] by (auto simp: heap_inv_def headers_def)
  have same: "same_lists t t2" by (simp add: t2_def t1_def same_lists_def)
  have inv2: "heap_inv Q L {b + 8} t2"
  proof (rule inv_update_pools [OF inv same _ okQ okL, of "{b, b + 8, n}"])
    show "touches {b, b + 8, n} lay {} a" if "heap t2 a \<noteq> heap t a" for a
      using ch [OF that] b n by (auto simp: in_block_def intro: touchesI [of lay b s] touchesI [of lay n s'])
    show "heap t2 (x + 8) = hdr_val sx fx px \<and> (fx \<longrightarrow> heap t2 (x + sx + 8) = x)"
      if x: "x \<in> {b, b + 8, n}" "L x = Some (sx, fx, px)" for x sx fx px
    proof -
      have "x = b \<and> sx = 0 \<and> \<not> fx \<and> px = p \<or> x = b + 8 \<and> sx = s - 8 \<and> fx \<and> \<not> px \<or> x = n \<and> sx = s' \<and> fx = f' \<and> px"
        using x bn(1) by (auto simp: L split: if_splits)
      then show ?thesis using bn nn by (elim disjE conjE) (auto simp: h2)
    qed
    show "x \<notin> {b + 8} \<and> (\<exists>p. L x = Some (sx, True, p)) \<longleftrightarrow> x \<notin> {} \<and> (\<exists>p. lay x = Some (sx, True, p))"
      if "x \<in> {b, b + 8, n}" for x sx using that b n bn(1) new by (auto simp: L)
  qed (auto simp: L)
  have used: "used L = used lay - {(b, s)}" unfolding L_def by (rule used_lay_cut(1) [OF ok b pool])
  have data2: "heap t2 a = heap t a" if a: "a \<in> used_data L" for a
  proof (rule ccontr)
    assume c: "heap t2 a \<noteq> heap t a"
    obtain x sx where u: "(x, sx) \<in> used lay - {(b, s)}" and x: "x + 16 \<le> a" "a < x + 16 + sx"
      using a unfolding used_data_def used by blast
    obtain px where lx: "lay x = Some (sx, False, px)" using u by (auto simp: used_def)
    have ne: "x \<noteq> b" using u lx b(1) by auto
    have "in_block x sx a" "in_block b s a \<or> a = n + 8 \<and> in_block n s' a" using x ch [OF c] n(1) b(2) by (auto simp: in_block_def)
    then show False using in_block_unique [OF ok(2) lx b(1)] in_block_unique [OF ok(2) lx n(2)] ne x(1) by auto
  qed
  have "heap t2 (b + 8) = hdr_val 0 False p" "control t2 = control t" using bn(1) same by (simp_all add: h2 same_lists_def)
  then show ?thesis using split set inv2 data2 by blast
qed

text \<open>
  Trimming to 0 bytes: the free block is merged with a free block behind it and listed.
\<close>

lemma trim_to_nothing:
  assumes tinv: "tinv P lay t" and b: "lay b = Some (s, False, p)" "32 \<le> s"
  shows "\<exists>t' Q L s2. block_trim_used b 0 t = Inr t' \<and> tinv Q L t' \<and> L (b + 8) = Some (s2, True, False) \<and> s - 8 \<le> s2 \<and>
    used L = used lay - {(b, s)} \<and> (\<forall>a \<in> used_data L. heap t' a = heap t a) \<and> block_size b t' = 0"
proof -
  have inv: "heap_inv P lay {} t" and un: "unmerged lay = {}" using tinv by (auto simp: tinv_def)
  have ok: "pools_ok P (control t)" "layout_ok P lay" using inv by (auto simp: heap_inv_def)
  have s0: "s \<noteq> 0" using b(2) by simp
  obtain lo hi where pool: "(lo, hi) \<in> P" "lo = b \<or> lo + 32 \<le> b" "b + s + 8 \<le> hi" using block_pool [OF ok b(1) s0] by metis
  define Q L where "Q = cut_pools b (lo, hi) P" and "L = lay_cut lo b lay"
  obtain t1 t2 where t2: "block_split b 0 t = Inr (b + 8, t1)" "block_set_prev_used (b + 8) t1 = t2" "control t2 = control t"
    "heap_inv Q L {b + 8} t2" "\<forall>a \<in> used_data L. heap t2 a = heap t a" "heap t2 (b + 8) = hdr_val 0 False p"
    using split_to_nothing [OF inv b pool Q_def L_def] by blast
  note L = used_lay_cut [OF ok b pool, folded L_def]
  have unL: "unmerged L - {b + 8 + (s - 8) + 8} = {}" using L(3) un b(2) by auto
  obtain t3 L3 s3 where t3: "block_merge_next (b + 8) t2 = Inr (b + 8, t3)" "heap_inv Q L3 {b + 8} t3" "keeps Q L t2 t3"
    "L3 (b + 8) = Some (s3, True, False)" "used L3 = used L" "unmerged L3 = {}" "s - 8 \<le> s3"
    using block_merge_next_ok [OF t2(4) L(2)] unfolding unL by metis
  obtain t4 where t4: "block_insert (b + 8) t3 = Inr t4" "heap_inv Q L3 {} t4" "keeps Q L3 t3 t4"
    using block_insert_ok [OF t3(2,4)] by auto
  have run: "block_trim_used b 0 t = Inr t4"
    using read_header [OF inv b(1)] b(2) t2(1,2) t3(1) t4(1) by (simp add: block_trim_used_def block_can_split_def)
  have data: "heap t4 a = heap t a" if "a \<in> used_data L3" for a
    using t2(5) t3(3,5) t4(3) that unfolding keeps_def used_data_def by simp
  have "\<exists>p'. heap t4 (b + 8) = hdr_val 0 False p'"
  proof (cases "lo = b")
    case True
    have "\<not> (l + 8 \<le> b + 8 \<and> b + 8 < h + 16)" if "(l, h) \<in> Q" for l h
      using that unfolding Q_def
    proof (cases rule: pool_cases)
      case 1
      then have "h + 8 \<le> b \<or> hi + 8 \<le> l" using pools_apart [OF ok(1) _ pool(1)] True by blast
      then show ?thesis using pool(3) by auto
    qed (use True in auto)
    moreover have "\<not> (control t \<le> b + 8 \<and> b + 8 < control t + 32)" using pool_bounds(6) [OF ok(1) pool(1)] pool(3) True by auto
    ultimately have "b + 8 \<in> outside Q (control t)" unfolding outside_def by blast
    then have "heap t4 (b + 8) = heap t2 (b + 8)" using t3(3) t4(3) t2(3) unfolding keeps_def by simp
    then show ?thesis using t2(6) by auto
  next
    case False
    then have "(lo, b) \<in> Q" by (simp add: Q_def cut_pools_def)
    then obtain p' where "L3 b = Some (0, False, p')" using t4(2) unfolding heap_inv_def layout_ok_def anchored_def by blast
    then show ?thesis using t4(2) unfolding heap_inv_def headers_def by blast
  qed
  then have "block_size b t4 = 0" using hdr_val_ops(1) [of 0] by (auto simp: block_size_def)
  moreover have "tinv Q L3 t4" "used L3 = used lay - {(b, s)}" using t4(2) t3(5,6) L(1) by (auto simp: tinv_def)
  ultimately show ?thesis using run t3(4,7) data by blast
qed

lemma tlsf_realloc_overrun:
  assumes tinv: "tinv P lay t" and b: "lay b = Some (s, False, p)" "s \<noteq> 0" and n: "n + 7 < 2 ^ 64" "2 ^ 32 \<le> adjusted n"
  shows "\<exists>t'. tlsf_realloc (b + 16) n t = Inr (b + 16, t') \<and>
    (if s < 32 then t' = t
     else block_size b t' = 0 \<and> block_is_free (b + 8) t' \<and> s - 8 \<le> block_size (b + 8) t') \<and>
    (\<forall>x sx i. (x, sx) \<in> used lay - {(b, s)} \<longrightarrow> i < sx \<longrightarrow> heap t' (x + 16 + i) = heap t (x + 16 + i))"
proof -
  have inv: "heap_inv P lay {} t" using tinv by (simp add: tinv_def)
  note hb = read_header [OF inv b(1)] and rb = hdr_ranges [OF inv b(1)]
  obtain nx where nx: "block_next b t = Inr nx" using next_block [OF inv b] by metis
  have "n \<noteq> 0" using n(2) by (auto simp: adjusted_def)
  moreover have "adjust_request_size n ALIGN_SIZE = Inr 0" using adjust_request_size_8 [OF n(1)] n(2) by simp
  ultimately have run: "tlsf_realloc (b + 16) n t = res_bind (block_trim_used b 0 t) (\<lambda>t. Inr (b + 16, t))"
    using nx by (simp add: tlsf_realloc_def hb(1,2,8))
  show ?thesis
  proof (cases "s < 32")
    case True
    then have "block_trim_used b 0 t = Inr t" using hb by (simp add: block_trim_used_def block_can_split_def)
    then show ?thesis using run True by simp
  next
    case False
    then obtain t' Q L s2 where t': "block_trim_used b 0 t = Inr t'" "tinv Q L t'" "L (b + 8) = Some (s2, True, False)" "s - 8 \<le> s2"
      "used L = used lay - {(b, s)}" "\<forall>a \<in> used_data L. heap t' a = heap t a" "block_size b t' = 0"
      using trim_to_nothing [OF tinv b(1)] by auto
    have "heap_inv Q L {} t'" using t'(2) by (simp add: tinv_def)
    note h' = read_header [OF this t'(3)]
    have "heap t' (x + 16 + i) = heap t (x + 16 + i)" if u: "(x, sx) \<in> used lay - {(b, s)}" "i < sx" for x sx i
    proof -
      have "x + 16 \<le> x + 16 + i" "x + 16 + i < x + 16 + sx" using u(2) by simp_all
      then have "x + 16 + i \<in> used_data L" using u(1) unfolding used_data_def t'(5) by blast
      then show ?thesis using t'(6) by blast
    qed
    then show ?thesis using run t'(1,4,7) h'(1,2) False by auto
  qed
qed

end
