(* ===== verification/Memory_Client.thy ===== *)
theory Memory_Client
  imports Gpcl_Prelude
begin

text \<open>
  What a client relies on when it uses an allocator: the regions it holds do not overlap, are aligned
  and large enough, and keep what the client has stored in them until they are released, whatever is
  allocated, released or resized in between. The locale \<open>memory_provider\<close> states the contract per
  call; its lemmas lift it to whole client programs.
\<close>

section \<open>Client programs\<close>

text \<open>
  A client remembers for each address it holds how many bytes it has asked for, with which alignment,
  and what it has stored at which offset. Null is 0.
\<close>

record holding =
  held_bytes :: nat
  alignment :: nat
  stored :: "nat \<Rightarrow> nat option"

type_synonym live = "nat \<Rightarrow> holding option"

datatype ('r, 'e) client_op =
    Allocate 'r
  | Release nat
  | Resize nat nat
  | Store nat nat nat
  | Grow 'e

text \<open>
  \<open>provider\<close> collects the calls of an allocator with state \<open>'s\<close>, requests \<open>'r\<close> and extensions \<open>'e\<close> of
  its memory.
\<close>

record ('s, 'r, 'e) provider =
  do_allocate :: "'r \<Rightarrow> 's \<Rightarrow> (nat \<times> 's) res"
  do_release :: "nat \<Rightarrow> 's \<Rightarrow> 's res"
  do_resize :: "nat \<Rightarrow> nat \<Rightarrow> 's \<Rightarrow> (nat \<times> 's) res"
  do_grow :: "'e \<Rightarrow> 's \<Rightarrow> 's res"
  load_cell :: "'s \<Rightarrow> nat \<Rightarrow> nat"
  store_cell :: "nat \<Rightarrow> nat \<Rightarrow> 's \<Rightarrow> 's"
  request_bytes :: "'r \<Rightarrow> nat"
  request_align :: "'r \<Rightarrow> nat"
  cell_size :: nat

definition new_holding :: "nat \<Rightarrow> nat \<Rightarrow> holding" where
  "new_holding n a = \<lparr>held_bytes = n, alignment = a, stored = (\<lambda>_. None)\<rparr>"

definition resized_holding :: "nat \<Rightarrow> nat \<Rightarrow> holding \<Rightarrow> holding" where
  "resized_holding n a g = \<lparr>held_bytes = n, alignment = a, stored = (\<lambda>i. if i < n then stored g i else None)\<rparr>"

fun client_step :: "('s, 'r, 'e) provider \<Rightarrow> ('r, 'e) client_op \<Rightarrow> 's \<times> live \<Rightarrow> ('s \<times> live) res" where
  "client_step A (Allocate r) (s, live) = res_bind (do_allocate A r s) (\<lambda>(p, s).
     Inr (s, if p = 0 then live else live(p \<mapsto> new_holding (request_bytes A r) (request_align A r))))"
| "client_step A (Release p) (s, live) = res_bind (do_release A p s) (\<lambda>s. Inr (s, live(p := None)))"
| "client_step A (Resize p n) (s, live) = res_bind (do_resize A p n s) (\<lambda>(q, s).
     Inr (s, if n = 0 then live(p := None) else if q = 0 then live else (case live p of
       None \<Rightarrow> live(q \<mapsto> new_holding n (cell_size A))
     | Some g \<Rightarrow> live(p := None, q \<mapsto> resized_holding n (cell_size A) g))))"
| "client_step A (Store p i v) (s, live) =
     Inr (store_cell A (p + i) v s, live(p := map_option (\<lambda>g. g\<lparr>stored := (stored g)(i \<mapsto> v)\<rparr>) (live p)))"
| "client_step A (Grow e) (s, live) = res_bind (do_grow A e s) (\<lambda>s. Inr (s, live))"

fun client_run :: "('s, 'r, 'e) provider \<Rightarrow> ('r, 'e) client_op list \<Rightarrow> 's \<times> live \<Rightarrow> ('s \<times> live) res" where
  "client_run A [] st = Inr st"
| "client_run A (op # ops) st = res_bind (client_step A op st) (client_run A ops)"

text \<open>
  What a client may do: release, resize and write only what it holds, and pass only sizes and
  extensions that the allocator admits.
\<close>

record ('s, 'r, 'e) limits =
  good_request :: "'r \<Rightarrow> bool"
  good_size :: "nat \<Rightarrow> bool"
  good_extension :: "'e \<Rightarrow> 's \<Rightarrow> bool"

fun client_may :: "('s, 'r, 'e) provider \<Rightarrow> ('s, 'r, 'e) limits \<Rightarrow> ('r, 'e) client_op \<Rightarrow> 's \<times> live \<Rightarrow> bool" where
  "client_may A B (Allocate r) (s, live) \<longleftrightarrow> good_request B r"
| "client_may A B (Release p) (s, live) \<longleftrightarrow> live p \<noteq> None"
| "client_may A B (Resize p n) (s, live) \<longleftrightarrow> live p \<noteq> None \<and> (n = 0 \<or> good_size B n)"
| "client_may A B (Store p i v) (s, live) \<longleftrightarrow> (case live p of None \<Rightarrow> False
     | Some g \<Rightarrow> cell_size A dvd i \<and> i + cell_size A \<le> held_bytes g)"
| "client_may A B (Grow e) (s, live) \<longleftrightarrow> good_extension B e s"

fun client_scope :: "('s, 'r, 'e) provider \<Rightarrow> ('s, 'r, 'e) limits \<Rightarrow> ('r, 'e) client_op list \<Rightarrow> 's \<times> live \<Rightarrow> bool" where
  "client_scope A B [] st \<longleftrightarrow> True"
| "client_scope A B (op # ops) st \<longleftrightarrow> client_may A B op st \<and>
     (case client_step A op st of Inl e \<Rightarrow> True | Inr st' \<Rightarrow> client_scope A B ops st')"

text \<open>What the client sees: its regions are where it expects them, apart, and hold what it has stored.\<close>

definition intact :: "('s, 'r, 'e) provider \<Rightarrow> 's \<times> live \<Rightarrow> bool" where
  "intact A st \<longleftrightarrow> (case st of (s, live) \<Rightarrow>
     (\<forall>p g. live p = Some g \<longrightarrow> p \<noteq> 0 \<and> alignment g dvd p \<and> (\<forall>i v. stored g i = Some v \<longrightarrow> load_cell A s (p + i) = v)) \<and>
     (\<forall>p g q h. live p = Some g \<longrightarrow> live q = Some h \<longrightarrow> p \<noteq> q \<longrightarrow> p + held_bytes g \<le> q \<or> q + held_bytes h \<le> p))"

section \<open>The contract of an allocator\<close>

text \<open>\<open>holds s R\<close>: the state is consistent and the client holds exactly the regions (address, capacity) in \<open>R\<close>.\<close>

locale memory_provider =
  fixes A :: "('s, 'r, 'e) provider" and B :: "('s, 'r, 'e) limits" and holds :: "'s \<Rightarrow> (nat \<times> nat) set \<Rightarrow> bool"
  assumes region: "holds s R \<Longrightarrow> (p, n) \<in> R \<Longrightarrow> p \<noteq> 0 \<and> 0 < n \<and> cell_size A dvd p"
    and disjoint: "holds s R \<Longrightarrow> (p, n) \<in> R \<Longrightarrow> (q, m) \<in> R \<Longrightarrow> (p, n) \<noteq> (q, m) \<Longrightarrow> p + n \<le> q \<or> q + m \<le> p"
    and cell: "0 < cell_size A"
    and allocate_law: "holds s R \<Longrightarrow> good_request B r \<Longrightarrow> \<exists>p s'. do_allocate A r s = Inr (p, s') \<and>
      (\<forall>q m i. (q, m) \<in> R \<longrightarrow> i < m \<longrightarrow> load_cell A s' (q + i) = load_cell A s (q + i)) \<and>
      (if p = 0 then holds s' R
       else request_align A r dvd p \<and> (\<exists>n. request_bytes A r \<le> n \<and> p \<notin> fst ` R \<and> holds s' (insert (p, n) R)))"
    and release_law: "holds s R \<Longrightarrow> (p, n) \<in> R \<Longrightarrow> \<exists>s'. do_release A p s = Inr s' \<and> holds s' (R - {(p, n)}) \<and>
      (\<forall>q m i. (q, m) \<in> R - {(p, n)} \<longrightarrow> i < m \<longrightarrow> load_cell A s' (q + i) = load_cell A s (q + i))"
    and resize_law: "holds s R \<Longrightarrow> (p, n) \<in> R \<Longrightarrow> good_size B m \<Longrightarrow> \<exists>q s'. do_resize A p m s = Inr (q, s') \<and>
      (if q = 0 then s' = s
       else (\<exists>n'. m \<le> n' \<and> q \<notin> fst ` (R - {(p, n)}) \<and> holds s' (insert (q, n') (R - {(p, n)})) \<and>
         (\<forall>i < min n n'. load_cell A s' (q + i) = load_cell A s (p + i)) \<and>
         (\<forall>x k i. (x, k) \<in> R - {(p, n)} \<longrightarrow> i < k \<longrightarrow> load_cell A s' (x + i) = load_cell A s (x + i))))"
    and resize_zero: "p \<noteq> 0 \<Longrightarrow> do_resize A p 0 s = res_bind (do_release A p s) (\<lambda>s. Inr (0, s))"
    and store_law: "holds s R \<Longrightarrow> (p, n) \<in> R \<Longrightarrow> i < n \<Longrightarrow> holds (store_cell A (p + i) v s) R"
    and load_store: "load_cell A (store_cell A a v s) b = (if b = a then v else load_cell A s b)"
    and grow_law: "holds s R \<Longrightarrow> good_extension B e s \<Longrightarrow> \<exists>s'. do_grow A e s = Inr s' \<and> holds s' R \<and>
      (\<forall>q m i. (q, m) \<in> R \<longrightarrow> i < m \<longrightarrow> load_cell A s' (q + i) = load_cell A s (q + i))"
begin

definition represents :: "'s \<Rightarrow> (nat \<times> nat) set \<Rightarrow> live \<Rightarrow> bool" where
  "represents s R live \<longleftrightarrow> holds s R \<and> fst ` R = dom live \<and>
     (\<forall>p n g. (p, n) \<in> R \<longrightarrow> live p = Some g \<longrightarrow> held_bytes g \<le> n \<and> alignment g dvd p \<and>
        (\<forall>i v. stored g i = Some v \<longrightarrow> i < held_bytes g \<and> load_cell A s (p + i) = v))"

lemma region_unique: "holds s R \<Longrightarrow> (p, n) \<in> R \<Longrightarrow> (p, m) \<in> R \<Longrightarrow> n = m"
  using disjoint [of s R p n p m] region [of s R p n] region [of s R p m] by force

lemma represents_live:
  assumes "represents s R live" and "live p = Some g"
  shows "\<exists>n. (p, n) \<in> R \<and> held_bytes g \<le> n \<and> alignment g dvd p \<and>
    (\<forall>i v. stored g i = Some v \<longrightarrow> i < held_bytes g \<and> load_cell A s (p + i) = v)"
proof -
  have "p \<in> fst ` R" using assms unfolding represents_def by (simp add: dom_def)
  then obtain n where "(p, n) \<in> R" by auto
  then show ?thesis using assms unfolding represents_def by blast
qed

lemma represents_intact:
  assumes "represents s R live"
  shows "intact A (s, live)"
proof -
  have R: "holds s R" using assms by (simp add: represents_def)
  have "p \<noteq> 0 \<and> alignment g dvd p \<and> (\<forall>i v. stored g i = Some v \<longrightarrow> load_cell A s (p + i) = v)"
    if "live p = Some g" for p g
    using represents_live [OF assms that] region [OF R] by blast
  moreover have "p + held_bytes g \<le> q \<or> q + held_bytes h \<le> p" if "live p = Some g" "live q = Some h" "p \<noteq> q" for p g q h
  proof -
    obtain n m where n: "(p, n) \<in> R" "held_bytes g \<le> n" and m: "(q, m) \<in> R" "held_bytes h \<le> m"
      using represents_live [OF assms \<open>live p = Some g\<close>] represents_live [OF assms \<open>live q = Some h\<close>] by blast
    then show ?thesis using disjoint [OF R n(1) m(1)] \<open>p \<noteq> q\<close> by auto
  qed
  ultimately show ?thesis by (simp add: intact_def)
qed

text \<open>A change that keeps the data of the other regions keeps what the client knows of them.\<close>

lemma represents_others:
  assumes "represents s R live" and "holds s' (R' \<union> (R - D))" and "dom live' = fst ` R' \<union> (dom live - fst ` D)"
    and "\<And>q m i. (q, m) \<in> R - D \<Longrightarrow> i < m \<Longrightarrow> load_cell A s' (q + i) = load_cell A s (q + i)"
    and "\<And>q m. (q, m) \<in> R - D \<Longrightarrow> live' q = live q"
    and "D \<subseteq> R"
    and "\<And>p n g. (p, n) \<in> R' \<Longrightarrow> live' p = Some g \<Longrightarrow> held_bytes g \<le> n \<and> alignment g dvd p \<and>
        (\<forall>i v. stored g i = Some v \<longrightarrow> i < held_bytes g \<and> load_cell A s' (p + i) = v)"
  shows "represents s' (R' \<union> (R - D)) live'"
proof -
  have R: "holds s R" "fst ` R = dom live" using assms(1) by (auto simp: represents_def)
  have "fst ` (R - D) = fst ` R - fst ` D"
  proof (intro equalityI subsetI)
    fix x assume "x \<in> fst ` (R - D)"
    then obtain n where n: "(x, n) \<in> R" "(x, n) \<notin> D" by auto
    have "(x, m) \<notin> D" for m using n assms(6) region_unique [OF R(1) n(1), of m] by auto
    then show "x \<in> fst ` R - fst ` D" using n(1) by force
  qed force
  then have "fst ` (R' \<union> (R - D)) = dom live'" using assms(3) R(2) by (simp add: image_Un)
  moreover have "held_bytes g \<le> n \<and> alignment g dvd p \<and> (\<forall>i v. stored g i = Some v \<longrightarrow> i < held_bytes g \<and> load_cell A s' (p + i) = v)"
    if "(p, n) \<in> R - D" "live' p = Some g" for p n g
  proof -
    have old: "(p, n) \<in> R" "live p = Some g" using that assms(5) [OF that(1)] by auto
    then have "held_bytes g \<le> n \<and> alignment g dvd p \<and> (\<forall>i v. stored g i = Some v \<longrightarrow> i < held_bytes g \<and> load_cell A s (p + i) = v)"
      using assms(1) unfolding represents_def by blast
    then show ?thesis using assms(4) [OF that(1)] by (metis order_less_le_trans)
  qed
  ultimately show ?thesis using assms(2,7) unfolding represents_def by blast
qed

lemma client_release_ok:
  assumes rep: "represents s R live" and p: "live p \<noteq> None"
  shows "\<exists>s' R'. do_release A p s = Inr s' \<and> represents s' R' (live(p := None))"
proof -
  obtain g n where n: "live p = Some g" "(p, n) \<in> R" using represents_live [OF rep] p by blast
  have R: "holds s R" using rep by (simp add: represents_def)
  obtain s' where s': "do_release A p s = Inr s'" "holds s' (R - {(p, n)})"
    "\<And>q m i. (q, m) \<in> R - {(p, n)} \<Longrightarrow> i < m \<Longrightarrow> load_cell A s' (q + i) = load_cell A s (q + i)"
    using release_law [OF R n(2)] by blast
  have "represents s' ({} \<union> (R - {(p, n)})) (live(p := None))"
  proof (rule represents_others [OF rep])
    show "(live(p := None)) q = live q" if "(q, m) \<in> R - {(p, n)}" for q m
      using that region_unique [OF R n(2), of m] by auto
  qed (use s' n in auto)
  then show ?thesis using s'(1) by auto
qed

lemma client_allocate_ok:
  assumes rep: "represents s R live" and r: "good_request B r"
  shows "\<exists>st' R'. client_step A (Allocate r) (s, live) = Inr st' \<and> represents (fst st') R' (snd st')"
proof -
  have R: "holds s R" "fst ` R = dom live" using rep by (simp_all add: represents_def)
  obtain p s' where s': "do_allocate A r s = Inr (p, s')"
    "\<And>q m i. (q, m) \<in> R \<Longrightarrow> i < m \<Longrightarrow> load_cell A s' (q + i) = load_cell A s (q + i)"
    "if p = 0 then holds s' R else request_align A r dvd p \<and>
       (\<exists>n. request_bytes A r \<le> n \<and> p \<notin> fst ` R \<and> holds s' (insert (p, n) R))"
    using allocate_law [OF R(1) r] by blast
  show ?thesis
  proof (cases "p = 0")
    case True
    have "represents s' ({} \<union> (R - {})) live" by (rule represents_others [OF rep]) (use s' True in auto)
    then show ?thesis using s'(1) True by auto
  next
    case False
    then obtain n where n: "request_align A r dvd p" "request_bytes A r \<le> n" "p \<notin> fst ` R" "holds s' (insert (p, n) R)"
      using s'(3) by auto
    have "represents s' ({(p, n)} \<union> (R - {})) (live(p \<mapsto> new_holding (request_bytes A r) (request_align A r)))"
    proof (rule represents_others [OF rep])
      show "(live(p \<mapsto> new_holding (request_bytes A r) (request_align A r))) q = live q" if "(q, m) \<in> R - {}" for q m
        using that n(3) by (auto simp: image_iff)
    qed (use s' n in \<open>auto simp: new_holding_def\<close>)
    then show ?thesis using s'(1) False by auto
  qed
qed

lemma client_resize_ok:
  assumes rep: "represents s R live" and p: "live p \<noteq> None" and m: "m = 0 \<or> good_size B m"
  shows "\<exists>st' R'. client_step A (Resize p m) (s, live) = Inr st' \<and> represents (fst st') R' (snd st')"
proof (cases "m = 0")
  case True
  obtain n where "(p, n) \<in> R" using represents_live [OF rep] p by blast
  then have "p \<noteq> 0" using region [of s R p n] rep by (simp add: represents_def)
  then show ?thesis using client_release_ok [OF rep p] True by (auto simp: resize_zero)
next
  case False
  obtain g n where n: "live p = Some g" "(p, n) \<in> R" "held_bytes g \<le> n"
    "\<And>i v. stored g i = Some v \<Longrightarrow> i < held_bytes g \<and> load_cell A s (p + i) = v"
    using represents_live [OF rep] p by blast
  have R: "holds s R" "fst ` R = dom live" using rep by (simp_all add: represents_def)
  obtain q s' where s': "do_resize A p m s = Inr (q, s')" "if q = 0 then s' = s
       else (\<exists>n'. m \<le> n' \<and> q \<notin> fst ` (R - {(p, n)}) \<and> holds s' (insert (q, n') (R - {(p, n)})) \<and>
         (\<forall>i < min n n'. load_cell A s' (q + i) = load_cell A s (p + i)) \<and>
         (\<forall>x k i. (x, k) \<in> R - {(p, n)} \<longrightarrow> i < k \<longrightarrow> load_cell A s' (x + i) = load_cell A s (x + i)))"
    using resize_law [OF R(1) n(2)] m False by blast
  show ?thesis
  proof (cases "q = 0")
    case True
    then show ?thesis using s' False rep by auto
  next
    case q: False
    then obtain n' where n': "m \<le> n'" "q \<notin> fst ` (R - {(p, n)})" "holds s' (insert (q, n') (R - {(p, n)}))"
      "\<And>i. i < min n n' \<Longrightarrow> load_cell A s' (q + i) = load_cell A s (p + i)"
      "\<And>x k i. (x, k) \<in> R - {(p, n)} \<Longrightarrow> i < k \<Longrightarrow> load_cell A s' (x + i) = load_cell A s (x + i)" using s'(2) by auto
    define live' where "live' = live(p := None, q \<mapsto> resized_holding m (cell_size A) g)"
    have "cell_size A dvd q" using region [OF n'(3), of q n'] by simp
    have "represents s' ({(q, n')} \<union> (R - {(p, n)})) live'"
    proof (rule represents_others [OF rep])
      show "live' x = live x" if "(x, k) \<in> R - {(p, n)}" for x k
      proof -
        have "x \<noteq> q" using n'(2) that by force
        moreover have "x \<noteq> p" using that region_unique [OF R(1) n(2), of k] by auto
        ultimately show ?thesis by (simp add: live'_def)
      qed
      show "held_bytes h \<le> k \<and> alignment h dvd x \<and> (\<forall>i v. stored h i = Some v \<longrightarrow> i < held_bytes h \<and> load_cell A s' (x + i) = v)"
        if x: "(x, k) \<in> {(q, n')}" "live' x = Some h" for x k h
      proof -
        have h: "h = resized_holding m (cell_size A) g" "x = q" "k = n'" using x by (auto simp: live'_def)
        have "load_cell A s' (q + i) = v \<and> i < m" if "stored h i = Some v" for i v
        proof -
          have "i < m" "stored g i = Some v" using that by (auto simp: h resized_holding_def split: if_splits)
          then show ?thesis using n(3) n(4) [of i v] n'(4) [of i] n'(1) by auto
        qed
        then show ?thesis using n'(1) \<open>cell_size A dvd q\<close> by (auto simp: h resized_holding_def)
      qed
    qed (use n' n in \<open>auto simp: live'_def\<close>)
    then show ?thesis using s'(1) False q n(1) by (auto simp: live'_def)
  qed
qed

lemma client_store_ok:
  assumes rep: "represents s R live" and may: "client_may A B (Store p i v) (s, live)"
  shows "\<exists>st' R'. client_step A (Store p i v) (s, live) = Inr st' \<and> represents (fst st') R' (snd st')"
proof -
  obtain g where g: "live p = Some g" "i + cell_size A \<le> held_bytes g" using may by (auto split: option.splits)
  have R: "holds s R" using rep by (simp add: represents_def)
  obtain n where n: "(p, n) \<in> R" "held_bytes g \<le> n" "alignment g dvd p"
    "\<And>j w. stored g j = Some w \<Longrightarrow> j < held_bytes g \<and> load_cell A s (p + j) = w" using represents_live [OF rep g(1)] by blast
  have i: "i < n" "i < held_bytes g" using g(2) n(2) cell by auto
  define s' live' where "s' = store_cell A (p + i) v s" and "live' = live(p \<mapsto> g\<lparr>stored := (stored g)(i \<mapsto> v)\<rparr>)"
  have "represents s' ({(p, n)} \<union> (R - {(p, n)})) live'"
  proof (rule represents_others [OF rep])
    show "holds s' ({(p, n)} \<union> (R - {(p, n)}))" using store_law [OF R n(1) i(1)] n(1) by (simp add: s'_def insert_absorb)
    show "load_cell A s' (q + j) = load_cell A s (q + j)" if "(q, m) \<in> R - {(p, n)}" "j < m" for q m j
      using disjoint [OF R n(1), of q m] that i(1) by (auto simp: s'_def load_store)
    show "live' q = live q" if "(q, m) \<in> R - {(p, n)}" for q m
      using that region_unique [OF R n(1), of m] by (auto simp: live'_def)
    show "held_bytes h \<le> m \<and> alignment h dvd q \<and> (\<forall>j w. stored h j = Some w \<longrightarrow> j < held_bytes h \<and> load_cell A s' (q + j) = w)"
      if "(q, m) \<in> {(p, n)}" "live' q = Some h" for q m h
      using that n i(2) by (auto simp: live'_def s'_def load_store)
  qed (use n g in \<open>auto simp: live'_def\<close>)
  then show ?thesis using g(1) by (auto simp: live'_def s'_def)
qed

lemma client_grow_ok:
  assumes rep: "represents s R live" and e: "good_extension B e s"
  shows "\<exists>st' R'. client_step A (Grow e) (s, live) = Inr st' \<and> represents (fst st') R' (snd st')"
proof -
  have R: "holds s R" using rep by (simp add: represents_def)
  obtain s' where s': "do_grow A e s = Inr s'" "holds s' R"
    "\<And>q m i. (q, m) \<in> R \<Longrightarrow> i < m \<Longrightarrow> load_cell A s' (q + i) = load_cell A s (q + i)" using grow_law [OF R e] by blast
  have "represents s' ({} \<union> (R - {})) live" by (rule represents_others [OF rep]) (use s' in auto)
  then show ?thesis using s'(1) by auto
qed

lemma client_step_ok:
  assumes rep: "represents s R live" and may: "client_may A B op (s, live)"
  shows "\<exists>st' R'. client_step A op (s, live) = Inr st' \<and> represents (fst st') R' (snd st')"
proof (cases op)
  case (Release p)
  then show ?thesis using client_release_ok [OF rep, of p] may by auto
next
  case (Store p i v)
  then show ?thesis using client_store_ok [OF rep] may by blast
qed (use client_allocate_ok [OF rep] client_resize_ok [OF rep] client_grow_ok [OF rep] may in auto)

lemma client_run_ok:
  "represents (fst st) R (snd st) \<Longrightarrow> client_scope A B ops st \<Longrightarrow>
    \<exists>st' R'. client_run A ops st = Inr st' \<and> represents (fst st') R' (snd st')"
proof (induction ops arbitrary: st R)
  case (Cons op ops)
  obtain st1 R1 where st1: "client_step A op st = Inr st1" "represents (fst st1) R1 (snd st1)"
    using client_step_ok [of "fst st" R "snd st" op] Cons.prems by auto
  then have "client_scope A B ops st1" using Cons.prems(2) by simp
  from Cons.IH [OF st1(2) this] show ?case using st1(1) by simp
qed auto

lemma programs_intact:
  assumes "represents (fst st) R (snd st)" and "client_scope A B ops st"
  shows "\<exists>st'. client_run A ops st = Inr st' \<and> intact A st'"
  using client_run_ok [OF assms] represents_intact by (metis prod.collapse)

end

end
