(* ===== verification/Tlsf_Programs.thy ===== *)
theory Tlsf_Programs
  imports Tlsf_Check Tlsf_Overrun Memory_Client "HOL-Library.Code_Target_Nat" "HOL-Library.Code_Target_Int"
begin

text \<open>
  The allocator as its clients see it. The state carries the set of pools beside the memory; requests
  are \<open>tlsf_malloc\<close> and \<open>tlsf_memalign\<close>, and the memory grows by \<open>tlsf_add_pool\<close>. The allocator fulfils
  the contract of \<open>memory_provider\<close>, so that every client program within the documented limits runs
  without a failed assertion and never loses or shares data.
\<close>

section \<open>Calls and their limits\<close>

datatype tlsf_request = Malloc nat | Memalign nat nat

type_synonym tlsf_state = "tlsf \<times> (nat \<times> nat) set"

fun tlsf_allocate :: "tlsf_request \<Rightarrow> tlsf_state \<Rightarrow> (nat \<times> tlsf_state) res" where
  "tlsf_allocate (Malloc n) (t, P) = res_bind (tlsf_malloc n t) (\<lambda>(p, t). Inr (p, t, P))"
| "tlsf_allocate (Memalign a n) (t, P) = res_bind (tlsf_memalign a n t) (\<lambda>(p, t). Inr (p, t, P))"

fun tlsf_release :: "nat \<Rightarrow> tlsf_state \<Rightarrow> tlsf_state res" where
  "tlsf_release p (t, P) = res_bind (tlsf_free p t) (\<lambda>t. Inr (t, P))"

fun tlsf_resize :: "nat \<Rightarrow> nat \<Rightarrow> tlsf_state \<Rightarrow> (nat \<times> tlsf_state) res" where
  "tlsf_resize p n (t, P) = res_bind (tlsf_realloc p n t) (\<lambda>(q, t). Inr (q, t, P))"

text \<open>The first header and the sentinel of a pool in \<open>bytes\<close> bytes at \<open>mem\<close>.\<close>

definition pool_range :: "nat \<Rightarrow> nat \<Rightarrow> nat \<times> nat" where
  "pool_range mem bytes = (mem - 8, mem + pool_bytes bytes)"

fun tlsf_grow :: "nat \<times> nat \<Rightarrow> tlsf_state \<Rightarrow> tlsf_state res" where
  "tlsf_grow (mem, bytes) (t, P) = res_bind (tlsf_add_pool mem bytes t) (\<lambda>(_, t). Inr (t, insert (pool_range mem bytes) P))"

definition tlsf_calls :: "(tlsf_state, tlsf_request, nat \<times> nat) provider" where
  "tlsf_calls = \<lparr>do_allocate = tlsf_allocate, do_release = tlsf_release, do_resize = tlsf_resize,
     do_grow = tlsf_grow, load_cell = (\<lambda>(t, P). heap t), store_cell = (\<lambda>a v (t, P). (poke a v t, P)),
     request_bytes = (\<lambda>r. case r of Malloc n \<Rightarrow> n | Memalign a n \<Rightarrow> n),
     request_align = (\<lambda>r. case r of Malloc n \<Rightarrow> 8 | Memalign a n \<Rightarrow> a), cell_size = 8\<rparr>"

text \<open>
  Sizes do not wrap around when they are rounded up, alignments are powers of two below \<open>2 ^ 61\<close>,
  a block is resized to less than \<open>2 ^ 32\<close> bytes, and the memory of a new pool is apart from the \<open>tlsf_size\<close>
  bytes of the control structure and from the other pools and smaller than \<open>2 ^ 32\<close> bytes.
\<close>

definition tlsf_limits :: "(tlsf_state, tlsf_request, nat \<times> nat) limits" where
  "tlsf_limits = \<lparr>
     good_request = (\<lambda>r. case r of Malloc n \<Rightarrow> n + 7 < 2 ^ 64 | Memalign a n \<Rightarrow> n + 7 < 2 ^ 64 \<and> (\<exists>k < 61. a = 2 ^ k)),
     good_size = (\<lambda>n. 0 < n \<and> adjusted n < 2 ^ 32),
     good_extension = (\<lambda>(mem, bytes) (t, P). 8 dvd mem \<and> 8 < mem \<and> 40 \<le> bytes \<and> bytes < 2 ^ 32 + 16 \<and>
       mem + bytes + 48 < 2 ^ 63 \<and> (control t + tlsf_size \<le> mem \<or> mem + bytes \<le> control t) \<and>
       (\<forall>(lo, hi) \<in> P. hi + 16 \<le> mem \<or> mem + bytes \<le> lo + 8))\<rparr>"

definition data_regions :: "(nat \<times> nat) set \<Rightarrow> (nat \<times> nat) set" where
  "data_regions U = (\<lambda>(x, s). (x + 16, s)) ` U"

lemma data_regions_simps:
  "data_regions (insert (x, s) U) = insert (x + 16, s) (data_regions U)"
  "data_regions (U - V) = data_regions U - data_regions V" "data_regions {} = {}"
  "(x + 16, s) \<in> data_regions U \<longleftrightarrow> (x, s) \<in> U" "x + 16 \<in> fst ` data_regions U \<longleftrightarrow> x \<in> fst ` U"
  unfolding data_regions_def by (force simp: image_iff)+

lemma data_regionsE:
  assumes "(p, n) \<in> data_regions U"
  obtains x where "p = x + 16" "(x, n) \<in> U"
  using assms by (auto simp: data_regions_def)

definition tlsf_holds :: "tlsf_state \<Rightarrow> (nat \<times> nat) set \<Rightarrow> bool" where
  "tlsf_holds st R \<longleftrightarrow> (case st of (t, P) \<Rightarrow> \<exists>lay. tinv P lay t \<and> R = data_regions (used lay))"

lemma tlsf_holdsI: "tinv P lay t \<Longrightarrow> tlsf_holds (t, P) (data_regions (used lay))"
  by (auto simp: tlsf_holds_def)

section \<open>The contract\<close>

lemma granted_holds:
  assumes "granted P lay t n p t'" and R: "R = data_regions (used lay)"
  shows "\<exists>s. n \<le> s \<and> p \<notin> fst ` R \<and> tlsf_holds (t', P) (insert (p, s) R)"
    "\<forall>q m i. (q, m) \<in> R \<longrightarrow> i < m \<longrightarrow> heap t' (q + i) = heap t (q + i)" "8 dvd p" "p \<noteq> 0"
proof -
  obtain L b s where g: "p = b + 16" "tinv P L t'" "n \<le> s" "used L = insert (b, s) (used lay)" "b \<notin> fst ` used lay" "keeps P lay t t'"
    using assms(1) unfolding granted_def by blast
  have "insert (p, s) R = data_regions (used L)" "p \<notin> fst ` R" using g(1,4,5) R by (simp_all add: data_regions_simps)
  then show "\<exists>s. n \<le> s \<and> p \<notin> fst ` R \<and> tlsf_holds (t', P) (insert (p, s) R)"
    using tlsf_holdsI [OF g(2)] g(3) by auto
  show "\<forall>q m i. (q, m) \<in> R \<longrightarrow> i < m \<longrightarrow> heap t' (q + i) = heap t (q + i)" using keeps_data [OF g(6)] R by (auto elim!: data_regionsE)
  have "(b, s) \<in> used L" using g(4) by simp
  then obtain pf where "L b = Some (s, False, pf)" using usedD by blast
  then have "8 dvd b" using layoutD(1) g(2) by (auto simp: tinv_def heap_inv_def)
  then show "8 dvd p" "p \<noteq> 0" using g(1) by auto
qed

lemma tlsf_allocate_law:
  assumes "tlsf_holds st R" and r: "good_request tlsf_limits r"
  shows "\<exists>p st'. tlsf_allocate r st = Inr (p, st') \<and>
      (\<forall>q m i. (q, m) \<in> R \<longrightarrow> i < m \<longrightarrow> heap (fst st') (q + i) = heap (fst st) (q + i)) \<and>
      (if p = 0 then tlsf_holds st' R
       else request_align tlsf_calls r dvd p \<and> (\<exists>n. request_bytes tlsf_calls r \<le> n \<and> p \<notin> fst ` R \<and> tlsf_holds st' (insert (p, n) R)))"
proof -
  obtain t P lay where st: "st = (t, P)" "tinv P lay t" and R: "R = data_regions (used lay)"
    using assms(1) by (auto simp: tlsf_holds_def)
  have same: "tlsf_holds (t, P) R" using tlsf_holdsI [OF st(2)] R by simp
  show ?thesis
  proof (cases r)
    case (Malloc n)
    then have n: "n + 7 < 2 ^ 64" using r by (simp add: tlsf_limits_def)
    obtain p t' where p: "tlsf_malloc n t = Inr (p, t')" "p = 0 \<longrightarrow> t' = t" "p \<noteq> 0 \<longrightarrow> granted P lay t n p t'"
      using tlsf_malloc_ok [OF st(2) n] by metis
    then show ?thesis using Malloc st(1) same granted_holds [OF _ R, of P t n p t'] by (cases "p = 0") (auto simp: tlsf_calls_def)
  next
    case (Memalign a n)
    then obtain k where n: "n + 7 < 2 ^ 64" "k < 61" "a = 2 ^ k" using r by (auto simp: tlsf_limits_def)
    obtain p t' where p: "tlsf_memalign a n t = Inr (p, t')" "p = 0 \<longrightarrow> t' = t" "p \<noteq> 0 \<longrightarrow> granted P lay t n p t' \<and> a dvd p"
      using tlsf_memalign_ok [OF st(2) n(1,2)] n(3) by metis
    then show ?thesis using Memalign st(1) same granted_holds [OF _ R, of P t n p t'] by (cases "p = 0") (auto simp: tlsf_calls_def)
  qed
qed

lemma tlsf_release_law:
  assumes "tlsf_holds st R" and "(p, n) \<in> R"
  shows "\<exists>st'. tlsf_release p st = Inr st' \<and> tlsf_holds st' (R - {(p, n)}) \<and>
    (\<forall>q m i. (q, m) \<in> R - {(p, n)} \<longrightarrow> i < m \<longrightarrow> heap (fst st') (q + i) = heap (fst st) (q + i))"
proof -
  obtain t P lay where st: "st = (t, P)" "tinv P lay t" and R: "R = data_regions (used lay)"
    using assms(1) by (auto simp: tlsf_holds_def)
  obtain b where b: "p = b + 16" "(b, n) \<in> used lay" using assms(2) R by (auto elim: data_regionsE)
  then obtain pf where "lay b = Some (n, False, pf)" "n \<noteq> 0" using usedD by blast
  from tlsf_free_ok [OF st(2) this] obtain t' L where t': "tlsf_free p t = Inr t'" "tinv P L t'"
    "used L = used lay - {(b, n)}" "keeps P L t t'" using b(1) by blast
  have "R - {(p, n)} = data_regions (used L)" using R b(1) t'(3) by (simp add: data_regions_simps)
  moreover have "heap t' (q + i) = heap t (q + i)" if "(q, m) \<in> data_regions (used L)" "i < m" for q m i
    using keeps_data [OF t'(4)] that by (auto elim: data_regionsE)
  ultimately show ?thesis using t'(1) tlsf_holdsI [OF t'(2)] st(1) by auto
qed

lemma tlsf_resize_law:
  assumes "tlsf_holds st R" and "(p, n) \<in> R" and m: "good_size tlsf_limits m"
  shows "\<exists>q st'. tlsf_resize p m st = Inr (q, st') \<and> (if q = 0 then st' = st
     else (\<exists>n'. m \<le> n' \<and> q \<notin> fst ` (R - {(p, n)}) \<and> tlsf_holds st' (insert (q, n') (R - {(p, n)})) \<and>
       (\<forall>i < min n n'. heap (fst st') (q + i) = heap (fst st) (p + i)) \<and>
       (\<forall>x k i. (x, k) \<in> R - {(p, n)} \<longrightarrow> i < k \<longrightarrow> heap (fst st') (x + i) = heap (fst st) (x + i))))"
proof -
  obtain t P lay where st: "st = (t, P)" "tinv P lay t" and R: "R = data_regions (used lay)"
    using assms(1) by (auto simp: tlsf_holds_def)
  obtain b where b: "p = b + 16" "(b, n) \<in> used lay" using assms(2) R by (auto elim: data_regionsE)
  then obtain pf where lb: "lay b = Some (n, False, pf)" "n \<noteq> 0" using usedD by blast
  have m': "0 < m" "adjusted m < 2 ^ 32" using m by (simp_all add: tlsf_limits_def)
  obtain q t' where q: "tlsf_realloc p m t = Inr (q, t')" "q = 0 \<longrightarrow> t' = t" "q \<noteq> 0 \<longrightarrow> moved P lay t b n m q t'"
    using tlsf_realloc_ok [OF st(2) lb m'] b(1) by metis
  show ?thesis
  proof (cases "q = 0")
    case True
    then show ?thesis using q st(1) by simp
  next
    case False
    then have "moved P lay t b n m q t'" using q(3) by blast
    then obtain L b' s' where g0: "q = b' + 16 \<and> tinv P L t' \<and> m \<le> s' \<and>
      used L = insert (b', s') (used lay - {(b, n)}) \<and> b' \<notin> fst ` (used lay - {(b, n)}) \<and> control t' = control t \<and>
      (\<forall>i < min n s'. heap t' (q + i) = heap t (b + 16 + i)) \<and>
      (\<forall>x sx i. (x, sx) \<in> used lay \<longrightarrow> x \<noteq> b \<longrightarrow> i < sx \<longrightarrow> heap t' (x + 16 + i) = heap t (x + 16 + i))"
      unfolding moved_def by (elim exE)
    then have g: "q = b' + 16" "tinv P L t'" "m \<le> s'" "used L = insert (b', s') (used lay - {(b, n)})"
      "b' \<notin> fst ` (used lay - {(b, n)})" "\<And>i. i < min n s' \<Longrightarrow> heap t' (q + i) = heap t (b + 16 + i)"
      "\<And>x sx i. (x, sx) \<in> used lay \<Longrightarrow> x \<noteq> b \<Longrightarrow> i < sx \<Longrightarrow> heap t' (x + 16 + i) = heap t (x + 16 + i)" by blast+
    have "insert (q, s') (R - {(p, n)}) = data_regions (used L)" using R b(1) g(1,4) by (simp add: data_regions_simps)
    then have "tlsf_holds (t', P) (insert (q, s') (R - {(p, n)}))" using tlsf_holdsI [OF g(2)] by simp
    moreover have "q \<notin> fst ` (R - {(p, n)})" using data_regions_simps(5) [of b' "used lay - {(b, n)}"] R b(1) g(1,5) by (simp add: data_regions_simps)
    moreover have "heap t' (x + i) = heap t (x + i)" if x: "(x, k) \<in> R - {(p, n)}" "i < k" for x k i
    proof -
      obtain y where y: "x = y + 16" "(y, k) \<in> used lay" "(y, k) \<noteq> (b, n)" using x(1) R b(1) by (auto elim: data_regionsE)
      then have "y \<noteq> b" using used_unique [OF b(2)] by auto
      then show ?thesis using g(7) [OF y(2) _ x(2)] y(1) by simp
    qed
    moreover have "\<forall>i < min n s'. heap t' (q + i) = heap t (p + i)" using g(6) b(1) by blast
    ultimately have "m \<le> s' \<and> q \<notin> fst ` (R - {(p, n)}) \<and> tlsf_holds (t', P) (insert (q, s') (R - {(p, n)})) \<and>
       (\<forall>i < min n s'. heap t' (q + i) = heap t (p + i)) \<and>
       (\<forall>x k i. (x, k) \<in> R - {(p, n)} \<longrightarrow> i < k \<longrightarrow> heap t' (x + i) = heap t (x + i))"
      using g(3) by blast
    then show ?thesis using q(1) False st(1) by auto
  qed
qed

lemma poke_data_inv:
  assumes inv: "heap_inv P lay X t" and b: "lay b = Some (s, False, p)" and i: "i < s"
  shows "heap_inv P lay X (poke (b + 16 + i) v t)"
proof (rule inv_update [OF inv, of _ "{b}"])
  have ok: "layout_ok P lay" using inv by (auto simp: heap_inv_def)
  show "touches {b} lay X a" if "heap (poke (b + 16 + i) v t) a \<noteq> heap t a" for a
    using that b i by (auto simp: in_block_def intro: touchesI [of lay b s] split: if_splits)
  show "layout_ok P lay" by (rule ok)
  show "heap (poke (b + 16 + i) v t) (x + 8) = hdr_val sx fx px \<and> (fx \<longrightarrow> heap (poke (b + 16 + i) v t) (x + sx + 8) = x)"
    if "x \<in> {b}" "lay x = Some (sx, fx, px)" for x sx fx px
    using that b read_header(6) [OF inv b] by simp
qed simp_all

lemma tlsf_store_law:
  assumes "tlsf_holds st R" and "(p, n) \<in> R" and "i < n"
  shows "tlsf_holds (poke (p + i) v (fst st), snd st) R"
proof -
  obtain t P lay where st: "st = (t, P)" "tinv P lay t" and R: "R = data_regions (used lay)"
    using assms(1) by (auto simp: tlsf_holds_def)
  obtain b where b: "p = b + 16" "(b, n) \<in> used lay" using assms(2) R by (auto elim: data_regionsE)
  then obtain pf where "lay b = Some (n, False, pf)" using usedD by blast
  then have "tinv P lay (poke (p + i) v t)" using poke_data_inv [of P lay "{}" t b n pf i v] st(2) b(1) assms(3) by (simp add: tinv_def)
  then show ?thesis using tlsf_holdsI [of P lay] st(1) R by simp
qed

lemma pool_bytes_bounds: "40 \<le> n \<Longrightarrow> 24 \<le> pool_bytes n \<and> pool_bytes n \<le> n - 16"
  by (simp add: pool_bytes_def)

lemma tlsf_grow_law:
  assumes "tlsf_holds st R" and e: "good_extension tlsf_limits e st"
  shows "\<exists>st'. tlsf_grow e st = Inr st' \<and> tlsf_holds st' R \<and>
    (\<forall>q m i. (q, m) \<in> R \<longrightarrow> i < m \<longrightarrow> heap (fst st') (q + i) = heap (fst st) (q + i))"
proof -
  obtain t P lay where st: "st = (t, P)" "tinv P lay t" and R: "R = data_regions (used lay)"
    using assms(1) by (auto simp: tlsf_holds_def)
  obtain mem n where en: "e = (mem, n)" by (cases e)
  have g: "8 dvd mem" "8 < mem" "40 \<le> n" "n < 2 ^ 32 + 16" "mem + n + 48 < 2 ^ 63"
    "control t + 32 \<le> mem \<or> mem + n \<le> control t"
    "\<And>lo hi. (lo, hi) \<in> P \<Longrightarrow> hi + 16 \<le> mem \<or> mem + n \<le> lo + 8" using e st(1) en by (auto simp: tlsf_limits_def tlsf_size_def)
  define lo hi where "lo = mem - 8" and "hi = lo + pool_bytes n + 8"
  have pb: "24 \<le> pool_bytes n" "pool_bytes n \<le> n - 16" using pool_bytes_bounds [OF g(3)] by auto
  have geo: "lo + 8 = mem" "0 < lo" "8 dvd lo" "lo + 32 \<le> hi" "hi + 16 \<le> mem + n" "hi < lo + 8 + 2 ^ 32"
    using g(1-4) pb by (auto simp: lo_def hi_def)
  have P: "pools_ok P (control t)" using st(2) by (simp add: tinv_def heap_inv_def)
  have apart: "hi' + 8 \<le> lo \<or> hi + 8 \<le> lo'" if "(lo', hi') \<in> P" for lo' hi' using g(7) [OF that] geo(1,5) by auto
  have new: "(lo, hi) \<notin> P" using g(7) [of lo hi] geo(1,4) g(3) by auto
  have "hi + 48 < 2 ^ 63" "control t + 32 \<le> lo + 8 \<or> hi + 16 \<le> control t" using geo(1,5) g(5,6) by auto
  then have "pools_ok (insert (lo, hi) P) (control t)"
    using P geo(2,3,4,6) apart unfolding pools_ok_def by (metis insert_iff prod.inject)
  from tlsf_add_pool_ok [OF st(2) g(1-4) lo_def hi_def this new] obtain t' L where t': "tlsf_add_pool mem n t = Inr (mem, t')"
    "tinv (insert (lo, hi) P) L t'" "used L = used lay" "keeps (insert (lo, hi) P) lay t t'" by blast
  have "pool_range mem n = (lo, hi)" using geo(1) by (simp add: pool_range_def hi_def lo_def)
  then have "tlsf_grow e st = Inr (t', insert (lo, hi) P)" using t'(1) st(1) en by simp
  moreover have "tlsf_holds (t', insert (lo, hi) P) R" using tlsf_holdsI [OF t'(2)] R t'(3) by simp
  moreover have "heap t' (q + i) = heap t (q + i)" if "(q, m) \<in> R" "i < m" for q m i using keeps_data [OF t'(4)] R that by (auto elim!: data_regionsE)
  ultimately show ?thesis using st(1) by auto
qed

lemma tlsf_region:
  assumes "tlsf_holds (t, P) R" and "(p, n) \<in> R"
  shows "p \<noteq> 0" "0 < n" "8 dvd p" "\<exists>(lo, hi) \<in> P. lo + 16 \<le> p \<and> p + n \<le> hi + 8"
    "(q, m) \<in> R \<Longrightarrow> (p, n) \<noteq> (q, m) \<Longrightarrow> p + n \<le> q \<or> q + m \<le> p"
proof -
  obtain lay where tinv: "tinv P lay t" and R: "R = data_regions (used lay)"
    using assms(1) by (auto simp: tlsf_holds_def)
  have ok: "layout_ok P lay" using tinv by (simp add: tinv_def heap_inv_def)
  obtain b pf where b: "p = b + 16" "lay b = Some (n, False, pf)" "n \<noteq> 0" using assms(2) R usedD by (metis data_regionsE)
  show "p \<noteq> 0" "0 < n" "8 dvd p" using b layoutD(1) [OF ok b(2)] by auto
  obtain lo hi where "(lo, hi) \<in> P" "lo \<le> b" "b + n + 8 \<le> hi" using layoutD(3) [OF ok b(2)] b(3) by (auto simp: in_pool_def)
  then show "\<exists>(lo, hi) \<in> P. lo + 16 \<le> p \<and> p + n \<le> hi + 8" by (intro bexI [of _ "(lo, hi)"]) (auto simp: b(1))
  assume "(q, m) \<in> R" "(p, n) \<noteq> (q, m)"
  then obtain c pg where c: "q = c + 16" "lay c = Some (m, False, pg)" using R usedD by (metis data_regionsE)
  have "b \<noteq> c" using \<open>(p, n) \<noteq> (q, m)\<close> b c by auto
  then show "p + n \<le> q \<or> q + m \<le> p"
    using layout_spaced [OF ok b(2) c(2)] layout_spaced [OF ok c(2) b(2)] b(1) c(1) by (cases "b < c") auto
qed

lemma tlsf_calls_simps:
  "do_allocate tlsf_calls = tlsf_allocate" "do_release tlsf_calls = tlsf_release" "do_resize tlsf_calls = tlsf_resize"
  "do_grow tlsf_calls = tlsf_grow" "load_cell tlsf_calls st = heap (fst st)"
  "store_cell tlsf_calls a v st = (poke a v (fst st), snd st)" "cell_size tlsf_calls = 8"
  "request_bytes tlsf_calls (Malloc n) = n" "request_align tlsf_calls (Malloc n) = 8"
  by (simp_all add: tlsf_calls_def case_prod_beta)

interpretation tlsf_memory: memory_provider tlsf_calls tlsf_limits tlsf_holds
proof
  fix st R p n assume "tlsf_holds st R" "(p, n) \<in> R"
  then show "p \<noteq> 0 \<and> 0 < n \<and> cell_size tlsf_calls dvd p"
    using tlsf_region(1,2,3) [of "fst st" "snd st"] by (simp add: tlsf_calls_def)
next
  fix st R p n q m assume "tlsf_holds st R" "(p, n) \<in> R" "(q, m) \<in> R" "(p, n) \<noteq> (q, m)"
  then show "p + n \<le> q \<or> q + m \<le> p" using tlsf_region(5) [of "fst st" "snd st"] by simp
next
  fix st R r assume "tlsf_holds st R" "good_request tlsf_limits r"
  from tlsf_allocate_law [OF this] show "\<exists>p st'. do_allocate tlsf_calls r st = Inr (p, st') \<and>
      (\<forall>q m i. (q, m) \<in> R \<longrightarrow> i < m \<longrightarrow> load_cell tlsf_calls st' (q + i) = load_cell tlsf_calls st (q + i)) \<and>
      (if p = 0 then tlsf_holds st' R
       else request_align tlsf_calls r dvd p \<and> (\<exists>n. request_bytes tlsf_calls r \<le> n \<and> p \<notin> fst ` R \<and> tlsf_holds st' (insert (p, n) R)))"
    by (simp only: tlsf_calls_simps)
next
  fix st R p n assume "tlsf_holds st R" "(p, n) \<in> R"
  from tlsf_release_law [OF this] show "\<exists>st'. do_release tlsf_calls p st = Inr st' \<and> tlsf_holds st' (R - {(p, n)}) \<and>
      (\<forall>q m i. (q, m) \<in> R - {(p, n)} \<longrightarrow> i < m \<longrightarrow> load_cell tlsf_calls st' (q + i) = load_cell tlsf_calls st (q + i))"
    by (simp only: tlsf_calls_simps)
next
  fix st R p n m assume "tlsf_holds st R" "(p, n) \<in> R" "good_size tlsf_limits m"
  from tlsf_resize_law [OF this] show "\<exists>q st'. do_resize tlsf_calls p m st = Inr (q, st') \<and>
      (if q = 0 then st' = st
       else (\<exists>n'. m \<le> n' \<and> q \<notin> fst ` (R - {(p, n)}) \<and> tlsf_holds st' (insert (q, n') (R - {(p, n)})) \<and>
         (\<forall>i < min n n'. load_cell tlsf_calls st' (q + i) = load_cell tlsf_calls st (p + i)) \<and>
         (\<forall>x k i. (x, k) \<in> R - {(p, n)} \<longrightarrow> i < k \<longrightarrow> load_cell tlsf_calls st' (x + i) = load_cell tlsf_calls st (x + i))))"
    by (simp only: tlsf_calls_simps)
next
  fix p and st :: tlsf_state assume "p \<noteq> (0::nat)"
  then show "do_resize tlsf_calls p 0 st = res_bind (do_release tlsf_calls p st) (\<lambda>s. Inr (0, s))"
    by (cases st) (simp add: tlsf_calls_simps tlsf_realloc_def res_bind_assoc)
next
  fix st R p n i v assume "tlsf_holds st R" "(p, n) \<in> R" "i < n"
  from tlsf_store_law [OF this] show "tlsf_holds (store_cell tlsf_calls (p + i) v st) R"
    by (simp only: tlsf_calls_simps)
next
  fix st R e assume "tlsf_holds st R" "good_extension tlsf_limits e st"
  from tlsf_grow_law [OF this] show "\<exists>st'. do_grow tlsf_calls e st = Inr st' \<and> tlsf_holds st' R \<and>
      (\<forall>q m i. (q, m) \<in> R \<longrightarrow> i < m \<longrightarrow> load_cell tlsf_calls st' (q + i) = load_cell tlsf_calls st (q + i))"
    by (simp only: tlsf_calls_simps)
qed (simp_all add: tlsf_calls_simps)

text \<open>A pool without used blocks is a single free block.\<close>

lemma pool_single_block:
  assumes tinv: "tinv P lay t" and none: "used lay = {}" and pool: "(lo, hi) \<in> P"
  shows "lay lo = Some (hi - lo - 8, True, False)"
proof -
  have inv: "heap_inv P lay {} t" using tinv by (simp add: tinv_def)
  have ok: "pools_ok P (control t)" "layout_ok P lay" using inv by (auto simp: heap_inv_def)
  have free: "f" if "lay x = Some (s, f, p)" "s \<noteq> 0" for x s f p
  proof (rule ccontr)
    assume "\<not> f"
    then have "(x, s) \<in> used lay" using that by (simp add: used_def)
    then show False using none by simp
  qed
  have lohi: "lo + 32 \<le> hi" using ok(1) pool unfolding pools_ok_def by blast
  have pools: "hi1 + 8 \<le> lo2 \<or> hi2 + 8 \<le> lo1" if "(lo1, hi1) \<in> P" "(lo2, hi2) \<in> P" "hi1 \<noteq> hi2" for lo1 hi1 lo2 hi2
    using ok(1) that unfolding pools_ok_def by blast
  obtain s f p ph where lo: "lay lo = Some (s, f, p)" and hi: "lay hi = Some (0, False, ph)"
    using ok(2) pool unfolding layout_ok_def anchored_def by (metis not_None_eq prod_cases3)
  have sentinel: "\<exists>lo'. (lo', x) \<in> P" if "lay x = Some (0, f, p)" for x f p
    using layoutD(3) [OF ok(2) that] by (auto simp: in_pool_def)
  have le: "lo + s + 8 \<le> hi" using layout_spaced [OF ok(2) lo hi] lohi by simp
  have "s \<noteq> 0"
  proof
    assume "s = 0"
    then obtain lo' where lo': "(lo', lo) \<in> P" using sentinel lo by blast
    have "lo' + 32 \<le> lo" using ok(1) lo' unfolding pools_ok_def by blast
    then show False using pools [OF lo' pool] lohi by auto
  qed
  then have f using free lo by blast
  then have "lay lo = Some (s, True, p)" using lo by simp
  note fr = free_neighbours [OF tinv this]
  obtain s' where n: "lay (lo + s + 8) = Some (s', False, True)" using fr(3) by blast
  then have "s' = 0" using free by blast
  then obtain lo' where lo': "(lo', lo + s + 8) \<in> P" using sentinel n by blast
  have "lo' + 32 \<le> lo + s + 8" using ok(1) lo' unfolding pools_ok_def by blast
  then have "lo + s + 8 = hi" using pools [OF lo' pool] le by auto
  then show ?thesis using lo fr(1) \<open>f\<close> by auto
qed

section \<open>Properties\<close>

text \<open>A new allocator whose control structure is at \<open>mem\<close>, before any pool is added.\<close>

definition tlsf_start :: "nat \<Rightarrow> (nat \<Rightarrow> nat) \<Rightarrow> tlsf_state \<times> live" where
  "tlsf_start mem h = ((control_construct mem h, {}), \<lambda>_. None)"

lemma tlsf_start_represents:
  assumes "8 dvd mem" and "0 < mem" and "mem + 32 < 2 ^ 63"
  shows "tlsf_memory.represents (fst (tlsf_start mem h)) {} (snd (tlsf_start mem h))"
proof -
  have "tlsf_holds (control_construct mem h, {}) (data_regions (used (\<lambda>_. None)))"
    by (intro tlsf_holdsI control_construct_inv assms)
  moreover have "used (\<lambda>_. None) = {}" by (simp add: used_def)
  ultimately show ?thesis by (simp add: tlsf_memory.represents_def tlsf_start_def data_regions_def)
qed

text \<open>Every region that is held lies between the first header and the sentinel of one pool.\<close>

definition in_pools :: "tlsf_state \<times> live \<Rightarrow> bool" where
  "in_pools st \<longleftrightarrow> (case st of ((t, P), live) \<Rightarrow>
     \<forall>p g. live p = Some g \<longrightarrow> (\<exists>(lo, hi) \<in> P. lo + 16 \<le> p \<and> p + held_bytes g \<le> hi + 8))"

text \<open>
  C3. Client programs of \<open>tlsf_malloc\<close>, \<open>tlsf_memalign\<close>, \<open>tlsf_free\<close>, \<open>tlsf_realloc\<close>, \<open>tlsf_add_pool\<close> and
  writes into what the client holds, within the limits of the sizes: no assertion fails and no access
  leaves the arrays, and at the end the regions held are aligned as requested, disjoint, inside of the
  pools, and every cell still has the value the client has stored last, also across reallocations.
\<close>

theorem tlsf_programs:
  assumes "8 dvd mem" and "0 < mem" and "mem + 32 < 2 ^ 63"
    and "client_scope tlsf_calls tlsf_limits ops (tlsf_start mem h)"
  shows "\<exists>st. client_run tlsf_calls ops (tlsf_start mem h) = Inr st \<and> intact tlsf_calls st \<and> in_pools st"
proof -
  obtain st R where st: "client_run tlsf_calls ops (tlsf_start mem h) = Inr st" "tlsf_memory.represents (fst st) R (snd st)"
    using tlsf_memory.client_run_ok [OF tlsf_start_represents [OF assms(1-3)] assms(4)] by blast
  obtain t P live where eq: "st = ((t, P), live)" by (metis prod.collapse)
  have "\<exists>(lo, hi) \<in> P. lo + 16 \<le> p \<and> p + held_bytes g \<le> hi + 8" if p: "live p = Some g" for p g
  proof -
    obtain n where n: "(p, n) \<in> R" "held_bytes g \<le> n"
      using tlsf_memory.represents_live [OF st(2), of p g] eq p by auto
    have "tlsf_holds (t, P) R" using st(2) eq by (simp add: tlsf_memory.represents_def)
    from tlsf_region(4) [OF this n(1)] show ?thesis using n(2) by force
  qed
  then have "in_pools st" by (simp add: in_pools_def eq)
  then show ?thesis using st tlsf_memory.represents_intact by (metis prod.collapse)
qed

lemma res_bind_weak: "m = m' \<Longrightarrow> res_bind m f = res_bind m' f"
  by simp

text \<open>A small instance: 4096 bytes at 16384, from which 64 bytes are allocated.\<close>

definition demo_pool :: tlsf where
  "demo_pool = \<lparr>heap = (\<lambda>_. 0)(8208 := 8192, 16384 := 4081, 16392 := 8192, 16400 := 8192, 8216 := 16376,
       20464 := 16376, 20472 := 2), control = 8192, fl_bitmap = 16, sl_bitmap = (\<lambda>i. 0)(4 := 2147483648),
     blocks = (\<lambda>i j. 8192)(4 := (\<lambda>j. 8192)(31 := 16376))\<rparr>"

definition demo_held :: tlsf where
  "demo_held = \<lparr>heap = (\<lambda>_. 0)(16392 := 8192, 16400 := 8192, 8208 := 8192, 20464 := 16448, 20472 := 2,
       16448 := 16376, 16464 := 8192, 16472 := 8192, 8216 := 16448, 16456 := 4009, 16384 := 64),
     control = 8192, fl_bitmap = 16, sl_bitmap = (\<lambda>i. 0)(4 := 1073741824),
     blocks = (\<lambda>i j. 8192)(4 := (\<lambda>j. 8192)(31 := 8192, 30 := 16448))\<rparr>"

lemma demo_numbers:
  "mapping_insert 4080 = (4, 31)" "mapping_search 64 = Inr (0, 8)" "mapping_insert 4008 = (4, 30)" "mapping_insert 4072 = (4, 31)"
  "align_down 4080 8 = Inr 4080" "align_ptr 16392 8 = Inr 16392" "align_ptr 16464 8 = Inr 16464" "align_ptr 16400 8 = Inr 16400"
  "adjust_request_size 64 8 = Inr 64" "adjust_request_size 4294967296 8 = Inr 0" "tlsf_ffs 16 = 4" "tlsf_ffs 2147483648 = 31"
  by code_simp+

lemmas tlsf_eval = offset_to_block_def block_set_prev_used_def block_set_free_def block_set_size_def block_insert_def
  insert_free_block_def check_index_def in_arrays_def block_link_next_def block_next_def block_is_last_def block_size_def
  block_to_ptr_def block_set_used_def block_set_prev_free_def poke_def Let_def size_sub_def size_t_def size_not_def
  set_head_def set_sl_bitmap_def block_header_free_bit_def block_header_prev_free_bit_def tlsf_pool_overhead_def
  block_locate_free_def search_suitable_block_def remove_free_block_def block_prepare_used_def block_trim_free_def
  block_can_split_def block_split_def block_mark_as_free_def block_mark_as_used_def block_is_free_def demo_numbers

lemma demo_add_pool: "tlsf_add_pool 16384 4096 (control_construct 8192 (\<lambda>_. 0)) = Inr (16384, demo_pool)"
  by (simp add: tlsf_add_pool_def control_construct_def demo_pool_def tlsf_eval cong: res_bind_weak)

lemma demo_malloc: "tlsf_malloc 64 demo_pool = Inr (16392, demo_held)"
  by (simp add: tlsf_malloc_def demo_pool_def demo_held_def tlsf_eval cong: res_bind_weak)

definition demo_client :: "tlsf_state \<times> live" where
  "demo_client = ((poke 16392 8 demo_held, {(16376, 20464)}), [16392 \<mapsto> \<lparr>held_bytes = 64, alignment = 8, stored = [0 \<mapsto> 8]\<rparr>])"

lemma demo_grow:
  "client_step tlsf_calls (Grow (16384, 4096)) (tlsf_start 8192 (\<lambda>_. 0)) = Inr ((demo_pool, {(16376, 20464)}), \<lambda>_. None)"
  by (simp add: tlsf_calls_simps tlsf_start_def demo_add_pool pool_range_def pool_bytes_def)

lemma demo_allocate:
  "client_step tlsf_calls (Allocate (Malloc 64)) ((demo_pool, P), \<lambda>_. None) = Inr ((demo_held, P), [16392 \<mapsto> new_holding 64 8])"
  by (simp add: tlsf_calls_simps demo_malloc)

lemma demo_store:
  "client_step tlsf_calls (Store 16392 0 8) ((demo_held, {(16376, 20464)}), [16392 \<mapsto> new_holding 64 8]) = Inr demo_client"
  by (simp add: tlsf_calls_simps demo_client_def new_holding_def)

lemmas demo_steps = demo_grow demo_allocate demo_store

lemma demo_scope:
  assumes "client_scope tlsf_calls tlsf_limits ops demo_client"
  shows "client_scope tlsf_calls tlsf_limits (Grow (16384, 4096) # Allocate (Malloc 64) # Store 16392 0 8 # ops) (tlsf_start 8192 (\<lambda>_. 0))"
proof -
  have "client_may tlsf_calls tlsf_limits (Grow (16384, 4096)) (tlsf_start 8192 (\<lambda>_. 0))"
    by (simp add: tlsf_limits_def tlsf_size_def tlsf_start_def control_construct_def)
  moreover have "client_may tlsf_calls tlsf_limits (Allocate (Malloc 64)) ((demo_pool, {(16376, 20464)}), \<lambda>_. None)"
    by (simp add: tlsf_limits_def)
  moreover have "client_may tlsf_calls tlsf_limits (Store 16392 0 8) ((demo_held, {(16376, 20464)}), [16392 \<mapsto> new_holding 64 8])"
    by (simp add: tlsf_calls_simps new_holding_def)
  ultimately show ?thesis using assms by (simp only: client_scope.simps demo_steps sum.case simp_thms)
qed

theorem tlsf_programs_witness:
  "client_scope tlsf_calls tlsf_limits [Grow (16384, 4096), Allocate (Malloc 64), Store 16392 0 8, Resize 16392 200] (tlsf_start 8192 (\<lambda>_. 0)) \<and>
   (\<exists>st. client_run tlsf_calls [Grow (16384, 4096), Allocate (Malloc 64), Store 16392 0 8, Resize 16392 200] (tlsf_start 8192 (\<lambda>_. 0)) = Inr st \<and>
      intact tlsf_calls st \<and> in_pools st)"
proof -
  have "client_may tlsf_calls tlsf_limits (Resize 16392 200) demo_client"
    by (simp add: tlsf_limits_def demo_client_def adjusted_def)
  then have "client_scope tlsf_calls tlsf_limits [Resize 16392 200] demo_client" by (simp split: sum.splits)
  note scope = demo_scope [OF this]
  show ?thesis using scope tlsf_programs [OF _ _ _ scope] by simp
qed

text \<open>
  C4. The allocator's own consistency checks find nothing in any state that a client program within
  the limits can reach: \<open>tlsf_check\<close> terminates with no failed assertion and returns 0, and so does
  \<open>tlsf_check_pool\<close> on every pool.
\<close>

theorem tlsf_self_checks:
  assumes "8 dvd mem" and "0 < mem" and "mem + 32 < 2 ^ 63"
    and "client_scope tlsf_calls tlsf_limits ops (tlsf_start mem h)"
    and "client_run tlsf_calls ops (tlsf_start mem h) = Inr ((t, P), live)"
  shows "tlsf_check t = Some (Inr 0) \<and> (\<forall>lo hi. (lo, hi) \<in> P \<longrightarrow> tlsf_check_pool (lo + 8) t = Some (Inr 0))"
proof -
  obtain R where "tlsf_memory.represents (t, P) R live"
    using tlsf_memory.client_run_ok [OF tlsf_start_represents [OF assms(1-3)] assms(4)] assms(5) by auto
  then obtain lay where "tinv P lay t" by (auto simp: tlsf_memory.represents_def tlsf_holds_def)
  then show ?thesis using tlsf_check_ok tlsf_check_pool_ok by blast
qed

theorem tlsf_self_checks_witness:
  "tlsf_check (poke 16392 8 demo_held) = Some (Inr 0) \<and> tlsf_check_pool 16384 (poke 16392 8 demo_held) = Some (Inr 0)"
proof -
  have "client_run tlsf_calls [Grow (16384, 4096), Allocate (Malloc 64), Store 16392 0 8] (tlsf_start 8192 (\<lambda>_. 0)) = Inr demo_client"
    by (simp only: client_run.simps demo_steps res_bind_simps)
  from tlsf_self_checks [OF _ _ _ demo_scope this [unfolded demo_client_def]] show ?thesis by force
qed

text \<open>
  C5. When a client program within the limits has released everything, all free blocks have been
  merged again: every pool is one free block of its full size, and the next request that leaves a
  little room for the rounding of size classes succeeds.
\<close>

theorem tlsf_recovers:
  assumes "8 dvd mem" and "0 < mem" and "mem + 32 < 2 ^ 63"
    and "client_scope tlsf_calls tlsf_limits ops (tlsf_start mem h)"
    and "client_run tlsf_calls ops (tlsf_start mem h) = Inr ((t, P), \<lambda>_. None)" and "(lo, hi) \<in> P"
  shows "block_is_free lo t \<and> block_size lo t = hi - lo - 8 \<and>
    (n \<noteq> 0 \<and> 33 * adjusted n \<le> 32 * (hi - lo - 8) \<longrightarrow> (\<exists>p t'. tlsf_malloc n t = Inr (p, t') \<and> p \<noteq> 0))"
proof -
  obtain R where R: "tlsf_memory.represents (t, P) R (\<lambda>_. None)"
    using tlsf_memory.client_run_ok [OF tlsf_start_represents [OF assms(1-3)] assms(4)] assms(5) by auto
  then have "R = {}" by (auto simp: tlsf_memory.represents_def)
  then obtain lay where lay: "tinv P lay t" "used lay = {}"
    using R by (auto simp: tlsf_memory.represents_def tlsf_holds_def data_regions_def)
  have single: "lay lo = Some (hi - lo - 8, True, False)" by (rule pool_single_block [OF lay assms(6)])
  have "heap_inv P lay {} t" using lay(1) by (simp add: tinv_def)
  note h = read_header [OF this single]
  have "\<exists>p t'. tlsf_malloc n t = Inr (p, t') \<and> p \<noteq> 0" if n: "n \<noteq> 0" "33 * adjusted n \<le> 32 * (hi - lo - 8)"
  proof -
    have "hi - lo - 8 < 2 ^ 32"
      using lay(1) single layoutD(3) in_pool_range(4) unfolding tinv_def heap_inv_def by blast
    then have a: "adjusted n < 2 ^ 32" using n(2) by linarith
    then have "n + 7 < 2 ^ 64" using adjusted_bounds(1) [of n] by simp
    then obtain p t' where p: "tlsf_malloc n t = Inr (p, t')"
      "p = 0 \<longrightarrow> n = 0 \<or> 2 ^ 32 \<le> adjusted n \<or> (\<forall>x s p. lay x = Some (s, True, p) \<longrightarrow> 32 * s < 33 * adjusted n)"
      using tlsf_malloc_ok [OF lay(1)] by metis
    then have "p \<noteq> 0" using a n single by (meson not_le)
    then show ?thesis using p(1) by blast
  qed
  then show ?thesis using h by blast
qed

theorem tlsf_recovers_witness:
  "block_is_free 16376 demo_pool \<and> block_size 16376 demo_pool = 4080 \<and> (\<exists>p t. tlsf_malloc 3900 demo_pool = Inr (p, t) \<and> p \<noteq> 0)"
proof -
  have run: "client_run tlsf_calls [Grow (16384, 4096)] (tlsf_start 8192 (\<lambda>_. 0)) = Inr ((demo_pool, {(16376, 20464)}), \<lambda>_. None)"
    by (simp only: client_run.simps demo_steps res_bind_simps)
  have "client_may tlsf_calls tlsf_limits (Grow (16384, 4096)) (tlsf_start 8192 (\<lambda>_. 0))"
    by (simp add: tlsf_limits_def tlsf_size_def tlsf_start_def control_construct_def)
  then have scope: "client_scope tlsf_calls tlsf_limits [Grow (16384, 4096)] (tlsf_start 8192 (\<lambda>_. 0))"
    by (simp only: client_scope.simps demo_steps sum.case simp_thms)
  show ?thesis using tlsf_recovers [OF _ _ _ scope run, of 16376 20464 3900] by (simp add: adjusted_def)
qed

text \<open>
  C33. Sizes at the limits. A pool with exactly \<open>block_size_max\<close> bytes of payload is accepted by
  \<open>tlsf_add_pool\<close> but its size class is outside of the arrays; and a request of almost \<open>2 ^ 64\<close> bytes
  wraps around when it is rounded up and is served like one of 24 bytes.
\<close>

theorem tlsf_limits_wrong:
  assumes "8 dvd mem" and "2 ^ 32 + 16 \<le> n" and "n < 2 ^ 32 + 24" and "2 ^ 64 - 7 \<le> m" and "m < 2 ^ 64"
  shows "tlsf_add_pool mem n t = Inl Undefined_behaviour \<and> tlsf_malloc m t = tlsf_malloc 24 t"
proof -
  define b where "b = offset_to_block mem (size_sub 0 8)"
  have "(n - 16) div 8 * 8 = 2 ^ 32"
  proof -
    define r where "r = n - (2 ^ 32 + 16)"
    have "n - 16 = r + 536870912 * 8" "r < 8" using assms(2,3) by (auto simp: r_def)
    then show ?thesis by simp
  qed
  then have down: "align_down (size_sub n tlsf_pool_overhead) ALIGN_SIZE = Inr (2 ^ 32)"
    using align_down_pow2 [of 3 "n - 16"] assms(2,3) by (simp add: tlsf_pool_overhead_def)
  have two: "4 dvd (2 ^ 32 :: nat)" "(2 ^ 32 :: nat) < 2 ^ 63" by simp_all
  have "block_size b (poke (b + 8) (hdr_val (2 ^ 32) True False) t) = 2 ^ 32"
    using hdr_val_ops(1) [OF two] by (simp add: block_size_def)
  then have "block_insert b (poke (b + 8) (hdr_val (2 ^ 32) True False) t) = Inl Undefined_behaviour"
    using mapping_insert_limit by (simp add: block_insert_def insert_free_block_def check_index_def in_arrays_def)
  then have "tlsf_add_pool mem n t = Inl Undefined_behaviour"
    using assms(1) down new_header [OF two, of b t] by (simp add: tlsf_add_pool_def Let_def b_def [symmetric])
  moreover have "adjust_request_size m ALIGN_SIZE = Inr 24"
  proof -
    define r where "r = m + 7 - 2 ^ 64"
    have r: "m + 7 = r + 2 ^ 64" "r < 7" using assms(4,5) by (auto simp: r_def)
    have "size_t (m + 7) = r" unfolding r(1) size_t_def using r(2) by simp
    moreover have "r = 0 \<or> r = 1 \<or> r = 2 \<or> r = 3 \<or> r = 4 \<or> r = 5 \<or> r = 6" using r(2) by auto
    then have "r AND 18446744073709551608 = 0" by (elim disjE) simp_all
    ultimately have "size_t (m + 7) AND size_not 7 = 0" by (simp add: size_not_def)
    then show ?thesis using assms(4) by (simp add: adjust_request_size_def align_up_def size_sub_def size_t_def)
  qed
  moreover have "adjust_request_size 24 ALIGN_SIZE = Inr 24" using adjust_request_size_8 [of 24] by (simp add: adjusted_def)
  ultimately show ?thesis by (simp add: tlsf_malloc_def)
qed

theorem tlsf_limits_wrong_witness:
  "tlsf_add_pool 16384 (2 ^ 32 + 16) demo_pool = Inl Undefined_behaviour \<and>
   tlsf_malloc (2 ^ 64 - 1) demo_pool = tlsf_malloc 24 demo_pool"
  using tlsf_limits_wrong [of 16384 "2 ^ 32 + 16" "2 ^ 64 - 1" demo_pool] by simp

text \<open>
  C34. Reallocating to a size that the allocator cannot provide, between \<open>2 ^ 32\<close> and almost \<open>2 ^ 64\<close>
  bytes, after any client program within the limits and for any block that is held: the comment of
  \<open>tlsf_realloc\<close> promises that the original buffer is left untouched and that null is returned, but
  the call returns the old address. A block of 24 bytes stays as it is; a larger one becomes a used
  block of size 0, and its data, the first cell overwritten by a header, a free block that later
  requests can be served from. The other regions keep their data.
\<close>

theorem tlsf_realloc_too_large:
  assumes "8 dvd mem" and "0 < mem" and "mem + 32 < 2 ^ 63"
    and "client_scope tlsf_calls tlsf_limits ops (tlsf_start mem h)"
    and "client_run tlsf_calls ops (tlsf_start mem h) = Inr ((t, P), live)"
    and "live p = Some g" and "m + 7 < 2 ^ 64" and "2 ^ 32 \<le> adjusted m"
  shows "\<exists>t'. tlsf_realloc p m t = Inr (p, t') \<and> p \<noteq> 0 \<and> held_bytes g < m \<and>
    (if block_size (block_from_ptr p) t < 32 then t' = t
     else block_size (block_from_ptr p) t' = 0 \<and> block_is_free (p - 8) t' \<and>
       block_size (block_from_ptr p) t - 8 \<le> block_size (p - 8) t') \<and>
    (\<forall>q k i. live q = Some k \<longrightarrow> q \<noteq> p \<longrightarrow> i < held_bytes k \<longrightarrow> heap t' (q + i) = heap t (q + i))"
proof -
  obtain R where R: "tlsf_memory.represents (t, P) R live"
    using tlsf_memory.client_run_ok [OF tlsf_start_represents [OF assms(1-3)] assms(4)] assms(5) by auto
  then obtain lay where lay: "tinv P lay t" "R = data_regions (used lay)"
    by (auto simp: tlsf_memory.represents_def tlsf_holds_def)
  have region: "\<exists>x s. q = x + 16 \<and> (x, s) \<in> used lay \<and> held_bytes k \<le> s" if "live q = Some k" for q k
    using tlsf_memory.represents_live [OF R that] unfolding lay(2) by (blast elim: data_regionsE)
  obtain b s where b: "p = b + 16" "(b, s) \<in> used lay" "held_bytes g \<le> s" using region [OF assms(6)] by blast
  then obtain f where lb: "lay b = Some (s, False, f)" "s \<noteq> 0" using usedD by blast
  obtain t' where t': "tlsf_realloc p m t = Inr (p, t')"
    "if s < 32 then t' = t else block_size b t' = 0 \<and> block_is_free (b + 8) t' \<and> s - 8 \<le> block_size (b + 8) t'"
    "\<forall>x sx i. (x, sx) \<in> used lay - {(b, s)} \<longrightarrow> i < sx \<longrightarrow> heap t' (x + 16 + i) = heap t (x + 16 + i)"
    using tlsf_realloc_overrun [OF lay(1) lb assms(7,8)] unfolding b(1) by blast
  have inv: "heap_inv P lay {} t" using lay(1) by (simp add: tinv_def)
  have blk: "block_from_ptr p = b" "p - 8 = b + 8" "block_size b t = s" using read_header(1,8) [OF inv lb(1)] b(1) by auto
  have other: "heap t' (q + i) = heap t (q + i)" if q: "live q = Some k" "q \<noteq> p" "i < held_bytes k" for q k i
  proof -
    obtain x sx where x: "q = x + 16" "(x, sx) \<in> used lay" "held_bytes k \<le> sx" using region [OF q(1)] by blast
    then have "(x, sx) \<in> used lay - {(b, s)}" using q(2) b(1) by auto
    then show ?thesis using t'(3) x(1,3) q(3) by (meson less_le_trans)
  qed
  obtain k where "s = 8 * k" "s < 2 ^ 32" using hdr_ranges(3,5) [OF inv lb(1)] by (auto elim: dvdE)
  moreover have "2 ^ 32 \<le> m + 7" using assms(8) by (simp add: adjusted_def max_def split: if_splits)
  ultimately have "held_bytes g < m" using b(3) by simp
  moreover have "p \<noteq> 0" using b(1) by simp
  ultimately show ?thesis unfolding blk using t'(1,2) other by blast
qed

theorem tlsf_realloc_too_large_witness:
  "\<exists>t'. tlsf_realloc 16392 (2 ^ 32) (poke 16392 8 demo_held) = Inr (16392, t') \<and>
    block_size 16376 t' = 0 \<and> block_is_free 16384 t' \<and> 56 \<le> block_size 16384 t'"
proof -
  have "client_run tlsf_calls [Grow (16384, 4096), Allocate (Malloc 64), Store 16392 0 8] (tlsf_start 8192 (\<lambda>_. 0)) = Inr demo_client"
    by (simp only: client_run.simps demo_steps res_bind_simps)
  from tlsf_realloc_too_large [OF _ _ _ demo_scope this [unfolded demo_client_def], of 16392 _ "2 ^ 32"]
  have "\<exists>t'. tlsf_realloc 16392 (2 ^ 32) (poke 16392 8 demo_held) = Inr (16392, t') \<and> (if block_size 16376 (poke 16392 8 demo_held) < 32 then t' = poke 16392 8 demo_held
     else block_size 16376 t' = 0 \<and> block_is_free 16384 t' \<and> block_size 16376 (poke 16392 8 demo_held) - 8 \<le> block_size 16384 t')"
    by (force simp: adjusted_def block_from_ptr_def size_sub_def size_t_def)
  moreover have "block_size 16376 (poke 16392 8 demo_held) = 64" by (simp add: demo_held_def tlsf_eval)
  ultimately show ?thesis by simp
qed

end
