(* ===== verification/String_Split.thy ===== *)
theory String_Split
  imports Gpcl_Prelude "HOL-Library.Sublist"
begin

text \<open>
  Splitting a character sequence at a delimiter (\<open>string_utils.hpp\<close>): \<open>split\<close> on top of \<open>std::search\<close>,
  and \<open>split_old\<close>, which compares at every position. Iterators are positions in the text; a
  \<open>sub_string\<close> is a pair of positions, and the results are the list that the builder appends to.
\<close>

section \<open>The code\<close>

type_synonym sub_string = "nat \<times> nat"

definition range_of :: "'c list \<Rightarrow> sub_string \<Rightarrow> 'c list" where
  "range_of s sub = take (snd sub - fst sub) (drop (fst sub) s)"

text \<open>\<open>std::search\<close> and \<open>std::find_if\<close> as the distance from the start of the range.\<close>

fun search_dist :: "'c list \<Rightarrow> 'c list \<Rightarrow> nat" where
  "search_dist d [] = 0"
| "search_dist d (x # xs) = (if prefix d (x # xs) then 0 else Suc (search_dist d xs))"

definition find_dist :: "('c \<Rightarrow> bool) \<Rightarrow> 'c list \<Rightarrow> nat" where
  "find_dist P xs = length (takeWhile (\<lambda>c. \<not> P c) xs)"

definition trimmed :: "string \<Rightarrow> sub_string \<Rightarrow> sub_string" where
  "trimmed s sub =
     (let i = fst sub + find_dist (\<lambda>c. \<not> is_space c) (range_of s sub);
          j = i + find_dist is_space (range_of s (i, snd sub))
      in (i, j))"

record split_flags =
  skip_empty_string :: bool
  trim_results :: bool

definition add_result :: "split_flags \<Rightarrow> string \<Rightarrow> sub_string \<Rightarrow> sub_string list \<Rightarrow> sub_string list" where
  "add_result fl s sub rb =
     (if fst sub \<noteq> snd sub \<or> \<not> skip_empty_string fl
      then if trim_results fl then rb @ [trimmed s sub] else rb @ [sub]
      else rb)"

partial_function (option) split_loop ::
  "string \<Rightarrow> string \<Rightarrow> split_flags \<Rightarrow> nat \<Rightarrow> nat \<Rightarrow> sub_string list \<Rightarrow> sub_string list option" where
  "split_loop s delim fl first stop rb =
     (let pos = first + search_dist delim (range_of s (first, stop));
          rb = add_result fl s (first, pos) rb
      in if pos = stop then Some rb else split_loop s delim fl (pos + length delim) stop rb)"

definition split :: "string \<Rightarrow> string \<Rightarrow> split_flags \<Rightarrow> sub_string list option" where
  "split s delim fl = split_loop s delim fl 0 (length s) []"

definition add_result_old :: "split_flags \<Rightarrow> sub_string \<Rightarrow> sub_string list \<Rightarrow> sub_string list" where
  "add_result_old fl sub rb = (if fst sub \<noteq> snd sub \<or> \<not> skip_empty_string fl then rb @ [sub] else rb)"

partial_function (option) split_old_loop ::
  "string \<Rightarrow> string \<Rightarrow> split_flags \<Rightarrow> nat \<Rightarrow> nat \<Rightarrow> nat \<Rightarrow> nat \<Rightarrow> sub_string list \<Rightarrow> sub_string list option" where
  "split_old_loop s delim fl full_length first substr_start stop rb =
     (if full_length \<ge> length delim
      then if take (length delim) (drop first s) = delim
           then split_old_loop s delim fl (full_length - length delim) (first + length delim) (first + length delim) stop
                  (add_result_old fl (substr_start, first) rb)
           else split_old_loop s delim fl (full_length - 1) (first + 1) substr_start stop rb
      else Some (add_result_old fl (substr_start, stop) rb))"

definition split_old :: "string \<Rightarrow> string \<Rightarrow> split_flags \<Rightarrow> sub_string list option" where
  "split_old s delim fl = split_old_loop s delim fl (length s) 0 0 (length s) []"

text \<open>\<open>split_results::operator[]\<close> and \<open>str\<close>: a position behind the last piece reads as empty.\<close>

definition result_at :: "sub_string list \<Rightarrow> nat \<Rightarrow> sub_string" where
  "result_at rs n = (if length rs > n then rs ! n else (0, 0))"

definition result_str :: "string \<Rightarrow> sub_string list \<Rightarrow> nat \<Rightarrow> string" where
  "result_str s rs n = range_of s (result_at rs n)"

section \<open>Searching\<close>

lemma search_dist_le: "search_dist d s \<le> length s"
  by (induction s) auto

lemma search_dist_found: "search_dist d s < length s \<Longrightarrow> prefix d (drop (search_dist d s) s)"
  by (induction s) (auto split: if_splits)

lemma search_dist_before: "i < search_dist d s \<Longrightarrow> \<not> prefix d (drop i s)"
proof (induction s arbitrary: i)
  case (Cons x xs)
  then show ?case by (cases i) (auto split: if_splits)
qed simp

lemma search_dist_eqI:
  assumes "i \<le> length s" and "i < length s \<Longrightarrow> prefix d (drop i s)" and "\<And>j. j < i \<Longrightarrow> \<not> prefix d (drop j s)"
  shows "search_dist d s = i"
proof (rule linorder_cases [of "search_dist d s" i])
  assume "search_dist d s < i"
  then show ?thesis using search_dist_found [of d s] assms(1,3) by auto
next
  assume "i < search_dist d s"
  then show ?thesis using search_dist_before [of i d s] search_dist_le [of d s] assms(2) by auto
qed

section \<open>What splitting means\<close>

text \<open>The pieces of a text, given by their positions from \<open>i\<close> on.\<close>

function pieces :: "'c list \<Rightarrow> nat \<Rightarrow> 'c list \<Rightarrow> sub_string list" where
  "pieces d i s =
     (let k = search_dist d s
      in if k = length s \<or> d = [] then [(i, i + k)]
         else (i, i + k) # pieces d (i + k + length d) (drop (k + length d) s))"
  by auto
termination
proof (relation "measure (\<lambda>(d, i, s). length s)", goal_cases)
  case (2 d i s k)
  then show ?case using search_dist_le [of d s] by (cases d) auto
qed simp

declare pieces.simps [simp del]

fun join :: "'c list \<Rightarrow> 'c list list \<Rightarrow> 'c list" where
  "join d [] = []"
| "join d [x] = x"
| "join d (x # y # xs) = x @ d @ join d (y # xs)"

lemma pieces_nonempty: "pieces d i s \<noteq> []"
  by (simp add: pieces.simps [of d i s] Let_def)

lemma join_Cons: "xs \<noteq> [] \<Longrightarrow> join d (x # xs) = x @ d @ join d xs"
  by (cases xs) simp_all

lemma join_pieces:
  "d \<noteq> [] \<Longrightarrow> drop i t = s \<Longrightarrow> join d (map (range_of t) (pieces d i s)) = s"
proof (induction d i s rule: pieces.induct)
  case (1 d i s)
  define k where "k = search_dist d s"
  have k: "k \<le> length s" using search_dist_le by (simp add: k_def)
  show ?case
  proof (cases "k = length s")
    case True
    then show ?thesis using 1(3) by (simp add: pieces.simps [of d i s] Let_def k_def [symmetric] range_of_def)
  next
    case False
    then have "prefix d (drop k s)" using search_dist_found [of d s] k by (simp add: k_def)
    then have split: "s = take k s @ d @ drop (k + length d) s"
      by (metis add.commute append_eq_conv_conj append_take_drop_id drop_drop prefix_def)
    have "drop (i + k + length d) t = drop (k + length d) s"
      unfolding 1(3) [symmetric] by (simp add: ac_simps)
    then have "join d (map (range_of t) (pieces d (i + k + length d) (drop (k + length d) s))) = drop (k + length d) s"
      using 1(1) [OF k_def _ 1(2)] False 1(2) by (simp add: k_def)
    moreover have "range_of t (i, i + k) = take k s" using 1(3) by (simp add: range_of_def)
    ultimately show ?thesis
      using False 1(2) split pieces_nonempty [of d "i + k + length d" "drop (k + length d) s"]
      by (simp add: pieces.simps [of d i s] Let_def k_def [symmetric] join_Cons)
  qed
qed

lemma pieces_no_delim:
  "d \<noteq> [] \<Longrightarrow> drop i t = s \<Longrightarrow> r \<in> set (pieces d i s) \<Longrightarrow> \<not> sublist d (range_of t r)"
proof (induction d i s rule: pieces.induct)
  case (1 d i s)
  define k where "k = search_dist d s"
  have first: "\<not> sublist d (range_of t (i, i + k))"
  proof
    assume "sublist d (range_of t (i, i + k))"
    then obtain us vs where u: "take k s = us @ d @ vs" using 1(3) by (auto simp: sublist_def range_of_def)
    have "s = us @ d @ vs @ drop k s" using u by (metis append.assoc append_take_drop_id)
    then have "prefix d (drop (length us) s)" by (metis append_eq_conv_conj prefixI)
    moreover have "length (us @ d @ vs) \<le> k" unfolding u [symmetric] by simp
    then have "length us < k" using 1(2) by (cases d) auto
    ultimately show False using search_dist_before [of "length us" d s] by (simp add: k_def)
  qed
  show ?case
  proof (cases "k = length s")
    case True
    then show ?thesis using 1(4) first by (simp add: pieces.simps [of d i s] Let_def k_def [symmetric])
  next
    case False
    have "drop (i + k + length d) t = drop (k + length d) s"
      unfolding 1(3) [symmetric] by (simp add: ac_simps)
    then show ?thesis using 1(1) [OF k_def _ 1(2)] False 1(2,4) first
      by (auto simp: pieces.simps [of d i s] Let_def k_def [symmetric])
  qed
qed

section \<open>Both loops compute the pieces\<close>

lemma split_loop_pieces:
  "d \<noteq> [] \<Longrightarrow> i \<le> length t \<Longrightarrow> drop i t = s \<Longrightarrow>
    split_loop t d fl i (length t) rb = Some (fold (add_result fl t) (pieces d i s) rb)"
proof (induction d i s arbitrary: rb rule: pieces.induct)
  case (1 d i s)
  define k where "k = search_dist d s"
  have k: "k \<le> length s" using search_dist_le by (simp add: k_def)
  have range: "range_of t (i, length t) = s" using 1(3,4) by (auto simp: range_of_def)
  have len: "i + length s = length t" using 1(3,4) by auto
  show ?case
  proof (cases "k = length s")
    case True
    then show ?thesis using len
      by (subst split_loop.simps) (simp add: range k_def [symmetric] pieces.simps [of d i s] Let_def)
  next
    case False
    then have "prefix d (drop k s)" using search_dist_found [of d s] k by (simp add: k_def)
    then have "length d \<le> length s - k" using prefix_length_le by fastforce
    then have "i + k + length d \<le> length t" using len k False by simp
    moreover have "drop (i + k + length d) t = drop (k + length d) s"
      unfolding 1(4) [symmetric] by (simp add: ac_simps)
    ultimately show ?thesis using 1(1) [OF k_def _ 1(2)] False 1(2) len
      by (subst split_loop.simps) (simp add: range k_def [symmetric] pieces.simps [of d i s] Let_def)
  qed
qed

lemma split_old_loop_pieces:
  assumes d: "d \<noteq> []"
  shows "j \<le> i \<Longrightarrow> i \<le> length t \<Longrightarrow> (\<And>m. j \<le> m \<Longrightarrow> m < i \<Longrightarrow> \<not> prefix d (drop m t)) \<Longrightarrow>
    split_old_loop t d fl (length t - i) i j (length t) rb = Some (fold (add_result_old fl) (pieces d j (drop j t)) rb)"
proof (induction "length t - i" arbitrary: i j rb rule: less_induct)
  case less
  have match: "take (length d) (drop i t) = d \<longleftrightarrow> prefix d (drop i t)" by (metis append_eq_conv_conj prefix_def take_is_prefix)
  show ?case
  proof (cases "length d \<le> length t - i")
    case False
    have "search_dist d (drop j t) = length t - j"
    proof (rule search_dist_eqI)
      fix m assume "m < length t - j"
      show "\<not> prefix d (drop m (drop j t))"
      proof (cases "m + j < i")
        case True
        then show ?thesis using less.prems(3) [of "m + j"] by simp
      next
        case False
        then have "length (drop (m + j) t) < length d" using \<open>\<not> length d \<le> length t - i\<close> by simp
        then show ?thesis using prefix_length_le by fastforce
      qed
    qed simp_all
    then show ?thesis using False less.prems by (subst split_old_loop.simps) (simp add: pieces.simps [of d j] Let_def)
  next
    case len: True
    have i: "i < length t" using len d less.prems(2) by (cases d) auto
    show ?thesis
    proof (cases "prefix d (drop i t)")
      case True
      have k: "search_dist d (drop j t) = i - j"
      proof (rule search_dist_eqI)
        show "prefix d (drop (i - j) (drop j t))" using True less.prems(1) by simp
        show "\<not> prefix d (drop m (drop j t))" if "m < i - j" for m using less.prems(3) [of "m + j"] that by simp
      qed (use less.prems in simp)
      have "split_old_loop t d fl (length t - (i + length d)) (i + length d) (i + length d) (length t) rb' =
          Some (fold (add_result_old fl) (pieces d (i + length d) (drop (i + length d) t)) rb')" for rb'
      proof (rule less.hyps)
        have "0 < length d" using d by simp
        then show "length t - (i + length d) < length t - i" using i by linarith
      qed (use len i in auto)
      moreover have "length t - i - length d = length t - (i + length d)" by simp
      moreover have "i - j \<noteq> length t - j" using i less.prems(1) by linarith
      ultimately show ?thesis using len True match k d i less.prems(1)
        by (subst split_old_loop.simps) (simp add: pieces.simps [of d j] Let_def)
    next
      case False
      have "split_old_loop t d fl (length t - (i + 1)) (i + 1) j (length t) rb =
          Some (fold (add_result_old fl) (pieces d j (drop j t)) rb)"
      proof (rule less.hyps)
        show "\<not> prefix d (drop m t)" if "j \<le> m" "m < i + 1" for m
          using that less.prems(3) [of m] False by (cases "m = i") auto
      qed (use less.prems i in auto)
      then show ?thesis using len False match by (subst split_old_loop.simps) simp
    qed
  qed
qed

lemma fold_add_result_old:
  "fold (add_result_old fl) rs rb = rb @ (if skip_empty_string fl then filter (\<lambda>r. fst r \<noteq> snd r) rs else rs)"
  by (induction rs arbitrary: rb) (auto simp: add_result_old_def)

lemma add_result_no_trim: "\<not> trim_results fl \<Longrightarrow> add_result fl s = add_result_old fl"
  by (intro ext) (simp add: add_result_def add_result_old_def)

lemma first_part: "c \<notin> set x \<Longrightarrow> takeWhile (\<lambda>a. a \<noteq> c) (join [c] (x # xs)) = x"
  by (cases xs) (simp_all add: takeWhile_eq_all_conv takeWhile_append, auto)

lemma join_inject:
  "xs \<noteq> [] \<Longrightarrow> ys \<noteq> [] \<Longrightarrow> \<forall>x \<in> set xs. c \<notin> set x \<Longrightarrow> \<forall>y \<in> set ys. c \<notin> set y \<Longrightarrow> join [c] xs = join [c] ys \<Longrightarrow> xs = ys"
proof (induction xs arbitrary: ys)
  case (Cons x xs)
  obtain y ys' where ys: "ys = y # ys'" using Cons.prems(2) by (cases ys) auto
  have xy: "x = y" using first_part [of c x xs] first_part [of c y ys'] Cons.prems(3-5) ys by auto
  have "xs = ys'"
  proof (cases "xs = [] \<or> ys' = []")
    case True
    then show ?thesis using Cons.prems(5) ys xy by (cases xs; cases ys') (auto simp: join_Cons)
  next
    case False
    then show ?thesis using Cons.IH [of ys'] Cons.prems ys xy by (simp add: join_Cons)
  qed
  then show ?case using ys xy by simp
qed simp

lemma sublist_single: "sublist [c] xs \<longleftrightarrow> c \<in> set xs"
  by (auto simp: sublist_def in_set_conv_decomp)

section \<open>Properties\<close>

text \<open>
  C20. Splitting at a delimiter that is not empty returns, and the pieces are the parts between the
  delimiters: put together again with the delimiter they give the text, and none contains it. Skipping
  empty pieces removes just these. Splitting a text that was joined with a one-character delimiter
  gives back the parts.
\<close>

theorem split_join:
  assumes "delim \<noteq> []"
  shows "\<exists>rs. split s delim \<lparr>skip_empty_string = False, trim_results = False\<rparr> = Some rs \<and>
    join delim (map (range_of s) rs) = s \<and> (\<forall>r \<in> set rs. \<not> sublist delim (range_of s r)) \<and>
    split s delim \<lparr>skip_empty_string = True, trim_results = False\<rparr> = Some (filter (\<lambda>r. fst r \<noteq> snd r) rs) \<and>
    (\<forall>c ps. delim = [c] \<and> ps \<noteq> [] \<and> (\<forall>p \<in> set ps. c \<notin> set p) \<and> s = join delim ps \<longrightarrow> map (range_of s) rs = ps)"
proof -
  define rs where "rs = pieces delim 0 s"
  have j: "join delim (map (range_of s) rs) = s" using join_pieces [OF assms, of 0 s] by (simp add: rs_def)
  have n: "\<not> sublist delim (range_of s r)" if "r \<in> set rs" for r using pieces_no_delim [OF assms, of 0 s] that by (simp add: rs_def)
  have run: "split s delim fl = Some (fold (add_result_old fl) rs [])" if "\<not> trim_results fl" for fl
    using split_loop_pieces [OF assms, of 0 s s fl] that by (simp add: split_def rs_def add_result_no_trim)
  have parts: "map (range_of s) rs = ps" if "delim = [c]" "ps \<noteq> []" "\<forall>p \<in> set ps. c \<notin> set p" "s = join delim ps" for c ps
  proof (rule join_inject [of _ _ c])
    show "\<forall>x \<in> set (map (range_of s) rs). c \<notin> set x" using n that(1) by (auto simp: sublist_single)
    show "join [c] (map (range_of s) rs) = join [c] ps" using j that by simp
  qed (use that pieces_nonempty in \<open>simp_all add: rs_def\<close>)
  show ?thesis using run j n parts by (intro exI [of _ rs]) (simp add: fold_add_result_old)
qed

theorem split_join_witness:
  "\<exists>rs. split ''a,b,,c'' '','' \<lparr>skip_empty_string = False, trim_results = False\<rparr> = Some rs \<and>
    map (range_of ''a,b,,c'') rs = [''a'', ''b'', [], ''c'']"
proof -
  have "join '','' [''a'', ''b'', [], ''c''] = ''a,b,,c''" by simp
  moreover obtain rs where "split ''a,b,,c'' '','' \<lparr>skip_empty_string = False, trim_results = False\<rparr> = Some rs"
    "\<forall>c ps. '','' = [c] \<and> ps \<noteq> [] \<and> (\<forall>p \<in> set ps. c \<notin> set p) \<and> ''a,b,,c'' = join '','' ps \<longrightarrow> map (range_of ''a,b,,c'') rs = ps"
    using split_join [of "'',''" "''a,b,,c''"] by blast
  moreover have "\<forall>p \<in> set [''a'', ''b'', [], ''c'']. CHR '','' \<notin> set p" by simp
  ultimately show ?thesis by (metis list.distinct(1))
qed

text \<open>
  C21. \<open>split\<close> and \<open>split_old\<close> agree on every text and every delimiter that is not empty, as long as the
  results are not trimmed, which \<open>split_old\<close> does not do.
\<close>

theorem split_old_agrees:
  assumes "delim \<noteq> []" and "\<not> trim_results fl"
  shows "split s delim fl = split_old s delim fl \<and> split s delim fl \<noteq> None"
  using split_loop_pieces [OF assms(1), of 0 s s fl] split_old_loop_pieces [OF assms(1), of 0 0 s fl "[]"] assms(2)
  by (simp add: split_def split_old_def add_result_no_trim)

theorem split_old_agrees_witness:
  "split ''aXXbXX'' ''XX'' \<lparr>skip_empty_string = True, trim_results = False\<rparr> =
   split_old ''aXXbXX'' ''XX'' \<lparr>skip_empty_string = True, trim_results = False\<rparr>"
  using split_old_agrees [of "''XX''" "\<lparr>skip_empty_string = True, trim_results = False\<rparr>" "''aXXbXX''"] by simp

text \<open>With an empty delimiter \<open>split\<close> never returns unless the text is empty.\<close>

lemma split_loop_empty_delimiter:
  "split_loop t d fl i n rb = Some r \<Longrightarrow> d = [] \<longrightarrow> i < n \<longrightarrow> n \<le> length t \<longrightarrow> False"
proof (induction rule: split_loop.raw_induct [rotated, where P = "\<lambda>t d fl i n rb r. d = [] \<longrightarrow> i < n \<longrightarrow> n \<le> length t \<longrightarrow> False", consumes 1])
  case (1 loop t d fl i n rb r)
  have "search_dist [] (range_of t (i, n)) = 0" by (cases "range_of t (i, n)") auto
  then show ?case using 1 by (auto simp: Let_def split: if_splits)
qed

lemma split_empty_delimiter: "s \<noteq> [] \<Longrightarrow> split s [] fl = None"
  using split_loop_empty_delimiter [of s "[]" fl 0 "length s" "[]"]
  by (cases "split_loop s [] fl 0 (length s) []") (auto simp: split_def)

text \<open>\<open>trimmed\<close> cuts a piece off at its first inner space.\<close>

lemma trimmed_cuts: "range_of '' a b '' (trimmed '' a b '' (0, 5)) = ''a''"
  by code_simp

end
