(* ===== verification/Getopt.thy ===== *)
theory Getopt
  imports Gpcl_Prelude
begin

unbundle bit_operations_syntax

text \<open>
  The command line parser \<open>gpcl::getopt\<close> (\<open>getopt.hpp\<close>, \<open>impl/getopt.ipp\<close>): its state between calls, one
  call of \<open>operator()\<close>, and the loop in which a program calls it until it returns -1. An argument is a
  C string, given without its terminator, or a null pointer (\<open>None\<close>); a pointer to a flag is an index
  into the flags of the program.
\<close>

section \<open>The parser\<close>

datatype getopt_option_type = no_arg | required | optional | flag_set | flag_and | flag_or

record getopt_option =
  name :: "string option"
  name_short :: char
  option_type :: getopt_option_type
  flag_ptr :: "nat option"
  option_value :: "32 word"
  desc :: "string option"
  value_desc :: "string option"

record getopt_state =
  optind :: nat
  optpos :: nat
  optarg :: "string option"
  opt :: "getopt_option option"
  flags :: "nat \<Rightarrow> 32 word"

type_synonym argv = "string option list"

abbreviation nul :: char where "nul \<equiv> CHR 0x00"

abbreviation dash :: char where "dash \<equiv> CHR ''-''"

abbreviation question :: int where "question \<equiv> 63"

definition c_char :: "string \<Rightarrow> nat \<Rightarrow> char res" where
  "c_char s k = (if k < length s then Inr (s ! k) else if k = length s then Inr nul else Inl Undefined_behaviour)"

definition arg_char :: "argv \<Rightarrow> nat \<Rightarrow> nat \<Rightarrow> char res" where
  "arg_char argv i k =
     (if i < length argv then (case argv ! i of None \<Rightarrow> Inl Undefined_behaviour | Some s \<Rightarrow> c_char s k)
      else Inl Undefined_behaviour)"

definition arg_tail :: "argv \<Rightarrow> nat \<Rightarrow> nat \<Rightarrow> string res" where
  "arg_tail argv i k = res_bind (arg_char argv i k) (\<lambda>_. Inr (drop k (the (argv ! i))))"

definition new_getopt :: "nat \<Rightarrow> bool \<Rightarrow> getopt_option list \<Rightarrow> (nat \<Rightarrow> 32 word) \<Rightarrow> getopt_state res" where
  "new_getopt argc argv_given opts fl =
     res_bind (gpcl_assert (argc \<noteq> 0)) (\<lambda>_.
     res_bind (gpcl_assert argv_given) (\<lambda>_.
     res_bind (gpcl_assert (opts \<noteq> [])) (\<lambda>_.
     Inr \<lparr>optind = 0, optpos = 0, optarg = None, opt = None, flags = fl\<rparr>)))"

text \<open>From the label \<open>handle_option\<close> on: the argument of the option and its flag.\<close>

definition take_argument :: "argv \<Rightarrow> getopt_option \<Rightarrow> getopt_state \<Rightarrow> getopt_state res" where
  "take_argument argv o1 st =
     res_bind (if option_type o1 = required then Inr True
               else if option_type o1 = optional \<and> optind st < length argv
               then res_bind (arg_char argv (optind st) (optpos st)) (\<lambda>c. Inr (c \<noteq> dash))
               else Inr False) (\<lambda>takes.
       if takes
       then res_bind (arg_tail argv (optind st) (optpos st)) (\<lambda>v.
              Inr (st\<lparr>optarg := Some v, optind := optind st + 1, optpos := 0\<rparr>))
       else Inr st)"

definition finish_option :: "getopt_option \<Rightarrow> (nat \<Rightarrow> 32 word) \<Rightarrow> int \<times> (nat \<Rightarrow> 32 word)" where
  "finish_option o1 fl =
     (case flag_ptr o1 of
        None \<Rightarrow> (sint (option_value o1), fl)
      | Some p \<Rightarrow>
          if option_type o1 = flag_set then (0, fl(p := option_value o1))
          else if option_type o1 = flag_and then (0, fl(p := fl p AND option_value o1))
          else if option_type o1 = flag_or then (0, fl(p := fl p OR option_value o1))
          else (question, fl))"

definition handle_option :: "argv \<Rightarrow> getopt_option \<Rightarrow> getopt_state \<Rightarrow> (int \<times> getopt_state) res" where
  "handle_option argv o1 st =
     (let st = st\<lparr>opt := Some o1\<rparr>;
          st = (if option_type o1 = no_arg then st\<lparr>optarg := None\<rparr> else st)
      in res_bind (take_argument argv o1 st) (\<lambda>st.
         case finish_option o1 (flags st) of (c, fl) \<Rightarrow> Inr (c, st\<lparr>flags := fl\<rparr>)))"

definition find_long :: "getopt_option list \<Rightarrow> string \<Rightarrow> getopt_option option" where
  "find_long opts arg = List.find (\<lambda>o1. name o1 = Some arg) opts"

definition find_short :: "getopt_option list \<Rightarrow> char \<Rightarrow> getopt_option option" where
  "find_short opts c = List.find (\<lambda>o1. c = name_short o1) opts"

definition next_long :: "argv \<Rightarrow> getopt_option list \<Rightarrow> getopt_state \<Rightarrow> (int \<times> getopt_state) res" where
  "next_long argv opts st =
     res_bind (arg_tail argv (optind st) 2) (\<lambda>text.
       let arg = takeWhile (\<lambda>c. c \<noteq> CHR ''='') text;
           pos = length arg
       in case find_long opts arg of
            None \<Rightarrow> Inr (question, st)
          | Some o1 \<Rightarrow>
              handle_option argv o1
                (if pos < length text then st\<lparr>optpos := 2 + pos + 1\<rparr> else st\<lparr>optind := optind st + 1, optpos := 0\<rparr>))"

definition next_short :: "argv \<Rightarrow> getopt_option list \<Rightarrow> getopt_state \<Rightarrow> (int \<times> getopt_state) res" where
  "next_short argv opts st =
     (let st = (if optpos st = 0 then st\<lparr>optpos := 1\<rparr> else st)
      in res_bind (arg_char argv (optind st) (optpos st)) (\<lambda>c.
         res_bind (arg_char argv (optind st) (optpos st + 1)) (\<lambda>c'.
         let st = (if c' = nul then st\<lparr>optind := optind st + 1, optpos := 0\<rparr> else st\<lparr>optpos := optpos st + 1\<rparr>)
         in case find_short opts c of
              None \<Rightarrow> Inr (question, st)
            | Some o1 \<Rightarrow> handle_option argv o1 st)))"

definition getopt_next :: "argv \<Rightarrow> getopt_option list \<Rightarrow> getopt_state \<Rightarrow> (int \<times> getopt_state) res" where
  "getopt_next argv opts st =
     (let st = st\<lparr>optarg := None, opt := None\<rparr>;
          st = (if optind st = 0 then st\<lparr>optind := 1\<rparr> else st)
      in if length argv \<le> optind st \<or> argv ! optind st = None then Inr (-1, st)
         else res_bind (arg_char argv (optind st) 0) (\<lambda>c0. if c0 \<noteq> dash then Inr (-1, st)
              else res_bind (arg_char argv (optind st) 1) (\<lambda>c1. if c1 = nul then Inr (-1, st)
              else if c1 = dash
              then res_bind (arg_char argv (optind st) 2) (\<lambda>c2.
                     if c2 = nul then Inr (-1, st\<lparr>optind := optind st + 1\<rparr>) else next_long argv opts st)
              else next_short argv opts st)))"

text \<open>The loop \<open>while ((c = getopt()) != -1)\<close>, with the codes and arguments the program sees.\<close>

partial_function (option) getopt_loop ::
  "argv \<Rightarrow> getopt_option list \<Rightarrow> getopt_state \<Rightarrow> (int \<times> string option) list
     \<Rightarrow> ((int \<times> string option) list \<times> getopt_state) res option" where
  "getopt_loop argv opts st seen =
     (case getopt_next argv opts st of
        Inl e \<Rightarrow> Some (Inl e)
      | Inr r \<Rightarrow> if fst r = -1 then Some (Inr (seen, snd r))
                else getopt_loop argv opts (snd r) (seen @ [(fst r, optarg (snd r))]))"

section \<open>The list of options in the help text\<close>

definition left_in :: "nat \<Rightarrow> string \<Rightarrow> string" where
  "left_in w s = s @ replicate (w - length s) (CHR '' '')"

definition show_argument :: "bool \<Rightarrow> getopt_option \<Rightarrow> string" where
  "show_argument equal_sign o1 =
     (let d = (case value_desc o1 of Some v \<Rightarrow> v | None \<Rightarrow> ''arg'')
      in if option_type o1 = optional then (if equal_sign then ''[='' else '' ['') @ d @ '']''
         else if option_type o1 = required then (if equal_sign then ''='' else '' '') @ d
         else [])"

definition show_option :: "bool \<Rightarrow> getopt_option \<Rightarrow> string" where
  "show_option equal_sign o1 =
     ''  '' @ (if name_short o1 \<noteq> nul then [dash, name_short o1] else []) @
     (case name o1 of None \<Rightarrow> [] | Some n \<Rightarrow> if name_short o1 \<noteq> nul then '', '' else ''    '') @
     left_in 20 ((case name o1 of None \<Rightarrow> [] | Some n \<Rightarrow> ''--'' @ n) @ show_argument equal_sign o1) @
     [CHR 0x09] @ (case desc o1 of None \<Rightarrow> [] | Some d \<Rightarrow> d) @ [CHR 0x0A]"

definition show_getopt :: "bool \<Rightarrow> getopt_option list \<Rightarrow> string" where
  "show_getopt equal_sign opts =
     ''Options:'' @ [CHR 0x0A] @
     concat (map (show_option equal_sign) (takeWhile (\<lambda>o1. name o1 \<noteq> None \<or> name_short o1 \<noteq> nul) opts))"

section \<open>Command lines\<close>

text \<open>
  The ways to write options: a long option alone, with its argument behind an equals sign or in the
  next word, and short options in one word, of which the last may have an argument in the same word
  or in the next.
\<close>

datatype item =
    Long getopt_option
  | Long_eq getopt_option string
  | Long_arg getopt_option string
  | Short "getopt_option list" getopt_option
  | Short_val "getopt_option list" getopt_option string
  | Short_arg "getopt_option list" getopt_option string

fun render :: "item \<Rightarrow> string list" where
  "render (Long o1) = [''--'' @ the (name o1)]"
| "render (Long_eq o1 v) = [''--'' @ the (name o1) @ ''='' @ v]"
| "render (Long_arg o1 v) = [''--'' @ the (name o1), v]"
| "render (Short os o1) = [dash # map name_short os @ [name_short o1]]"
| "render (Short_val os o1 v) = [dash # map name_short os @ name_short o1 # v]"
| "render (Short_arg os o1 v) = [dash # map name_short os @ [name_short o1], v]"

definition words :: "item list \<Rightarrow> argv" where
  "words its = map Some (concat (map render its))"

fun uses :: "item \<Rightarrow> (getopt_option \<times> string option) list" where
  "uses (Long o1) = [(o1, None)]"
| "uses (Long_eq o1 v) = [(o1, Some v)]"
| "uses (Long_arg o1 v) = [(o1, Some v)]"
| "uses (Short os o1) = map (\<lambda>o1. (o1, None)) os @ [(o1, None)]"
| "uses (Short_val os o1 v) = map (\<lambda>o1. (o1, None)) os @ [(o1, Some v)]"
| "uses (Short_arg os o1 v) = map (\<lambda>o1. (o1, None)) os @ [(o1, Some v)]"

definition plain :: "getopt_option \<Rightarrow> bool" where
  "plain o1 \<longleftrightarrow> option_type o1 \<noteq> required \<and> option_type o1 \<noteq> optional"

definition accepts :: "getopt_option \<Rightarrow> string \<Rightarrow> bool" where
  "accepts o1 v \<longleftrightarrow> option_type o1 = required \<or> option_type o1 = optional \<and> (v = [] \<or> hd v \<noteq> dash)"

text \<open>An optional argument may be left out in front of another option or at the end of the line.\<close>

definition bare :: "getopt_option \<Rightarrow> argv \<Rightarrow> bool" where
  "bare o1 after \<longleftrightarrow> plain o1 \<or>
     option_type o1 = optional \<and> (after = [] \<or> (case hd after of Some (c # w) \<Rightarrow> c = dash | _ \<Rightarrow> False))"

definition ends_loop :: "getopt_option \<Rightarrow> bool" where
  "ends_loop o1 \<longleftrightarrow> flag_ptr o1 = None \<and> option_value o1 = -1"

definition has_long :: "getopt_option list \<Rightarrow> getopt_option \<Rightarrow> bool" where
  "has_long opts o1 \<longleftrightarrow> \<not> ends_loop o1 \<and> (case name o1 of None \<Rightarrow> False
     | Some n \<Rightarrow> n \<noteq> [] \<and> hd n \<noteq> nul \<and> CHR ''='' \<notin> set n \<and> find_long opts n = Some o1)"

definition has_short :: "getopt_option list \<Rightarrow> getopt_option \<Rightarrow> bool" where
  "has_short opts o1 \<longleftrightarrow> \<not> ends_loop o1 \<and> name_short o1 \<noteq> nul \<and> name_short o1 \<noteq> dash \<and>
     find_short opts (name_short o1) = Some o1"

definition cluster_ok :: "getopt_option list \<Rightarrow> getopt_option list \<Rightarrow> bool" where
  "cluster_ok opts os \<longleftrightarrow> list_all (\<lambda>o1. has_short opts o1 \<and> plain o1) os"

fun item_ok :: "getopt_option list \<Rightarrow> item \<Rightarrow> argv \<Rightarrow> bool" where
  "item_ok opts (Long o1) after \<longleftrightarrow> has_long opts o1 \<and> bare o1 after"
| "item_ok opts (Long_eq o1 v) after \<longleftrightarrow> has_long opts o1 \<and> accepts o1 v"
| "item_ok opts (Long_arg o1 v) after \<longleftrightarrow> has_long opts o1 \<and> accepts o1 v"
| "item_ok opts (Short os o1) after \<longleftrightarrow> cluster_ok opts os \<and> has_short opts o1 \<and> bare o1 after"
| "item_ok opts (Short_val os o1 v) after \<longleftrightarrow> cluster_ok opts os \<and> has_short opts o1 \<and>
     accepts o1 v \<and> v \<noteq> [] \<and> hd v \<noteq> nul"
| "item_ok opts (Short_arg os o1 v) after \<longleftrightarrow> cluster_ok opts os \<and> has_short opts o1 \<and> accepts o1 v"

fun line_ok :: "getopt_option list \<Rightarrow> item list \<Rightarrow> argv \<Rightarrow> bool" where
  "line_ok opts [] rest \<longleftrightarrow> True"
| "line_ok opts (it # its) rest \<longleftrightarrow> item_ok opts it (words its @ rest) \<and> line_ok opts its rest"

text \<open>What a program must see of a list of options, with the flags as they change.\<close>

fun seen_of :: "(getopt_option \<times> string option) list \<Rightarrow> (nat \<Rightarrow> 32 word) \<Rightarrow> (int \<times> string option) list \<times> (nat \<Rightarrow> 32 word)" where
  "seen_of [] fl = ([], fl)"
| "seen_of ((o1, v) # us) fl =
     (case finish_option o1 fl of (c, fl1) \<Rightarrow> case seen_of us fl1 of (cs, fl2) \<Rightarrow> ((c, v) # cs, fl2))"

text \<open>
  The options end where a word is missing or null, does not start with a dash, is a single dash, or is
  \<open>--\<close>, which is not an operand itself.
\<close>

definition ends_options :: "argv \<Rightarrow> bool" where
  "ends_options rest \<longleftrightarrow> rest = [] \<or>
     (case hd rest of Some (c # w) \<Rightarrow> c \<noteq> dash \<or> w = [] \<or> w = [dash] | _ \<Rightarrow> True)"

definition operands :: "argv \<Rightarrow> argv" where
  "operands rest = (if rest \<noteq> [] \<and> hd rest = Some ''--'' then tl rest else rest)"

section \<open>One call\<close>

text \<open>The words a parser has left: \<open>pre\<close> are the words it has passed, the name of the program first.\<close>

definition at :: "argv \<Rightarrow> getopt_state \<Rightarrow> bool" where
  "at pre st \<longleftrightarrow> pre \<noteq> [] \<and> (optind st = length pre \<or> optind st = 0 \<and> length pre = 1)"

lemma arg_char_at [simp]: "arg_char (pre @ Some w # post) (length pre) k = c_char w k"
  by (simp add: arg_char_def)

lemma c_char_simps [simp]:
  "k < length s \<Longrightarrow> c_char s k = Inr (s ! k)"
  "c_char s (length s) = Inr nul"
  by (simp_all add: c_char_def)

lemma arg_tail_at [simp]: "k \<le> length w \<Longrightarrow> arg_tail (pre @ Some w # post) (length pre) k = Inr (drop k w)"
  by (cases "k = length w") (simp_all add: arg_tail_def)

lemma arg_tail_char:
  assumes "arg_tail argv i k = Inr v"
  shows "arg_char argv i k = Inr (case v of [] \<Rightarrow> nul | c # _ \<Rightarrow> c)"
  using assms
  by (auto simp: arg_tail_def arg_char_def c_char_def res_bind_Inr_iff Cons_nth_drop_Suc [symmetric]
      split: if_splits option.splits list.splits)

lemma arg_tail_bound: "arg_tail argv i k = Inr v \<Longrightarrow> i < length argv"
  by (auto simp: arg_tail_def arg_char_def split: if_splits)

lemma handle_bare:
  assumes "bare o1 (drop (optind st) argv)" "plain o1 \<or> optpos st = 0" "optarg st = None"
  shows "handle_option argv o1 st =
     Inr (fst (finish_option o1 (flags st)), st\<lparr>opt := Some o1, flags := snd (finish_option o1 (flags st))\<rparr>)"
proof -
  have *: "take_argument argv o1 (st\<lparr>opt := Some o1\<rparr>) = Inr (st\<lparr>opt := Some o1\<rparr>)"
  proof (cases "option_type o1 = optional \<and> optind st < length argv")
    case True
    then have "argv ! optind st \<noteq> None" "arg_char argv (optind st) 0 = Inr dash" "optpos st = 0"
      using assms by (auto simp: bare_def plain_def hd_drop_conv_nth arg_char_def split: option.splits list.splits)
    with True show ?thesis
      by (simp add: take_argument_def)
  next
    case False
    then show ?thesis
      using assms(1) by (auto simp: take_argument_def bare_def plain_def)
  qed
  have "st\<lparr>opt := Some o1, optarg := None\<rparr> = st\<lparr>opt := Some o1\<rparr>"
    using assms(3) by simp
  then show ?thesis
    using * by (simp add: handle_option_def Let_def split: prod.splits)
qed

lemma handle_argument:
  assumes "accepts o1 v" "arg_tail argv (optind st) (optpos st) = Inr v"
  shows "handle_option argv o1 st =
     Inr (fst (finish_option o1 (flags st)),
          st\<lparr>opt := Some o1, optarg := Some v, optind := optind st + 1, optpos := 0,
             flags := snd (finish_option o1 (flags st))\<rparr>)"
proof -
  have "option_type o1 \<noteq> no_arg" "option_type o1 = required \<or> option_type o1 = optional"
    "option_type o1 = optional \<Longrightarrow> (case v of [] \<Rightarrow> nul | c # _ \<Rightarrow> c) \<noteq> dash"
    using assms(1) by (auto simp: accepts_def split: list.splits)
  then show ?thesis
    using assms(2) arg_tail_char [OF assms(2)] arg_tail_bound [OF assms(2)]
    by (auto simp: handle_option_def take_argument_def Let_def split: prod.splits)
qed

definition fresh :: "argv \<Rightarrow> getopt_state \<Rightarrow> getopt_state" where
  "fresh pre st = st\<lparr>optarg := None, opt := None, optind := length pre\<rparr>"

lemma fresh_simps [simp]:
  "optind (fresh pre st) = length pre" "optpos (fresh pre st) = optpos st" "optarg (fresh pre st) = None"
  "flags (fresh pre st) = flags st"
  by (simp_all add: fresh_def)

lemma fresh_at:
  assumes "at pre st"
  shows "(let st1 = st\<lparr>optarg := None, opt := None\<rparr> in if optind st1 = 0 then st1\<lparr>optind := 1\<rparr> else st1) = fresh pre st"
proof -
  have "fresh pre st = st\<lparr>optarg := None, opt := None\<rparr>" if "optind st = length pre"
    using that unfolding fresh_def that [symmetric] by simp
  then show ?thesis
    using assms by (auto simp: at_def fresh_def)
qed

lemma getopt_next_at:
  assumes "at pre st"
  shows "getopt_next (pre @ Some w # post) opts st =
    res_bind (c_char w 0) (\<lambda>c0. if c0 \<noteq> dash then Inr (-1, fresh pre st)
      else res_bind (c_char w 1) (\<lambda>c1. if c1 = nul then Inr (-1, fresh pre st)
      else if c1 = dash
      then res_bind (c_char w 2) (\<lambda>c2.
             if c2 = nul then Inr (-1, (fresh pre st)\<lparr>optind := length pre + 1\<rparr>)
             else next_long (pre @ Some w # post) opts (fresh pre st))
      else next_short (pre @ Some w # post) opts (fresh pre st)))"
  unfolding getopt_next_def Let_def fresh_at [OF assms, unfolded Let_def] fresh_simps arg_char_at by simp

lemma next_is_long:
  assumes "at pre st" "c \<noteq> nul"
  shows "getopt_next (pre @ Some (dash # dash # c # w) # post) opts st =
    next_long (pre @ Some (dash # dash # c # w) # post) opts (fresh pre st)"
  using assms(2) by (simp add: getopt_next_at [OF assms(1)])

lemma next_is_short:
  assumes "at pre st" "c \<noteq> nul" "c \<noteq> dash"
  shows "getopt_next (pre @ Some (dash # c # w) # post) opts st =
    next_short (pre @ Some (dash # c # w) # post) opts (fresh pre st)"
  using assms(2,3) by (simp add: getopt_next_at [OF assms(1)])

lemma next_ends:
  assumes "at pre st" "ends_options rest"
  shows "\<exists>st'. getopt_next (pre @ rest) opts st = Inr (-1, st') \<and> flags st' = flags st \<and>
    drop (optind st') (pre @ rest) = operands rest"
proof (cases "rest = [] \<or> hd rest = None")
  case True
  then have "getopt_next (pre @ rest) opts st = Inr (-1, fresh pre st)"
    using fresh_at [OF assms(1)] unfolding getopt_next_def Let_def
    by (cases rest) (auto simp: nth_append)
  with True show ?thesis
    by (auto simp: operands_def)
next
  case False
  then obtain w post where "rest = Some w # post"
    by (cases rest) auto
  with assms(2) show ?thesis
    by (auto simp: getopt_next_at [OF assms(1)] ends_options_def operands_def c_char_def nth_Cons'
        split: list.splits)
qed

section \<open>The loop\<close>

lemma loop_step:
  assumes "getopt_next argv opts st = Inr (c, st')" "c \<noteq> -1"
  shows "getopt_loop argv opts st seen = getopt_loop argv opts st' (seen @ [(c, optarg st')])"
  using assms by (subst getopt_loop.simps) simp

lemma finish_not_end: "\<not> ends_loop o1 \<Longrightarrow> fst (finish_option o1 fl) \<noteq> -1"
  by (auto simp: ends_loop_def finish_option_def split: option.splits) (metis sint_n1 signed_word_eqI)

lemma seen_of_append:
  "seen_of (us @ vs) fl =
     (fst (seen_of us fl) @ fst (seen_of vs (snd (seen_of us fl))), snd (seen_of vs (snd (seen_of us fl))))"
  by (induction us fl rule: seen_of.induct) (simp_all split: prod.splits)

lemma seen_of_single [simp]: "seen_of [(o1, v)] fl = ([(fst (finish_option o1 fl), v)], snd (finish_option o1 fl))"
  by (simp split: prod.splits)

text \<open>
  A run of the loop over some uses of options, from one state of the parser to another, with what the
  program must have seen of them.
\<close>

definition passes :: "argv \<Rightarrow> getopt_option list \<Rightarrow> getopt_state \<Rightarrow> (getopt_option \<times> string option) list \<Rightarrow>
    getopt_state \<Rightarrow> bool" where
  "passes argv opts st us st' \<longleftrightarrow> flags st' = snd (seen_of us (flags st)) \<and>
     (\<forall>seen. getopt_loop argv opts st seen = getopt_loop argv opts st' (seen @ fst (seen_of us (flags st))))"

lemma passes_refl [simp]: "passes argv opts st [] st"
  by (simp add: passes_def)

lemma passes_trans:
  "passes argv opts st us st' \<Longrightarrow> passes argv opts st' vs st'' \<Longrightarrow> passes argv opts st (us @ vs) st''"
  by (simp add: passes_def seen_of_append)

lemma passes_call:
  assumes "getopt_next argv opts st = Inr (fst (finish_option o1 (flags st)), st')" "\<not> ends_loop o1"
    "flags st' = snd (finish_option o1 (flags st))" "optarg st' = v"
  shows "passes argv opts st [(o1, v)] st'"
  using assms loop_step [OF assms(1) finish_not_end [OF assms(2)]]
  by (simp add: passes_def del: seen_of.simps)

lemma at_next:
  assumes "at pre st" "optind st' = length pre + length ws"
  shows "at (pre @ ws) st'"
  using assms by (simp add: at_def)

subsection \<open>Long options\<close>

lemma takeWhile_name: "CHR ''='' \<notin> set n \<Longrightarrow> takeWhile (\<lambda>c. c \<noteq> CHR ''='') (n @ CHR ''='' # v) = n"
  by (induction n) auto

lemma takeWhile_whole: "CHR ''='' \<notin> set n \<Longrightarrow> takeWhile (\<lambda>c. c \<noteq> CHR ''='') n = n"
  by (induction n) auto

lemma next_long_word:
  assumes "at pre st" "has_long opts o1"
  shows "getopt_next (pre @ Some (''--'' @ the (name o1)) # post) opts st =
    handle_option (pre @ Some (''--'' @ the (name o1)) # post) o1
      ((fresh pre st)\<lparr>optind := length pre + 1, optpos := 0\<rparr>)"
proof -
  obtain c w where n: "name o1 = Some (c # w)" and c: "c \<noteq> nul" "CHR ''='' \<notin> set (c # w)"
    and f: "find_long opts (c # w) = Some o1"
    using assms(2) by (auto simp: has_long_def neq_Nil_conv split: option.splits)
  show ?thesis
    using takeWhile_whole [OF c(2)] f next_is_long [OF assms(1) c(1)] n
    by (simp add: next_long_def Let_def)
qed

lemma next_long_equals:
  assumes "at pre st" "has_long opts o1"
  shows "getopt_next (pre @ Some (''--'' @ the (name o1) @ ''='' @ v) # post) opts st =
    handle_option (pre @ Some (''--'' @ the (name o1) @ ''='' @ v) # post) o1
      ((fresh pre st)\<lparr>optpos := Suc (Suc (Suc (length (the (name o1)))))\<rparr>)"
proof -
  obtain c w where n: "name o1 = Some (c # w)" and c: "c \<noteq> nul" "CHR ''='' \<notin> set (c # w)"
    and f: "find_long opts (c # w) = Some o1"
    using assms(2) by (auto simp: has_long_def neq_Nil_conv split: option.splits)
  show ?thesis
    using takeWhile_name [OF c(2), of v] f next_is_long [OF assms(1) c(1)] n
    by (simp add: next_long_def Let_def)
qed

lemma has_long_code: "has_long opts o1 \<Longrightarrow> \<not> ends_loop o1"
  by (simp add: has_long_def)

lemma passes_long:
  assumes "at pre st" "has_long opts o1" "bare o1 post"
  shows "\<exists>st'. passes (pre @ Some (''--'' @ the (name o1)) # post) opts st [(o1, None)] st' \<and>
    optind st' = length pre + 1 \<and> optpos st' = 0"
proof -
  let ?st = "(fresh pre st)\<lparr>optind := length pre + 1, optpos := 0\<rparr>"
  let ?argv = "pre @ Some (''--'' @ the (name o1)) # post"
  have h: "getopt_next ?argv opts st = Inr (fst (finish_option o1 (flags st)),
      ?st\<lparr>opt := Some o1, flags := snd (finish_option o1 (flags st))\<rparr>)"
    unfolding next_long_word [OF assms(1,2)] using handle_bare [of o1 ?st ?argv] assms(3) by simp
  show ?thesis
    by (rule exI, rule conjI, rule passes_call [OF h has_long_code [OF assms(2)]]) simp_all
qed

lemma passes_long_equals:
  assumes "at pre st" "has_long opts o1" "accepts o1 v"
  shows "\<exists>st'. passes (pre @ Some (''--'' @ the (name o1) @ ''='' @ v) # post) opts st [(o1, Some v)] st' \<and>
    optind st' = length pre + 1 \<and> optpos st' = 0"
proof -
  let ?st = "(fresh pre st)\<lparr>optpos := Suc (Suc (Suc (length (the (name o1)))))\<rparr>"
  let ?argv = "pre @ Some (''--'' @ the (name o1) @ ''='' @ v) # post"
  have h: "getopt_next ?argv opts st = Inr (fst (finish_option o1 (flags st)),
      ?st\<lparr>opt := Some o1, optarg := Some v, optind := length pre + 1, optpos := 0,
        flags := snd (finish_option o1 (flags st))\<rparr>)"
    unfolding next_long_equals [OF assms(1,2)] using handle_argument [OF assms(3), of ?argv ?st] by simp
  show ?thesis
    by (rule exI, rule conjI, rule passes_call [OF h has_long_code [OF assms(2)]]) simp_all
qed

lemma passes_long_argument:
  assumes "at pre st" "has_long opts o1" "accepts o1 v"
  shows "\<exists>st'. passes (pre @ Some (''--'' @ the (name o1)) # Some v # post) opts st [(o1, Some v)] st' \<and>
    optind st' = length pre + 2 \<and> optpos st' = 0"
proof -
  let ?st = "(fresh pre st)\<lparr>optind := length pre + 1, optpos := 0\<rparr>"
  let ?argv = "pre @ Some (''--'' @ the (name o1)) # Some v # post"
  have "arg_tail ?argv (length pre + 1) 0 = Inr v"
    using arg_tail_at [of 0 v "pre @ [Some (''--'' @ the (name o1))]" post] by simp
  then have h: "getopt_next ?argv opts st = Inr (fst (finish_option o1 (flags st)),
      ?st\<lparr>opt := Some o1, optarg := Some v, optind := length pre + 1 + 1, optpos := 0,
        flags := snd (finish_option o1 (flags st))\<rparr>)"
    unfolding next_long_word [OF assms(1,2)] using handle_argument [OF assms(3), of ?argv ?st] by simp
  show ?thesis
    by (rule exI, rule conjI, rule passes_call [OF h has_long_code [OF assms(2)]]) simp_all
qed
subsection \<open>Short options\<close>

definition posn :: "getopt_state \<Rightarrow> nat" where
  "posn st = (if optpos st = 0 then 1 else optpos st)"

definition short_word :: "string \<Rightarrow> bool" where
  "short_word w \<longleftrightarrow> (\<exists>c cs. w = dash # c # cs \<and> c \<noteq> nul \<and> c \<noteq> dash)"

lemma short_word_options:
  assumes "cluster_ok opts os" "has_short opts o1"
  shows "short_word (dash # map name_short os @ name_short o1 # v)"
  using assms by (cases os) (auto simp: short_word_def cluster_ok_def has_short_def)

lemma next_short_char:
  assumes "at pre st" "short_word w" "posn st < length w" "find_short opts (w ! posn st) = Some o1"
  shows "getopt_next (pre @ Some w # post) opts st =
    handle_option (pre @ Some w # post) o1
      (if posn st + 1 = length w \<or> w ! (posn st + 1) = nul
       then (fresh pre st)\<lparr>optind := length pre + 1, optpos := 0\<rparr>
       else (fresh pre st)\<lparr>optpos := posn st + 1\<rparr>)"
proof -
  have p: "(if optpos (fresh pre st) = 0 then (fresh pre st)\<lparr>optpos := 1\<rparr> else fresh pre st) =
      (fresh pre st)\<lparr>optpos := posn st\<rparr>"
    by (simp add: posn_def fresh_def)
  obtain c cs where w: "w = dash # c # cs" "c \<noteq> nul" "c \<noteq> dash"
    using assms(2) by (auto simp: short_word_def)
  show ?thesis
    using assms(3,4) next_is_short [OF assms(1) w(2,3), of cs post opts]
    unfolding w(1) [symmetric] next_short_def Let_def p by (auto simp: c_char_def)
qed

lemma has_short_code: "has_short opts o1 \<Longrightarrow> \<not> ends_loop o1"
  by (simp add: has_short_def)

lemma bare_plain: "plain o1 \<Longrightarrow> bare o1 after"
  by (simp add: bare_def)

lemma passes_cluster:
  assumes "cluster_ok opts (ds @ os)" "has_short opts o1"
    and "at pre st" "posn st = length ds + 1"
  shows "\<exists>st'. passes (pre @ Some (dash # map name_short (ds @ os) @ name_short o1 # v) # post) opts st
      (map (\<lambda>o1. (o1, None)) os) st' \<and> at pre st' \<and> posn st' = length (ds @ os) + 1"
  using assms(1,3,4)
proof (induction os arbitrary: ds st)
  case Nil
  then show ?case
    by (intro exI [of _ st]) simp
next
  case (Cons o2 os)
  let ?w = "dash # map name_short (ds @ o2 # os) @ name_short o1 # v"
  let ?argv = "pre @ Some ?w # post"
  let ?st = "(fresh pre st)\<lparr>optpos := posn st + 1\<rparr>"
  let ?st' = "?st\<lparr>opt := Some o2, flags := snd (finish_option o2 (flags st))\<rparr>"
  have o2: "has_short opts o2" "plain o2"
    using Cons.prems(1) by (simp_all add: cluster_ok_def)
  have n1: "?w ! posn st = name_short o2"
    using Cons.prems(3) by (simp add: nth_append)
  have n2: "?w ! (posn st + 1) \<noteq> nul" "posn st + 1 < length ?w"
    using Cons.prems(1,3) assms(2) by (cases os; simp add: nth_append cluster_ok_def has_short_def)+
  have "getopt_next ?argv opts st = handle_option ?argv o2 ?st"
    using next_short_char [OF Cons.prems(2) short_word_options [OF Cons.prems(1) assms(2)], of v opts o2 post]
      n1 n2 o2(1) by (simp add: has_short_def)
  also have "\<dots> = Inr (fst (finish_option o2 (flags st)), ?st')"
    using handle_bare [of o2 ?st ?argv] bare_plain [OF o2(2)] o2(2) by simp
  finally have "passes ?argv opts st [(o2, None)] ?st'"
    by (rule passes_call [OF _ has_short_code [OF o2(1)]]) simp_all
  moreover have "at pre ?st'" "posn ?st' = length (ds @ [o2]) + 1"
    using Cons.prems(2,3) by (simp_all add: at_def posn_def)
  then obtain st'' where "passes ?argv opts ?st' (map (\<lambda>o1. (o1, None)) os) st''" "at pre st''"
      "posn st'' = length (ds @ o2 # os) + 1"
    using Cons.IH [of "ds @ [o2]" ?st'] Cons.prems(1) by auto
  ultimately show ?case
    using passes_trans by fastforce
qed

lemma cluster_end:
  assumes "cluster_ok opts os" "has_short opts o1" "at pre st" "optpos st = 0"
  obtains st' where
    "passes (pre @ Some (dash # map name_short os @ name_short o1 # v) # post) opts st (map (\<lambda>o1. (o1, None)) os) st'"
    "at pre st'"
    "getopt_next (pre @ Some (dash # map name_short os @ name_short o1 # v) # post) opts st' =
      handle_option (pre @ Some (dash # map name_short os @ name_short o1 # v) # post) o1
        (if v = [] \<or> hd v = nul then (fresh pre st')\<lparr>optind := length pre + 1, optpos := 0\<rparr>
         else (fresh pre st')\<lparr>optpos := length os + 2\<rparr>)"
proof -
  let ?w = "dash # map name_short os @ name_short o1 # v"
  have "posn st = length [] + 1"
    using assms(4) by (simp add: posn_def)
  then obtain st' where st': "passes (pre @ Some ?w # post) opts st (map (\<lambda>o1. (o1, None)) os) st'" "at pre st'"
      "posn st' = length os + 1"
    using passes_cluster [of opts "[]" os o1 pre st v post] assms(1-3) by auto
  have n: "?w ! posn st' = name_short o1" "posn st' < length ?w"
    "posn st' + 1 = length ?w \<longleftrightarrow> v = []" "v \<noteq> [] \<Longrightarrow> ?w ! (posn st' + 1) = hd v"
    using st'(3) by (auto simp: nth_append hd_conv_nth)
  have "find_short opts (?w ! posn st') = Some o1"
    using assms(2) n(1) by (simp add: has_short_def)
  from next_short_char [OF st'(2) short_word_options [OF assms(1,2)] n(2) this, of post] n(3,4) st'(3)
  have "getopt_next (pre @ Some ?w # post) opts st' = handle_option (pre @ Some ?w # post) o1
        (if v = [] \<or> hd v = nul then (fresh pre st')\<lparr>optind := length pre + 1, optpos := 0\<rparr>
         else (fresh pre st')\<lparr>optpos := length os + 2\<rparr>)"
    by (cases "v = []") simp_all
  then show thesis
    by (rule that [OF st'(1,2)])
qed
lemma passes_then_call:
  assumes "passes argv opts st us st1"
    and "getopt_next argv opts st1 = Inr (fst (finish_option o1 (flags st1)), st')"
    and "\<not> ends_loop o1" "flags st' = snd (finish_option o1 (flags st1))" "optarg st' = v"
  shows "passes argv opts st (us @ [(o1, v)]) st'"
  using passes_trans [OF assms(1) passes_call [OF assms(2-5)]] .

lemma passes_short:
  assumes "cluster_ok opts os" "has_short opts o1" "at pre st" "optpos st = 0" "bare o1 post"
  shows "\<exists>st'. passes (pre @ Some (dash # map name_short os @ [name_short o1]) # post) opts st
      (map (\<lambda>o1. (o1, None)) os @ [(o1, None)]) st' \<and> optind st' = length pre + 1 \<and> optpos st' = 0"
proof -
  let ?argv = "pre @ Some (dash # map name_short os @ [name_short o1]) # post"
  obtain st1 where st1: "passes ?argv opts st (map (\<lambda>o1. (o1, None)) os) st1"
    "getopt_next ?argv opts st1 = handle_option ?argv o1 ((fresh pre st1)\<lparr>optind := length pre + 1, optpos := 0\<rparr>)"
    using cluster_end [OF assms(1-4), of "[]" post] by auto
  have h: "getopt_next ?argv opts st1 = Inr (fst (finish_option o1 (flags st1)),
      (fresh pre st1)\<lparr>optind := length pre + 1, optpos := 0, opt := Some o1, flags := snd (finish_option o1 (flags st1))\<rparr>)"
    using st1(2) handle_bare [of o1 "(fresh pre st1)\<lparr>optind := length pre + 1, optpos := 0\<rparr>" ?argv] assms(5)
    by simp
  show ?thesis
    by (rule exI, rule conjI, rule passes_then_call [OF st1(1) h has_short_code [OF assms(2)]]) simp_all
qed

lemma passes_short_value:
  assumes "cluster_ok opts os" "has_short opts o1" "at pre st" "optpos st = 0"
    and "accepts o1 v" "v \<noteq> []" "hd v \<noteq> nul"
  shows "\<exists>st'. passes (pre @ Some (dash # map name_short os @ name_short o1 # v) # post) opts st
      (map (\<lambda>o1. (o1, None)) os @ [(o1, Some v)]) st' \<and> optind st' = length pre + 1 \<and> optpos st' = 0"
proof -
  let ?argv = "pre @ Some (dash # map name_short os @ name_short o1 # v) # post"
  obtain st1 where st1: "passes ?argv opts st (map (\<lambda>o1. (o1, None)) os) st1"
    "getopt_next ?argv opts st1 = handle_option ?argv o1 ((fresh pre st1)\<lparr>optpos := length os + 2\<rparr>)"
    using cluster_end [OF assms(1-4), of v post] assms(6,7) by auto
  have h: "getopt_next ?argv opts st1 = Inr (fst (finish_option o1 (flags st1)),
      (fresh pre st1)\<lparr>opt := Some o1, optarg := Some v, optind := length pre + 1, optpos := 0,
        flags := snd (finish_option o1 (flags st1))\<rparr>)"
    using st1(2) handle_argument [OF assms(5), of ?argv "(fresh pre st1)\<lparr>optpos := length os + 2\<rparr>"] by simp
  show ?thesis
    by (rule exI, rule conjI, rule passes_then_call [OF st1(1) h has_short_code [OF assms(2)]]) simp_all
qed

lemma passes_short_argument:
  assumes "cluster_ok opts os" "has_short opts o1" "at pre st" "optpos st = 0" "accepts o1 v"
  shows "\<exists>st'. passes (pre @ Some (dash # map name_short os @ [name_short o1]) # Some v # post) opts st
      (map (\<lambda>o1. (o1, None)) os @ [(o1, Some v)]) st' \<and> optind st' = length pre + 2 \<and> optpos st' = 0"
proof -
  let ?argv = "pre @ Some (dash # map name_short os @ [name_short o1]) # Some v # post"
  obtain st1 where st1: "passes ?argv opts st (map (\<lambda>o1. (o1, None)) os) st1"
    "getopt_next ?argv opts st1 = handle_option ?argv o1 ((fresh pre st1)\<lparr>optind := length pre + 1, optpos := 0\<rparr>)"
    using cluster_end [OF assms(1-4), of "[]" "Some v # post"] by auto
  have "arg_tail ?argv (length pre + 1) 0 = Inr v"
    using arg_tail_at [of 0 v "pre @ [Some (dash # map name_short os @ [name_short o1])]" post] by simp
  then have h: "getopt_next ?argv opts st1 = Inr (fst (finish_option o1 (flags st1)),
      (fresh pre st1)\<lparr>opt := Some o1, optarg := Some v, optind := length pre + 1 + 1, optpos := 0,
        flags := snd (finish_option o1 (flags st1))\<rparr>)"
    using st1(2) handle_argument [OF assms(5), of ?argv "(fresh pre st1)\<lparr>optind := length pre + 1, optpos := 0\<rparr>"]
    by simp
  show ?thesis
    by (rule exI, rule conjI, rule passes_then_call [OF st1(1) h has_short_code [OF assms(2)]]) simp_all
qed

subsection \<open>Whole command lines\<close>

lemma passes_item:
  assumes "at pre st" "optpos st = 0" "item_ok opts it post"
  shows "\<exists>st'. passes (pre @ map Some (render it) @ post) opts st (uses it) st' \<and>
    optind st' = length pre + length (render it) \<and> optpos st' = 0"
  using assms passes_long [OF assms(1)] passes_long_equals [OF assms(1)] passes_long_argument [OF assms(1)]
    passes_short [OF _ _ assms(1,2)] passes_short_value [OF _ _ assms(1,2)] passes_short_argument [OF _ _ assms(1,2)]
  by (cases it) simp_all

lemma passes_items:
  assumes "at pre st" "optpos st = 0" "line_ok opts its rest"
  shows "\<exists>st'. passes (pre @ words its @ rest) opts st (concat (map uses its)) st' \<and> at (pre @ words its) st' \<and>
    optpos st' = 0"
  using assms
proof (induction its arbitrary: pre st)
  case Nil
  then show ?case
    by (intro exI [of _ st]) (simp add: words_def)
next
  case (Cons it its)
  obtain st1 where st1: "passes (pre @ map Some (render it) @ words its @ rest) opts st (uses it) st1"
    "optind st1 = length pre + length (render it)" "optpos st1 = 0"
    using passes_item [OF Cons.prems(1,2), of opts it "words its @ rest"] Cons.prems(3) by auto
  have "at (pre @ map Some (render it)) st1"
    using Cons.prems(1) st1(2) by (intro at_next) simp_all
  from Cons.IH [OF this st1(3)] Cons.prems(3) obtain st2 where
    "passes (pre @ map Some (render it) @ words its @ rest) opts st1 (concat (map uses its)) st2"
    "at (pre @ map Some (render it) @ words its) st2" "optpos st2 = 0"
    by auto
  with passes_trans [OF st1(1)] show ?case
    by (intro exI [of _ st2]) (simp add: words_def)
qed

text \<open>
  C19. Every command line that is written by the rules gives the program exactly the options it was
  written from: for a program name, any options in long or short form, alone or with their arguments
  in any of the accepted forms, and operands behind them, the loop of calls of \<open>getopt\<close> ends, returns
  the code and argument of every option in order, leaves the flags changed in that order, and stops
  in front of the operands.
\<close>

theorem getopt_roundtrip:
  assumes "line_ok opts its rest" "ends_options rest" "opts \<noteq> []"
  shows "\<exists>st0 st. new_getopt (length (prog # words its @ rest)) True opts fl = Inr st0 \<and>
    getopt_loop (prog # words its @ rest) opts st0 [] = Some (Inr (fst (seen_of (concat (map uses its)) fl), st)) \<and>
    flags st = snd (seen_of (concat (map uses its)) fl) \<and>
    drop (optind st) (prog # words its @ rest) = operands rest"
proof -
  let ?st0 = "\<lparr>optind = 0, optpos = 0, optarg = None, opt = None, flags = fl\<rparr> :: getopt_state"
  have n: "new_getopt (length (prog # words its @ rest)) True opts fl = Inr ?st0"
    using assms(3) by (simp add: new_getopt_def)
  have "at [prog] ?st0" "optpos ?st0 = 0"
    by (simp_all add: at_def)
  from passes_items [OF this assms(1)] obtain st1 where
    st1: "passes (prog # words its @ rest) opts ?st0 (concat (map uses its)) st1" "at (prog # words its) st1"
    by auto
  from next_ends [OF st1(2) assms(2), of opts] obtain st where
    "getopt_next (prog # words its @ rest) opts st1 = Inr (-1, st)" "flags st = flags st1"
    "drop (optind st) (prog # words its @ rest) = operands rest"
    by auto
  with st1(1) n show ?thesis
    by (intro exI [of _ ?st0] exI [of _ st]) (simp add: passes_def getopt_loop.simps [of _ _ st1])
qed

abbreviation verbose :: getopt_option where
  "verbose \<equiv> \<lparr>name = Some ''verbose'', name_short = CHR ''v'', option_type = optional, flag_ptr = None,
     option_value = 118, desc = None, value_desc = Some ''0-5''\<rparr>"

abbreviation quiet :: getopt_option where
  "quiet \<equiv> \<lparr>name = Some ''quiet'', name_short = CHR ''q'', option_type = flag_or, flag_ptr = Some 0,
     option_value = 4, desc = None, value_desc = None\<rparr>"

theorem getopt_roundtrip_witness:
  "\<exists>st0 st. new_getopt (length [''prog'', ''-qv3'', ''--verbose'', ''--quiet'', ''--'', ''file'']) True [verbose, quiet] (\<lambda>_. 1) = Inr st0 \<and>
    getopt_loop (map Some [''prog'', ''-qv3'', ''--verbose'', ''--quiet'', ''--'', ''file'']) [verbose, quiet] st0 [] =
      Some (Inr ([(0, None), (118, Some ''3''), (118, None), (0, None)], st)) \<and>
    flags st = (\<lambda>_. 1)(0 := 5) \<and> drop (optind st) (map Some [''prog'', ''-qv3'', ''--verbose'', ''--quiet'', ''--'', ''file'']) = [Some ''file'']"
  using getopt_roundtrip [of "[verbose, quiet]" "[Short_val [quiet] verbose ''3'', Long verbose, Long quiet]"
      "[Some ''--'', Some ''file'']" "Some ''prog''" "\<lambda>_. 1"]
  by (simp add: words_def cluster_ok_def has_short_def has_long_def ends_loop_def find_short_def find_long_def
      accepts_def plain_def bare_def ends_options_def operands_def finish_option_def)

section \<open>Words that stop the parser\<close>

text \<open>
  A long option that is not known, and a long option that takes no argument but is given one behind an
  equals sign, leave the parser at the same word.
\<close>

definition stuck_word :: "getopt_option list \<Rightarrow> string \<Rightarrow> bool" where
  "stuck_word opts w \<longleftrightarrow> take 2 w = ''--'' \<and> 2 < length w \<and> w ! 2 \<noteq> nul \<and>
     (case find_long opts (takeWhile (\<lambda>c. c \<noteq> CHR ''='') (drop 2 w)) of
        None \<Rightarrow> True
      | Some o1 \<Rightarrow> CHR ''='' \<in> set (drop 2 w) \<and> plain o1 \<and> \<not> ends_loop o1)"

lemma takeWhile_shorter: "x \<in> set xs \<Longrightarrow> length (takeWhile (\<lambda>c. c \<noteq> x) xs) < length xs"
  by (induction xs) auto

lemma stuck_word_next:
  assumes "at pre st" "stuck_word opts w"
  shows "\<exists>c st'. getopt_next (pre @ Some w # post) opts st = Inr (c, st') \<and> c \<noteq> -1 \<and> at pre st'"
proof -
  obtain c cs where w: "w = dash # dash # c # cs" and c: "c \<noteq> nul"
    using assms(2) by (cases w rule: list.exhaust; cases "tl w"; cases "tl (tl w)") (auto simp: stuck_word_def)
  have at: "at pre ((fresh pre st)\<lparr>optpos := p, opt := o2, flags := fl\<rparr>)" "at pre (fresh pre st)" for p o2 fl
    using assms(1) by (simp_all add: at_def)
  show ?thesis
  proof (cases "find_long opts (takeWhile (\<lambda>c. c \<noteq> CHR ''='') (c # cs))")
    case None
    then show ?thesis
      using next_is_long [OF assms(1) c, of cs post opts] at(2) unfolding w
      by (simp add: next_long_def Let_def del: takeWhile.simps)
  next
    case (Some o1)
    let ?st = "(fresh pre st)\<lparr>optpos := 2 + length (takeWhile (\<lambda>c. c \<noteq> CHR ''='') (c # cs)) + 1\<rparr>"
    have o1: "CHR ''='' \<in> set (c # cs)" "plain o1" "\<not> ends_loop o1"
      using assms(2) Some unfolding w stuck_word_def by (simp_all del: takeWhile.simps)
    have "getopt_next (pre @ Some w # post) opts st = handle_option (pre @ Some w # post) o1 ?st"
      using next_is_long [OF assms(1) c, of cs post opts] Some takeWhile_shorter [OF o1(1)] unfolding w
      by (simp add: next_long_def Let_def del: takeWhile.simps)
    then show ?thesis
      using handle_bare [of o1 ?st, OF bare_plain [OF o1(2)]] o1(2) finish_not_end [OF o1(3)] at(1)
      by simp
  qed
qed

lemma stuck_word_loops:
  "getopt_loop argv opts st seen = Some r \<Longrightarrow> stuck_word opts w \<longrightarrow> argv = pre @ Some w # post \<longrightarrow> at pre st \<longrightarrow> False"
proof (induction rule: getopt_loop.raw_induct
    [rotated, where P = "\<lambda>argv opts st seen r. stuck_word opts w \<longrightarrow> argv = pre @ Some w # post \<longrightarrow> at pre st \<longrightarrow> False", consumes 1])
  case (1 loop argv opts st seen r)
  show ?case
  proof (intro impI)
    assume *: "stuck_word opts w" "argv = pre @ Some w # post" "at pre st"
    from stuck_word_next [OF *(3,1), of post] *(2) obtain c st' where
      "getopt_next argv opts st = Inr (c, st')" "c \<noteq> -1" "at pre st'"
      by auto
    with 1(2) * 1(1) [of argv opts st' "seen @ [(c, optarg st')]" r] show False
      by simp
  qed
qed

text \<open>
  C35. An unknown long option, or a value given to an option without argument, is reported but never
  passed: behind any well-formed options, the loop that calls \<open>getopt\<close> until it returns -1 does not
  end.
\<close>

theorem getopt_stuck:
  assumes "line_ok opts its (Some w # post)" "stuck_word opts w"
    and "new_getopt (length (prog # words its @ Some w # post)) True opts fl = Inr st0"
  shows "getopt_loop (prog # words its @ Some w # post) opts st0 [] = None"
proof -
  have st0: "at [prog] st0" "optpos st0 = 0"
    using assms(3) by (auto simp: new_getopt_def at_def res_bind_Inr_iff)
  from passes_items [OF st0 assms(1)] obtain st1 where
    st1: "passes (prog # words its @ Some w # post) opts st0 (concat (map uses its)) st1" "at (prog # words its) st1"
    by auto
  have "getopt_loop (prog # words its @ Some w # post) opts st1 seen = None" for seen
    using stuck_word_loops [of "prog # words its @ Some w # post" opts st1 seen _ w "prog # words its" post] assms(2) st1(2)
    by (cases "getopt_loop (prog # words its @ Some w # post) opts st1 seen") auto
  with st1(1) show ?thesis
    by (simp add: passes_def)
qed

theorem getopt_stuck_witness:
  "getopt_loop (map Some [''prog'', ''-v2'', ''--quiet=1'']) [verbose, quiet]
     \<lparr>optind = 0, optpos = 0, optarg = None, opt = None, flags = (\<lambda>_. 0)\<rparr> [] = None"
  using getopt_stuck [of "[verbose, quiet]" "[Short_val [] verbose ''2'']" "''--quiet=1''" "[]" "Some ''prog''" "\<lambda>_. 0"]
  by (simp add: words_def cluster_ok_def has_short_def ends_loop_def find_short_def find_long_def accepts_def
      plain_def stuck_word_def new_getopt_def)

end
