(* ===== verification/Futex_Mutex.thy ===== *)
theory Futex_Mutex
  imports Threads
begin

text \<open>
  The mutex built on Linux futexes (\<open>detail/futex_mutex.hpp\<close>, \<open>detail/impl/futex_mutex.ipp\<close>): every
  atomic operation on the futex word and every system call is one step of one of any number of
  threads, and the steps interleave in any order. The kernel is outside of the code: \<open>FUTEX_WAIT\<close>
  compares the word and puts the thread to sleep in one step, and which sleepers \<open>FUTEX_WAKE\<close> wakes is
  the parameter \<open>kw\<close>.
\<close>

section \<open>Code and steps\<close>

definition futex_locked :: "32 word" where
  "futex_locked = 0"

definition futex_unlocked :: "32 word" where
  "futex_unlocked = 1"

definition spin_count :: nat where
  "spin_count = 10"

text \<open>
  Where a thread is: outside of the mutex, in the spinning loop of \<open>lock\<close> with its counter, at the
  exchange and at the system call of the second loop, asleep in the kernel, between \<open>lock\<close> and \<open>unlock\<close>, at
  the exchange and at the system call of \<open>unlock\<close>, and in \<open>try_lock\<close>.
\<close>

datatype place = Outside | Spin nat | Try | Wait | Asleep | Held | Release | Wake | Try_lock

text \<open>\<open>__atomic_compare_exchange_n\<close>: the outcome and the word afterwards.\<close>

definition exchange_word :: "32 word \<Rightarrow> 32 word \<Rightarrow> 32 word \<Rightarrow> bool \<times> 32 word" where
  "exchange_word w old new = (if w = old then (True, new) else (False, w))"

fun lock_exec :: "place \<Rightarrow> 32 word \<Rightarrow> (place \<times> 32 word) res" where
  "lock_exec (Spin i) w =
     (case exchange_word w futex_unlocked futex_locked of
        (True, w') \<Rightarrow> Inr (Held, w')
      | (False, w') \<Rightarrow> Inr (if i + 1 < spin_count then Spin (i + 1) else Try, w'))"
| "lock_exec Try w =
     (case exchange_word w futex_unlocked futex_locked of
        (True, w') \<Rightarrow> Inr (Held, w')
      | (False, w') \<Rightarrow> Inr (Wait, w'))"
| "lock_exec Wait w = Inr (if w = 0 then Asleep else Try, w)"
| "lock_exec p w = Inr (p, w)"

fun unlock_exec :: "place \<Rightarrow> 32 word \<Rightarrow> (place \<times> 32 word) res" where
  "unlock_exec Release w =
     (case exchange_word w futex_locked futex_unlocked of
        (True, w') \<Rightarrow> Inr (Wake, w')
      | (False, w') \<Rightarrow> Inl Unreachable_executed)"
| "unlock_exec p w = Inr (p, w)"

fun try_lock_exec :: "place \<Rightarrow> 32 word \<Rightarrow> (place \<times> 32 word) res" where
  "try_lock_exec Try_lock w =
     (case exchange_word w futex_unlocked futex_locked of
        (True, w') \<Rightarrow> Inr (Held, w')
      | (False, w') \<Rightarrow> Inr (Outside, w'))"
| "try_lock_exec p w = Inr (p, w)"

definition mutex_exec :: "place \<Rightarrow> 32 word \<Rightarrow> (place \<times> 32 word) res" where
  "mutex_exec p w =
     (if p = Release then unlock_exec p w else if p = Try_lock then try_lock_exec p w else lock_exec p w)"

definition running :: "place \<Rightarrow> bool" where
  "running p \<longleftrightarrow> p = Try \<or> p = Wait \<or> p = Release \<or> p = Try_lock \<or> (\<exists>i. p = Spin i)"

type_synonym mutex_state = "place list \<times> 32 word"

definition new_mutex :: "nat \<Rightarrow> mutex_state" where
  "new_mutex n = (replicate n Outside, futex_unlocked)"

definition sleepers :: "place list \<Rightarrow> nat set" where
  "sleepers ps = {i. i < length ps \<and> ps ! i = Asleep}"

definition rouse :: "nat set \<Rightarrow> place list \<Rightarrow> place list" where
  "rouse S ps = map (\<lambda>i. if i \<in> S then Try else ps ! i) [0..<length ps]"

text \<open>
  What \<open>FUTEX_WAKE\<close> promises: it wakes some of the sleepers, at most as many as it was asked to, and at
  least one if there are any.
\<close>

type_synonym kernel = "nat set \<Rightarrow> nat \<Rightarrow> nat set \<Rightarrow> bool"

definition wake_contract :: "kernel \<Rightarrow> bool" where
  "wake_contract kw \<longleftrightarrow> (\<forall>Q n. finite Q \<longrightarrow> (\<exists>S. kw Q n S) \<and>
     (\<forall>S. kw Q n S \<longrightarrow> S \<subseteq> Q \<and> card S \<le> n \<and> (Q \<noteq> {} \<and> 0 < n \<longrightarrow> S \<noteq> {})))"

text \<open>
  The steps that carry calls on: the atomic operations and system calls, and the call of \<open>unlock\<close> by a
  thread that holds the mutex.
\<close>

inductive work :: "kernel \<Rightarrow> mutex_state \<Rightarrow> mutex_state \<Rightarrow> bool" for kw where
  run: "i < length ps \<Longrightarrow> running (ps ! i) \<Longrightarrow> mutex_exec (ps ! i) w = Inr (p', w') \<Longrightarrow>
    work kw (ps, w) (ps[i := p'], w')"
| wake: "i < length ps \<Longrightarrow> ps ! i = Wake \<Longrightarrow> kw (sleepers ps) 1 S \<Longrightarrow>
    work kw (ps, w) ((rouse S ps)[i := Outside], w)"
| unlock: "i < length ps \<Longrightarrow> ps ! i = Held \<Longrightarrow> work kw (ps, w) (ps[i := Release], w)"

text \<open>
  All steps: a thread may also call \<open>lock\<close> or \<open>try_lock\<close>, a sleeper may be woken for no reason, and a
  signal may interrupt the system call of a sleeper, which then fails with \<open>EINTR\<close>.
\<close>

inductive mutex_step :: "kernel \<Rightarrow> mutex_state \<Rightarrow> mutex_state res \<Rightarrow> bool" for kw where
  work: "work kw s s' \<Longrightarrow> mutex_step kw s (Inr s')"
| call_lock: "i < length ps \<Longrightarrow> ps ! i = Outside \<Longrightarrow> mutex_step kw (ps, w) (Inr (ps[i := Spin 0], w))"
| call_try_lock: "i < length ps \<Longrightarrow> ps ! i = Outside \<Longrightarrow> mutex_step kw (ps, w) (Inr (ps[i := Try_lock], w))"
| spurious: "i < length ps \<Longrightarrow> ps ! i = Asleep \<Longrightarrow> mutex_step kw (ps, w) (Inr (ps[i := Try], w))"
| fault: "i < length ps \<Longrightarrow> running (ps ! i) \<Longrightarrow> mutex_exec (ps ! i) w = Inl e \<Longrightarrow> mutex_step kw (ps, w) (Inl e)"
| interrupt: "i < length ps \<Longrightarrow> ps ! i = Asleep \<Longrightarrow> mutex_step kw (ps, w) (Inl Unreachable_executed)"

inductive mutex_reachable :: "kernel \<Rightarrow> mutex_state \<Rightarrow> bool" for kw where
  init: "mutex_reachable kw (new_mutex n)"
| step: "mutex_reachable kw s \<Longrightarrow> mutex_step kw s (Inr s') \<Longrightarrow> mutex_reachable kw s'"

inductive_cases workE [consumes 1, case_names run wake unlock]: "work kw (ps, w) s'"
inductive_cases mutex_step_Inr [consumes 1, case_names work call_lock call_try_lock spurious]:
  "mutex_step kw (ps, w) (Inr s')"

section \<open>The invariant\<close>

definition owning :: "place \<Rightarrow> nat" where
  "owning p = (if p = Held \<or> p = Release then 1 else 0)"

definition asleep :: "place \<Rightarrow> nat" where
  "asleep p = (if p = Asleep then 1 else 0)"

text \<open>A thread that will try the exchange again, or that is going to wake another one.\<close>

definition alert :: "place \<Rightarrow> nat" where
  "alert p = (if p = Try \<or> p = Wait \<or> p = Wake \<or> (\<exists>i. p = Spin i) then 1 else 0)"

definition mutex_inv :: "mutex_state \<Rightarrow> bool" where
  "mutex_inv s \<longleftrightarrow> (case s of (ps, w) \<Rightarrow>
     (w = futex_locked \<and> tally owning ps = 1 \<or> w = futex_unlocked \<and> tally owning ps = 0) \<and>
     (w = futex_unlocked \<and> 0 < tally asleep ps \<longrightarrow> 0 < tally alert ps))"

lemma words_differ [simp]: "futex_locked \<noteq> futex_unlocked" "futex_unlocked \<noteq> futex_locked" "futex_unlocked \<noteq> 0"
  by (simp_all add: futex_locked_def futex_unlocked_def)

lemmas place_simps = owning_def asleep_def alert_def exchange_word_def running_def mutex_exec_def

lemma run_inv:
  assumes "mutex_inv (ps, w)" "i < length ps" "running (ps ! i)" "mutex_exec (ps ! i) w = Inr (p', w')"
  shows "mutex_inv (ps[i := p'], w')"
proof -
  have h: "tally owning (ps[i := p']) + owning (ps ! i) = tally owning ps + owning p'"
    and s: "tally asleep (ps[i := p']) + asleep (ps ! i) = tally asleep ps + asleep p'"
    and a: "tally alert (ps[i := p']) + alert (ps ! i) = tally alert ps + alert p'"
    using tally_update [OF assms(2)] by blast+
  show ?thesis
  proof (cases "ps ! i")
    case (Spin k)
    then show ?thesis
      using assms h s a by (auto simp: mutex_inv_def place_simps split: if_splits)
  qed (use assms h s a in \<open>auto simp: mutex_inv_def place_simps futex_locked_def [symmetric] split: if_splits\<close>)
qed
lemma tally_as_sum: "tally f ts = (\<Sum>i \<in> {0..<length ts}. f (ts ! i))"
  by (simp add: tally_def sum_list_sum_nth)

lemma tally_rouse:
  assumes "S \<subseteq> sleepers ps"
  shows "tally f (rouse S ps) + card S * f Asleep = tally f ps + card S * f Try"
proof -
  let ?A = "{0..<length ps}"
  have S: "S \<subseteq> ?A" "\<And>i. i \<in> S \<Longrightarrow> ps ! i = Asleep"
    using assms by (auto simp: sleepers_def)
  have "tally f (rouse S ps) = (\<Sum>i \<in> ?A. if i \<in> S then f Try else f (ps ! i))"
    unfolding tally_as_sum rouse_def by (intro sum.cong) auto
  also have "\<dots> = (\<Sum>i \<in> ?A - S. f (ps ! i)) + card S * f Try"
    using S(1) by (subst sum.subset_diff [OF S(1)]) (simp_all add: finite_subset)
  finally have 1: "tally f (rouse S ps) = (\<Sum>i \<in> ?A - S. f (ps ! i)) + card S * f Try" .
  have "tally f ps = (\<Sum>i \<in> ?A - S. f (ps ! i)) + card S * f Asleep"
    unfolding tally_as_sum using S by (subst sum.subset_diff [OF S(1)]) (simp_all add: finite_subset)
  with 1 show ?thesis
    by simp
qed

lemma length_rouse [simp]: "length (rouse S ps) = length ps"
  by (simp add: rouse_def)

lemma rouse_nth [simp]: "i < length ps \<Longrightarrow> rouse S ps ! i = (if i \<in> S then Try else ps ! i)"
  by (simp add: rouse_def)

lemma finite_sleepers [simp]: "finite (sleepers ps)"
  by (simp add: sleepers_def)

lemma sleepers_empty_iff: "sleepers ps = {} \<longleftrightarrow> tally asleep ps = 0"
  by (auto simp: sleepers_def tally_zero_iff all_set_conv_all_nth asleep_def)

lemma wake_contractD:
  assumes "wake_contract kw" "kw (sleepers ps) n S"
  shows "S \<subseteq> sleepers ps" "card S \<le> n" "sleepers ps \<noteq> {} \<Longrightarrow> 0 < n \<Longrightarrow> 0 < card S"
proof -
  have *: "S \<subseteq> sleepers ps \<and> card S \<le> n \<and> (sleepers ps \<noteq> {} \<and> 0 < n \<longrightarrow> S \<noteq> {})"
    using spec [OF spec [OF assms(1) [unfolded wake_contract_def]], of "sleepers ps" n] assms(2) by simp
  then show "S \<subseteq> sleepers ps" "card S \<le> n"
    by simp_all
  show "0 < card S" if "sleepers ps \<noteq> {}" "0 < n"
    using * that finite_subset [of S "sleepers ps"] by (simp add: card_gt_0_iff)
qed

text \<open>What waking does to a sum over the threads.\<close>

lemma tally_wake:
  assumes "wake_contract kw" "kw (sleepers ps) 1 S" "i < length ps" "ps ! i = Wake"
  shows "tally f ((rouse S ps)[i := Outside]) + f Wake + card S * f Asleep = tally f ps + f Outside + card S * f Try"
proof -
  have "i \<notin> S"
    using wake_contractD(1) [OF assms(1,2)] assms(4) by (auto simp: sleepers_def)
  then show ?thesis
    using tally_update [of i "rouse S ps" f Outside] tally_rouse [OF wake_contractD(1) [OF assms(1,2)], of f] assms(3,4)
    by simp
qed

lemma wake_inv:
  assumes "mutex_inv (ps, w)" "wake_contract kw" "kw (sleepers ps) 1 S" "i < length ps" "ps ! i = Wake"
  shows "mutex_inv ((rouse S ps)[i := Outside], w)"
proof -
  note t = tally_wake [OF assms(2-5)]
  have "tally owning ((rouse S ps)[i := Outside]) = tally owning ps"
    using t [of owning] by (simp add: owning_def)
  moreover have "0 < tally alert ((rouse S ps)[i := Outside])" if "0 < tally asleep ((rouse S ps)[i := Outside])"
  proof -
    have "0 < tally asleep ps"
      using t [of asleep] that by (simp add: asleep_def)
    then have "0 < card S"
      using wake_contractD(3) [OF assms(2,3)] sleepers_empty_iff [of ps] by simp
    then show ?thesis
      using t [of alert] tally_le [OF assms(4), of alert] assms(5) by (simp add: alert_def)
  qed
  ultimately show ?thesis
    using assms(1) by (auto simp: mutex_inv_def)
qed

lemma move_inv:
  assumes "mutex_inv (ps, w)" "i < length ps" "owning p = owning (ps ! i)" "asleep p \<le> asleep (ps ! i)"
    "alert p \<ge> alert (ps ! i)"
  shows "mutex_inv (ps[i := p], w)"
  using assms tally_update [OF assms(2), of owning p] tally_update [OF assms(2), of asleep p]
    tally_update [OF assms(2), of alert p]
  by (auto simp: mutex_inv_def)

lemma work_inv:
  assumes "work kw s s'" "wake_contract kw" "mutex_inv s"
  shows "mutex_inv s'"
  using assms
proof cases
  case (run i ps w p' w')
  then show ?thesis using run_inv assms(3) by simp
next
  case (wake i ps S w)
  then show ?thesis using wake_inv assms(2,3) by simp
next
  case (unlock i ps w)
  then show ?thesis using move_inv [of ps w i Release] assms(3) by (simp add: owning_def asleep_def alert_def)
qed

lemma mutex_step_inv:
  assumes "mutex_step kw s (Inr s')" "wake_contract kw" "mutex_inv s"
  shows "mutex_inv s'"
  using assms
  by cases (auto simp: work_inv owning_def asleep_def alert_def intro!: move_inv)

lemma mutex_reachable_inv:
  assumes "mutex_reachable kw s" "wake_contract kw"
  shows "mutex_inv s"
  using assms
proof (induction rule: mutex_reachable.induct)
  case (init n)
  then show ?case
    by (auto simp: mutex_inv_def new_mutex_def tally_zero_iff tally_positive owning_def asleep_def)
next
  case (step s s')
  then show ?case using mutex_step_inv by blast
qed

section \<open>Mutual exclusion\<close>

text \<open>The specification: a mutex is held by at most one thread, and changes hands through nobody.\<close>

inductive hand_over :: "nat option \<Rightarrow> nat option \<Rightarrow> bool" where
  keep: "hand_over x x"
| acquire: "hand_over None (Some i)"
| give_up: "hand_over (Some i) None"

definition mutex_holder :: "place list \<Rightarrow> nat option" where
  "mutex_holder ps = List.find (\<lambda>i. ps ! i = Held \<or> ps ! i = Release) [0..<length ps]"
definition owns :: "place list \<Rightarrow> nat \<Rightarrow> bool" where
  "owns ps i \<longleftrightarrow> i < length ps \<and> (ps ! i = Held \<or> ps ! i = Release)"

lemma owns_owning: "owns ps i \<longleftrightarrow> i < length ps \<and> 0 < owning (ps ! i)"
  by (simp add: owns_def owning_def)

lemma owns_unique:
  assumes "mutex_inv (ps, w)" "owns ps i" "owns ps j"
  shows "i = j"
  using assms tally_one [of owning ps i j] by (auto simp: mutex_inv_def owns_owning)

lemma locked_iff_owned: "mutex_inv (ps, w) \<Longrightarrow> w = futex_locked \<longleftrightarrow> (\<exists>i. owns ps i)"
  using tally_positive [of owning ps] by (auto simp: mutex_inv_def owns_owning)

lemma mutex_holder_iff:
  assumes "mutex_inv (ps, w)"
  shows "mutex_holder ps = Some i \<longleftrightarrow> owns ps i" "mutex_holder ps = None \<longleftrightarrow> (\<forall>i. \<not> owns ps i)"
proof -
  have n: "mutex_holder ps = None \<longleftrightarrow> (\<forall>i. \<not> owns ps i)"
    by (auto simp: mutex_holder_def owns_def find_None_iff)
  have "owns ps j" if "mutex_holder ps = Some j" for j
    using that by (auto simp: mutex_holder_def owns_def find_Some_iff)
  with n show "mutex_holder ps = Some i \<longleftrightarrow> owns ps i"
    using owns_unique [OF assms] by (metis option.exhaust)
  show "mutex_holder ps = None \<longleftrightarrow> (\<forall>i. \<not> owns ps i)" by (rule n)
qed

lemma hand_overI:
  assumes "mutex_inv (ps, w)" "mutex_inv (ps', w')" "\<And>j. j \<noteq> i \<Longrightarrow> owns ps' j \<longleftrightarrow> owns ps j"
  shows "hand_over (mutex_holder ps) (mutex_holder ps')"
proof (cases "mutex_holder ps"; cases "mutex_holder ps'")
  fix a b
  assume ab: "mutex_holder ps = Some a" "mutex_holder ps' = Some b"
  then have "owns ps a" "owns ps' b"
    using mutex_holder_iff assms(1,2) by blast+
  then have "a = b"
    using assms(3) owns_unique [OF assms(1)] owns_unique [OF assms(2)] by metis
  with ab show ?thesis
    by (simp add: hand_over.keep)
qed (auto intro: hand_over.intros)

lemma work_owner:
  assumes "work kw s s'" "wake_contract kw"
  shows "\<exists>i. \<forall>j. j \<noteq> i \<longrightarrow> owns (fst s') j = owns (fst s) j"
  using assms(1)
proof cases
  case (wake i ps S w)
  then have "owns ((rouse S ps)[i := Outside]) j = owns ps j" if "j \<noteq> i" for j
    using wake_contractD(1) [OF assms(2), of ps 1 S] that by (auto simp: owns_def sleepers_def split: if_splits)
  with wake show ?thesis by (intro exI [of _ i]) simp
qed (auto simp: owns_def nth_list_update intro!: exI)

lemma mutex_step_owner:
  assumes "mutex_step kw s (Inr s')" "wake_contract kw"
  shows "\<exists>i. \<forall>j. j \<noteq> i \<longrightarrow> owns (fst s') j = owns (fst s) j"
  using assms(1)
proof cases
  case work
  then show ?thesis using work_owner assms(2) by blast
qed (auto simp: owns_def nth_list_update intro!: exI)

lemma exec_no_fault:
  assumes "mutex_inv (ps, w)" "i < length ps" "running (ps ! i)"
  shows "mutex_exec (ps ! i) w \<noteq> Inl e"
proof (cases "ps ! i = Release")
  case True
  then have "w = futex_locked"
    using locked_iff_owned [OF assms(1)] assms(2) by (auto simp: owns_def)
  with True show ?thesis
    by (simp add: mutex_exec_def exchange_word_def)
next
  case False
  with assms(3) show ?thesis
    by (auto simp: mutex_exec_def running_def exchange_word_def)
qed

text \<open>
  C14. Mutual exclusion of the futex mutex, for any number of threads and every schedule: at most one
  thread is between \<open>lock\<close> (or a successful \<open>try_lock\<close>) and the end of \<open>unlock\<close>, the word says whether there
  is one, a step hands the mutex from one thread to nobody or from nobody to one thread, and no step
  fails except that of a sleeper interrupted by a signal.
\<close>

theorem futex_mutex_exclusive:
  assumes "wake_contract kw" "mutex_reachable kw (ps, w)"
  shows "(\<forall>i j. owns ps i \<and> owns ps j \<longrightarrow> i = j) \<and> (w = futex_locked \<longleftrightarrow> (\<exists>i. owns ps i)) \<and>
    (\<forall>s'. mutex_step kw (ps, w) (Inr s') \<longrightarrow> hand_over (mutex_holder ps) (mutex_holder (fst s'))) \<and>
    (\<forall>e. mutex_step kw (ps, w) (Inl e) \<longrightarrow> sleepers ps \<noteq> {})"
proof (intro conjI allI impI)
  note inv = mutex_reachable_inv [OF assms(2,1)]
  show "i = j" if "owns ps i \<and> owns ps j" for i j
    using owns_unique [OF inv] that by blast
  show "w = futex_locked \<longleftrightarrow> (\<exists>i. owns ps i)"
    by (rule locked_iff_owned [OF inv])
  show "hand_over (mutex_holder ps) (mutex_holder (fst s'))" if "mutex_step kw (ps, w) (Inr s')" for s'
    using mutex_step_owner [OF that assms(1)] mutex_step_inv [OF that assms(1) inv] hand_overI [OF inv]
    by (cases s') auto
  show "sleepers ps \<noteq> {}" if "mutex_step kw (ps, w) (Inl e)" for e
    using that exec_no_fault [OF inv] by cases (auto simp: sleepers_def)
qed

text \<open>A kernel that wakes the sleepers with the smallest numbers, and a run of two threads.\<close>

definition wake_first :: kernel where
  "wake_first Q n S \<longleftrightarrow> S = set (take n (sorted_list_of_set Q))"

lemma wake_first_contract: "wake_contract wake_first"
proof -
  have "card (set (take n (sorted_list_of_set Q))) \<le> n" for n and Q :: "nat set"
    using card_length [of "take n (sorted_list_of_set Q)"] by simp
  then show ?thesis
    by (auto simp: wake_contract_def wake_first_def dest: in_set_takeD)
qed
theorem futex_mutex_exclusive_witness:
  "wake_contract wake_first \<and> mutex_reachable wake_first ([Held, Outside], futex_locked) \<and>
   mutex_step wake_first ([Held, Outside], futex_locked) (Inr ([Release, Outside], futex_locked)) \<and>
   hand_over (mutex_holder [Held, Outside]) (mutex_holder [Release, Outside])"
proof -
  have "mutex_reachable wake_first ([Outside, Outside], futex_unlocked)"
    using mutex_reachable.init [of wake_first 2] by (simp add: new_mutex_def numeral_2_eq_2)
  from mutex_reachable.step [OF this mutex_step.call_lock [of 0]]
  have "mutex_reachable wake_first ([Spin 0, Outside], futex_unlocked)"
    by simp
  from mutex_reachable.step [OF this mutex_step.work [OF work.run [of 0 _ _ Held futex_locked]]]
  have r: "mutex_reachable wake_first ([Held, Outside], futex_locked)"
    by (simp add: running_def mutex_exec_def exchange_word_def)
  have "mutex_step wake_first ([Held, Outside], futex_locked) (Inr ([Release, Outside], futex_locked))"
    using mutex_step.work [OF work.unlock [of 0 "[Held, Outside]" wake_first futex_locked]] by simp
  with r futex_mutex_exclusive [OF wake_first_contract r] show ?thesis
    using wake_first_contract by fastforce
qed

section \<open>No lost wake-up\<close>

text \<open>
  Calls that have been started come to an end: the first component counts how often the word can still
  change, the second how far each thread can get until it does.
\<close>

definition turns :: "place \<Rightarrow> nat" where
  "turns p = (case p of Outside \<Rightarrow> 0 | Wake \<Rightarrow> 0 | Held \<Rightarrow> 1 | Release \<Rightarrow> 1 | _ \<Rightarrow> 2)"

definition rank :: "32 word \<Rightarrow> place \<Rightarrow> nat" where
  "rank w p = (case p of
      Spin i \<Rightarrow> (spin_count - i) + 3
    | Try \<Rightarrow> if w = futex_unlocked then 1 else 2
    | Wait \<Rightarrow> if w = futex_unlocked then 2 else 1
    | Held \<Rightarrow> 1 | Wake \<Rightarrow> 4 | _ \<Rightarrow> 0)"

definition progress :: "(mutex_state \<times> mutex_state) set" where
  "progress = measures [\<lambda>(ps, w). tally turns ps, \<lambda>(ps, w). tally (rank w) ps]"

lemma run_progress:
  assumes "mutex_inv (ps, w)" "i < length ps" "running (ps ! i)" "mutex_exec (ps ! i) w = Inr (p', w')"
  shows "((ps[i := p'], w'), (ps, w)) \<in> progress"
proof -
  have t: "tally turns (ps[i := p']) + turns (ps ! i) = tally turns ps + turns p'"
    and r: "tally (rank w) (ps[i := p']) + rank w (ps ! i) = tally (rank w) ps + rank w p'"
    using tally_update [OF assms(2)] by blast+
  have "turns p' < turns (ps ! i) \<or> turns p' = turns (ps ! i) \<and> w' = w \<and> rank w p' < rank w (ps ! i)"
    using assms(1,3,4)
    by (cases "ps ! i") (auto simp: mutex_inv_def running_def mutex_exec_def exchange_word_def turns_def rank_def
        futex_locked_def [symmetric] split: if_splits)
  with t r show ?thesis
    by (auto simp: progress_def)
qed

lemma wake_progress:
  assumes "wake_contract kw" "kw (sleepers ps) 1 S" "i < length ps" "ps ! i = Wake"
  shows "(((rouse S ps)[i := Outside], w), (ps, w)) \<in> progress"
  using tally_wake [OF assms, of turns] tally_wake [OF assms, of "rank w"] wake_contractD(2) [OF assms(1,2)]
  by (auto simp: progress_def turns_def rank_def split: if_splits)

lemma work_progress:
  assumes "work kw s s'" "wake_contract kw" "mutex_inv s"
  shows "(s', s) \<in> progress"
  using assms(1)
proof cases
  case (run i ps w p' w')
  then show ?thesis using run_progress assms(3) by simp
next
  case (wake i ps S w)
  then show ?thesis using wake_progress [OF assms(2)] by simp
next
  case (unlock i ps w)
  then show ?thesis
    using tally_update [of i ps turns Release] tally_update [of i ps "rank w" Release]
    by (simp add: progress_def turns_def rank_def)
qed

lemma idle_or_asleep:
  assumes "\<nexists>s'. work kw (ps, w) s'" "wake_contract kw" "mutex_inv (ps, w)" "i < length ps"
  shows "ps ! i = Outside \<or> ps ! i = Asleep"
proof -
  have "\<not> running (ps ! i)"
  proof
    assume r: "running (ps ! i)"
    then obtain p' w' where "mutex_exec (ps ! i) w = Inr (p', w')"
      using exec_no_fault [OF assms(3,4) r] by (cases "mutex_exec (ps ! i) w") auto
    with work.run [OF assms(4) r] assms(1) show False by blast
  qed
  moreover have "ps ! i \<noteq> Wake"
    using work.wake [OF assms(4), of kw] assms(1) spec [OF spec [OF assms(2) [unfolded wake_contract_def]], of "sleepers ps" 1]
    by fastforce
  moreover have "ps ! i \<noteq> Held"
    using work.unlock [OF assms(4)] assms(1) by blast
  ultimately show ?thesis
    by (cases "ps ! i") (auto simp: running_def)
qed

text \<open>
  C13. No wake-up is lost and no call hangs: if threads make no new calls, holders unlock and no signal
  arrives, then every schedule comes to an end after finitely many steps, and when no step is possible
  any more, every thread has left the mutex and it is unlocked.
\<close>

theorem futex_mutex_drains:
  assumes "wake_contract kw"
  shows "wf {(s', s). mutex_reachable kw s \<and> work kw s s'} \<and>
    (\<forall>ps w. mutex_reachable kw (ps, w) \<and> (\<nexists>s'. work kw (ps, w) s') \<longrightarrow>
       ps = replicate (length ps) Outside \<and> w = futex_unlocked)"
proof (intro conjI allI impI)
  have "{(s', s). mutex_reachable kw s \<and> work kw s s'} \<subseteq> progress"
    using work_progress [OF _ assms mutex_reachable_inv [OF _ assms]] by auto
  then show "wf {(s', s). mutex_reachable kw s \<and> work kw s s'}"
    by (rule wf_subset [rotated]) (simp add: progress_def)
next
  fix ps w
  assume s: "mutex_reachable kw (ps, w) \<and> (\<nexists>s'. work kw (ps, w) s')"
  then have inv: "mutex_inv (ps, w)"
    using mutex_reachable_inv assms by blast
  have p: "ps ! i = Outside \<or> ps ! i = Asleep" if "i < length ps" for i
    using idle_or_asleep [OF _ assms inv that] s by blast
  have "tally owning ps = 0" "tally alert ps = 0"
    by (auto simp: tally_zero_iff all_set_conv_all_nth owning_def alert_def dest: p)
  with inv have u: "w = futex_unlocked" "tally asleep ps = 0"
    by (auto simp: mutex_inv_def)
  then have "ps ! i = Outside" if "i < length ps" for i
    using p [OF that] that by (auto simp: tally_zero_iff all_set_conv_all_nth asleep_def)
  then show "ps = replicate (length ps) Outside" "w = futex_unlocked"
    using u(1) by (auto intro: nth_equalityI)
qed

theorem futex_mutex_drains_witness:
  "wf {(s', s). mutex_reachable wake_first s \<and> work wake_first s s'}"
  using futex_mutex_drains [OF wake_first_contract] by simp

end
