(* ===== verification/Unique_Lock.thy ===== *)
theory Unique_Lock
  imports Futex_Mutex
begin

text \<open>
  Scoped ownership of mutexes (\<open>unique_lock.hpp\<close>, \<open>lock.hpp\<close>, \<open>scoped_lock.hpp\<close>) over any mutex type that
  offers \<open>lock\<close>, \<open>try_lock\<close> and \<open>unlock\<close>. The locale \<open>lockable\<close> states what the code relies on; \<open>null_mutex\<close>
  and the futex mutex provide it. Mutexes are numbered, \<open>M\<close> gives their states, and the functions here
  describe one thread that runs alone; a blocking \<open>lock\<close> that waits forever is \<open>None\<close>.
\<close>

section \<open>Mutex types\<close>

record 's lockable_ops =
  op_lock :: "'s \<Rightarrow> 's option"
  op_try_lock :: "'s \<Rightarrow> bool \<times> 's"
  op_unlock :: "'s \<Rightarrow> 's res"

definition null_mutex_lock :: "bool \<Rightarrow> bool" where
  "null_mutex_lock locked = True"

definition null_mutex_unlock :: "bool \<Rightarrow> bool" where
  "null_mutex_unlock locked = False"

definition null_mutex_try_lock :: "bool \<Rightarrow> bool \<times> bool" where
  "null_mutex_try_lock locked = (let old_value = locked; locked = True in (\<not> old_value, locked))"

definition null_mutex :: "bool lockable_ops" where
  "null_mutex = \<lparr>op_lock = (\<lambda>s. Some (null_mutex_lock s)), op_try_lock = null_mutex_try_lock,
     op_unlock = (\<lambda>s. Inr (null_mutex_unlock s))\<rparr>"

text \<open>The futex mutex used by one thread: the first exchange decides, and nobody is there to be woken.\<close>

definition futex_mutex :: "32 word lockable_ops" where
  "futex_mutex = \<lparr>
     op_lock = (\<lambda>w. case lock_exec (Spin 0) w of Inr (Held, w') \<Rightarrow> Some w' | _ \<Rightarrow> None),
     op_try_lock = (\<lambda>w. case try_lock_exec Try_lock w of Inr (p, w') \<Rightarrow> (p = Held, w') | Inl e \<Rightarrow> (False, w)),
     op_unlock = (\<lambda>w. res_bind (unlock_exec Release w) (\<lambda>(p, w'). Inr w'))\<rparr>"

section \<open>\<open>unique_lock\<close>\<close>

record unique_lock =
  mtx :: "nat option"
  owns_lock :: bool

type_synonym 's mutexes = "nat \<Rightarrow> 's"

definition deref_mutex :: "unique_lock \<Rightarrow> nat res" where
  "deref_mutex u = (case mtx u of None \<Rightarrow> Inl Undefined_behaviour | Some m \<Rightarrow> Inr m)"

definition ul_defer :: "nat \<Rightarrow> unique_lock" where
  "ul_defer m = \<lparr>mtx = Some m, owns_lock = False\<rparr>"

definition ul_adopt :: "nat \<Rightarrow> unique_lock" where
  "ul_adopt m = \<lparr>mtx = Some m, owns_lock = True\<rparr>"

definition ul_lock :: "'s lockable_ops \<Rightarrow> unique_lock \<times> 's mutexes \<Rightarrow> (unique_lock \<times> 's mutexes) res option" where
  "ul_lock L st = (case st of (u, M) \<Rightarrow>
     run_bind (Some (gpcl_assert (\<not> owns_lock u))) (\<lambda>_. run_bind (Some (deref_mutex u)) (\<lambda>m.
       case op_lock L (M m) of None \<Rightarrow> None | Some s \<Rightarrow> Some (Inr (u\<lparr>owns_lock := True\<rparr>, M(m := s))))))"

definition ul_try_lock :: "'s lockable_ops \<Rightarrow> unique_lock \<times> 's mutexes \<Rightarrow> (bool \<times> unique_lock \<times> 's mutexes) res" where
  "ul_try_lock L st = (case st of (u, M) \<Rightarrow>
     res_bind (gpcl_assert (\<not> owns_lock u)) (\<lambda>_. res_bind (deref_mutex u) (\<lambda>m.
       case op_try_lock L (M m) of (b, s) \<Rightarrow> Inr (b, u\<lparr>owns_lock := b\<rparr>, M(m := s)))))"

definition ul_unlock :: "'s lockable_ops \<Rightarrow> unique_lock \<times> 's mutexes \<Rightarrow> (unique_lock \<times> 's mutexes) res" where
  "ul_unlock L st = (case st of (u, M) \<Rightarrow>
     res_bind (gpcl_assert (owns_lock u)) (\<lambda>_. res_bind (deref_mutex u) (\<lambda>m.
       res_bind (op_unlock L (M m)) (\<lambda>s. Inr (u\<lparr>owns_lock := False\<rparr>, M(m := s))))))"

definition ul_release :: "unique_lock \<Rightarrow> unique_lock res" where
  "ul_release u = res_bind (gpcl_assert (owns_lock u)) (\<lambda>_. res_bind (gpcl_assert (mtx u \<noteq> None)) (\<lambda>_.
     Inr \<lparr>mtx = None, owns_lock = False\<rparr>))"

definition ul_swap :: "unique_lock \<times> unique_lock \<Rightarrow> unique_lock \<times> unique_lock" where
  "ul_swap p = (case p of (x, y) \<Rightarrow>
     (x\<lparr>mtx := mtx y, owns_lock := owns_lock y\<rparr>, y\<lparr>mtx := mtx x, owns_lock := owns_lock x\<rparr>))"

definition ul_destroy :: "'s lockable_ops \<Rightarrow> unique_lock \<times> 's mutexes \<Rightarrow> 's mutexes res" where
  "ul_destroy L st = (case st of (u, M) \<Rightarrow>
     if owns_lock u then res_bind (deref_mutex u) (\<lambda>m. res_bind (op_unlock L (M m)) (\<lambda>s. Inr (M(m := s)))) else Inr M)"

definition ul_new :: "'s lockable_ops \<Rightarrow> nat \<Rightarrow> 's mutexes \<Rightarrow> (unique_lock \<times> 's mutexes) res option" where
  "ul_new L m M = ul_lock L (\<lparr>mtx = Some m, owns_lock = False\<rparr>, M)"

definition ul_try_to_lock :: "'s lockable_ops \<Rightarrow> nat \<Rightarrow> 's mutexes \<Rightarrow> (unique_lock \<times> 's mutexes) res" where
  "ul_try_to_lock L m M = res_bind (ul_try_lock L (\<lparr>mtx = Some m, owns_lock = False\<rparr>, M)) (\<lambda>(b, st). Inr st)"

section \<open>Several mutexes\<close>

text \<open>There is no overload of \<open>try_lock_impl\<close> without mutexes.\<close>

fun try_lock_impl :: "'s lockable_ops \<Rightarrow> int \<Rightarrow> nat list \<Rightarrow> 's mutexes \<Rightarrow> (int \<times> 's mutexes) res" where
  "try_lock_impl L index [] M = Inl Undefined_behaviour"
| "try_lock_impl L index [m1] M =
     (case op_try_lock L (M m1) of (b, s) \<Rightarrow> Inr (if b then -1 else index, M(m1 := s)))"
| "try_lock_impl L index (m1 # m2 # ms) M =
     res_bind (ul_try_to_lock L m1 M) (\<lambda>(lock1, M).
       if owns_lock lock1
       then res_bind (try_lock_impl L (index + 1) (m2 # ms) M) (\<lambda>(index, M).
              if index = -1
              then res_bind (ul_release lock1) (\<lambda>lock1. res_bind (ul_destroy L (lock1, M)) (\<lambda>M. Inr (index, M)))
              else res_bind (ul_destroy L (lock1, M)) (\<lambda>M. Inr (index, M)))
       else res_bind (ul_destroy L (lock1, M)) (\<lambda>M. Inr (index, M)))"

definition attempt_lock_two :: "'s lockable_ops \<Rightarrow> nat \<Rightarrow> nat \<Rightarrow> 's mutexes \<Rightarrow> (bool \<times> 's mutexes) res option" where
  "attempt_lock_two L m1 m2 M =
     run_bind (ul_new L m1 M) (\<lambda>(lock1, M).
       case op_try_lock L (M m2) of (b, s) \<Rightarrow>
         if b
         then run_bind (Some (ul_release lock1)) (\<lambda>lock1.
                run_bind (Some (ul_destroy L (lock1, M(m2 := s)))) (\<lambda>M. Some (Inr (True, M))))
         else run_bind (Some (ul_destroy L (lock1, M(m2 := s)))) (\<lambda>M. Some (Inr (False, M))))"

lemma run_bind_mono [partial_function_mono]:
  assumes "mono_option B" "\<And>y. mono_option (\<lambda>f. C y f)"
  shows "mono_option (\<lambda>f. run_bind (B f) (\<lambda>y. C y f))"
proof (rule monotoneI, goal_cases)
  case (1 f g)
  have "option_ord (B f) (B g)" "\<forall>y. option_ord (C y f) (C y g)"
    using assms 1 by (auto dest: monotoneD)
  then show ?case
    unfolding flat_ord_def by (elim disjE) (simp_all add: run_bind_def split: option.split sum.split)
qed

partial_function (option) lock_impl :: "'s lockable_ops \<Rightarrow> nat \<Rightarrow> nat \<Rightarrow> 's mutexes \<Rightarrow> 's mutexes res option" where
  "lock_impl L m1 m2 M =
     run_bind (attempt_lock_two L m1 m2 M) (\<lambda>(b, M).
       if b then Some (Inr M)
       else run_bind (attempt_lock_two L m2 m1 M) (\<lambda>(b, M).
              if b then Some (Inr M) else lock_impl L m1 m2 M))"

fun unlock_all :: "'s lockable_ops \<Rightarrow> nat list \<Rightarrow> 's mutexes \<Rightarrow> 's mutexes res" where
  "unlock_all L [] M = Inr M"
| "unlock_all L (m # ms) M = res_bind (op_unlock L (M m)) (\<lambda>s. unlock_all L ms (M(m := s)))"

section \<open>The contract of a mutex type\<close>

locale lockable =
  fixes L :: "'s lockable_ops" and free :: "'s \<Rightarrow> bool"
  assumes take: "free s \<Longrightarrow> fst (op_try_lock L s) \<and> \<not> free (snd (op_try_lock L s)) \<and>
      op_lock L s = Some (snd (op_try_lock L s))"
    and give_back: "free s \<Longrightarrow> op_unlock L (snd (op_try_lock L s)) = Inr s"
    and taken: "\<not> free s \<Longrightarrow> op_try_lock L s = (False, s)"
begin

definition held :: "'s \<Rightarrow> 's" where
  "held s = snd (op_try_lock L s)"

definition hold_all :: "nat list \<Rightarrow> 's mutexes \<Rightarrow> 's mutexes" where
  "hold_all ms M = (\<lambda>m. if m \<in> set ms then held (M m) else M m)"

lemma try_free: "free s \<Longrightarrow> op_try_lock L s = (True, held s)"
  using take [of s] by (cases "op_try_lock L s") (simp add: held_def)

lemma held_laws: "free s \<Longrightarrow> op_unlock L (held s) = Inr s" "free s \<Longrightarrow> \<not> free (held s)" "free s \<Longrightarrow> op_lock L s = Some (held s)"
  using take [of s] give_back [of s] by (simp_all add: held_def)

lemma all_or_nothing:
  assumes "distinct ms" "ms \<noteq> []" "0 \<le> index"
  shows "try_lock_impl L index ms M =
    Inr (if list_all (\<lambda>m. free (M m)) ms then (-1, hold_all ms M)
         else (index + int (length (takeWhile (\<lambda>m. free (M m)) ms)), M))"
  using assms
proof (induction ms arbitrary: index M rule: induct_list012)
  case (2 m1)
  then show ?case
    by (cases "free (M m1)") (simp_all add: try_free taken hold_all_def fun_eq_iff)
next
  case (3 m1 m2 ms)
  show ?case
  proof (cases "free (M m1)")
    case False
    then show ?thesis
      by (simp add: ul_try_to_lock_def ul_try_lock_def deref_mutex_def taken ul_destroy_def)
  next
    case True
    let ?M = "M(m1 := held (M m1))"
    have t: "ul_try_to_lock L m1 M = Inr (\<lparr>mtx = Some m1, owns_lock = True\<rparr>, ?M)"
      using True by (simp add: ul_try_to_lock_def ul_try_lock_def deref_mutex_def try_free)
    have same: "list_all (\<lambda>m. free (?M m)) (m2 # ms) = list_all (\<lambda>m. free (M m)) (m2 # ms)"
      "takeWhile (\<lambda>m. free (?M m)) (m2 # ms) = takeWhile (\<lambda>m. free (M m)) (m2 # ms)"
      using 3(3) by (auto simp: list_all_iff intro!: takeWhile_cong)
    have hold: "hold_all (m2 # ms) ?M = hold_all (m1 # m2 # ms) M"
      using 3(3) by (auto simp: hold_all_def fun_eq_iff)
    have rec: "try_lock_impl L (index + 1) (m2 # ms) ?M =
      Inr (if list_all (\<lambda>m. free (M m)) (m2 # ms) then (-1, hold_all (m1 # m2 # ms) M)
           else (index + 1 + int (length (takeWhile (\<lambda>m. free (M m)) (m2 # ms))), ?M))"
    proof -
      have "try_lock_impl L (index + 1) (m2 # ms) ?M =
        Inr (if list_all (\<lambda>m. free (?M m)) (m2 # ms) then (-1, hold_all (m2 # ms) ?M)
             else (index + 1 + int (length (takeWhile (\<lambda>m. free (?M m)) (m2 # ms))), ?M))"
        by (rule 3(2)) (use 3(3,5) in auto)
      then show ?thesis by (simp only: same hold)
    qed
    show ?thesis
    proof (cases "list_all (\<lambda>m. free (M m)) (m2 # ms)")
      case all: True
      then show ?thesis
        using True t rec by (simp add: ul_release_def ul_destroy_def)
    next
      case some: False
      then have rec': "try_lock_impl L (index + 1) (m2 # ms) ?M =
          Inr (index + 1 + int (length (takeWhile (\<lambda>m. free (M m)) (m2 # ms))), ?M)"
        using rec by (simp only: if_False)
      have "\<not> list_all (\<lambda>m. free (M m)) (m1 # m2 # ms)"
        using some by simp
      then show ?thesis
        using True t rec' 3(5) held_laws(1) [OF True] by (simp add: ul_destroy_def deref_mutex_def)
    qed
  qed
qed simp

lemma unlock_all_holds:
  assumes "distinct ms" "list_all (\<lambda>m. free (M m)) ms"
  shows "unlock_all L ms (hold_all ms M) = Inr M"
  using assms
proof (induction ms arbitrary: M)
  case Nil
  then show ?case by (simp add: hold_all_def)
next
  case (Cons m ms)
  have "(hold_all (m # ms) M)(m := M m) = hold_all ms M"
    using Cons.prems(1) by (auto simp: hold_all_def fun_eq_iff)
  moreover have "hold_all (m # ms) M m = held (M m)"
    by (simp add: hold_all_def)
  ultimately show ?case
    using Cons held_laws(1) [of "M m"] by simp
qed

lemma lock_two_alone:
  assumes "m1 \<noteq> m2" "free (M m1)" "free (M m2)"
  shows "lock_impl L m1 m2 M = Some (Inr (hold_all [m1, m2] M))"
proof -
  have "(M(m1 := held (M m1)))(m2 := held (M m2)) = hold_all [m1, m2] M"
    using assms(1) by (auto simp: hold_all_def fun_eq_iff)
  moreover have "attempt_lock_two L m1 m2 M = Some (Inr (True, (M(m1 := held (M m1)))(m2 := held (M m2))))"
    using assms by (simp add: attempt_lock_two_def ul_new_def ul_lock_def deref_mutex_def held_laws try_free
        ul_release_def ul_destroy_def)
  ultimately show ?thesis
    by (subst lock_impl.simps) simp
qed

end

lemma futex_try_lock [simp]:
  "op_try_lock futex_mutex w = (w = futex_unlocked, if w = futex_unlocked then futex_locked else w)"
  by (simp add: futex_mutex_def exchange_word_def)

lemma null_try_lock [simp]: "op_try_lock null_mutex locked = (\<not> locked, True)"
  by (simp add: null_mutex_def null_mutex_try_lock_def)

interpretation null_lockable: lockable null_mutex "\<lambda>locked. \<not> locked"
  by unfold_locales
    (simp_all add: null_mutex_def null_mutex_lock_def null_mutex_unlock_def null_mutex_try_lock_def)

interpretation futex_lockable: lockable futex_mutex "\<lambda>w. w = futex_unlocked"
  by unfold_locales (simp_all add: futex_mutex_def exchange_word_def)

text \<open>
  C18. \<open>detail::try_lock_impl\<close>, run by one thread without interference on any number of different
  mutexes, takes all of them or none, for the futex mutex and for the dummy mutex: if all are free it
  returns -1 and all are held, and unlocking them brings back the state before; otherwise it returns
  the position of the first one that is taken and every mutex is as before. Its only caller, the
  function \<open>gpcl::try_lock\<close>, returns this number from a function declared \<open>void\<close> and does not compile when it is used.
\<close>

theorem try_lock_all_or_nothing:
  assumes "distinct ms" "ms \<noteq> []"
  shows "(if list_all (\<lambda>m. M m = futex_unlocked) ms
          then try_lock_impl futex_mutex 0 ms M = Inr (-1, \<lambda>m. if m \<in> set ms then futex_locked else M m) \<and>
               unlock_all futex_mutex ms (\<lambda>m. if m \<in> set ms then futex_locked else M m) = Inr M
          else try_lock_impl futex_mutex 0 ms M = Inr (int (length (takeWhile (\<lambda>m. M m = futex_unlocked) ms)), M)) \<and>
         (if list_all (\<lambda>m. \<not> N m) ms
          then try_lock_impl null_mutex 0 ms N = Inr (-1, \<lambda>m. m \<in> set ms \<or> N m) \<and>
               unlock_all null_mutex ms (\<lambda>m. m \<in> set ms \<or> N m) = Inr N
          else try_lock_impl null_mutex 0 ms N = Inr (int (length (takeWhile (\<lambda>m. \<not> N m) ms)), N))"
proof -
  have f: "futex_lockable.hold_all ms M = (\<lambda>m. if m \<in> set ms then futex_locked else M m)"
    if "list_all (\<lambda>m. M m = futex_unlocked) ms"
    using that by (auto simp: futex_lockable.hold_all_def futex_lockable.held_def list_all_iff fun_eq_iff)
  have n: "null_lockable.hold_all ms N = (\<lambda>m. m \<in> set ms \<or> N m)"
    by (auto simp: null_lockable.hold_all_def null_lockable.held_def fun_eq_iff)
  show ?thesis
    using futex_lockable.all_or_nothing [OF assms, of 0 M] futex_lockable.unlock_all_holds [OF assms(1), of M] f
      null_lockable.all_or_nothing [OF assms, of 0 N] null_lockable.unlock_all_holds [OF assms(1), of N] n
    by (simp split: if_splits)
qed

theorem try_lock_all_or_nothing_witness:
  "try_lock_impl futex_mutex 0 [4, 2, 7] (\<lambda>m. if m = 7 then futex_locked else futex_unlocked) =
    Inr (2, \<lambda>m. if m = 7 then futex_locked else futex_unlocked)"
  using try_lock_all_or_nothing [of "[4, 2, 7]" "\<lambda>m. if m = 7 then futex_locked else futex_unlocked" "\<lambda>_. False"] by simp

end
