(* ===== verification/Lock_Two.thy ===== *)
theory Lock_Two
  imports Unique_Lock
begin

text \<open>
  \<open>gpcl::lock\<close> on two mutexes (\<open>lock.hpp\<close>) called by any number of threads, each with any two of the
  mutexes in any order. A thread goes through \<open>attempt_lock_two\<close> step by step: it waits for one mutex, tries
  the other, and gives the first one back when that fails; the next attempt takes them in the other
  order. Mutexes are what \<open>hand_over\<close> allows: nobody's, or owned by one thread.
\<close>

section \<open>Steps\<close>

text \<open>
  The places of a thread: outside, in front of the blocking \<open>lock\<close> of the first mutex, in front of the
  \<open>try_lock\<close> of the second, in the destructor of \<open>lock1\<close>, returned with both, and between the two calls of
  \<open>unlock\<close>. The flag tells whether the attempt takes the mutexes in reverse order.
\<close>

datatype lock_place = Off | First bool | Second bool | Undo bool | Both | Last

record locker =
  mutex1 :: nat
  mutex2 :: nat
  place :: lock_place

type_synonym owners = "nat \<Rightarrow> nat option"

definition blocking :: "locker \<Rightarrow> bool \<Rightarrow> nat" where
  "blocking t reverse = (if reverse then mutex2 t else mutex1 t)"

definition tried :: "locker \<Rightarrow> bool \<Rightarrow> nat" where
  "tried t reverse = (if reverse then mutex1 t else mutex2 t)"

text \<open>The next step of thread \<open>i\<close>; \<open>None\<close> means that it has to wait.\<close>

definition lock_two_exec :: "nat \<Rightarrow> locker \<Rightarrow> owners \<Rightarrow> (locker \<times> owners) option" where
  "lock_two_exec i t own = (case place t of
      Off \<Rightarrow> None
    | First r \<Rightarrow> if own (blocking t r) = None then Some (t\<lparr>place := Second r\<rparr>, own(blocking t r := Some i)) else None
    | Second r \<Rightarrow> if own (tried t r) = None then Some (t\<lparr>place := Both\<rparr>, own(tried t r := Some i))
                 else Some (t\<lparr>place := Undo r\<rparr>, own)
    | Undo r \<Rightarrow> Some (t\<lparr>place := First (\<not> r)\<rparr>, own(blocking t r := None))
    | Both \<Rightarrow> Some (t\<lparr>place := Last\<rparr>, own(mutex1 t := None))
    | Last \<Rightarrow> Some (t\<lparr>place := Off\<rparr>, own(mutex2 t := None)))"

type_synonym lock_state = "locker list \<times> owners"

inductive lock_work :: "lock_state \<Rightarrow> lock_state \<Rightarrow> bool" where
  run: "i < length ts \<Longrightarrow> lock_two_exec i (ts ! i) own = Some (t', own') \<Longrightarrow> lock_work (ts, own) (ts[i := t'], own')"

inductive lock_reachable :: "lock_state \<Rightarrow> bool" where
  init: "lock_reachable (replicate n \<lparr>mutex1 = 0, mutex2 = 0, place = Off\<rparr>, \<lambda>_. None)"
| call: "lock_reachable (ts, own) \<Longrightarrow> i < length ts \<Longrightarrow> place (ts ! i) = Off \<Longrightarrow> a \<noteq> b \<Longrightarrow>
    lock_reachable (ts[i := \<lparr>mutex1 = a, mutex2 = b, place = First False\<rparr>], own)"
| work: "lock_reachable s \<Longrightarrow> lock_work s s' \<Longrightarrow> lock_reachable s'"

section \<open>The invariant\<close>

definition has :: "locker \<Rightarrow> nat \<Rightarrow> bool" where
  "has t m \<longleftrightarrow> (case place t of
      Off \<Rightarrow> False | First r \<Rightarrow> False | Second r \<Rightarrow> m = blocking t r | Undo r \<Rightarrow> m = blocking t r
    | Both \<Rightarrow> m = mutex1 t \<or> m = mutex2 t | Last \<Rightarrow> m = mutex2 t)"

definition lock_inv :: "lock_state \<Rightarrow> bool" where
  "lock_inv s \<longleftrightarrow> (case s of (ts, own) \<Rightarrow>
     (\<forall>m i. own m = Some i \<longleftrightarrow> i < length ts \<and> has (ts ! i) m) \<and>
     (\<forall>i < length ts. place (ts ! i) \<noteq> Off \<longrightarrow> mutex1 (ts ! i) \<noteq> mutex2 (ts ! i)))"

lemma exec_inv:
  assumes "lock_inv (ts, own)" "i < length ts" "lock_two_exec i (ts ! i) own = Some (t', own')"
  shows "lock_inv (ts[i := t'], own')"
proof -
  have own: "own m = Some j \<longleftrightarrow> j < length ts \<and> has (ts ! j) m" for m j
    using assms(1) by (simp add: lock_inv_def)
  have d: "place (ts ! i) \<noteq> Off \<Longrightarrow> mutex1 (ts ! i) \<noteq> mutex2 (ts ! i)"
    using assms(1,2) by (simp add: lock_inv_def)
  have mine: "own' m = Some i \<longleftrightarrow> has t' m" for m
    using assms(2,3) own [of m i] d
    by (cases "place (ts ! i)") (auto simp: lock_two_exec_def has_def blocking_def tried_def split: if_splits)
  have "own' m = Some j \<longleftrightarrow> own m = Some j" if "j \<noteq> i" for m j
    using assms(2,3) own [of m j] own [of m i] that
    by (cases "place (ts ! i)") (auto simp: lock_two_exec_def has_def blocking_def tried_def split: if_splits)
  moreover have "place t' \<noteq> Off \<longrightarrow> mutex1 t' \<noteq> mutex2 t'"
    using assms(3) d by (auto simp: lock_two_exec_def split: lock_place.splits if_splits)
  ultimately show ?thesis
    using assms(1,2) mine own by (auto simp: lock_inv_def nth_list_update)
qed
lemma work_lock_inv: "lock_work s s' \<Longrightarrow> lock_inv s \<Longrightarrow> lock_inv s'"
  by (induction rule: lock_work.induct) (rule exec_inv)

lemma call_lock_inv:
  assumes "lock_inv (ts, own)" "i < length ts" "place (ts ! i) = Off" "a \<noteq> b"
  shows "lock_inv (ts[i := \<lparr>mutex1 = a, mutex2 = b, place = First False\<rparr>], own)"
proof -
  have "\<not> has (ts ! i) m" "\<not> has \<lparr>mutex1 = a, mutex2 = b, place = First False\<rparr> m" for m
    using assms(3) by (simp_all add: has_def)
  with assms show ?thesis
    by (auto simp: lock_inv_def nth_list_update)
qed

lemma lock_reachable_inv: "lock_reachable s \<Longrightarrow> lock_inv s"
proof (induction rule: lock_reachable.induct)
  case (init n)
  show ?case by (simp add: lock_inv_def has_def)
next
  case (call ts own i a b)
  then show ?case using call_lock_inv by blast
next
  case (work s s')
  then show ?case using work_lock_inv by blast
qed

section \<open>Every call can return\<close>

definition resting :: "locker \<Rightarrow> bool" where
  "resting t \<longleftrightarrow> place t = Off \<or> (\<exists>r. place t = First r)"

abbreviation lock_runs :: "lock_state \<Rightarrow> lock_state \<Rightarrow> bool" where
  "lock_runs \<equiv> lock_work\<^sup>*\<^sup>*"

lemma runs_inv: "lock_runs s s' \<Longrightarrow> lock_inv s \<Longrightarrow> lock_inv s'"
  by (induction rule: rtranclp_induct) (auto intro: work_lock_inv)

lemma one_step:
  assumes "i < length ts" "lock_two_exec i (ts ! i) own = Some (t', own')" "lock_runs (ts[i := t'], own') s"
  shows "lock_runs (ts, own) s"
  using lock_work.run [OF assms(1,2)] assms(3) by (rule converse_rtranclp_into_rtranclp)

lemma finish_last:
  assumes "i < length ts" "place (ts ! i) = Last"
  shows "\<exists>t own'. lock_runs (ts, own) (ts[i := t], own') \<and> place t = Off"
proof -
  have s: "lock_two_exec i (ts ! i) own = Some ((ts ! i)\<lparr>place := Off\<rparr>, own(mutex2 (ts ! i) := None))"
    using assms(2) by (simp add: lock_two_exec_def)
  show ?thesis
    using one_step [OF assms(1) s] by fastforce
qed

lemma finish_both:
  assumes "i < length ts" "place (ts ! i) = Both"
  shows "\<exists>t own'. lock_runs (ts, own) (ts[i := t], own') \<and> place t = Off"
proof -
  let ?t = "(ts ! i)\<lparr>place := Last\<rparr>"
  have s: "lock_two_exec i (ts ! i) own = Some (?t, own(mutex1 (ts ! i) := None))"
    using assms(2) by (simp add: lock_two_exec_def)
  show ?thesis
    using finish_last [of i "ts[i := ?t]" "own(mutex1 (ts ! i) := None)"] one_step [OF assms(1) s] assms(1)
    by fastforce
qed

lemma finish_holder:
  assumes "i < length ts" "\<not> resting (ts ! i)"
  shows "\<exists>t own'. lock_runs (ts, own) (ts[i := t], own') \<and> resting t"
proof (cases "place (ts ! i)")
  case (Second r)
  show ?thesis
  proof (cases "own (tried (ts ! i) r) = None")
    case True
    let ?t = "(ts ! i)\<lparr>place := Both\<rparr>"
    have s: "lock_two_exec i (ts ! i) own = Some (?t, own(tried (ts ! i) r := Some i))"
      using Second True by (simp add: lock_two_exec_def)
    show ?thesis
      using finish_both [of i "ts[i := ?t]" "own(tried (ts ! i) r := Some i)"] one_step [OF assms(1) s] assms(1)
      by (fastforce simp: resting_def)
  next
    case False
    let ?t = "(ts ! i)\<lparr>place := Undo r\<rparr>"
    have s: "lock_two_exec i (ts ! i) own = Some (?t, own)"
      using Second False by (auto simp: lock_two_exec_def)
    have s2: "lock_two_exec i (ts[i := ?t] ! i) own = Some (?t\<lparr>place := First (\<not> r)\<rparr>, own(blocking ?t r := None))"
      using assms(1) by (simp add: lock_two_exec_def)
    show ?thesis
      using one_step [OF assms(1) s one_step [OF _ s2]] assms(1) by (fastforce simp: resting_def)
  qed
next
  case (Undo r)
  then have s: "lock_two_exec i (ts ! i) own = Some ((ts ! i)\<lparr>place := First (\<not> r)\<rparr>, own(blocking (ts ! i) r := None))"
    by (simp add: lock_two_exec_def)
  show ?thesis
    using one_step [OF assms(1) s] by (fastforce simp: resting_def)
next
  case Both
  show ?thesis using finish_both [OF assms(1) Both, of own] unfolding resting_def by blast
next
  case Last
  show ?thesis using finish_last [OF assms(1) Last, of own] unfolding resting_def by blast
qed (use assms(2) in \<open>auto simp: resting_def\<close>)

lemma all_rest:
  "\<exists>ts' own'. lock_runs (ts, own) (ts', own') \<and> (\<forall>t \<in> set ts'. resting t)"
proof (induction "tally (\<lambda>t. if resting t then 0 else 1) ts" arbitrary: ts own)
  case 0
  then have "\<forall>t \<in> set ts. resting t"
    using tally_zero_iff [of "\<lambda>t. if resting t then 0 else 1" ts] by (auto split: if_splits)
  then show ?case by blast
next
  case (Suc n)
  then obtain i where i: "i < length ts" "\<not> resting (ts ! i)"
    using tally_positive [of "\<lambda>t. if resting t then 0 else 1" ts] by (auto split: if_splits)
  then obtain t own' where t: "lock_runs (ts, own) (ts[i := t], own')" "resting t"
    using finish_holder by blast
  have "n = tally (\<lambda>t. if resting t then 0 else 1) (ts[i := t])"
    using tally_update [OF i(1), of "\<lambda>t. if resting t then 0 else 1" t] Suc(2) i(2) t(2) by simp
  from Suc(1) [OF this] t(1) show ?case
    by (meson rtranclp_trans)
qed

lemma resting_has: "resting t \<Longrightarrow> \<not> has t m"
  by (auto simp: resting_def has_def)

lemma nobody_owns:
  assumes "lock_inv (ts, own)" "\<forall>t \<in> set ts. resting t"
  shows "own = (\<lambda>_. None)"
proof
  fix m
  have "own m \<noteq> Some i" for i
    using assms(1) assms(2) [rule_format, OF nth_mem, THEN resting_has] by (auto simp: lock_inv_def)
  then show "own m = None"
    by (cases "own m") auto
qed

lemma finish_waiter:
  assumes "lock_inv (ts, \<lambda>_. None)" "i < length ts" "place (ts ! i) = First r"
  shows "\<exists>t own'. lock_runs (ts, \<lambda>_. None) (ts[i := t], own') \<and> place t = Off"
proof -
  let ?t1 = "(ts ! i)\<lparr>place := Second r\<rparr>"
  let ?own1 = "[blocking (ts ! i) r \<mapsto> i]"
  let ?t2 = "(ts ! i)\<lparr>place := Both\<rparr>"
  let ?own2 = "?own1(tried (ts ! i) r \<mapsto> i)"
  have "mutex1 (ts ! i) \<noteq> mutex2 (ts ! i)"
    using assms by (simp add: lock_inv_def)
  then have s: "lock_two_exec i (ts ! i) (\<lambda>_. None) = Some (?t1, ?own1)"
    "lock_two_exec i (ts[i := ?t1] ! i) ?own1 = Some (?t2, ?own2)"
    using assms(2,3) by (simp_all add: lock_two_exec_def blocking_def tried_def)
  obtain t own' where "lock_runs (ts[i := ?t2], ?own2) (ts[i := t], own')" "place t = Off"
    using finish_both [of i "ts[i := ?t2]" ?own2] assms(2) by auto
  then show ?thesis
    using one_step [OF assms(2) s(1) one_step [OF _ s(2)]] assms(2) by fastforce
qed

lemma all_off:
  assumes "lock_inv (ts, own)" "\<forall>t \<in> set ts. resting t"
  shows "\<exists>ts' own'. lock_runs (ts, own) (ts', own') \<and> (\<forall>t \<in> set ts'. place t = Off)"
  using assms
proof (induction "tally (\<lambda>t. if place t = Off then 0 else 1) ts" arbitrary: ts own)
  case 0
  then have "\<forall>t \<in> set ts. place t = Off"
    using tally_zero_iff [of "\<lambda>t. if place t = Off then 0 else 1" ts] by (auto split: if_splits)
  then show ?case by blast
next
  case (Suc n)
  then obtain i where i: "i < length ts" "place (ts ! i) \<noteq> Off"
    using tally_positive [of "\<lambda>t. if place t = Off then 0 else 1" ts] by (auto split: if_splits)
  then obtain r where r: "place (ts ! i) = First r"
    using Suc(4) by (auto simp: resting_def dest: nth_mem)
  have o: "own = (\<lambda>_. None)"
    by (rule nobody_owns [OF Suc(3,4)])
  obtain t own' where t: "lock_runs (ts, own) (ts[i := t], own')" "place t = Off"
    using finish_waiter [OF _ i(1) r] Suc(3) o by blast
  have "n = tally (\<lambda>t. if place t = Off then 0 else 1) (ts[i := t])"
    using tally_update [OF i(1), of "\<lambda>t. if place t = Off then 0 else 1" t] Suc(2) i(2) t(2) by simp
  moreover have "\<forall>t \<in> set (ts[i := t]). resting t"
    using Suc(4) t(2) by (auto simp: resting_def dest!: set_update_subset_insert [THEN subsetD])
  ultimately show ?case
    using Suc(1) [OF _ runs_inv [OF t(1) Suc(3)]] t(1) by (meson rtranclp_trans)
qed

text \<open>
  C17. Locking two mutexes with \<open>gpcl::lock\<close> is free of deadlocks, whatever mutexes in whatever order the
  threads ask for: a thread for which the call has returned owns both mutexes, and from every state
  the threads can get into there is a way on by which every call returns, every thread unlocks and all
  mutexes are free.
\<close>

theorem lock_two_deadlock_free:
  assumes "lock_reachable (ts, own)"
  shows "(\<forall>i < length ts. place (ts ! i) = Both \<longrightarrow>
      own (mutex1 (ts ! i)) = Some i \<and> own (mutex2 (ts ! i)) = Some i) \<and>
    (\<exists>ts'. lock_runs (ts, own) (ts', \<lambda>_. None) \<and> (\<forall>t \<in> set ts'. place t = Off))"
proof
  note inv = lock_reachable_inv [OF assms]
  show "\<forall>i < length ts. place (ts ! i) = Both \<longrightarrow> own (mutex1 (ts ! i)) = Some i \<and> own (mutex2 (ts ! i)) = Some i"
    using inv by (auto simp: lock_inv_def has_def)
  obtain ts1 own1 where 1: "lock_runs (ts, own) (ts1, own1)" "\<forall>t \<in> set ts1. resting t"
    using all_rest by blast
  obtain ts2 own2 where 2: "lock_runs (ts1, own1) (ts2, own2)" "\<forall>t \<in> set ts2. place t = Off"
    using all_off [OF runs_inv [OF 1(1) inv] 1(2)] by blast
  have "own2 = (\<lambda>_. None)"
    using nobody_owns runs_inv [OF 2(1) runs_inv [OF 1(1) inv]] 2(2) by (auto simp: resting_def)
  with 1(1) 2 show "\<exists>ts'. lock_runs (ts, own) (ts', \<lambda>_. None) \<and> (\<forall>t \<in> set ts'. place t = Off)"
    by (meson rtranclp_trans)
qed

text \<open>Two threads that took the mutexes 0 and 1 in opposite order.\<close>

theorem lock_two_deadlock_free_witness:
  "\<exists>ts'. lock_runs ([\<lparr>mutex1 = 0, mutex2 = 1, place = Second False\<rparr>, \<lparr>mutex1 = 1, mutex2 = 0, place = Second False\<rparr>],
      [0 \<mapsto> 0, 1 \<mapsto> 1]) (ts', \<lambda>_. None) \<and> list_all (\<lambda>t. place t = Off) ts'"
proof -
  let ?off = "\<lparr>mutex1 = 0, mutex2 = 0, place = Off\<rparr>"
  have "lock_reachable ([?off, ?off], \<lambda>_. None)"
    using lock_reachable.init [of 2] by (simp add: numeral_2_eq_2)
  from lock_reachable.call [OF this, of 0 0 1]
  have "lock_reachable ([\<lparr>mutex1 = 0, mutex2 = 1, place = First False\<rparr>, ?off], \<lambda>_. None)"
    by simp
  from lock_reachable.call [OF this, of 1 1 0]
  have "lock_reachable ([\<lparr>mutex1 = 0, mutex2 = 1, place = First False\<rparr>, \<lparr>mutex1 = 1, mutex2 = 0, place = First False\<rparr>], \<lambda>_. None)"
    by simp
  from lock_reachable.work [OF this lock_work.run [of 0]]
  have "lock_reachable ([\<lparr>mutex1 = 0, mutex2 = 1, place = Second False\<rparr>, \<lparr>mutex1 = 1, mutex2 = 0, place = First False\<rparr>], [0 \<mapsto> 0])"
    by (simp add: lock_two_exec_def blocking_def)
  from lock_reachable.work [OF this lock_work.run [of 1]]
  have "lock_reachable ([\<lparr>mutex1 = 0, mutex2 = 1, place = Second False\<rparr>, \<lparr>mutex1 = 1, mutex2 = 0, place = Second False\<rparr>], [0 \<mapsto> 0, 1 \<mapsto> 1])"
    by (simp add: lock_two_exec_def blocking_def)
  from lock_two_deadlock_free [OF this] show ?thesis
    by (simp add: list_all_iff)
qed

end
