(* ===== verification/Future.thy ===== *)
theory Future
  imports Threads "HOL-Library.Multiset"
begin

text \<open>
  Events, promises and futures (\<open>event.hpp\<close>, \<open>future.hpp\<close>): a flag and a count of waiters guarded by a
  mutex, with a condition variable to sleep on, and the shared state of one promise and any number of
  threads that call \<open>get\<close>. Each passage under the mutex is cut into steps where the mutex is taken or
  released; the mutex is nobody's or owned by one thread, sleeping releases it in the same step, and
  which sleeper a notification wakes is open.
\<close>

section \<open>Events\<close>

record gpcl_event =
  signaled :: bool
  waiters :: nat

text \<open>The call on the condition variable that an operation makes.\<close>

datatype notification = Nobody | One | All

definition new_event :: gpcl_event where
  "new_event = \<lparr>signaled = False, waiters = 0\<rparr>"

definition event_destroy :: "gpcl_event \<Rightarrow> unit res" where
  "event_destroy e = gpcl_assert (waiters e = 0)"

definition event_reset :: "bool \<Rightarrow> gpcl_event \<Rightarrow> gpcl_event res" where
  "event_reset owns_lock e = res_bind (gpcl_assert owns_lock) (\<lambda>_. Inr (e\<lparr>signaled := False\<rparr>))"

definition signal_all :: "bool \<Rightarrow> gpcl_event \<Rightarrow> (gpcl_event \<times> notification) res" where
  "signal_all owns_lock e = res_bind (gpcl_assert owns_lock) (\<lambda>_. Inr (e\<lparr>signaled := True\<rparr>, All))"

text \<open>The notification of \<open>unlock_and_signal_one\<close> comes after the mutex has been unlocked.\<close>

definition unlock_and_signal_one :: "bool \<Rightarrow> gpcl_event \<Rightarrow> (gpcl_event \<times> notification) res" where
  "unlock_and_signal_one owns_lock e = res_bind (gpcl_assert owns_lock) (\<lambda>_.
     let e = e\<lparr>signaled := True\<rparr>; has_waiters = (waiters e \<noteq> 0)
     in Inr (e, if has_waiters then One else Nobody))"

definition signal_one :: "bool \<Rightarrow> gpcl_event \<Rightarrow> (gpcl_event \<times> notification) res" where
  "signal_one owns_lock e = res_bind (gpcl_assert owns_lock) (\<lambda>_.
     if waiters e \<noteq> 0 then Inr (e\<lparr>signaled := True\<rparr>, One) else Inr (e, Nobody))"

text \<open>The flag in the result tells whether the mutex has been unlocked.\<close>

definition try_unlock_and_signal_one :: "bool \<Rightarrow> gpcl_event \<Rightarrow> (bool \<times> gpcl_event \<times> notification) res" where
  "try_unlock_and_signal_one owns_lock e = res_bind (gpcl_assert owns_lock) (\<lambda>_.
     let e = e\<lparr>signaled := True\<rparr>
     in if waiters e \<noteq> 0 then Inr (True, e, One) else Inr (False, e, Nobody))"

definition waiter_enter :: "gpcl_event \<Rightarrow> gpcl_event" where
  "waiter_enter e = e\<lparr>waiters := waiters e + 1\<rparr>"

definition waiter_leave :: "gpcl_event \<Rightarrow> gpcl_event" where
  "waiter_leave e = e\<lparr>waiters := waiters e - 1\<rparr>"

section \<open>The shared state of a promise\<close>

text \<open>
  The alternatives of the variant: \<open>monostate\<close>, a value, an error code. When the constructor that
  \<open>emplace\<close> calls throws, the variant is left without a value.
\<close>

datatype ('v, 'c) outcome = Pending | Value 'v | Error 'c | Valueless

datatype ('v, 'c) spot =
    Set_lock "('v, 'c) outcome" | Set_hold "('v, 'c) outcome" | Set_unlock notification
  | Set_notify notification | Set_done | Set_unwind | Set_failed
  | Get_lock | Get_hold | Get_loop | Get_asleep | Get_again | Get_unlock 'v | Got 'v

record ('v, 'c) shared_state =
  mtx :: "nat option"
  ev :: gpcl_event
  outcome :: "('v, 'c) outcome"

definition new_shared_state :: "('v, 'c) shared_state" where
  "new_shared_state = \<lparr>mtx = None, ev = new_event, outcome = Pending\<rparr>"

text \<open>
  \<open>shared_state::get\<close>: the branch for an error sets the error code and then falls through. Asking a
  variant without a value for its index, which \<open>is_pending\<close> and \<open>get\<close> begin with, fails an assertion.
\<close>

definition read_outcome :: "('v, 'c) outcome \<Rightarrow> 'v res" where
  "read_outcome r = (case r of
      Pending \<Rightarrow> Inl Assertion_failed
    | Value v \<Rightarrow> Inr v
    | Error c \<Rightarrow> Inl Unreachable_executed
    | Valueless \<Rightarrow> Inl Assertion_failed)"

text \<open>
  \<open>return std::move(*res)\<close> of \<open>future::get\<close>: the result is constructed from the value in the shared state,
  which is left in its moved-from state \<open>mv v\<close>. (The move constructor of \<open>T\<close> is taken not to throw.)
\<close>

definition move_out :: "('v \<Rightarrow> 'v) \<Rightarrow> ('v, 'c) shared_state \<Rightarrow> (('v, 'c) spot \<times> ('v, 'c) shared_state) res" where
  "move_out mv s = res_bind (read_outcome (outcome s)) (\<lambda>v. Inr (Get_unlock v, s\<lparr>outcome := Value (mv v)\<rparr>))"

text \<open>
  \<open>emplace_value\<close> and \<open>set_error\<close> up to the end of the passage under the mutex. The argument \<open>Valueless\<close>
  stands for a call whose constructor throws: nobody is signalled (\<open>None\<close>), the exception unwinds.
\<close>

definition store_outcome :: "('v, 'c) outcome \<Rightarrow> ('v, 'c) shared_state \<Rightarrow> (notification option \<times> ('v, 'c) shared_state) res" where
  "store_outcome r s = res_bind (gpcl_assert (outcome s = Pending)) (\<lambda>_.
     if r = Valueless then Inr (None, s\<lparr>outcome := Valueless\<rparr>)
     else res_bind (unlock_and_signal_one True (ev s)) (\<lambda>(e, n). Inr (Some n, s\<lparr>outcome := r, ev := e\<rparr>)))"

text \<open>
  One step of thread \<open>i\<close> at a place where it can go on by itself; \<open>None\<close> means that it waits for the
  mutex, sleeps or has finished.
\<close>

definition take_mutex :: "nat \<Rightarrow> 'a \<Rightarrow> ('v, 'c) shared_state \<Rightarrow> ('a \<times> ('v, 'c) shared_state) res option" where
  "take_mutex i p s = (if mtx s = None then Some (Inr (p, s\<lparr>mtx := Some i\<rparr>)) else None)"

fun future_exec :: "('v \<Rightarrow> 'v) \<Rightarrow> nat \<Rightarrow> ('v, 'c) spot \<Rightarrow> ('v, 'c) shared_state \<Rightarrow> (('v, 'c) spot \<times> ('v, 'c) shared_state) res option" where
  "future_exec mv i (Set_lock r) s = take_mutex i (Set_hold r) s"
| "future_exec mv i (Set_hold r) s = Some (res_bind (store_outcome r s) (\<lambda>(n, s).
     Inr (case n of None \<Rightarrow> Set_unwind | Some n \<Rightarrow> Set_unlock n, s)))"
| "future_exec mv i (Set_unlock n) s = Some (Inr (Set_notify n, s\<lparr>mtx := None\<rparr>))"
| "future_exec mv i Set_unwind s = Some (Inr (Set_failed, s\<lparr>mtx := None\<rparr>))"
| "future_exec mv i Get_lock s = take_mutex i Get_hold s"
| "future_exec mv i Get_hold s =
     (if outcome s = Pending then Some (Inr (Get_loop, s))
      else Some (move_out mv s))"
| "future_exec mv i Get_loop s =
     (if \<not> signaled (ev s) then Some (Inr (Get_asleep, s\<lparr>ev := waiter_enter (ev s), mtx := None\<rparr>))
      else Some (move_out mv s))"
| "future_exec mv i Get_again s =
     (if mtx s = None then Some (Inr (Get_loop, s\<lparr>mtx := Some i, ev := waiter_leave (ev s)\<rparr>)) else None)"
| "future_exec mv i (Get_unlock v) s = Some (Inr (Got v, s\<lparr>mtx := None\<rparr>))"
| "future_exec mv i p s = None"

type_synonym ('v, 'c) future_state = "('v, 'c) spot list \<times> ('v, 'c) shared_state"

definition sleeping :: "('v, 'c) spot list \<Rightarrow> nat \<Rightarrow> bool" where
  "sleeping ps j \<longleftrightarrow> j < length ps \<and> ps ! j = Get_asleep"

text \<open>
  Thread 0 sets the outcome of the promise, the others call \<open>get\<close>. A notification wakes one sleeper if
  there are any.
\<close>

inductive future_work :: "('v \<Rightarrow> 'v) \<Rightarrow> ('v, 'c) future_state \<Rightarrow> ('v, 'c) future_state \<Rightarrow> bool" for mv where
  run: "i < length ps \<Longrightarrow> future_exec mv i (ps ! i) s = Some (Inr (p', s')) \<Longrightarrow> future_work mv (ps, s) (ps[i := p'], s')"
| notify: "i < length ps \<Longrightarrow> ps ! i = Set_notify One \<Longrightarrow> sleeping ps j \<Longrightarrow>
    future_work mv (ps, s) (ps[j := Get_again, i := Set_done], s)"
| notify_none: "i < length ps \<Longrightarrow> ps ! i = Set_notify One \<Longrightarrow> \<nexists>j. sleeping ps j \<Longrightarrow>
    future_work mv (ps, s) (ps[i := Set_done], s)"
| quiet: "i < length ps \<Longrightarrow> ps ! i = Set_notify Nobody \<Longrightarrow> future_work mv (ps, s) (ps[i := Set_done], s)"

text \<open>A sleeper may also wake up for no reason.\<close>

inductive future_reachable :: "('v \<Rightarrow> 'v) \<Rightarrow> ('v, 'c) outcome \<Rightarrow> ('v, 'c) future_state \<Rightarrow> bool" for mv r where
  init: "future_reachable mv r (Set_lock r # replicate n Get_lock, new_shared_state)"
| work: "future_reachable mv r st \<Longrightarrow> future_work mv st st' \<Longrightarrow> future_reachable mv r st'"
| spurious: "future_reachable mv r (ps, s) \<Longrightarrow> sleeping ps j \<Longrightarrow> future_reachable mv r (ps[j := Get_again], s)"

inductive_cases future_workE [consumes 1, case_names run notify notify_none quiet]: "future_work mv (ps, s) st"

section \<open>The invariant\<close>

definition holds_mutex :: "('v, 'c) spot \<Rightarrow> bool" where
  "holds_mutex p = (case p of Set_hold r \<Rightarrow> True | Set_unlock n \<Rightarrow> True | Set_unwind \<Rightarrow> True | Get_hold \<Rightarrow> True | Get_loop \<Rightarrow> True
     | Get_unlock v \<Rightarrow> True | _ \<Rightarrow> False)"

definition dozing :: "('v, 'c) spot \<Rightarrow> nat" where
  "dozing p = (case p of Get_asleep \<Rightarrow> 1 | _ \<Rightarrow> 0)"

definition waiting :: "('v, 'c) spot \<Rightarrow> nat" where
  "waiting p = (case p of Get_asleep \<Rightarrow> 1 | Get_again \<Rightarrow> 1 | _ \<Rightarrow> 0)"

definition woken :: "('v, 'c) spot \<Rightarrow> nat" where
  "woken p = (case p of Get_again \<Rightarrow> 1 | Get_loop \<Rightarrow> 1 | Get_unlock v \<Rightarrow> 1 | Got v \<Rightarrow> 1 | _ \<Rightarrow> 0)"

definition mutex_ok :: "('v, 'c) future_state \<Rightarrow> bool" where
  "mutex_ok st \<longleftrightarrow> (case st of (ps, s) \<Rightarrow> \<forall>i. mtx s = Some i \<longleftrightarrow> i < length ps \<and> holds_mutex (ps ! i))"

text \<open>The values that have been moved out of the shared state, in the order of the threads.\<close>

definition taken :: "('v, 'c) spot \<Rightarrow> 'v list" where
  "taken p = (case p of Get_unlock v \<Rightarrow> [v] | Got v \<Rightarrow> [v] | _ \<Rightarrow> [])"

definition all_taken :: "('v, 'c) spot list \<Rightarrow> 'v list" where
  "all_taken ps = concat (map taken ps)"

text \<open>What \<open>k\<close> reads of the value obtain, and what they leave behind.\<close>

definition reads_of :: "('v \<Rightarrow> 'v) \<Rightarrow> 'v \<Rightarrow> nat \<Rightarrow> 'v list" where
  "reads_of mv v k = map (\<lambda>j. (mv ^^ j) v) [0..<k]"

definition taken_ok :: "('v \<Rightarrow> 'v) \<Rightarrow> ('v, 'c) outcome \<Rightarrow> 'v list \<Rightarrow> bool" where
  "taken_ok mv r xs \<longleftrightarrow> (case r of Value v \<Rightarrow> mset xs = mset (reads_of mv v (length xs)) | _ \<Rightarrow> xs = [])"

definition remains :: "('v \<Rightarrow> 'v) \<Rightarrow> ('v, 'c) outcome \<Rightarrow> nat \<Rightarrow> ('v, 'c) outcome" where
  "remains mv r k = (case r of Value v \<Rightarrow> Value ((mv ^^ k) v) | _ \<Rightarrow> r)"

text \<open>
  What holds while the promise is at \<open>p\<close>; \<open>A\<close> threads sleep, \<open>W\<close> threads have been woken or have read the
  value, and \<open>K\<close> have read it.
\<close>

definition phase_ok :: "('v \<Rightarrow> 'v) \<Rightarrow> ('v, 'c) outcome \<Rightarrow> ('v, 'c) spot \<Rightarrow> nat \<Rightarrow> nat \<Rightarrow> nat \<Rightarrow> ('v, 'c) shared_state \<Rightarrow> bool" where
  "phase_ok mv r p A W K s \<longleftrightarrow> (case p of
      Set_lock r' \<Rightarrow> r' = r \<and> outcome s = Pending \<and> \<not> signaled (ev s) \<and> K = 0
    | Set_hold r' \<Rightarrow> r' = r \<and> outcome s = Pending \<and> \<not> signaled (ev s) \<and> K = 0
    | Set_unlock n \<Rightarrow> r \<noteq> Valueless \<and> outcome s = remains mv r K \<and> signaled (ev s) \<and> n \<noteq> All \<and> (0 < A \<longrightarrow> n = One)
    | Set_notify n \<Rightarrow> r \<noteq> Valueless \<and> outcome s = remains mv r K \<and> signaled (ev s) \<and> n \<noteq> All \<and> (0 < A \<longrightarrow> n = One)
    | Set_done \<Rightarrow> r \<noteq> Valueless \<and> outcome s = remains mv r K \<and> signaled (ev s) \<and> (0 < A \<longrightarrow> 0 < W)
    | Set_unwind \<Rightarrow> r = Valueless \<and> outcome s = Valueless \<and> \<not> signaled (ev s)
    | Set_failed \<Rightarrow> r = Valueless \<and> outcome s = Valueless \<and> \<not> signaled (ev s)
    | _ \<Rightarrow> False)"

definition getter_ok :: "('v, 'c) spot \<Rightarrow> bool" where
  "getter_ok p \<longleftrightarrow> (case p of
      Get_unlock v \<Rightarrow> True | Got v \<Rightarrow> True
    | Get_lock \<Rightarrow> True | Get_hold \<Rightarrow> True | Get_loop \<Rightarrow> True | Get_asleep \<Rightarrow> True | Get_again \<Rightarrow> True | _ \<Rightarrow> False)"

definition future_inv :: "('v \<Rightarrow> 'v) \<Rightarrow> ('v, 'c) outcome \<Rightarrow> ('v, 'c) future_state \<Rightarrow> bool" where
  "future_inv mv r st \<longleftrightarrow> (case st of (ps, s) \<Rightarrow> mutex_ok (ps, s) \<and> ps \<noteq> [] \<and>
     phase_ok mv r (ps ! 0) (tally dozing ps) (tally woken ps) (length (all_taken ps)) s \<and>
     waiters (ev s) = tally waiting ps \<and>
     taken_ok mv r (all_taken ps) \<and>
     (\<forall>j < length ps. 0 < j \<longrightarrow> getter_ok (ps ! j)))"

lemmas spot_simps = holds_mutex_def dozing_def waiting_def woken_def take_mutex_def store_outcome_def
  unlock_and_signal_one_def waiter_enter_def waiter_leave_def move_out_def Let_def

lemma exec_mutex:
  assumes "mutex_ok (ps, s)" "i < length ps" "future_exec mv i (ps ! i) s = Some (Inr (p', s'))"
  shows "mutex_ok (ps[i := p'], s')"
proof -
  have m: "mtx s = Some j \<longleftrightarrow> j < length ps \<and> holds_mutex (ps ! j)" for j
    using assms(1) by (simp add: mutex_ok_def)
  have mine: "mtx s' = Some i \<longleftrightarrow> holds_mutex p'"
    using assms(2,3) m [of i]
    by (cases "ps ! i") (auto simp: spot_simps res_bind_Inr_iff split: if_splits)
  have "mtx s' = Some j \<longleftrightarrow> mtx s = Some j" if "j \<noteq> i" for j
    using assms(2,3) m [of i] that
    by (cases "ps ! i") (auto simp: spot_simps res_bind_Inr_iff split: if_splits)
  with mine m assms(2) show ?thesis
    by (auto simp: mutex_ok_def nth_list_update)
qed

lemma all_taken_update:
  assumes "i < length ps"
  shows "mset (all_taken (ps[i := p])) + mset (taken (ps ! i)) = mset (all_taken ps) + mset (taken p)"
  using assms by (induction ps arbitrary: i) (auto simp: all_taken_def split: nat.split)

lemma all_taken_same: "i < length ps \<Longrightarrow> taken p = taken (ps ! i) \<Longrightarrow> all_taken (ps[i := p]) = all_taken ps"
  by (simp add: all_taken_def map_update) (metis list_update_id map_update)

lemma taken_ok_more:
  assumes "taken_ok mv (Value v) xs" "mset ys = add_mset ((mv ^^ length xs) v) (mset xs)"
  shows "taken_ok mv (Value v) ys"
proof -
  have "length ys = Suc (length xs)"
    using assms(2) by (metis size_add_mset size_mset)
  then show ?thesis
    using assms by (simp add: taken_ok_def reads_of_def)
qed

lemma setter_run:
  assumes "future_inv mv r (ps, s)" "future_exec mv 0 (ps ! 0) s = Some (Inr (p', s'))"
  shows "future_inv mv r (ps[0 := p'], s')"
proof -
  have n: "0 < length ps" and m: "mutex_ok (ps[0 := p'], s')"
    using assms exec_mutex [of ps s 0 mv p' s'] by (auto simp: future_inv_def)
  have ph: "phase_ok mv r (ps ! 0) (tally dozing ps) (tally woken ps) (length (all_taken ps)) s" and w: "waiters (ev s) = tally waiting ps"
    using assms(1) by (auto simp: future_inv_def)
  have le: "tally dozing ps \<le> tally waiting ps"
    by (rule tally_mono) (simp add: dozing_def waiting_def split: spot.splits)
  have same: "tally f (ps[0 := p']) = tally f ps" if "f p' = f (ps ! 0)" for f
    using tally_update [OF n, of f p'] that by simp
  have zero: "dozing p' = dozing (ps ! 0)" "woken p' = woken (ps ! 0)" "waiting p' = waiting (ps ! 0)"
    "taken p' = taken (ps ! 0)" "getter_ok p' = getter_ok (ps ! 0)"
    using ph assms(2) by (cases "ps ! 0"; auto simp: phase_ok_def taken_def getter_ok_def spot_simps res_bind_Inr_iff split: if_splits)+
  have ph': "phase_ok mv r p' (tally dozing ps) (tally woken ps) (length (all_taken ps)) s'" "waiters (ev s') = waiters (ev s)"
    using ph assms(2) w le
    by (cases "ps ! 0"; auto simp: phase_ok_def remains_def spot_simps res_bind_Inr_iff split: if_splits outcome.splits)+
  show ?thesis
    using assms(1) n m w ph' same [of dozing] same [of woken] same [of waiting] zero all_taken_same [OF n, of p']
    by (auto simp: future_inv_def)
qed

lemma phase_ok_mono:
  assumes "phase_ok mv r p A W K s" "outcome s' = outcome s" "signaled (ev s') = signaled (ev s)"
    and "signaled (ev s) \<Longrightarrow> A' \<le> A \<and> W \<le> W'"
  shows "phase_ok mv r p A' W' K s'"
  using assms by (cases p) (auto simp: phase_ok_def)

text \<open>One more thread moves the value out of the shared state.\<close>

lemma phase_ok_read:
  assumes "phase_ok mv r p A W K s" "outcome s = Value v" "outcome s' = Value (mv v)" "signaled (ev s') = signaled (ev s)"
    and "A' \<le> A" "W \<le> W'"
  shows "phase_ok mv r p A' W' (Suc K) s' \<and> (\<exists>v0. r = Value v0 \<and> v = (mv ^^ K) v0)"
  using assms by (cases p; cases r) (auto simp: phase_ok_def remains_def)

lemma getter_step:
  assumes "future_exec mv i p s = Some (Inr (p', s'))" "getter_ok p"
  shows "getter_ok p'" "signaled (ev s') = signaled (ev s)"
    "signaled (ev s) \<Longrightarrow> dozing p' \<le> dozing p \<and> woken p \<le> woken p'"
    "outcome s' = outcome s \<and> taken p' = taken p \<or>
      (\<exists>v. outcome s = Value v \<and> outcome s' = Value (mv v) \<and> taken p = [] \<and> taken p' = [v] \<and> dozing p' = 0 \<and> woken p \<le> woken p')"
    "waiting p \<le> waiters (ev s) \<Longrightarrow> waiters (ev s') + waiting p = waiters (ev s) + waiting p'"
  using assms by (cases p; auto simp: getter_ok_def taken_def read_outcome_def spot_simps res_bind_Inr_iff
      split: if_splits outcome.splits)+

lemma getter_run:
  assumes "future_inv mv r (ps, s)" "i < length ps" "0 < i" "future_exec mv i (ps ! i) s = Some (Inr (p', s'))"
  shows "future_inv mv r (ps[i := p'], s')"
proof -
  let ?qs = "ps[i := p']"
  have m: "mutex_ok (?qs, s')"
    and ph: "phase_ok mv r (ps ! 0) (tally dozing ps) (tally woken ps) (length (all_taken ps)) s"
    and w: "waiters (ev s) = tally waiting ps" and g: "getter_ok (ps ! i)"
    and k: "taken_ok mv r (all_taken ps)"
    using assms exec_mutex [OF _ assms(2,4)] by (auto simp: future_inv_def)
  note t = tally_update [OF assms(2), of dozing p'] tally_update [OF assms(2), of woken p']
    tally_update [OF assms(2), of waiting p'] tally_le [OF assms(2), of waiting]
  note step = getter_step [OF assms(4) g]
  have "phase_ok mv r (ps ! 0) (tally dozing ?qs) (tally woken ?qs) (length (all_taken ?qs)) s' \<and> taken_ok mv r (all_taken ?qs)"
    using step(4)
  proof (elim disjE exE)
    assume "outcome s' = outcome s \<and> taken p' = taken (ps ! i)"
    then show ?thesis
      using k all_taken_same [OF assms(2), of p'] step(3) t(1,2)
      by (auto intro!: phase_ok_mono [OF ph _ step(2)])
  next
    fix v
    assume v: "outcome s = Value v \<and> outcome s' = Value (mv v) \<and> taken (ps ! i) = [] \<and> taken p' = [v] \<and>
      dozing p' = 0 \<and> woken (ps ! i) \<le> woken p'"
    have q: "mset (all_taken ?qs) = add_mset v (mset (all_taken ps))"
      using all_taken_update [OF assms(2), of p'] v by simp
    then have l: "length (all_taken ?qs) = Suc (length (all_taken ps))"
      by (metis size_add_mset size_mset)
    have "phase_ok mv r (ps ! 0) (tally dozing ?qs) (tally woken ?qs) (Suc (length (all_taken ps))) s' \<and>
        (\<exists>v0. r = Value v0 \<and> v = (mv ^^ length (all_taken ps)) v0)"
      by (rule phase_ok_read [OF ph _ _ step(2)]) (use v t(1,2) in auto)
    then show ?thesis
      using l q k by (auto intro: taken_ok_more)
  qed
  then show ?thesis
    using assms(1-3) m step(1,5) t(3,4) w by (auto simp: future_inv_def nth_list_update)
qed

lemma future_wake_inv:
  assumes "future_inv mv r (ps, s)" "sleeping ps j"
  shows "future_inv mv r (ps[j := Get_again], s)" "tally dozing (ps[j := Get_again]) < tally dozing ps"
    "0 < tally woken (ps[j := Get_again])"
proof -
  have j: "j < length ps" "ps ! j = Get_asleep"
    using assms(2) by (auto simp: sleeping_def)
  note t = tally_update [OF j(1), of dozing Get_again] tally_update [OF j(1), of woken Get_again]
    tally_update [OF j(1), of waiting Get_again]
  have j0: "j \<noteq> 0"
  proof
    assume "j = 0"
    with assms(1) j(2) show False by (simp add: future_inv_def phase_ok_def)
  qed
  have "mutex_ok (ps[j := Get_again], s)"
    using assms(1) j by (auto simp: future_inv_def mutex_ok_def nth_list_update holds_mutex_def)
  moreover have t0: "all_taken (ps[j := Get_again]) = all_taken ps"
    using all_taken_same [OF j(1), of Get_again] j(2) by (simp add: taken_def)
  moreover have "phase_ok mv r (ps ! 0) (tally dozing (ps[j := Get_again])) (tally woken (ps[j := Get_again]))
      (length (all_taken ps)) s"
  proof (rule phase_ok_mono)
    show "phase_ok mv r (ps ! 0) (tally dozing ps) (tally woken ps) (length (all_taken ps)) s"
      using assms(1) by (simp add: future_inv_def)
    show "tally dozing (ps[j := Get_again]) \<le> tally dozing ps \<and> tally woken ps \<le> tally woken (ps[j := Get_again])"
      using t(1,2) j(2) by (simp add: dozing_def woken_def)
  qed simp_all
  ultimately show "future_inv mv r (ps[j := Get_again], s)"
    using assms(1) j j0 t(3) by (auto simp: future_inv_def nth_list_update waiting_def getter_ok_def)
  show "tally dozing (ps[j := Get_again]) < tally dozing ps" "0 < tally woken (ps[j := Get_again])"
    using t(1,2) j(2) by (simp_all add: dozing_def woken_def)
qed

text \<open>The promise leaves its last step when everybody is awake or somebody has been woken.\<close>

lemma setter_leaves:
  assumes "future_inv mv r (ps, s)" "i < length ps" "ps ! i = Set_notify n" "tally dozing ps = 0 \<or> 0 < tally woken ps"
  shows "future_inv mv r (ps[i := Set_done], s)"
proof -
  have i: "i = 0"
  proof (rule ccontr)
    assume "i \<noteq> 0"
    then have "getter_ok (ps ! i)" using assms(1,2) by (simp add: future_inv_def)
    then show False using assms(3) by (simp add: getter_ok_def)
  qed
  have same: "tally f (ps[i := Set_done]) = tally f ps" if "f Set_done = f (Set_notify n)" for f
    using tally_update [OF assms(2), of f Set_done] assms(3) that by simp
  have "mutex_ok (ps[i := Set_done], s)"
    using assms(1-3) by (auto simp: future_inv_def mutex_ok_def nth_list_update holds_mutex_def)
  moreover have "all_taken (ps[i := Set_done]) = all_taken ps"
    using all_taken_same [OF assms(2), of Set_done] assms(3) by (simp add: taken_def)
  moreover have "phase_ok mv r Set_done (tally dozing ps) (tally woken ps) (length (all_taken ps)) s"
    using assms i by (auto simp: future_inv_def phase_ok_def)
  ultimately show ?thesis
    using assms(1,2) i same [of dozing] same [of woken] same [of waiting]
    by (auto simp: future_inv_def dozing_def woken_def waiting_def)
qed

lemma no_sleeper_iff: "(\<nexists>j. sleeping ps j) \<longleftrightarrow> tally dozing ps = 0"
  by (auto simp: sleeping_def tally_zero_iff all_set_conv_all_nth dozing_def split: spot.splits)

lemma future_work_inv:
  assumes "future_work mv st st'" "future_inv mv r st"
  shows "future_inv mv r st'"
  using assms(1)
proof cases
  case (run i ps s p' s')
  then show ?thesis
    using assms(2) setter_run [of mv r ps s p' s'] getter_run [of mv r ps s i p' s'] by (cases "i = 0") auto
next
  case (notify i ps j s)
  then have "i \<noteq> j" by (auto simp: sleeping_def)
  then show ?thesis
    using notify assms(2) future_wake_inv [of mv r ps s j] setter_leaves [of mv r "ps[j := Get_again]" s i One] by simp
next
  case (notify_none i ps s)
  then show ?thesis
    using assms(2) setter_leaves [of mv r ps s i One] no_sleeper_iff [of ps] by auto
next
  case (quiet i ps s)
  then have "i = 0"
    using assms(2) by (cases "i = 0") (auto simp: future_inv_def getter_ok_def)
  then have "tally dozing ps = 0"
    using quiet assms(2) by (auto simp: future_inv_def phase_ok_def)
  then show ?thesis
    using quiet assms(2) setter_leaves [of mv r ps s i Nobody] by auto
qed

lemma future_reachable_inv: "future_reachable mv r st \<Longrightarrow> future_inv mv r st"
proof (induction rule: future_reachable.induct)
  case (init n)
  show ?case
    by (auto simp: future_inv_def mutex_ok_def phase_ok_def new_shared_state_def new_event_def holds_mutex_def
        nth_Cons tally_def waiting_def getter_ok_def sum_list_replicate
        all_taken_def taken_def taken_ok_def reads_of_def split: nat.splits outcome.splits)
qed (auto intro: future_work_inv future_wake_inv)

section \<open>Every getter is served\<close>

definition distance :: "('v, 'c) spot \<Rightarrow> nat" where
  "distance p = (case p of
      Set_lock r \<Rightarrow> 8 | Set_hold r \<Rightarrow> 7 | Set_unlock n \<Rightarrow> 6 | Set_notify n \<Rightarrow> 5 | Set_done \<Rightarrow> 0 | Set_unwind \<Rightarrow> 1 | Set_failed \<Rightarrow> 0
    | Get_lock \<Rightarrow> 6 | Get_hold \<Rightarrow> 5 | Get_again \<Rightarrow> 4 | Get_loop \<Rightarrow> 3 | Get_unlock v \<Rightarrow> 1 | Got v \<Rightarrow> 0 | Get_asleep \<Rightarrow> 0)"

lemma exec_distance:
  "future_exec mv i p s = Some (Inr (p', s')) \<Longrightarrow> distance p' < distance p"
  by (cases p) (auto simp: distance_def spot_simps res_bind_Inr_iff split: if_splits)

lemma distances:
  "distance Get_asleep = 0" "distance Get_again = 4" "distance (Set_notify n) = 5" "distance Set_done = 0"
  by (simp_all add: distance_def)

lemma future_work_distance: "future_work mv st st' \<Longrightarrow> tally distance (fst st') < tally distance (fst st)"
proof (induction rule: future_work.induct)
  case (run i ps s p' s')
  then show ?case using tally_update [of i ps distance p'] exec_distance [of mv i "ps ! i" s p' s'] by simp
next
  case (notify i ps j s)
  then have j: "j < length ps" "ps ! j = Get_asleep" "i \<noteq> j" by (auto simp: sleeping_def)
  then show ?case
    using tally_update [of j ps distance Get_again] tally_update [of i "ps[j := Get_again]" distance Set_done] notify
    by (simp add: distances)
next
  case (notify_none i ps s)
  then show ?case using tally_update [of i ps distance Set_done] by (simp add: distances)
next
  case (quiet i ps s)
  then show ?case using tally_update [of i ps distance Set_done] by (simp add: distances)
qed

lemma future_no_fault:
  assumes "future_inv mv (Value v) (ps, s)" "i < length ps"
  shows "future_exec mv i (ps ! i) s \<noteq> Some (Inl e)"
proof (cases "i = 0")
  case True
  then show ?thesis
    using assms(1) by (cases "ps ! 0") (auto simp: future_inv_def phase_ok_def spot_simps)
next
  case False
  have "getter_ok (ps ! i)" "phase_ok mv (Value v) (ps ! 0) (tally dozing ps) (tally woken ps) (length (all_taken ps)) s"
    using assms False by (auto simp: future_inv_def)
  then show ?thesis
    by (cases "ps ! i"; cases "ps ! 0") (auto simp: getter_ok_def phase_ok_def remains_def read_outcome_def spot_simps split: if_splits)
qed

lemma stuck_free:
  assumes "future_inv mv (Value v) (ps, s)" "\<nexists>st'. future_work mv (ps, s) st'"
  shows "i < length ps \<Longrightarrow> future_exec mv i (ps ! i) s = None" "mtx s = None"
proof -
  show n: "future_exec mv i (ps ! i) s = None" if "i < length ps" for i
    using future_no_fault [OF assms(1) that] future_work.run [OF that, of mv s] assms(2)
    by (metis not_Some_eq prod.exhaust sum.exhaust)
  show "mtx s = None"
  proof (rule ccontr)
    assume "mtx s \<noteq> None"
    then obtain i where "i < length ps" "holds_mutex (ps ! i)"
      using assms(1) by (auto simp: future_inv_def mutex_ok_def)
    with n [of i] show False
      by (cases "ps ! i") (auto simp: holds_mutex_def split: if_splits)
  qed
qed

lemma stuck_spots:
  assumes "future_inv mv (Value v) (ps, s)" "\<nexists>st'. future_work mv (ps, s) st'"
  shows "ps ! 0 = Set_done" "j < length ps \<Longrightarrow> 0 < j \<Longrightarrow> (\<exists>w. ps ! j = Got w) \<or> ps ! j = Get_asleep"
proof -
  note f = stuck_free [OF assms]
  have p0: "0 < length ps" "phase_ok mv (Value v) (ps ! 0) (tally dozing ps) (tally woken ps) (length (all_taken ps)) s"
    using assms(1) by (auto simp: future_inv_def)
  have "ps ! 0 \<noteq> Set_notify n" if "n \<noteq> All" for n
    using future_work.notify [OF p0(1)] future_work.notify_none [OF p0(1)] future_work.quiet [OF p0(1)] assms(2) that
    by (cases n) blast+
  then show "ps ! 0 = Set_done"
    using p0(2) f(1) [OF p0(1)] f(2) by (cases "ps ! 0") (auto simp: phase_ok_def take_mutex_def)
  assume j: "j < length ps" "0 < j"
  then have "getter_ok (ps ! j)"
    using assms(1) by (auto simp: future_inv_def)
  then show "(\<exists>w. ps ! j = Got w) \<or> ps ! j = Get_asleep"
    using f(1) [OF j(1)] f(2) by (cases "ps ! j") (auto simp: getter_ok_def take_mutex_def split: if_splits)
qed

text \<open>Somebody is the first to move the value out, if anybody moves anything out.\<close>

lemma first_taker:
  assumes "future_inv mv (Value v) (ps, s)" "i < length ps" "taken (ps ! i) \<noteq> []"
  shows "\<exists>j < length ps. taken (ps ! j) = [v]"
proof -
  have k: "mset (all_taken ps) = mset (reads_of mv v (length (all_taken ps)))"
    using assms(1) by (simp add: future_inv_def taken_ok_def)
  have "taken (ps ! i) \<in> set (map taken ps)"
    using assms(2) by auto
  then have "all_taken ps \<noteq> []"
    using assms(3) by (auto simp: all_taken_def)
  then have "v \<in> set (reads_of mv v (length (all_taken ps)))"
    by (auto simp: reads_of_def image_iff intro!: bexI [of _ 0])
  then have "v \<in> set (all_taken ps)"
    using k by (metis set_mset_mset)
  then obtain p where "p \<in> set ps" "v \<in> set (taken p)"
    by (auto simp: all_taken_def)
  moreover from this have "taken p = [v]"
    by (auto simp: taken_def split: spot.splits)
  ultimately show ?thesis
    by (auto simp: in_set_conv_nth)
qed

lemma somebody_served:
  assumes "future_inv mv (Value v) (ps, s)" "\<nexists>st'. future_work mv (ps, s) st'" "1 < length ps"
  shows "\<exists>j < length ps. 0 < j \<and> ps ! j = Got v"
proof -
  have "\<exists>i < length ps. 0 < i \<and> (\<exists>w. ps ! i = Got w)"
  proof (cases "\<exists>w. ps ! 1 = Got w")
    case False
    then have "0 < tally dozing ps"
      using stuck_spots(2) [OF assms(1,2), of 1] assms(3) tally_le [of 1 ps dozing] by (simp add: dozing_def)
    then have "0 < tally woken ps"
      using stuck_spots(1) [OF assms(1,2)] assms(1) by (simp add: future_inv_def phase_ok_def)
    then obtain j where j: "j < length ps" "0 < woken (ps ! j)"
      using tally_positive by blast
    moreover have "0 < j"
      using j(2) stuck_spots(1) [OF assms(1,2)] by (cases "j = 0") (auto simp: woken_def)
    ultimately show ?thesis
      using stuck_spots(2) [OF assms(1,2), of j] by (auto simp: woken_def)
  qed (use assms(3) in auto)
  then obtain i w where "i < length ps" "ps ! i = Got w"
    by blast
  then have "taken (ps ! i) \<noteq> []"
    by (simp add: taken_def)
  then obtain j where j: "j < length ps" "taken (ps ! j) = [v]"
    using first_taker [OF assms(1) \<open>i < length ps\<close>] by blast
  then have "0 < j"
    using stuck_spots(1) [OF assms(1,2)] by (cases "j = 0") (auto simp: taken_def)
  then show ?thesis
    using j stuck_spots(2) [OF assms(1,2), of j] by (auto simp: taken_def)
qed

text \<open>
  C15. A promise delivers its value once: in every schedule of one thread whose \<open>set_value\<close> constructs the
  value \<open>v\<close> and any number of threads that call \<open>get\<close> (on copies of the future), no assertion fails, and the
  threads come to rest after finitely many steps (if sleepers are woken only by notifications). Each
  \<open>get\<close> moves the value out of the shared state: the values moved out so far are \<open>v\<close>, its moved-from
  state, the moved-from state of that, and so on, each of them by exactly one thread. At rest the
  promise is set, one \<open>get\<close> has returned \<open>v\<close>, and if there is just one it is the one; the others have
  returned a moved-from value or sleep.
\<close>

theorem future_delivers:
  assumes "future_reachable mv (Value v) (ps, s)"
  shows "(\<forall>i < length ps. \<forall>e. future_exec mv i (ps ! i) s \<noteq> Some (Inl e)) \<and>
    mset (all_taken ps) = mset (map (\<lambda>k. (mv ^^ k) v) [0..<length (all_taken ps)]) \<and>
    wf {(st', st :: ('v, 'c) future_state). future_work mv st st'} \<and>
    ((\<nexists>st'. future_work mv (ps, s) st') \<longrightarrow> ps ! 0 = Set_done \<and>
       (1 < length ps \<longrightarrow> (\<exists>j < length ps. ps ! j = Got v)) \<and> (length ps = 2 \<longrightarrow> ps ! 1 = Got v) \<and>
       (\<forall>j < length ps. 0 < j \<longrightarrow> (\<exists>w. ps ! j = Got w) \<or> ps ! j = Get_asleep))"
proof (intro conjI allI impI)
  note inv = future_reachable_inv [OF assms]
  show "future_exec mv i (ps ! i) s \<noteq> Some (Inl e)" if "i < length ps" for i e
    by (rule future_no_fault [OF inv that])
  show "mset (all_taken ps) = mset (map (\<lambda>k. (mv ^^ k) v) [0..<length (all_taken ps)])"
    using inv by (simp add: future_inv_def taken_ok_def reads_of_def)
  show "wf {(st', st :: ('v, 'c) future_state). future_work mv st st'}"
    by (rule wf_subset [OF wf_measure [of "\<lambda>st. tally distance (fst st)"]]) (auto dest: future_work_distance)
next
  note inv = future_reachable_inv [OF assms]
  assume st: "\<nexists>st'. future_work mv (ps, s) st'"
  show "ps ! 0 = Set_done"
    by (rule stuck_spots(1) [OF inv st])
  show "\<exists>j < length ps. ps ! j = Got v" if "1 < length ps"
    using somebody_served [OF inv st that] by blast
  show "ps ! 1 = Got v" if two: "length ps = 2"
  proof -
    obtain j where "j < length ps" "0 < j" "ps ! j = Got v"
      using somebody_served [OF inv st] two by auto
    then show ?thesis using two by (cases "j = 1") auto
  qed
  show "(\<exists>w. ps ! j = Got w) \<or> ps ! j = Get_asleep" if "j < length ps" "0 < j" for j
    by (rule stuck_spots(2) [OF inv st that])
qed

text \<open>Without a value in the shared state there is nothing to take.\<close>

lemma nothing_taken:
  assumes "future_inv mv r (ps, s)" "\<And>v. r \<noteq> Value v" "i < length ps"
  shows "taken (ps ! i) = []"
proof -
  have "all_taken ps = []"
    using assms(1,2) by (cases r) (auto simp: future_inv_def taken_ok_def)
  then show ?thesis
    using assms(3) by (auto simp: all_taken_def)
qed

text \<open>
  C37. An error never reaches the caller of \<open>get\<close>: if the promise is set to an error, no \<open>get\<close> ever
  returns, and every one that gets to read the outcome runs into the assertion that marks the end of
  \<open>shared_state::get\<close> as unreachable, instead of throwing \<open>system_error\<close>.
\<close>

theorem future_error_aborts:
  assumes "future_reachable mv (Error c) (ps, s)" "i < length ps" "0 < i"
  shows "(\<forall>v. ps ! i \<noteq> Got v \<and> ps ! i \<noteq> Get_unlock v) \<and>
    (signaled (ev s) \<and> (ps ! i = Get_hold \<or> ps ! i = Get_loop) \<longrightarrow>
       future_exec mv i (ps ! i) s = Some (Inl Unreachable_executed))"
proof -
  note inv = future_reachable_inv [OF assms(1)]
  have ph: "phase_ok mv (Error c) (ps ! 0) (tally dozing ps) (tally woken ps) (length (all_taken ps)) s"
    using inv by (auto simp: future_inv_def)
  then have o: "signaled (ev s) \<Longrightarrow> outcome s = Error c"
    by (auto simp: phase_ok_def remains_def split: spot.splits)
  show ?thesis
    using nothing_taken [OF inv _ assms(2)] o by (auto simp: taken_def read_outcome_def move_out_def)
qed

lemma future_valueless_inv:
  assumes "future_reachable mv Valueless (ps, s)"
  shows "future_inv mv Valueless (ps, s)"
    "\<not> signaled (ev s) \<and> (outcome s = Valueless \<or> (\<exists>r. ps ! 0 = Set_lock r \<or> ps ! 0 = Set_hold r))"
proof -
  show inv: "future_inv mv Valueless (ps, s)"
    by (rule future_reachable_inv [OF assms])
  have "phase_ok mv Valueless (ps ! 0) (tally dozing ps) (tally woken ps) (length (all_taken ps)) s"
    using inv by (simp add: future_inv_def)
  then show "\<not> signaled (ev s) \<and> (outcome s = Valueless \<or> (\<exists>r. ps ! 0 = Set_lock r \<or> ps ! 0 = Set_hold r))"
    by (cases "ps ! 0") (auto simp: phase_ok_def)
qed

text \<open>
  When the constructor that \<open>set_value\<close> calls throws, nobody is signalled: a thread that waits in \<open>get\<close>
  keeps waiting, and one that comes later finds no value, and asking for the index of the variant fails an assertion.
\<close>

lemma future_constructor_throws:
  assumes "future_reachable mv Valueless (ps, s)" "i < length ps" "0 < i"
  shows "\<not> signaled (ev s) \<and> (\<forall>v. ps ! i \<noteq> Got v \<and> ps ! i \<noteq> Get_unlock v) \<and>
    (ps ! 0 = Set_failed \<and> ps ! i = Get_hold \<longrightarrow> future_exec mv i (ps ! i) s = Some (Inl Assertion_failed))"
proof -
  note inv = future_valueless_inv [OF assms(1)]
  show ?thesis
    using nothing_taken [OF inv(1) _ assms(2)] inv(2)
    by (auto simp: taken_def read_outcome_def move_out_def)
qed

section \<open>Runs\<close>

text \<open>A schedule given as the list of threads that take a step; a notification wakes the first sleeper.\<close>

definition future_turn :: "('v \<Rightarrow> 'v) \<Rightarrow> nat \<Rightarrow> ('v, 'c) future_state \<Rightarrow> ('v, 'c) future_state option" where
  "future_turn mv i st = (case st of (ps, s) \<Rightarrow>
     if i < length ps
     then (case ps ! i of
             Set_notify n \<Rightarrow>
               (case List.find (sleeping ps) [0..<length ps] of
                  Some j \<Rightarrow> if n = One then Some (ps[j := Get_again, i := Set_done], s) else None
                | None \<Rightarrow> if n \<noteq> All then Some (ps[i := Set_done], s) else None)
           | p \<Rightarrow> (case future_exec mv i p s of Some (Inr (p', s')) \<Rightarrow> Some (ps[i := p'], s') | _ \<Rightarrow> None))
     else None)"

fun future_schedule :: "('v \<Rightarrow> 'v) \<Rightarrow> nat list \<Rightarrow> ('v, 'c) future_state \<Rightarrow> ('v, 'c) future_state option" where
  "future_schedule mv [] st = Some st"
| "future_schedule mv (i # is) st = (case future_turn mv i st of None \<Rightarrow> None | Some st' \<Rightarrow> future_schedule mv is st')"

lemma future_turn_work:
  assumes "future_turn mv i (ps, s) = Some st'"
  shows "future_work mv (ps, s) st'"
proof -
  have i: "i < length ps"
    using assms by (simp add: future_turn_def split: if_splits)
  show ?thesis
  proof (cases "\<exists>n. ps ! i = Set_notify n")
    case True
    then obtain n where n: "ps ! i = Set_notify n" by blast
    show ?thesis
    proof (cases "List.find (sleeping ps) [0..<length ps]")
      case None
      then have none: "\<nexists>j. sleeping ps j"
        by (auto simp: find_None_iff sleeping_def)
      from None show ?thesis
        using assms i n future_work.notify_none [OF i _ none, of mv s] future_work.quiet [OF i, of mv s]
        by (cases n) (simp_all add: future_turn_def)
    next
      case (Some j)
      then have "sleeping ps j"
        by (auto simp: find_Some_iff)
      with Some show ?thesis
        using assms i n future_work.notify [OF i, of j mv s] by (simp add: future_turn_def split: if_splits)
    qed
  next
    case False
    with i have "future_turn mv i (ps, s) =
        (case future_exec mv i (ps ! i) s of Some (Inr (p', s')) \<Rightarrow> Some (ps[i := p'], s') | _ \<Rightarrow> None)"
      by (cases "ps ! i") (simp_all add: future_turn_def)
    with assms have "\<exists>p' s'. future_exec mv i (ps ! i) s = Some (Inr (p', s')) \<and> st' = (ps[i := p'], s')"
      by (auto split: option.splits sum.splits)
    then show ?thesis
      using future_work.run [OF i] by blast
  qed
qed

lemma future_schedule_reachable:
  assumes "future_schedule mv is st = Some st'" "future_reachable mv r st"
  shows "future_reachable mv r st'"
  using assms
proof (induction "is" arbitrary: st)
  case (Cons i "is")
  obtain ps s where "st = (ps, s)" by (cases st)
  with Cons show ?case
    using future_turn_work [of mv i ps s] by (auto split: option.splits intro: future_reachable.work)
qed simp

lemmas future_run_simps = future_turn_def sleeping_def new_shared_state_def new_event_def take_mutex_def store_outcome_def
  unlock_and_signal_one_def waiter_enter_def waiter_leave_def read_outcome_def move_out_def upt_rec

text \<open>
  Two threads sleep in \<open>get\<close> when the value comes: one is woken and returns it, the other one sleeps on. A
  third thread that comes later gets what the first one has left.
\<close>

lemma three_getters:
  "future_schedule mv [1, 1, 1, 2, 2, 2, 0, 0, 0, 0, 1, 1, 1, 3, 3, 3]
      (Set_lock (Value v) # replicate 3 Get_lock, new_shared_state) =
    Some ([Set_done, Got v, Get_asleep, Got (mv v)],
      \<lparr>mtx = None, ev = \<lparr>signaled = True, waiters = 1\<rparr>, outcome = Value (mv (mv v))\<rparr>)"
  by (simp add: future_run_simps numeral_2_eq_2 numeral_3_eq_3)

lemma second_getter_hangs:
  "\<nexists>st'. future_work mv ([Set_done, Got v, Get_asleep, Got w], \<lparr>mtx = None, ev = e, outcome = r\<rparr>) st'"
  by (auto elim!: future_workE simp: less_Suc_eq)

theorem future_delivers_witness:
  "\<exists>(ps :: (int, int) spot list) s. future_reachable (\<lambda>_. 0) (Value 5) (ps, s) \<and>
    (\<nexists>st'. future_work (\<lambda>_. 0) (ps, s) st') \<and> ps = [Set_done, Got 5, Get_asleep, Got 0] \<and>
    mset (all_taken ps) = {#5, 0#} \<and> (\<exists>j < length ps. ps ! j = Got 5)"
proof -
  let ?ps = "[Set_done, Got 5, Get_asleep, Got 0] :: (int, int) spot list"
  let ?s = "\<lparr>mtx = None, ev = \<lparr>signaled = True, waiters = 1\<rparr>, outcome = Value 0\<rparr> :: (int, int) shared_state"
  have r: "future_reachable (\<lambda>_. 0) (Value 5) (?ps, ?s)"
    by (rule future_schedule_reachable [OF three_getters future_reachable.init])
  have "\<exists>j < length ?ps. ?ps ! j = Got 5" "mset (all_taken ?ps) = {#5, 0#}"
    using future_delivers [OF r] second_getter_hangs [of "\<lambda>_. 0"] by (auto simp: all_taken_def taken_def upt_rec)
  with r second_getter_hangs [of "\<lambda>_. 0"] show ?thesis
    by (intro exI [of _ ?ps] exI [of _ ?s]) simp
qed

theorem future_error_aborts_witness:
  "future_schedule id [0, 0, 0, 0, 1] (Set_lock (Error 2) # replicate 1 Get_lock :: (int, int) spot list, new_shared_state) =
     Some ([Set_done, Get_hold], \<lparr>mtx = Some 1, ev = \<lparr>signaled = True, waiters = 0\<rparr>, outcome = Error 2\<rparr>) \<and>
   future_exec id 1 (Get_hold :: (int, int) spot) \<lparr>mtx = Some 1, ev = \<lparr>signaled = True, waiters = 0\<rparr>, outcome = Error 2\<rparr> =
     Some (Inl Unreachable_executed)"
proof -
  let ?s = "\<lparr>mtx = Some 1, ev = \<lparr>signaled = True, waiters = 0\<rparr>, outcome = Error 2\<rparr> :: (int, int) shared_state"
  have run: "future_schedule id [0, 0, 0, 0, 1] (Set_lock (Error 2) # replicate 1 Get_lock, new_shared_state) =
      Some ([Set_done, Get_hold], ?s)"
    by (simp add: future_run_simps)
  from future_error_aborts [OF future_schedule_reachable [OF run future_reachable.init], of 1] run show ?thesis
    by simp
qed

end
