(* ===== verification/Futex_Condition.thy ===== *)
theory Futex_Condition
  imports Futex_Mutex
begin

text \<open>
  The condition variable built on futexes (\<open>detail/futex_condition_variable.hpp\<close>,
  \<open>detail/impl/futex_condition_variable.ipp\<close>) in the program it is made for: threads that wait until a
  flag is set, and one that sets it and notifies them. Every atomic operation and system call is one
  step; of the mutex only who may take it matters (\<open>Futex_Mutex\<close> shows that it excludes and hands over).
\<close>

section \<open>Code and steps\<close>

text \<open>
  A waiting thread locks the mutex, tests the flag, and calls \<open>wait\<close> until it is set: the exchange that
  takes a notification, which may fail without reason, then unlocking, the system call, the reset of
  the word, and locking again.
\<close>

datatype wait_place =
    Enter | Test | Take | Unlock | Fwait | Sleeping | Reset | Relock | Leave | Done

datatype notify_place = N_lock | N_set | N_unlock | N_store | N_wake | N_done

record condition =
  waiters :: "wait_place list"
  notifier :: notify_place
  fut :: "32 word"
  taken :: bool
  ready_flag :: bool

text \<open>
  What a thread in \<open>wait\<close> does next, from the word and whether the mutex is taken: the next place, the
  word, and whether the mutex is taken afterwards. \<open>fails\<close> is a failure of the weak exchange for no reason.
\<close>

fun wait_exec :: "bool \<Rightarrow> wait_place \<Rightarrow> 32 word \<Rightarrow> bool \<Rightarrow> (wait_place \<times> 32 word \<times> bool) option" where
  "wait_exec fails Take w m =
     (case exchange_word w 1 0 of
        (True, w') \<Rightarrow> if fails then Some (Unlock, w, m) else Some (Test, w', m)
      | (False, w') \<Rightarrow> Some (Unlock, w', m))"
| "wait_exec fails Unlock w m = Some (Fwait, w, False)"
| "wait_exec fails Fwait w m = Some (if w = 0 then Sleeping else Reset, w, m)"
| "wait_exec fails Reset w m = Some (Relock, 0, m)"
| "wait_exec fails Relock w m = (if m then None else Some (Test, w, True))"
| "wait_exec fails p w m = None"

fun waiter_exec :: "bool \<Rightarrow> bool \<Rightarrow> wait_place \<Rightarrow> 32 word \<Rightarrow> bool \<Rightarrow> (wait_place \<times> 32 word \<times> bool) option" where
  "waiter_exec fails flag Enter w m = (if m then None else Some (Test, w, True))"
| "waiter_exec fails flag Test w m = Some (if flag then Leave else Take, w, m)"
| "waiter_exec fails flag Leave w m = Some (Done, w, False)"
| "waiter_exec fails flag p w m = wait_exec fails p w m"

fun notifier_exec :: "notify_place \<Rightarrow> 32 word \<Rightarrow> bool \<Rightarrow> bool \<Rightarrow> (notify_place \<times> 32 word \<times> bool \<times> bool) option" where
  "notifier_exec N_lock w m flag = (if m then None else Some (N_set, w, True, flag))"
| "notifier_exec N_set w m flag = Some (N_unlock, w, m, True)"
| "notifier_exec N_unlock w m flag = Some (N_store, w, False, flag)"
| "notifier_exec N_store w m flag = Some (N_wake, 1, m, flag)"
| "notifier_exec p w m flag = None"

definition sleeping :: "wait_place list \<Rightarrow> nat set" where
  "sleeping ps = {i. i < length ps \<and> ps ! i = Sleeping}"

definition awaken :: "nat set \<Rightarrow> wait_place list \<Rightarrow> wait_place list" where
  "awaken S ps = map (\<lambda>i. if i \<in> S then Reset else ps ! i) [0..<length ps]"

text \<open>\<open>notify_one\<close> asks the kernel to wake 1 thread, \<open>notify_all\<close> as many as an \<open>int\<close> can count.\<close>

definition notify_one :: nat where
  "notify_one = 1"

definition notify_all :: nat where
  "notify_all = 2 ^ 31 - 1"

inductive cv_step :: "kernel \<Rightarrow> nat \<Rightarrow> condition \<Rightarrow> condition \<Rightarrow> bool" for kw n where
  waiter: "i < length (waiters s) \<Longrightarrow> waiter_exec fails (ready_flag s) (waiters s ! i) (fut s) (taken s) = Some (p, w, m) \<Longrightarrow>
    cv_step kw n s (s\<lparr>waiters := (waiters s)[i := p], fut := w, taken := m\<rparr>)"
| notifier: "notifier_exec (notifier s) (fut s) (taken s) (ready_flag s) = Some (p, w, m, f) \<Longrightarrow>
    cv_step kw n s (s\<lparr>notifier := p, fut := w, taken := m, ready_flag := f\<rparr>)"
| wake: "notifier s = N_wake \<Longrightarrow> kw (sleeping (waiters s)) n S \<Longrightarrow>
    cv_step kw n s (s\<lparr>notifier := N_done, waiters := awaken S (waiters s)\<rparr>)"

text \<open>A sleeper may also be woken for no reason.\<close>

inductive cv_reachable :: "kernel \<Rightarrow> nat \<Rightarrow> nat \<Rightarrow> condition \<Rightarrow> bool" for kw n k where
  init: "cv_reachable kw n k \<lparr>waiters = replicate k Enter, notifier = N_lock, fut = 0, taken = False, ready_flag = False\<rparr>"
| step: "cv_reachable kw n k s \<Longrightarrow> cv_step kw n s s' \<Longrightarrow> cv_reachable kw n k s'"
| spurious: "cv_reachable kw n k s \<Longrightarrow> i < length (waiters s) \<Longrightarrow> waiters s ! i = Sleeping \<Longrightarrow>
    cv_reachable kw n k (s\<lparr>waiters := (waiters s)[i := Reset]\<rparr>)"

inductive_cases cv_stepE [consumes 1, case_names waiter notifier wake]: "cv_step kw n s s'"

section \<open>One waiter\<close>

definition holding_mutex :: "wait_place \<Rightarrow> bool" where
  "holding_mutex p \<longleftrightarrow> p = Test \<or> p = Take \<or> p = Unlock \<or> p = Leave"

definition notifier_holds :: "notify_place \<Rightarrow> bool" where
  "notifier_holds p \<longleftrightarrow> p = N_set \<or> p = N_unlock"

definition stored :: "notify_place \<Rightarrow> bool" where
  "stored p \<longleftrightarrow> p = N_wake \<or> p = N_done"

text \<open>
  The waiter decides to wait before the flag is set, so that the word is stored after it has released the
  mutex; and only the waiter itself clears the word.
\<close>

definition one_waiter_inv :: "condition \<Rightarrow> bool" where
  "one_waiter_inv s \<longleftrightarrow> (\<exists>p. waiters s = [p] \<and>
     taken s = (holding_mutex p \<or> notifier_holds (notifier s)) \<and> \<not> (holding_mutex p \<and> notifier_holds (notifier s)) \<and>
     ready_flag s = (notifier s \<noteq> N_lock \<and> notifier s \<noteq> N_set) \<and>
     (fut s \<noteq> 0 \<longrightarrow> stored (notifier s)) \<and>
     (p = Take \<or> p = Unlock \<longrightarrow> notifier s = N_lock) \<and>
     (p = Fwait \<and> stored (notifier s) \<longrightarrow> fut s \<noteq> 0) \<and>
     (p = Sleeping \<longrightarrow> notifier s \<noteq> N_done) \<and>
     (p = Leave \<or> p = Done \<longrightarrow> ready_flag s))"

lemma one_waiter_inv_iff:
  assumes "waiters s = [p]"
  shows "one_waiter_inv s \<longleftrightarrow>
     taken s = (holding_mutex p \<or> notifier_holds (notifier s)) \<and> \<not> (holding_mutex p \<and> notifier_holds (notifier s)) \<and>
     ready_flag s = (notifier s \<noteq> N_lock \<and> notifier s \<noteq> N_set) \<and>
     (fut s \<noteq> 0 \<longrightarrow> stored (notifier s)) \<and>
     (p = Take \<or> p = Unlock \<longrightarrow> notifier s = N_lock) \<and>
     (p = Fwait \<and> stored (notifier s) \<longrightarrow> fut s \<noteq> 0) \<and>
     (p = Sleeping \<longrightarrow> notifier s \<noteq> N_done) \<and>
     (p = Leave \<or> p = Done \<longrightarrow> ready_flag s)"
  unfolding one_waiter_inv_def assms by simp

lemma one_waiter:
  assumes "one_waiter_inv s"
  obtains p where "waiters s = [p]"
  using assms unfolding one_waiter_inv_def by blast

lemmas cv_places = holding_mutex_def notifier_holds_def stored_def

lemma waiter_inv:
  assumes "one_waiter_inv s" "waiters s = [p]" "waiter_exec fails (ready_flag s) p (fut s) (taken s) = Some (p', w, m)"
  shows "one_waiter_inv (s\<lparr>waiters := [p'], fut := w, taken := m\<rparr>)"
  using assms
  by (cases p) (auto simp: one_waiter_inv_iff cv_places exchange_word_def split: if_splits)

lemma notifier_inv:
  assumes "one_waiter_inv s" "notifier_exec (notifier s) (fut s) (taken s) (ready_flag s) = Some (p, w, m, f)"
  shows "one_waiter_inv (s\<lparr>notifier := p, fut := w, taken := m, ready_flag := f\<rparr>)"
proof -
  obtain q where q: "waiters s = [q]"
    using one_waiter [OF assms(1)] .
  show ?thesis
    using assms q by (cases "notifier s") (auto simp: one_waiter_inv_iff cv_places split: if_splits)
qed

lemma awaken_one:
  assumes "wake_contract kw" "0 < n" "kw (sleeping [p]) n S"
  shows "awaken S [p] = [if p = Sleeping then Reset else p]"
proof -
  have "finite (sleeping [p])"
    by (simp add: sleeping_def)
  then have "S \<subseteq> sleeping [p]" "sleeping [p] \<noteq> {} \<longrightarrow> S \<noteq> {}"
    using spec [OF spec [OF assms(1) [unfolded wake_contract_def]], of "sleeping [p]" n] assms(2,3) by simp_all
  moreover have "sleeping [p] = (if p = Sleeping then {0} else {})"
    by (auto simp: sleeping_def)
  ultimately show ?thesis
    by (auto simp: awaken_def split: if_splits)
qed

lemma wake_one_inv:
  assumes "one_waiter_inv s" "notifier s = N_wake" "wake_contract kw" "0 < n" "kw (sleeping (waiters s)) n S"
  shows "one_waiter_inv (s\<lparr>notifier := N_done, waiters := awaken S (waiters s)\<rparr>)"
proof -
  obtain p where p: "waiters s = [p]"
    using one_waiter [OF assms(1)] .
  show ?thesis
    using assms(1,2) awaken_one [OF assms(3,4), of p S] assms(5) p
    by (auto simp: one_waiter_inv_iff cv_places)
qed

lemma cv_step_inv:
  assumes "cv_step kw n s s'" "one_waiter_inv s" "wake_contract kw" "0 < n"
  shows "one_waiter_inv s'"
  using assms(1)
proof (cases rule: cv_stepE)
  case (waiter i fails p w m)
  obtain p0 where "waiters s = [p0]"
    using one_waiter [OF assms(2)] .
  then show ?thesis
    using waiter waiter_inv [OF assms(2), of p0 fails p w m] by simp
next
  case (notifier p w m f)
  then show ?thesis
    using notifier_inv [OF assms(2)] by simp
next
  case (wake S)
  then show ?thesis
    using wake_one_inv [OF assms(2) _ assms(3,4)] by simp
qed

lemma spurious_inv:
  assumes "one_waiter_inv s" "i < length (waiters s)" "waiters s ! i = Sleeping"
  shows "one_waiter_inv (s\<lparr>waiters := (waiters s)[i := Reset]\<rparr>)"
proof -
  obtain p where p: "waiters s = [p]"
    using one_waiter [OF assms(1)] .
  then show ?thesis
    using assms by (auto simp: one_waiter_inv_iff cv_places)
qed

lemma cv_reachable_inv:
  assumes "cv_reachable kw n 1 s" "wake_contract kw" "0 < n"
  shows "one_waiter_inv s"
  using assms(1)
proof (induction rule: cv_reachable.induct)
  case init
  show ?case
    by (simp add: one_waiter_inv_iff cv_places)
next
  case (step s s')
  show ?case
    by (rule cv_step_inv [OF step.hyps(2) step.IH assms(2,3)])
next
  case (spurious s i)
  show ?case
    by (rule spurious_inv [OF spurious.IH spurious.hyps(2,3)])
qed

text \<open>The steps of one waiter and the notifier, as long as nothing wakes the waiter for no reason.\<close>

definition waiter_rank :: "bool \<Rightarrow> wait_place \<Rightarrow> nat" where
  "waiter_rank flag p = (case p of Enter \<Rightarrow> 14 | Test \<Rightarrow> if flag then 2 else 10 | Take \<Rightarrow> 9 | Unlock \<Rightarrow> 8 | Fwait \<Rightarrow> 7
     | Sleeping \<Rightarrow> 6 | Reset \<Rightarrow> if flag then 4 else 12 | Relock \<Rightarrow> if flag then 3 else 11 | Leave \<Rightarrow> 1 | Done \<Rightarrow> 0)"

definition notifier_rank :: "notify_place \<Rightarrow> nat" where
  "notifier_rank p = (case p of N_lock \<Rightarrow> 5 | N_set \<Rightarrow> 4 | N_unlock \<Rightarrow> 3 | N_store \<Rightarrow> 2 | N_wake \<Rightarrow> 1 | N_done \<Rightarrow> 0)"

definition cv_rank :: "condition \<Rightarrow> nat" where
  "cv_rank s = tally (waiter_rank (ready_flag s)) (waiters s) + notifier_rank (notifier s)"

lemma cv_step_decreases:
  assumes "cv_step kw n s s'" "one_waiter_inv s" "wake_contract kw" "0 < n"
  shows "cv_rank s' < cv_rank s"
proof -
  obtain p where p: "waiters s = [p]"
    using one_waiter [OF assms(2)] .
  show ?thesis
    using assms(1)
  proof (cases rule: cv_stepE)
    case (waiter i fails p' w m)
    then show ?thesis
      using p assms(2)
      by (cases p) (auto simp: cv_rank_def tally_def one_waiter_inv_iff waiter_rank_def exchange_word_def
          stored_def split: if_splits)
  next
    case (notifier p' w m f)
    then show ?thesis
      using p assms(2)
      by (cases "notifier s"; cases p) (auto simp: cv_rank_def tally_def one_waiter_inv_iff notifier_rank_def waiter_rank_def
          split: if_splits)
  next
    case (wake S)
    then show ?thesis
      using p assms(2) awaken_one [OF assms(3,4), of p S]
      by (auto simp: cv_rank_def tally_def one_waiter_inv_iff notifier_rank_def waiter_rank_def)
  qed
qed

definition cv_finished :: "condition \<Rightarrow> bool" where
  "cv_finished s \<longleftrightarrow> notifier s = N_done \<and> list_all (\<lambda>p. p = Done) (waiters s)"

lemma cv_progress:
  assumes "one_waiter_inv s" "wake_contract kw" "\<not> cv_finished s"
  shows "\<exists>s'. cv_step kw n s s'"
proof -
  obtain p where p: "waiters s = [p]"
    using one_waiter [OF assms(1)] .
  have "finite (sleeping [p])"
    by (simp add: sleeping_def)
  then obtain S where S: "kw (sleeping [p]) n S"
    using spec [OF spec [OF assms(2) [unfolded wake_contract_def]], of "sleeping [p]" n] by auto
  have w: "\<exists>s'. cv_step kw n s s'" if "waiter_exec False (ready_flag s) p (fut s) (taken s) \<noteq> None"
    using that cv_step.waiter [of 0 s False _ _ _ kw n] p by fastforce
  have n: "\<exists>s'. cv_step kw n s s'" if "notifier_exec (notifier s) (fut s) (taken s) (ready_flag s) \<noteq> None"
    using that cv_step.notifier [of s _ _ _ _ kw n] by fastforce
  have k: "\<exists>s'. cv_step kw n s s'" if "notifier s = N_wake"
    using that cv_step.wake [of s kw n S] S p by auto
  show ?thesis
  proof (cases "notifier s = N_wake \<or> notifier_exec (notifier s) (fut s) (taken s) (ready_flag s) \<noteq> None")
    case True
    then show ?thesis
      using n k by blast
  next
    case False
    then have "notifier s = N_done \<or> notifier s = N_lock \<and> taken s"
      by (cases "notifier s") (auto split: if_splits)
    then have "waiter_exec False (ready_flag s) p (fut s) (taken s) \<noteq> None"
      using assms(1,3) p
      by (cases p) (auto simp: one_waiter_inv_iff cv_finished_def cv_places
          exchange_word_def split: if_splits)
    then show ?thesis
      by (rule w)
  qed
qed

section \<open>Properties\<close>

text \<open>
  C16. One waiter: a thread that waits for the flag and one that sets it and notifies, with any kernel
  that wakes a sleeper when asked to, and any wake-ups for no reason before. From every state reached, no
  schedule goes on forever, and when no step is possible both threads are through: the notification is
  never lost.
\<close>

theorem condition_one_waiter:
  assumes "wake_contract kw" "n = notify_one \<or> n = notify_all"
  shows "wf {(s', s). cv_reachable kw n 1 s \<and> cv_step kw n s s'} \<and>
    (\<forall>s. cv_reachable kw n 1 s \<and> (\<nexists>s'. cv_step kw n s s') \<longrightarrow> cv_finished s \<and> ready_flag s)"
proof (intro conjI allI impI)
  have n: "0 < n"
    using assms(2) by (auto simp: notify_one_def notify_all_def)
  have "{(s', s). cv_reachable kw n 1 s \<and> cv_step kw n s s'} \<subseteq> measure cv_rank"
    using cv_step_decreases [OF _ cv_reachable_inv [OF _ assms(1) n] assms(1) n] by auto
  then show "wf {(s', s). cv_reachable kw n 1 s \<and> cv_step kw n s s'}"
    by (rule wf_subset [rotated]) simp
  fix s
  assume s: "cv_reachable kw n 1 s \<and> (\<nexists>s'. cv_step kw n s s')"
  then have inv: "one_waiter_inv s"
    using cv_reachable_inv [OF _ assms(1) n] by blast
  show "cv_finished s"
    using cv_progress [OF inv assms(1)] s by blast
  then show "ready_flag s"
    using inv by (auto simp: one_waiter_inv_def cv_finished_def)
qed

theorem condition_one_waiter_witness:
  "wf {(s', s). cv_reachable wake_first notify_all 1 s \<and> cv_step wake_first notify_all s s'}"
  using condition_one_waiter [OF wake_first_contract, of notify_all] by simp

section \<open>Two waiters\<close>

text \<open>
  A schedule by who steps next; the only wake-up in it has one sleeper. Executed, it gives a state that
  the steps reach.
\<close>

datatype turn = Waiter nat | Notifier

fun replay :: "turn list \<Rightarrow> condition \<Rightarrow> condition option" where
  "replay [] s = Some s"
| "replay (Waiter i # ts) s =
     (if i < length (waiters s) then
        (case waiter_exec False (ready_flag s) (waiters s ! i) (fut s) (taken s) of
           None \<Rightarrow> None | Some (p, w, m) \<Rightarrow> replay ts (s\<lparr>waiters := (waiters s)[i := p], fut := w, taken := m\<rparr>))
      else None)"
| "replay (Notifier # ts) s =
     (if notifier s = N_wake then
        (case filter (\<lambda>i. waiters s ! i = Sleeping) [0..<length (waiters s)] of
           [i] \<Rightarrow> replay ts (s\<lparr>notifier := N_done, waiters := (waiters s)[i := Reset]\<rparr>) | _ \<Rightarrow> None)
      else (case notifier_exec (notifier s) (fut s) (taken s) (ready_flag s) of
           None \<Rightarrow> None
         | Some (p, w, m, f) \<Rightarrow> replay ts (s\<lparr>notifier := p, fut := w, taken := m, ready_flag := f\<rparr>)))"

lemma wake_single:
  assumes "wake_contract kw" "0 < n"
  shows "kw {i} n {i}"
proof -
  obtain S where "kw {i} n S" "S \<subseteq> {i}" "S \<noteq> {}"
    using spec [OF spec [OF assms(1) [unfolded wake_contract_def]], of "{i}" n] assms(2) by auto
  then show ?thesis
    by (metis subset_singletonD)
qed

lemma replay_reachable:
  assumes "wake_contract kw" "0 < n"
  shows "cv_reachable kw n k s \<Longrightarrow> replay ts s = Some s' \<Longrightarrow> cv_reachable kw n k s'"
proof (induction ts s rule: replay.induct)
  case (2 i ts s)
  then obtain p w m where i: "i < length (waiters s)"
    and ex: "waiter_exec False (ready_flag s) (waiters s ! i) (fut s) (taken s) = Some (p, w, m)"
    and run: "replay ts (s\<lparr>waiters := (waiters s)[i := p], fut := w, taken := m\<rparr>) = Some s'"
    by (auto split: if_splits option.splits)
  show ?case
    by (rule 2(1) [OF i ex refl refl cv_reachable.step [OF 2(2) cv_step.waiter [OF i ex]] run])
next
  case (3 ts s)
  show ?case
  proof (cases "notifier s = N_wake")
    case True
    then obtain i where i: "filter (\<lambda>i. waiters s ! i = Sleeping) [0..<length (waiters s)] = [i]"
      and run: "replay ts (s\<lparr>notifier := N_done, waiters := (waiters s)[i := Reset]\<rparr>) = Some s'"
      using 3(4) by (auto split: list.splits)
    have "set [i] = sleeping (waiters s)"
      unfolding i [symmetric] sleeping_def by auto
    moreover have "awaken {i} (waiters s) = (waiters s)[i := Reset]"
      by (intro nth_equalityI) (auto simp: awaken_def nth_list_update)
    ultimately have "cv_step kw n s (s\<lparr>notifier := N_done, waiters := (waiters s)[i := Reset]\<rparr>)"
      using cv_step.wake [of s kw n "{i}"] wake_single [OF assms, of i] True by simp
    then show ?thesis
      using 3(1) True i run cv_reachable.step [OF 3(3)] by simp
  next
    case False
    then obtain p w m f where ex: "notifier_exec (notifier s) (fut s) (taken s) (ready_flag s) = Some (p, w, m, f)"
      and run: "replay ts (s\<lparr>notifier := p, fut := w, taken := m, ready_flag := f\<rparr>) = Some s'"
      using 3(4) by (auto split: option.splits)
    show ?thesis
      by (rule 3(2) [OF False ex refl refl refl cv_reachable.step [OF 3(3) cv_step.notifier [OF ex]] run])
  qed
qed simp

text \<open>
  Both waiters release the mutex and only the second falls asleep before the notification; woken, it
  clears the word, and the first goes to sleep on it.
\<close>

definition lost_wakeup :: "turn list" where
  "lost_wakeup = replicate 4 (Waiter 0) @ replicate 5 (Waiter 1) @ replicate 5 Notifier @ [Waiter 1, Waiter 0]
     @ replicate 3 (Waiter 1)"

definition stranded :: condition where
  "stranded = \<lparr>waiters = [Sleeping, Done], notifier = N_done, fut = 0, taken = False, ready_flag = True\<rparr>"

lemma replay_lost_wakeup:
  "replay lost_wakeup \<lparr>waiters = replicate 2 Enter, notifier = N_lock, fut = 0, taken = False, ready_flag = False\<rparr>
   = Some stranded"
  by (simp add: lost_wakeup_def stranded_def eval_nat_numeral exchange_word_def)

text \<open>
  C36. Two waiters: with any kernel there is a schedule in which \<open>notify_all\<close> has returned, the flag is
  set and the mutex is free, but one of the two waiters sleeps and no step of any thread is left to wake it.
\<close>

theorem condition_lost_wakeup:
  assumes "wake_contract kw"
  shows "\<exists>s. cv_reachable kw notify_all 2 s \<and> notifier s = N_done \<and> ready_flag s \<and> \<not> taken s \<and>
    waiters s ! 0 = Sleeping \<and> (\<nexists>s'. cv_step kw notify_all s s')"
proof -
  have "cv_reachable kw notify_all 2 stranded"
    by (rule replay_reachable [OF assms _ cv_reachable.init replay_lost_wakeup]) (simp add: notify_all_def)
  moreover have "\<not> cv_step kw notify_all stranded s'" for s'
    by (auto simp: stranded_def less_Suc_eq elim!: cv_stepE)
  ultimately show ?thesis
    by (intro exI [of _ stranded]) (simp add: stranded_def)
qed

theorem condition_lost_wakeup_witness:
  "\<exists>s. cv_reachable wake_first notify_all 2 s \<and> notifier s = N_done \<and> waiters s ! 0 = Sleeping \<and>
    (\<nexists>s'. cv_step wake_first notify_all s s')"
  using condition_lost_wakeup [OF wake_first_contract] by blast

end
