(* ===== verification/Variant.thy ===== *)
theory Variant
  imports Gpcl_Prelude
begin

text \<open>
  \<open>gpcl::variant\<close> (\<open>variant.hpp\<close>). The storage is a union of bytes in which at most one object lives,
  \<open>index_\<close> says which alternative it is, and the base classes choose, from type traits of the
  alternatives, between bitwise copies and the special member functions. The model keeps the object
  with its type in the storage, so that reading it as another type, or reading storage that holds
  only copied bytes, is undefined behaviour; and it counts the objects with a destructor whose
  storage was reused or released without running that destructor.
\<close>

section \<open>Alternatives and their special member functions\<close>

record type_traits =
  trivially_default_constructible :: bool
  trivially_destructible :: bool
  nothrow_destructible :: bool
  trivially_move_constructible :: bool
  trivially_copy_constructible :: bool
  trivially_copy_assignable :: bool
  trivially_move_assignable :: bool
  move_constructible :: bool
  move_assignable :: bool
  copy_constructible :: bool
  copy_assignable :: bool

text \<open>
  The alternatives are user types: their special members are parameters. A constructor gives the new
  object or an exception, a move also the state of its source afterwards, an assignment the state of
  its target; \<open>swap_self\<close> is what exchanging an object with itself does to it. \<open>indeterminate\<close> is the value
  of an object that no constructor has initialised, and \<open>msvc\<close> tells whether that compiler is used.
\<close>

record ('t, 'v) alternatives =
  types :: "'t list"
  traits_of :: "'t \<Rightarrow> type_traits"
  copy_ctor :: "'t \<Rightarrow> 'v \<Rightarrow> 'v res"
  move_ctor :: "'t \<Rightarrow> 'v \<Rightarrow> 'v res \<times> 'v"
  copy_asg :: "'t \<Rightarrow> 'v \<Rightarrow> 'v \<Rightarrow> unit res \<times> 'v"
  move_asg :: "'t \<Rightarrow> 'v \<Rightarrow> 'v \<Rightarrow> unit res \<times> 'v"
  swap_el :: "'t \<Rightarrow> 'v \<Rightarrow> 'v \<Rightarrow> unit res \<times> 'v \<times> 'v"
  swap_self :: "'t \<Rightarrow> 'v \<Rightarrow> unit res \<times> 'v"
  eq_el :: "'t \<Rightarrow> 'v \<Rightarrow> 'v \<Rightarrow> bool"
  less_el :: "'t \<Rightarrow> ('v \<Rightarrow> 'v \<Rightarrow> bool) option"
  indeterminate :: 'v
  msvc :: bool

definition all_types :: "(type_traits \<Rightarrow> bool) \<Rightarrow> ('t, 'v) alternatives \<Rightarrow> bool" where
  "all_types P E = list_all (\<lambda>t. P (traits_of E t)) (types E)"

section \<open>Storage\<close>

datatype ('t, 'v) storage = Dummy | Object 't 'v | Bytes 't 'v

record ('t, 'v) variant =
  vstorage :: "('t, 'v) storage"
  vindex :: int
  lost :: nat

definition variant_npos :: nat where
  "variant_npos = 2 ^ 64 - 1"

definition variant_storage_init :: "('t, 'v) variant" where
  "variant_storage_init = \<lparr>vstorage = Dummy, vindex = -1, lost = 0\<rparr>"

definition abandoned :: "('t, 'v) alternatives \<Rightarrow> ('t, 'v) storage \<Rightarrow> nat" where
  "abandoned E st = (case st of Object t _ \<Rightarrow> if trivially_destructible (traits_of E t) then 0 else 1 | _ \<Rightarrow> 0)"

text \<open>Placement new of an object that has been built.\<close>

definition placement_new :: "('t, 'v) alternatives \<Rightarrow> 't \<Rightarrow> 'v \<Rightarrow> ('t, 'v) variant \<Rightarrow> ('t, 'v) variant" where
  "placement_new E t v x = x\<lparr>vstorage := Object t v, lost := lost x + abandoned E (vstorage x)\<rparr>"

definition unsafe_get :: "'t \<Rightarrow> ('t, 'v) variant \<Rightarrow> 'v res" where
  "unsafe_get t x = (case vstorage x of Object t' v \<Rightarrow> if t' = t then Inr v else Inl Undefined_behaviour
     | _ \<Rightarrow> Inl Undefined_behaviour)"

text \<open>
  Copying the bytes of the storage copies the object only if the corresponding special member of its
  type is trivial. Whatever lived in the target is gone.
\<close>

definition copy_bytes :: "(type_traits \<Rightarrow> bool) \<Rightarrow> ('t, 'v) alternatives \<Rightarrow> ('t, 'v) variant
    \<Rightarrow> ('t, 'v) variant \<Rightarrow> ('t, 'v) variant" where
  "copy_bytes P E src x = x\<lparr>
     vstorage := (case vstorage src of Object t v \<Rightarrow> if P (traits_of E t) then Object t v else Bytes t v | st \<Rightarrow> st),
     vindex := vindex src, lost := lost x + abandoned E (vstorage x)\<rparr>"

text \<open>
  Which of the two storage classes is inherited: the move constructor's base asks for trivial
  destructors if all moves are trivial, and for destructors that do not throw otherwise.
\<close>

definition storage_trivial :: "('t, 'v) alternatives \<Rightarrow> bool" where
  "storage_trivial E = (if all_types trivially_move_constructible E then all_types trivially_destructible E
     else all_types nothrow_destructible E)"

definition destroy_as :: "'t \<Rightarrow> ('t, 'v) variant \<Rightarrow> unit res \<times> ('t, 'v) variant" where
  "destroy_as t x = (case unsafe_get t x of Inl e \<Rightarrow> (Inl e, x) | Inr _ \<Rightarrow> (Inr (), x\<lparr>vstorage := Dummy\<rparr>))"

primrec destruct_helper :: "('t, 'v) alternatives \<Rightarrow> nat \<Rightarrow> nat list \<Rightarrow> ('t, 'v) variant \<Rightarrow> unit res \<times> ('t, 'v) variant" where
  "destruct_helper E index [] x = (Inl Unreachable_executed, x)"
| "destruct_helper E index (I # Is) x =
     (if index = I then destroy_as (types E ! I) x else destruct_helper E index Is x)"

definition index_sequence :: "('t, 'v) alternatives \<Rightarrow> nat list" where
  "index_sequence E = [0..<length (types E)]"

definition variant_reset :: "('t, 'v) alternatives \<Rightarrow> ('t, 'v) variant \<Rightarrow> unit res \<times> ('t, 'v) variant" where
  "variant_reset E x =
     (if storage_trivial E then (Inr (), x\<lparr>vindex := -1\<rparr>)
      else if vindex x \<noteq> -1 then
        (case destruct_helper E (nat (vindex x)) (index_sequence E) x of
           (Inl e, y) \<Rightarrow> (Inl e, y) | (Inr _, y) \<Rightarrow> (Inr (), y\<lparr>vindex := -1\<rparr>))
      else (Inr (), x))"

text \<open>The destructor, after which the storage is released with what is still in it.\<close>

definition variant_destructor :: "('t, 'v) alternatives \<Rightarrow> ('t, 'v) variant \<Rightarrow> unit res \<times> ('t, 'v) variant" where
  "variant_destructor E x =
     (case (if storage_trivial E \<or> vindex x = -1 then (Inr (), x)
            else destruct_helper E (nat (vindex x)) (index_sequence E) x) of
        (r, y) \<Rightarrow> (r, y\<lparr>vstorage := Dummy, lost := lost y + abandoned E (vstorage y)\<rparr>))"

section \<open>Constructors and assignment of the base classes\<close>

primrec move_helper :: "('t, 'v) alternatives \<Rightarrow> nat list \<Rightarrow> ('t, 'v) variant \<Rightarrow> ('t, 'v) variant
    \<Rightarrow> unit res \<times> ('t, 'v) variant \<times> ('t, 'v) variant" where
  "move_helper E [] other x = (Inr (), x, other)"
| "move_helper E (I # Is) other x =
     (if vindex other = int I then
        (case unsafe_get (types E ! I) other of
           Inl e \<Rightarrow> (Inl e, x, other)
         | Inr v \<Rightarrow>
             (case move_ctor E (types E ! I) v of
                (Inl e, v') \<Rightarrow> (Inl e, x, other\<lparr>vstorage := Object (types E ! I) v'\<rparr>)
              | (Inr w, v') \<Rightarrow> (Inr (), (placement_new E (types E ! I) w x)\<lparr>vindex := int I\<rparr>,
                               other\<lparr>vstorage := Object (types E ! I) v'\<rparr>)))
      else move_helper E Is other x)"

definition variant_move_construct :: "('t, 'v) alternatives \<Rightarrow> ('t, 'v) variant
    \<Rightarrow> unit res \<times> ('t, 'v) variant \<times> ('t, 'v) variant" where
  "variant_move_construct E other =
     (if all_types trivially_move_constructible E then
        (Inr (), copy_bytes trivially_move_constructible E other variant_storage_init, other)
      else if vindex other = -1 then (Inr (), variant_storage_init, other)
      else move_helper E (index_sequence E) other variant_storage_init)"

primrec copy_helper :: "('t, 'v) alternatives \<Rightarrow> nat list \<Rightarrow> ('t, 'v) variant \<Rightarrow> ('t, 'v) variant
    \<Rightarrow> unit res \<times> ('t, 'v) variant" where
  "copy_helper E [] other x = (Inr (), x)"
| "copy_helper E (I # Is) other x =
     (if vindex other = int I then
        (case res_bind (unsafe_get (types E ! I) other) (copy_ctor E (types E ! I)) of
           Inl e \<Rightarrow> (Inl e, x)
         | Inr w \<Rightarrow> (Inr (), (placement_new E (types E ! I) w x)\<lparr>vindex := int I\<rparr>))
      else copy_helper E Is other x)"

text \<open>
  The copy constructor of the class for alternatives without trivial copies exists as it is built for
  MSVC. Elsewhere a template replaces it, which is not a copy constructor, and the implicit one is
  deleted (\<open>None\<close>).
\<close>

definition variant_copy_construct :: "('t, 'v) alternatives \<Rightarrow> ('t, 'v) variant \<Rightarrow> (unit res \<times> ('t, 'v) variant) option" where
  "variant_copy_construct E other =
     (if all_types trivially_copy_constructible E then
        Some (Inr (), copy_bytes trivially_copy_constructible E other variant_storage_init)
      else if \<not> msvc E then None
      else if vindex other = -1 then Some (Inr (), variant_storage_init)
      else Some (copy_helper E (index_sequence E) other variant_storage_init))"

primrec copy_assign_helper :: "('t, 'v) alternatives \<Rightarrow> nat list \<Rightarrow> ('t, 'v) variant \<Rightarrow> ('t, 'v) variant
    \<Rightarrow> unit res \<times> ('t, 'v) variant" where
  "copy_assign_helper E [] other x = (Inr (), x)"
| "copy_assign_helper E (I # Is) other x =
     (if vindex other = int I then
        (case (unsafe_get (types E ! I) x, unsafe_get (types E ! I) other) of
           (Inr old, Inr v) \<Rightarrow> (case copy_asg E (types E ! I) old v of
              (r, new) \<Rightarrow> (r, x\<lparr>vstorage := Object (types E ! I) new\<rparr>))
         | _ \<Rightarrow> (Inl Undefined_behaviour, x))
      else copy_assign_helper E Is other x)"

text \<open>
  The assignment from an rvalue that the class for copyable alternatives declares, which copies.
  The argument \<open>same\<close> is \<open>this == &other\<close>.
\<close>

definition copying_move_assign :: "('t, 'v) alternatives \<Rightarrow> bool \<Rightarrow> ('t, 'v) variant \<Rightarrow> ('t, 'v) variant
    \<Rightarrow> unit res \<times> ('t, 'v) variant" where
  "copying_move_assign E same other x =
     (if same then (Inr (), x)
      else if vindex x = vindex other \<and> vindex x \<noteq> -1 then copy_assign_helper E (index_sequence E) other x
      else case variant_reset E x of
        (Inl e, y) \<Rightarrow> (Inl e, y)
      | (Inr _, y) \<Rightarrow>
          if all_types trivially_copy_constructible E then (Inr (), copy_bytes trivially_copy_constructible E other y)
          else copy_helper E (index_sequence E) other y)"

text \<open>
  Which assignment from an rvalue a variant has: the copying one for copyable alternatives unless
  copies are trivial, otherwise the one of the class below, which is bitwise if moves are trivial.
  It is deleted for alternatives that cannot be moved, and for the others its body does not compile
  (it names \<open>other._index\<close>): \<open>None\<close> stands for both.
\<close>

definition variant_move_assign :: "('t, 'v) alternatives \<Rightarrow> bool \<Rightarrow> ('t, 'v) variant \<Rightarrow> ('t, 'v) variant
    \<Rightarrow> (unit res \<times> ('t, 'v) variant) option" where
  "variant_move_assign E same other x =
     (if all_types (\<lambda>t. copy_constructible t \<and> copy_assignable t) E
         \<and> \<not> all_types (\<lambda>t. trivially_copy_constructible t \<and> trivially_copy_assignable t) E
      then Some (copying_move_assign E same other x)
      else if all_types (\<lambda>t. move_constructible t \<and> move_assignable t) E
         \<and> all_types (\<lambda>t. trivially_move_constructible t \<and> trivially_move_assignable t) E
      then Some (Inr (), if same then x
                         else copy_bytes (\<lambda>t. trivially_move_constructible t \<and> trivially_move_assignable t) E other x)
      else None)"

text \<open>
  Assignment from an lvalue is defaulted in every base class, down to the bytes of the storage.
\<close>

definition variant_copy_assign :: "('t, 'v) alternatives \<Rightarrow> bool \<Rightarrow> ('t, 'v) variant \<Rightarrow> ('t, 'v) variant
    \<Rightarrow> ('t, 'v) variant option" where
  "variant_copy_assign E same other x =
     (if all_types (\<lambda>t. copy_constructible t \<and> copy_assignable t) E
      then Some (if same then x
        else copy_bytes (\<lambda>t. trivially_copy_constructible t \<and> trivially_copy_assignable t) E other x)
      else None)"

text \<open>
  The default constructor; \<open>d\<close> is what the default constructor of the first alternative gives. If that
  constructor is trivial it is not run: the object exists in the storage as soon as it is used (types
  with a trivial default constructor have implicit lifetime), with an indeterminate value.
\<close>

definition variant_default_construct :: "('t, 'v) alternatives \<Rightarrow> 'v res \<Rightarrow> ('t, 'v) variant res" where
  "variant_default_construct E d =
     (if trivially_default_constructible (traits_of E (types E ! 0))
      then Inr (variant_storage_init\<lparr>vstorage := Object (types E ! 0) (indeterminate E), vindex := 0\<rparr>)
      else res_bind d (\<lambda>v. Inr ((placement_new E (types E ! 0) v variant_storage_init)\<lparr>vindex := 0\<rparr>)))"

section \<open>Members of variant\<close>

text \<open>The width of \<open>index_\<close>; \<open>None\<close> is \<open>size_t\<close>.\<close>

definition variant_index_type :: "nat \<Rightarrow> nat option" where
  "variant_index_type n = (if n < 127 then Some 8 else if n < 32767 then Some 16
     else if n < 2147483647 then Some 32 else None)"

definition narrow_cast :: "nat \<Rightarrow> nat \<Rightarrow> int res" where
  "narrow_cast w i = (let t = signed_take_bit (w - 1) (int i) in
     if t mod 2 ^ 64 = int i then Inr t else Inl Assertion_failed)"

definition set_index :: "('t, 'v) alternatives \<Rightarrow> nat \<Rightarrow> ('t, 'v) variant \<Rightarrow> unit res \<times> ('t, 'v) variant" where
  "set_index E i x =
     (if vindex x \<noteq> -1 then (Inl Assertion_failed, x)
      else case variant_index_type (length (types E)) of
        None \<Rightarrow> (Inl Assertion_failed, x)
      | Some w \<Rightarrow>
          (case narrow_cast w i of
             Inl e \<Rightarrow> (Inl e, x)
           | Inr t \<Rightarrow> (if t > -1 then Inr () else Inl Assertion_failed, x\<lparr>vindex := t\<rparr>)))"

definition find_index :: "'t list \<Rightarrow> 't \<Rightarrow> nat" where
  "find_index Ts T = snd (fold (\<lambda>X (k, r). (k + 1, if X = T then k else r)) Ts (0, variant_npos))"

text \<open>
  The converting constructor and the one with \<open>in_place_type\<close>: the alternative \<open>U\<close> is chosen by
  overload resolution or by the caller, and \<open>c\<close> is what constructing it from the arguments gives.
\<close>

definition variant_construct :: "('t, 'v) alternatives \<Rightarrow> 't \<Rightarrow> 'v res \<Rightarrow> ('t, 'v) variant res" where
  "variant_construct E U c = res_bind c (\<lambda>v.
     case set_index E (find_index (types E) U) (placement_new E U v variant_storage_init) of
       (Inl e, x) \<Rightarrow> Inl e | (Inr _, x) \<Rightarrow> Inr x)"

definition index :: "('t, 'v) variant \<Rightarrow> nat res" where
  "index x = (if \<not> vindex x > -1 then Inl Assertion_failed
     else if vindex x = -1 then Inr variant_npos else Inr (nat (vindex x)))"

definition valueless_by_exception :: "('t, 'v) variant \<Rightarrow> bool res" where
  "valueless_by_exception x = res_bind (index x) (\<lambda>i. Inr (i = variant_npos))"

text \<open>Assignment of a value: \<open>c\<close> is what constructing gives, \<open>a\<close> what assigning to the old value does.\<close>

definition construct_at :: "('t, 'v) alternatives \<Rightarrow> 't \<Rightarrow> nat \<Rightarrow> 'v res \<Rightarrow> ('t, 'v) variant
    \<Rightarrow> unit res \<times> ('t, 'v) variant" where
  "construct_at E t i c x = (case variant_reset E x of
       (Inl e, y) \<Rightarrow> (Inl e, y)
     | (Inr _, y) \<Rightarrow> (case c of Inl e \<Rightarrow> (Inl e, y) | Inr v \<Rightarrow> set_index E i (placement_new E t v y)))"

definition variant_assign :: "('t, 'v) alternatives \<Rightarrow> 't \<Rightarrow> 'v res \<Rightarrow> ('v \<Rightarrow> unit res \<times> 'v) \<Rightarrow> ('t, 'v) variant
    \<Rightarrow> unit res \<times> ('t, 'v) variant" where
  "variant_assign E U c a x = (case index x of
       Inl e \<Rightarrow> (Inl e, x)
     | Inr i \<Rightarrow>
         if find_index (types E) U = i then
           (case unsafe_get U x of
              Inl e \<Rightarrow> (Inl e, x)
            | Inr old \<Rightarrow> (case a old of (r, new) \<Rightarrow> (r, x\<lparr>vstorage := Object U new\<rparr>)))
         else construct_at E U (find_index (types E) U) c x)"

definition variant_emplace :: "('t, 'v) alternatives \<Rightarrow> nat \<Rightarrow> 'v res \<Rightarrow> ('t, 'v) variant \<Rightarrow> unit res \<times> ('t, 'v) variant" where
  "variant_emplace E I c x = construct_at E (types E ! I) I c x"

definition variant_emplace_type :: "('t, 'v) alternatives \<Rightarrow> 't \<Rightarrow> 'v res \<Rightarrow> ('t, 'v) variant \<Rightarrow> unit res \<times> ('t, 'v) variant" where
  "variant_emplace_type E T c x = variant_emplace E (find_index (types E) T) c x"

section \<open>Access\<close>

definition holds_alternative :: "('t, 'v) alternatives \<Rightarrow> 't \<Rightarrow> ('t, 'v) variant \<Rightarrow> bool res" where
  "holds_alternative E T x = res_bind (index x) (\<lambda>i. Inr (find_index (types E) T = i))"

definition get_at :: "('t, 'v) alternatives \<Rightarrow> nat \<Rightarrow> ('t, 'v) variant \<Rightarrow> 'v res" where
  "get_at E I x = res_bind (index x) (\<lambda>i. if i \<noteq> I then Inl Bad_variant_access else unsafe_get (types E ! I) x)"

definition get_type :: "('t, 'v) alternatives \<Rightarrow> 't \<Rightarrow> ('t, 'v) variant \<Rightarrow> 'v res" where
  "get_type E T x = res_bind (holds_alternative E T x) (\<lambda>h. if \<not> h then Inl Bad_variant_access else unsafe_get T x)"

definition get_if_type :: "('t, 'v) alternatives \<Rightarrow> 't \<Rightarrow> ('t, 'v) variant \<Rightarrow> 'v option res" where
  "get_if_type E T x = res_bind (holds_alternative E T x) (\<lambda>h.
     if \<not> h then Inr None else res_bind (unsafe_get T x) (\<lambda>v. Inr (Some v)))"

definition get_if_at :: "('t, 'v) alternatives \<Rightarrow> nat \<Rightarrow> ('t, 'v) variant \<Rightarrow> 'v option res" where
  "get_if_at E I x = get_if_type E (types E ! I) x"

section \<open>Visiting\<close>

text \<open>A visitor is a family of functions, one for each combination of alternatives.\<close>

fun apply_visitor_impl :: "('t, 'v) alternatives \<Rightarrow> ('t \<times> 'v \<Rightarrow> 'r res) \<Rightarrow> ('t, 'v) variant \<Rightarrow> nat list \<Rightarrow> 'r res" where
  "apply_visitor_impl E f x [] = Inl Unreachable_executed"
| "apply_visitor_impl E f x [I] = res_bind (index x) (\<lambda>i.
     if i \<noteq> I then Inl Assertion_failed else res_bind (get_at E I x) (\<lambda>v. f (types E ! I, v)))"
| "apply_visitor_impl E f x (I # J # Is) = res_bind (index x) (\<lambda>i.
     if i = I then res_bind (get_at E I x) (\<lambda>v. f (types E ! I, v))
     else apply_visitor_impl E f x (J # Is))"

primrec visit :: "('t, 'v) alternatives \<Rightarrow> (('t \<times> 'v) list \<Rightarrow> 'r res) \<Rightarrow> ('t, 'v) variant list \<Rightarrow> 'r res" where
  "visit E visitor [] = visitor []"
| "visit E visitor (variant1 # variants) = visit E (\<lambda>values.
     res_bind (valueless_by_exception variant1) (\<lambda>b.
       if b then Inl Assertion_failed
       else apply_visitor_impl E (\<lambda>value1. visitor (value1 # values)) variant1 (index_sequence E))) variants"

section \<open>Comparison\<close>

datatype compare_result = cmp_equal | cmp_less | cmp_greater

definition compare_values :: "('v \<Rightarrow> 'v \<Rightarrow> bool) \<Rightarrow> ('v \<Rightarrow> 'v \<Rightarrow> bool) option \<Rightarrow> 'v \<Rightarrow> 'v \<Rightarrow> compare_result" where
  "compare_values eq lt x y = (if eq x y then cmp_equal
     else case lt of Some l \<Rightarrow> if l x y then cmp_less else cmp_greater | None \<Rightarrow> cmp_greater)"

fun compare_visitor :: "('t, 'v) alternatives \<Rightarrow> ('t \<times> 'v) list \<Rightarrow> compare_result res" where
  "compare_visitor E [(t, a), (u, b)] =
     (if t = u then Inr (compare_values (eq_el E t) (less_el E t) a b) else Inl Unreachable_executed)"
| "compare_visitor E _ = Inl Unreachable_executed"

definition compare :: "('t, 'v) alternatives \<Rightarrow> ('t, 'v) variant \<Rightarrow> ('t, 'v) variant \<Rightarrow> compare_result res" where
  "compare E x y =
     res_bind (valueless_by_exception x) (\<lambda>vx.
     res_bind (if vx then valueless_by_exception y else Inr False) (\<lambda>both.
     if both then Inr cmp_equal else if vx then Inr cmp_less else
     res_bind (valueless_by_exception y) (\<lambda>vy. if vy then Inr cmp_greater else
     res_bind (index x) (\<lambda>i. res_bind (index y) (\<lambda>j.
     if i \<noteq> j then Inr (compare_values (=) (Some (<)) i j)
     else visit E (compare_visitor E) [x, y])))))"

definition variant_eq :: "('t, 'v) alternatives \<Rightarrow> ('t, 'v) variant \<Rightarrow> ('t, 'v) variant \<Rightarrow> bool res" where
  "variant_eq E x y = res_bind (compare E x y) (\<lambda>c. Inr (c = cmp_equal))"

definition variant_ne :: "('t, 'v) alternatives \<Rightarrow> ('t, 'v) variant \<Rightarrow> ('t, 'v) variant \<Rightarrow> bool res" where
  "variant_ne E x y = res_bind (compare E x y) (\<lambda>c. Inr (c \<noteq> cmp_equal))"

definition variant_lt :: "('t, 'v) alternatives \<Rightarrow> ('t, 'v) variant \<Rightarrow> ('t, 'v) variant \<Rightarrow> bool res" where
  "variant_lt E x y = res_bind (compare E x y) (\<lambda>c. Inr (c = cmp_less))"

definition variant_gt :: "('t, 'v) alternatives \<Rightarrow> ('t, 'v) variant \<Rightarrow> ('t, 'v) variant \<Rightarrow> bool res" where
  "variant_gt E x y = res_bind (compare E x y) (\<lambda>c. Inr (c = cmp_greater))"

definition variant_le :: "('t, 'v) alternatives \<Rightarrow> ('t, 'v) variant \<Rightarrow> ('t, 'v) variant \<Rightarrow> bool res" where
  "variant_le E x y = res_bind (compare E x y) (\<lambda>c. Inr (c \<noteq> cmp_greater))"

definition variant_ge :: "('t, 'v) alternatives \<Rightarrow> ('t, 'v) variant \<Rightarrow> ('t, 'v) variant \<Rightarrow> bool res" where
  "variant_ge E x y = res_bind (compare E x y) (\<lambda>c. Inr (c \<noteq> cmp_less))"

section \<open>Swap\<close>

text \<open>
  Exchanging variants with the same index swaps the objects. Otherwise the object of the second goes
  into a local, the second is assigned from the object of the first, and the first from the local.
\<close>

definition put_back :: "'t \<times> 'v \<Rightarrow> ('t, 'v) variant \<Rightarrow> ('t, 'v) variant" where
  "put_back tv x = x\<lparr>vstorage := Object (fst tv) (snd tv)\<rparr>"

definition moved_value :: "('t, 'v) alternatives \<Rightarrow> 't \<times> 'v \<Rightarrow> 'v res" where
  "moved_value E tv = fst (move_ctor E (fst tv) (snd tv))"

definition moved_from :: "('t, 'v) alternatives \<Rightarrow> 't \<times> 'v \<Rightarrow> 't \<times> 'v" where
  "moved_from E tv = (fst tv, snd (move_ctor E (fst tv) (snd tv)))"

definition assign_moved :: "('t, 'v) alternatives \<Rightarrow> 't \<times> 'v \<Rightarrow> ('t, 'v) variant \<Rightarrow> unit res \<times> ('t, 'v) variant" where
  "assign_moved E tv = variant_assign E (fst tv) (moved_value E tv) (\<lambda>old. move_asg E (fst tv) old (snd tv))"

definition swap_different :: "('t, 'v) alternatives \<Rightarrow> 't \<times> 'v \<Rightarrow> 't \<times> 'v \<Rightarrow> ('t, 'v) variant \<Rightarrow> ('t, 'v) variant
    \<Rightarrow> unit res \<times> ('t, 'v) variant \<times> ('t, 'v) variant" where
  "swap_different E tx ty x y =
     (let y1 = put_back (moved_from E ty) y in
      case moved_value E ty of
        Inl e \<Rightarrow> (Inl e, x, y1)
      | Inr tmp \<Rightarrow>
          (case assign_moved E tx y1 of
             (Inl e, y2) \<Rightarrow> (Inl e, put_back (moved_from E tx) x, y2)
           | (Inr _, y2) \<Rightarrow>
               (case assign_moved E (fst ty, tmp) (put_back (moved_from E tx) x) of
                  (r, x2) \<Rightarrow> (r, x2, y2))))"

definition swap_same :: "('t, 'v) alternatives \<Rightarrow> 't \<times> 'v \<Rightarrow> 't \<times> 'v \<Rightarrow> ('t, 'v) variant \<Rightarrow> ('t, 'v) variant
    \<Rightarrow> unit res \<times> ('t, 'v) variant \<times> ('t, 'v) variant" where
  "swap_same E tx ty x y =
     (if fst tx = fst ty then
        (case swap_el E (fst tx) (snd tx) (snd ty) of
           (r, a, b) \<Rightarrow> (r, put_back (fst tx, a) x, put_back (fst ty, b) y))
      else (Inl Unreachable_executed, x, y))"

definition both_values :: "('t, 'v) alternatives \<Rightarrow> ('t, 'v) variant \<Rightarrow> ('t, 'v) variant \<Rightarrow> (('t \<times> 'v) \<times> ('t \<times> 'v)) res" where
  "both_values E x y = visit E (\<lambda>vs. Inr (vs ! 0, vs ! 1)) [x, y]"

definition variant_swap :: "('t, 'v) alternatives \<Rightarrow> ('t, 'v) variant \<Rightarrow> ('t, 'v) variant
    \<Rightarrow> unit res \<times> ('t, 'v) variant \<times> ('t, 'v) variant" where
  "variant_swap E x y =
     (case res_bind (valueless_by_exception x) (\<lambda>vx. if vx then valueless_by_exception y else Inr False) of
        Inl e \<Rightarrow> (Inl e, x, y)
      | Inr True \<Rightarrow> (Inr (), x, y)
      | Inr False \<Rightarrow>
          (case res_bind (index x) (\<lambda>i. res_bind (index y) (\<lambda>j. res_bind (both_values E x y)
              (\<lambda>(tx, ty). Inr (i = j, tx, ty)))) of
             Inl e \<Rightarrow> (Inl e, x, y)
           | Inr (same, tx, ty) \<Rightarrow> if same then swap_same E tx ty x y else swap_different E tx ty x y))"

text \<open>\<open>x.swap(x)\<close>: the two references are to the same object.\<close>

definition variant_swap_self :: "('t, 'v) alternatives \<Rightarrow> ('t, 'v) variant \<Rightarrow> unit res \<times> ('t, 'v) variant" where
  "variant_swap_self E x =
     (case res_bind (valueless_by_exception x) (\<lambda>vx. if vx then valueless_by_exception x else Inr False) of
        Inl e \<Rightarrow> (Inl e, x)
      | Inr True \<Rightarrow> (Inr (), x)
      | Inr False \<Rightarrow>
          (case both_values E x x of
             Inl e \<Rightarrow> (Inl e, x)
           | Inr (tx, _) \<Rightarrow> (case swap_self E (fst tx) (snd tx) of (r, a) \<Rightarrow> (r, put_back (fst tx, a) x))))"

section \<open>Well-formed variants\<close>

text \<open>A variant holds the object of the alternative that its index names, or is valueless.\<close>

definition holds :: "('t, 'v) alternatives \<Rightarrow> nat \<Rightarrow> 'v \<Rightarrow> ('t, 'v) variant \<Rightarrow> bool" where
  "holds E i v x \<longleftrightarrow> vindex x = int i \<and> i < length (types E) \<and> vstorage x = Object (types E ! i) v"

definition valueless :: "('t, 'v) variant \<Rightarrow> bool" where
  "valueless x \<longleftrightarrow> vindex x = -1"

definition variant_wf :: "('t, 'v) alternatives \<Rightarrow> ('t, 'v) variant \<Rightarrow> bool" where
  "variant_wf E x \<longleftrightarrow> valueless x \<or> (\<exists>i v. holds E i v x)"

definition few_types :: "('t, 'v) alternatives \<Rightarrow> bool" where
  "few_types E \<longleftrightarrow> length (types E) < 2147483647"

lemma variant_wf_cases [consumes 1, case_names valueless holds]:
  assumes "variant_wf E x"
  obtains "valueless x" | i v where "holds E i v x"
  using assms by (auto simp: variant_wf_def)

lemma holds_wf: "holds E i v x \<Longrightarrow> variant_wf E x"
  and valueless_wf: "valueless x \<Longrightarrow> variant_wf E x"
  by (auto simp: variant_wf_def)

lemma holds_not_valueless: "holds E i v x \<Longrightarrow> \<not> valueless x"
  by (simp add: holds_def valueless_def)

lemma init_valueless: "valueless variant_storage_init"
  by (simp add: valueless_def variant_storage_init_def)

lemma signed_take_bit_small: "i < 2 ^ n \<Longrightarrow> signed_take_bit n (int i) = int i"
  by (metis of_nat_less_iff of_nat_numeral of_nat_power of_nat_0_le_iff signed_take_bit_int_eq_self
      neg_le_0_iff_le zero_le_numeral zero_le_power order_trans)

lemma narrow_cast_fits: "i < 2 ^ (w - 1) \<Longrightarrow> w \<le> 64 \<Longrightarrow> narrow_cast w i = Inr (int i)"
proof -
  assume a: "i < 2 ^ (w - 1)" and w: "w \<le> 64"
  have "(2::nat) ^ (w - 1) \<le> 2 ^ 64"
    using w by (intro power_increasing) auto
  then have "int i < 2 ^ 64"
    using a by (metis (mono_tags, lifting) of_nat_less_iff of_nat_numeral of_nat_power order_less_le_trans)
  then show ?thesis
    using a by (simp add: narrow_cast_def Let_def signed_take_bit_small)
qed

lemma set_index_run:
  assumes "few_types E" "i < length (types E)"
  shows "set_index E i x = (if valueless x then (Inr (), x\<lparr>vindex := int i\<rparr>) else (Inl Assertion_failed, x))"
proof -
  obtain w where w: "variant_index_type (length (types E)) = Some w" "w \<le> 64" "i < 2 ^ (w - 1)"
    using assms unfolding few_types_def variant_index_type_def
    by (cases "length (types E) < 127"; cases "length (types E) < 32767") auto
  then show ?thesis
    by (simp add: set_index_def narrow_cast_fits valueless_def)
qed

lemma find_index_snoc: "find_index (Ts @ [X]) T = (if X = T then length Ts else find_index Ts T)"
proof -
  have "fst (fold (\<lambda>X (k, r). (k + 1, if X = T then k else r)) Ts (0, variant_npos)) = length Ts"
    by (induction Ts rule: rev_induct) (auto split: prod.splits)
  then show ?thesis
    by (auto simp: find_index_def split: prod.splits)
qed

lemma find_index_missing: "T \<notin> set Ts \<Longrightarrow> find_index Ts T = variant_npos"
  by (induction Ts rule: rev_induct) (auto simp: find_index_snoc find_index_def [of "[]"])

lemma find_index_found: "T \<in> set Ts \<Longrightarrow> find_index Ts T < length Ts \<and> Ts ! find_index Ts T = T"
  by (induction Ts rule: rev_induct) (auto simp: find_index_snoc nth_append)

lemma find_index_last: "i < length Ts \<Longrightarrow> Ts ! i = T \<Longrightarrow> i \<le> find_index Ts T"
  by (induction Ts arbitrary: i rule: rev_induct) (auto simp: find_index_snoc nth_append less_Suc_eq split: if_splits)

lemma find_index_distinct: "distinct Ts \<Longrightarrow> i < length Ts \<Longrightarrow> find_index Ts (Ts ! i) = i"
  using find_index_found [of "Ts ! i" Ts] by (auto simp: nth_eq_iff_index_eq)

lemma destruct_helper_holds:
  "holds E i v x \<Longrightarrow> i \<in> set Is \<Longrightarrow> destruct_helper E i Is x = (Inr (), x\<lparr>vstorage := Dummy\<rparr>)"
  by (induction Is) (auto simp: destroy_as_def unsafe_get_def holds_def)

lemma index_holds [simp]: "holds E i v x \<Longrightarrow> index x = Inr i"
  by (simp add: index_def holds_def)

lemma index_valueless [simp]: "valueless x \<Longrightarrow> index x = Inl Assertion_failed"
  by (simp add: index_def valueless_def)

lemma valueless_by_exception_holds [simp]:
  "few_types E \<Longrightarrow> holds E i v x \<Longrightarrow> valueless_by_exception x = Inr False"
  by (auto simp: valueless_by_exception_def holds_def few_types_def variant_npos_def)

lemma valueless_by_exception_valueless [simp]:
  "valueless x \<Longrightarrow> valueless_by_exception x = Inl Assertion_failed"
  by (simp add: valueless_by_exception_def)

lemma unsafe_get_holds [simp]: "holds E i v x \<Longrightarrow> unsafe_get (types E ! i) x = Inr v"
  by (simp add: unsafe_get_def holds_def)

lemma get_at_holds [simp]: "holds E i v x \<Longrightarrow> get_at E i x = Inr v"
  by (simp add: get_at_def)

lemma apply_visitor_holds:
  "holds E i v x \<Longrightarrow> i \<in> set Is \<Longrightarrow> apply_visitor_impl E f x Is = f (types E ! i, v)"
  by (induction E f x Is rule: apply_visitor_impl.induct) auto

lemma index_sequence_iff [simp]: "i \<in> set (index_sequence E) \<longleftrightarrow> i < length (types E)"
  by (auto simp: index_sequence_def)

lemma apply_visitor_run [simp]:
  "holds E i v x \<Longrightarrow> apply_visitor_impl E f x (index_sequence E) = f (types E ! i, v)"
  by (rule apply_visitor_holds) (auto simp: holds_def)

lemma variant_reset_run:
  assumes "variant_wf E x"
  shows "variant_reset E x = (Inr (), x\<lparr>vindex := -1,
    vstorage := if storage_trivial E \<or> valueless x then vstorage x else Dummy\<rparr>)"
  using assms
proof (cases rule: variant_wf_cases)
  case (holds i v)
  then have "destruct_helper E i (index_sequence E) x = (Inr (), x\<lparr>vstorage := Dummy\<rparr>)"
    by (intro destruct_helper_holds) (auto simp: holds_def)
  then show ?thesis
    using holds by (auto simp: variant_reset_def holds_def valueless_def)
qed (simp add: variant_reset_def valueless_def)

lemma variant_reset_valueless:
  assumes "variant_wf E x"
  obtains z where "valueless z" "variant_reset E x = (Inr (), z)"
  by (rule that [OF _ variant_reset_run [OF assms]]) (simp add: valueless_def)

section \<open>Every operation keeps the variant well formed\<close>

text \<open>
  What the operations need of the alternatives: their members throw exceptions of their own only.
  With \<open>q\<close> they do not throw at all, and then no variant becomes valueless.
\<close>

definition user_result :: "bool \<Rightarrow> 'a res \<Rightarrow> bool" where
  "user_result q r = (case r of Inl e \<Rightarrow> e = User_exception \<and> \<not> q | Inr _ \<Rightarrow> True)"

lemma user_result_simps [simp]:
  "user_result q (Inr a)" "user_result q (Inl e) \<longleftrightarrow> e = User_exception \<and> \<not> q"
  by (simp_all add: user_result_def)

definition ready :: "bool \<Rightarrow> ('t, 'v) alternatives \<Rightarrow> ('t, 'v) variant \<Rightarrow> bool" where
  "ready q E x \<longleftrightarrow> variant_wf E x \<and> (q \<longrightarrow> \<not> valueless x)"

lemma ready_holds [simp]: "holds E i v x \<Longrightarrow> ready q E x"
  by (auto simp: ready_def holds_wf valueless_def holds_def)

lemma ready_valueless [simp]: "valueless x \<Longrightarrow> ready q E x \<longleftrightarrow> \<not> q"
  by (auto simp: ready_def valueless_wf)

definition safe_result :: "bool \<Rightarrow> 'a res \<Rightarrow> bool" where
  "safe_result q r = (case r of Inr _ \<Rightarrow> True
     | Inl e \<Rightarrow> e = Bad_variant_access \<or> (\<not> q \<and> (e = User_exception \<or> e = Assertion_failed)))"

lemma safe_result_simps [simp]:
  "safe_result q (Inr a)"
  "safe_result q (Inl e) \<longleftrightarrow> e = Bad_variant_access \<or> (\<not> q \<and> (e = User_exception \<or> e = Assertion_failed))"
  by (simp_all add: safe_result_def)

lemma user_safe: "user_result q r \<Longrightarrow> safe_result q r"
  by (cases r) auto

lemma construct_at_run:
  assumes "few_types E" "variant_wf E x" "i < length (types E)"
  shows "\<exists>y. construct_at E (types E ! i) i c x = (map_sum id (\<lambda>_. ()) c, y) \<and>
    (case c of Inl _ \<Rightarrow> valueless y | Inr v \<Rightarrow> holds E i v y)"
  using assms
  by (cases c) (auto simp: construct_at_def variant_reset_run set_index_run valueless_def holds_def placement_new_def)

locale alternatives_contract =
  fixes q :: bool and E :: "('t, 'v) alternatives"
  assumes few: "few_types E"
    and copy_ctor_user: "user_result q (copy_ctor E t v)"
    and move_ctor_user: "user_result q (fst (move_ctor E t v))"
    and copy_asg_user: "user_result q (fst (copy_asg E t old v))"
    and move_asg_user: "user_result q (fst (move_asg E t old v))"
    and swap_el_user: "user_result q (fst (swap_el E t a b))"
    and swap_self_user: "user_result q (fst (swap_self E t a))"
begin

lemma ready_cases [consumes 1, case_names valueless holds]:
  assumes "ready q E x"
  obtains "valueless x" "\<not> q" | i v where "holds E i v x"
  using assms by (auto simp: ready_def variant_wf_def)

lemma construct_at_sound:
  assumes "ready q E x" "i < length (types E)" "user_result q c"
    and run: "construct_at E (types E ! i) i c x = (r, y)"
  shows "safe_result q r \<and> ready q E y"
proof -
  have "variant_wf E x"
    using assms by (simp add: ready_def)
  from construct_at_run [OF few this assms(2), of c] run assms(3) show ?thesis
    by (cases c) auto
qed

lemma emplace_sound:
  assumes "ready q E x" "i < length (types E)" "user_result q c" "variant_emplace E i c x = (r, y)"
  shows "safe_result q r \<and> ready q E y"
  using assms construct_at_sound by (simp add: variant_emplace_def)

lemma assign_sound:
  assumes x: "ready q E x" and U: "U \<in> set (types E)" and "user_result q c" "\<And>old. user_result q (fst (a old))"
    and run: "variant_assign E U c a x = (r, y)"
  shows "safe_result q r \<and> ready q E y"
  using x
proof (cases rule: ready_cases)
  case valueless
  then show ?thesis
    using run by (auto simp: variant_assign_def)
next
  case (holds i v)
  note k = find_index_found [OF U]
  show ?thesis
  proof (cases "find_index (types E) U = i")
    case True
    have "unsafe_get U x = Inr v"
      using unsafe_get_holds [OF holds] k True by simp
    then obtain new where new: "a v = (r, new)" "y = x\<lparr>vstorage := Object U new\<rparr>"
      using run holds k True by (auto simp: variant_assign_def split: prod.splits)
    then have "holds E i new y"
      using holds k True by (auto simp: holds_def)
    then show ?thesis
      using new assms(4) [of v] by (auto simp: user_safe)
  next
    case False
    then show ?thesis
      using construct_at_sound [OF x, of "find_index (types E) U" c r y] holds k assms(3) run
      by (auto simp: variant_assign_def)
  qed
qed

lemma copy_helper_holds:
  "holds E i v other \<Longrightarrow> i \<in> set Is \<Longrightarrow> copy_helper E Is other x =
     (case copy_ctor E (types E ! i) v of Inl e \<Rightarrow> (Inl e, x)
      | Inr w \<Rightarrow> (Inr (), (placement_new E (types E ! i) w x)\<lparr>vindex := int i\<rparr>))"
  by (induction Is) (auto simp: holds_def unsafe_get_def split: sum.splits)

lemma copy_helper_valueless: "valueless other \<Longrightarrow> copy_helper E Is other x = (Inr (), x)"
  by (induction Is) (auto simp: valueless_def)

lemma move_helper_holds:
  "holds E i v other \<Longrightarrow> i \<in> set Is \<Longrightarrow> move_helper E Is other x =
     (case move_ctor E (types E ! i) v of (Inl e, v') \<Rightarrow> (Inl e, x, other\<lparr>vstorage := Object (types E ! i) v'\<rparr>)
      | (Inr w, v') \<Rightarrow> (Inr (), (placement_new E (types E ! i) w x)\<lparr>vindex := int i\<rparr>,
                       other\<lparr>vstorage := Object (types E ! i) v'\<rparr>))"
  by (induction Is) (auto simp: holds_def unsafe_get_def split: sum.splits prod.splits)

lemma copy_assign_helper_holds:
  "holds E i v other \<Longrightarrow> holds E i old x \<Longrightarrow> i \<in> set Is \<Longrightarrow> copy_assign_helper E Is other x =
     (case copy_asg E (types E ! i) old v of (r, new) \<Rightarrow> (r, x\<lparr>vstorage := Object (types E ! i) new\<rparr>))"
  by (induction Is) (auto simp: holds_def unsafe_get_def split: prod.splits)

lemma copy_bytes_ready:
  assumes "ready q E other" "all_types P E"
  shows "ready q E (copy_bytes P E other x)"
  using assms(1)
proof (cases rule: ready_cases)
  case valueless
  then show ?thesis
    by (simp add: copy_bytes_def valueless_def ready_def variant_wf_def)
next
  case (holds i v)
  then have "P (traits_of E (types E ! i))"
    using assms(2) by (auto simp: all_types_def list_all_length holds_def)
  then have "holds E i v (copy_bytes P E other x)"
    using holds by (auto simp: holds_def copy_bytes_def)
  then show ?thesis
    by simp
qed

lemma copying_move_assign_sound:
  assumes x: "ready q E x" and other: "ready q E other"
    and run: "copying_move_assign E same other x = (r, y)"
  shows "safe_result q r \<and> ready q E y"
proof (cases "same \<or> valueless other")
  case True
  then show ?thesis
    using x other run
    by (auto simp: copying_move_assign_def variant_reset_run ready_def copy_helper_valueless copy_bytes_def
        valueless_def variant_wf_def split: if_splits)
next
  case False
  then obtain i v where o: "holds E i v other" and i: "i < length (types E)"
    using other by (auto simp: ready_def variant_wf_def holds_def)
  have wf: "variant_wf E x"
    using x by (simp add: ready_def)
  show ?thesis
  proof (cases "vindex x = int i")
    case True
    then obtain old where old: "holds E i old x"
      using x o by (auto simp: ready_def variant_wf_def holds_def valueless_def)
    obtain new where new: "copy_asg E (types E ! i) old v = (r, new)" "y = x\<lparr>vstorage := Object (types E ! i) new\<rparr>"
      using run False True o old i copy_assign_helper_holds [OF o old, of "index_sequence E"]
      by (auto simp: copying_move_assign_def holds_def split: prod.splits)
    then have "holds E i new y"
      using old by (auto simp: holds_def)
    then show ?thesis
      using copy_asg_user [of "types E ! i" old v] new by (auto simp: user_safe)
  next
    case differ: False
    obtain z where z: "valueless z" "variant_reset E x = (Inr (), z)"
      using variant_reset_valueless [OF wf] .
    have "(r, y) = (if all_types trivially_copy_constructible E
        then (Inr (), copy_bytes trivially_copy_constructible E other z)
        else copy_helper E (index_sequence E) other z)"
      using run False differ o z(2) by (auto simp: copying_move_assign_def holds_def)
    then show ?thesis
      using copy_bytes_ready [OF other] copy_helper_holds [OF o, of "index_sequence E" z] i z(1)
        copy_ctor_user [of "types E ! i" v]
      by (cases "copy_ctor E (types E ! i) v")
        (auto simp: ready_def variant_wf_def valueless_def holds_def placement_new_def split: if_splits)
  qed
qed

lemma move_assign_sound:
  assumes "ready q E x" "ready q E other" "variant_move_assign E same other x = Some (r, y)"
  shows "safe_result q r \<and> ready q E y"
  using assms copying_move_assign_sound [OF assms(1,2)] copy_bytes_ready [OF assms(2)]
  by (auto simp: variant_move_assign_def split: if_splits)

lemma copy_assign_sound:
  assumes "ready q E x" "ready q E other" "variant_copy_assign E same other x = Some y"
    "all_types (\<lambda>t. trivially_copy_constructible t \<and> trivially_copy_assignable t) E"
  shows "ready q E y"
  using assms copy_bytes_ready [OF assms(2,4)] by (auto simp: variant_copy_assign_def split: if_splits)

end

section \<open>Visiting and access\<close>

text \<open>
  Access by position goes through the type, and the search for a type finds its last position: of an
  alternative that occurs again later, \<open>get_if\<close> gives no pointer.
\<close>

lemma get_if_at_holds:
  assumes "holds E i v x"
  shows "get_if_at E i x = Inr (if types E ! i \<in> set (drop (Suc i) (types E)) then None else Some v)"
proof -
  let ?k = "find_index (types E) (types E ! i)"
  have i: "i < length (types E)"
    using assms by (simp add: holds_def)
  then have k: "i \<le> ?k" "?k < length (types E)" "types E ! ?k = types E ! i"
    using find_index_last [OF i] find_index_found [of "types E ! i" "types E"] by auto
  have "types E ! i \<in> set (drop (Suc i) (types E)) \<longleftrightarrow> ?k \<noteq> i"
  proof
    assume "types E ! i \<in> set (drop (Suc i) (types E))"
    then obtain n where "n < length (drop (Suc i) (types E))" "drop (Suc i) (types E) ! n = types E ! i"
      by (metis in_set_conv_nth)
    then show "?k \<noteq> i"
      using find_index_last [of "Suc i + n" "types E" "types E ! i"] by (auto simp: less_diff_conv)
  next
    assume "?k \<noteq> i"
    then have "drop (Suc i) (types E) ! (?k - Suc i) = types E ! i" "?k - Suc i < length (drop (Suc i) (types E))"
      using k by auto
    then show "types E ! i \<in> set (drop (Suc i) (types E))"
      by (metis nth_mem)
  qed
  then show ?thesis
    using assms by (simp add: get_if_at_def get_if_type_def holds_alternative_def)
qed

text \<open>
  Visiting several variants calls the visitor once, with the values of all of them in the order of the
  arguments; if one is valueless an assertion fails.
\<close>

lemma visit_holds:
  assumes "few_types E" "list_all2 (\<lambda>x (i, v). holds E i v x) xs ivs"
  shows "visit E f xs = f (map (\<lambda>(i, v). (types E ! i, v)) ivs)"
  using assms(2)
proof (induction arbitrary: f rule: list_all2_induct)
  case (Cons x xs iv ivs)
  then show ?case
    using assms(1) by (cases iv) simp
qed simp

lemma visit_valueless:
  assumes "few_types E" "list_all (variant_wf E) xs" "list_ex valueless xs"
  shows "visit E f xs = Inl Assertion_failed"
proof -
  have "visit E f xs = Inl Assertion_failed" if "list_ex valueless xs \<or> (\<forall>vs. f vs = Inl Assertion_failed)" for f
    using assms(2) that
  proof (induction xs arbitrary: f)
    case (Cons x xs)
    then show ?case
      using assms(1) by (auto simp: variant_wf_def dest: holds_not_valueless)
  qed simp
  then show ?thesis
    using assms(3) by blast
qed

lemma wf_values:
  assumes "list_all (variant_wf E) xs" "\<not> list_ex valueless xs"
  obtains ivs where "list_all2 (\<lambda>x (i, v). holds E i v x) xs ivs"
proof -
  have "\<forall>x\<in>set xs. \<exists>iv. case iv of (i, v) \<Rightarrow> holds E i v x"
    using assms by (auto simp: list_all_iff list_ex_iff variant_wf_def)
  then obtain g where "\<forall>x\<in>set xs. case g x of (i, v) \<Rightarrow> holds E i v x"
    by metis
  then have "list_all2 (\<lambda>x (i, v). holds E i v x) xs (map g xs)"
    by (auto simp: list_all2_conv_all_nth)
  then show ?thesis
    by (rule that)
qed

lemma both_values_run:
  assumes "few_types E" "holds E i v x" "holds E j w y"
  shows "both_values E x y = Inr ((types E ! i, v), (types E ! j, w))"
  using assms by (simp add: both_values_def)

lemma variant_swap_run:
  assumes "few_types E" "holds E i v x" "holds E j w y"
  shows "variant_swap E x y = (if i = j then swap_same E (types E ! i, v) (types E ! j, w) x y
    else swap_different E (types E ! i, v) (types E ! j, w) x y)"
  using assms by (simp add: variant_swap_def both_values_run)

lemma variant_swap_valueless:
  assumes "few_types E" "variant_wf E x" "variant_wf E y" "valueless x \<or> valueless y"
  shows "variant_swap E x y = (Inl Assertion_failed, x, y)"
  using assms by (auto simp: variant_swap_def variant_wf_def dest: holds_not_valueless)

lemma put_back_holds: "holds E i v x \<Longrightarrow> holds E i w (put_back (types E ! i, w) x)"
  by (simp add: holds_def put_back_def)

context alternatives_contract
begin

lemma assign_moved_sound:
  assumes "ready q E x" "fst tv \<in> set (types E)" "assign_moved E tv x = (r, y)"
  shows "safe_result q r \<and> ready q E y"
  using assign_sound [OF assms(1,2), of "moved_value E tv" "\<lambda>old. move_asg E (fst tv) old (snd tv)" r y] assms(3)
  by (simp add: assign_moved_def moved_value_def move_ctor_user move_asg_user)

lemma swap_different_sound:
  assumes x: "holds E i v x" and y: "holds E j w y"
    and run: "swap_different E (types E ! i, v) (types E ! j, w) x y = (r, x', y')"
  shows "safe_result q r \<and> ready q E x' \<and> ready q E y'"
proof -
  let ?tx = "(types E ! i, v)" and ?ty = "(types E ! j, w)"
  have t: "types E ! i \<in> set (types E)" "types E ! j \<in> set (types E)"
    using x y by (auto simp: holds_def)
  have x1: "ready q E (put_back (moved_from E ?tx) x)" and y1: "ready q E (put_back (moved_from E ?ty) y)"
    using put_back_holds [OF x] put_back_holds [OF y] by (auto simp: moved_from_def intro: ready_holds)
  note sx = assign_moved_sound [OF x1] and sy = assign_moved_sound [OF y1]
  show ?thesis
  proof (cases "moved_value E ?ty")
    case (Inl e)
    then show ?thesis
      using run x y1 move_ctor_user [of "types E ! j" w]
      by (auto simp: swap_different_def Let_def moved_value_def user_safe)
  next
    case (Inr tmp)
    obtain r2 y2 where 2: "assign_moved E ?tx (put_back (moved_from E ?ty) y) = (r2, y2)"
      by fastforce
    obtain r3 x3 where 3: "assign_moved E (types E ! j, tmp) (put_back (moved_from E ?tx) x) = (r3, x3)"
      by fastforce
    show ?thesis
      using run Inr 2 3 sy [OF _ 2] sx [OF _ 3] t x1
      by (cases r2) (auto simp: swap_different_def Let_def)
  qed
qed

lemma swap_sound:
  assumes x: "ready q E x" and y: "ready q E y" and run: "variant_swap E x y = (r, x', y')"
  shows "safe_result q r \<and> ready q E x' \<and> ready q E y'"
proof (cases "valueless x \<or> valueless y")
  case True
  then show ?thesis
    using variant_swap_valueless [OF few, of x y] assms by (auto simp: ready_def)
next
  case False
  then obtain i v j w where h: "holds E i v x" "holds E j w y"
    using x y by (auto simp: ready_def variant_wf_def)
  show ?thesis
  proof (cases "i = j")
    case True
    obtain r' a b where "swap_el E (types E ! i) v w = (r', a, b)"
      by (cases "swap_el E (types E ! i) v w") auto
    then show ?thesis
      using run True h swap_el_user [of "types E ! i" v w] put_back_holds [OF h(1)] put_back_holds [OF h(2)]
      by (auto simp: variant_swap_run [OF few h] swap_same_def user_safe intro: ready_holds)
  next
    case False
    then show ?thesis
      using run swap_different_sound [OF h] by (simp add: variant_swap_run [OF few h])
  qed
qed

lemma swap_self_sound:
  assumes x: "ready q E x" and run: "variant_swap_self E x = (r, y)"
  shows "safe_result q r \<and> ready q E y"
  using x
proof (cases rule: ready_cases)
  case (holds i v)
  obtain m a where m: "swap_self E (types E ! i) v = (m, a)"
    by fastforce
  then show ?thesis
    using run swap_self_user [of "types E ! i" v] put_back_holds [OF holds, of a]
      valueless_by_exception_holds [OF few holds]
    by (auto simp: variant_swap_self_def both_values_run [OF few holds holds] user_safe intro: ready_holds)
qed (use run in \<open>auto simp: variant_swap_self_def\<close>)

lemma get_at_safe: "ready q E x \<Longrightarrow> safe_result q (get_at E i x)"
  by (erule ready_cases) (auto simp: get_at_def)

lemma get_type_safe: "ready q E x \<Longrightarrow> T \<in> set (types E) \<Longrightarrow> safe_result q (get_type E T x)"
  by (erule ready_cases) (auto simp: get_type_def holds_alternative_def dest!: find_index_found dest: unsafe_get_holds)

lemma get_if_safe: "ready q E x \<Longrightarrow> T \<in> set (types E) \<Longrightarrow> safe_result q (get_if_type E T x)"
  by (erule ready_cases) (auto simp: get_if_type_def holds_alternative_def dest!: find_index_found dest: unsafe_get_holds)

lemma visit_safe:
  assumes "list_all (ready q E) xs" "\<And>vs. safe_result q (f vs)"
  shows "safe_result q (visit E f xs)"
proof -
  have wf: "list_all (variant_wf E) xs"
    using assms(1) by (auto simp: list_all_iff ready_def)
  have "q \<Longrightarrow> \<not> list_ex valueless xs"
    using assms(1) by (auto simp: list_all_iff list_ex_iff ready_def)
  moreover have "\<exists>vs. visit E f xs = f vs" if "\<not> list_ex valueless xs"
    by (rule wf_values [OF wf that], rule exI, rule visit_holds [OF few])
  ultimately show ?thesis
    using visit_valueless [OF few wf, of f] assms(2) by (cases "list_ex valueless xs") auto
qed

end

context alternatives_contract
begin

lemma default_construct_ready:
  assumes "types E \<noteq> []" "variant_default_construct E d = Inr x"
  shows "ready q E x"
proof -
  obtain v where "holds E 0 v x"
    using assms by (auto simp: variant_default_construct_def res_bind_Inr_iff holds_def placement_new_def split: if_splits)
  then show ?thesis
    by simp
qed

lemma construct_ready:
  assumes "U \<in> set (types E)" "variant_construct E U c = Inr x"
  shows "ready q E x"
proof -
  obtain v where "holds E (find_index (types E) U) v x"
    using assms find_index_found [OF assms(1)]
    by (auto simp: variant_construct_def res_bind_Inr_iff set_index_run few holds_def placement_new_def
        valueless_def variant_storage_init_def)
  then show ?thesis
    by simp
qed

lemma construct_error:
  assumes "U \<in> set (types E)" "user_result q c" "variant_construct E U c = Inl e"
  shows "e = User_exception \<and> \<not> q"
  using assms find_index_found [OF assms(1)]
  by (cases c) (auto simp: variant_construct_def set_index_run few valueless_def variant_storage_init_def placement_new_def)

lemma copy_construct_sound:
  assumes "ready q E other" "variant_copy_construct E other = Some (r, y)"
  shows "safe_result q r \<and> ready q E y \<or> r = Inl User_exception \<and> \<not> q"
  using assms(1)
proof (cases rule: ready_cases)
  case valueless
  then show ?thesis
    using assms copy_bytes_ready [OF assms(1)] init_valueless
    by (auto simp: variant_copy_construct_def valueless_def ready_def variant_wf_def split: if_splits)
next
  case (holds i v)
  have run: "(r, y) = (if all_types trivially_copy_constructible E
      then (Inr (), copy_bytes trivially_copy_constructible E other variant_storage_init)
      else (case copy_ctor E (types E ! i) v of Inl e \<Rightarrow> (Inl e, variant_storage_init)
        | Inr w \<Rightarrow> (Inr (), (placement_new E (types E ! i) w variant_storage_init)\<lparr>vindex := int i\<rparr>)))"
    using assms(2) holds copy_helper_holds [OF holds, of "index_sequence E"]
    by (auto simp: variant_copy_construct_def holds_def split: if_splits)
  show ?thesis
    using run holds copy_bytes_ready [OF assms(1)] copy_ctor_user [of "types E ! i" v]
    by (cases "copy_ctor E (types E ! i) v")
      (auto simp: placement_new_def ready_def variant_wf_def holds_def valueless_def split: if_splits)
qed

lemma move_construct_sound:
  assumes "ready q E other" "variant_move_construct E other = (r, y, z)"
  shows "ready q E z \<and> (safe_result q r \<and> ready q E y \<or> r = Inl User_exception \<and> \<not> q)"
  using assms(1)
proof (cases rule: ready_cases)
  case valueless
  then show ?thesis
    using assms copy_bytes_ready [OF assms(1)] init_valueless
    by (auto simp: variant_move_construct_def valueless_def ready_def variant_wf_def split: if_splits)
next
  case (holds i v)
  obtain m v' where m: "move_ctor E (types E ! i) v = (m, v')"
    by fastforce
  have run: "(r, y, z) = (if all_types trivially_move_constructible E
      then (Inr (), copy_bytes trivially_move_constructible E other variant_storage_init, other)
      else (case m of Inl e \<Rightarrow> (Inl e, variant_storage_init, other\<lparr>vstorage := Object (types E ! i) v'\<rparr>)
        | Inr w \<Rightarrow> (Inr (), (placement_new E (types E ! i) w variant_storage_init)\<lparr>vindex := int i\<rparr>,
                    other\<lparr>vstorage := Object (types E ! i) v'\<rparr>)))"
    using assms(2) holds move_helper_holds [OF holds, of "index_sequence E"] m
    by (auto simp: variant_move_construct_def holds_def split: sum.splits)
  have z: "holds E i v' (other\<lparr>vstorage := Object (types E ! i) v'\<rparr>)"
    using holds by (simp add: holds_def)
  show ?thesis
    using run holds copy_bytes_ready [OF assms(1)] move_ctor_user [of "types E ! i" v] m ready_holds [OF z]
    by (cases m)
      (auto simp: placement_new_def ready_def variant_wf_def holds_def valueless_def split: if_splits)
qed

end

section \<open>Programs over variants\<close>

text \<open>
  A program creates variants and works on them; the variables are numbered in the order of creation.
  A command on a variable that does not exist, and a copy or an assignment that the alternatives do not
  have, have no effect. The arguments of a command carry what the user code it calls does.
\<close>

datatype ('t, 'v) command =
    Default "'v res" | Construct 't "'v res" | Copy_of nat | Move_of nat
  | Emplace nat nat "'v res" | Assign nat 't "'v res" "'v \<Rightarrow> unit res \<times> 'v"
  | Move_assign nat nat | Copy_assign nat nat | Swap nat nat
  | Get nat nat | Get_type nat 't | Get_if nat 't | Visit "nat list" "('t \<times> 'v) list \<Rightarrow> unit res"

definition add_new :: "('t, 'v) variant list \<Rightarrow> ('t, 'v) variant res \<Rightarrow> unit res \<times> ('t, 'v) variant list" where
  "add_new vs r = (case r of Inl e \<Rightarrow> (Inl e, vs) | Inr x \<Rightarrow> (Inr (), vs @ [x]))"

definition update_at :: "('t, 'v) variant list \<Rightarrow> nat \<Rightarrow> unit res \<times> ('t, 'v) variant \<Rightarrow> unit res \<times> ('t, 'v) variant list" where
  "update_at vs i p = (fst p, vs[i := snd p])"

definition forget :: "'a res \<Rightarrow> unit res" where
  "forget r = res_bind r (\<lambda>_. Inr ())"

primrec variables :: "('t, 'v) command \<Rightarrow> nat list" where
  "variables (Default d) = []"
| "variables (Construct U c) = []"
| "variables (Copy_of j) = [j]"
| "variables (Move_of j) = [j]"
| "variables (Emplace i I c) = [i]"
| "variables (Assign i U c a) = [i]"
| "variables (Move_assign i j) = [i, j]"
| "variables (Copy_assign i j) = [i, j]"
| "variables (Swap i j) = [i, j]"
| "variables (Get i I) = [i]"
| "variables (Get_type i T) = [i]"
| "variables (Get_if i T) = [i]"
| "variables (Visit is f) = is"

primrec perform :: "('t, 'v) alternatives \<Rightarrow> ('t, 'v) variant list \<Rightarrow> ('t, 'v) command \<Rightarrow> unit res \<times> ('t, 'v) variant list" where
  "perform E vs (Default d) = add_new vs (variant_default_construct E d)"
| "perform E vs (Construct U c) = add_new vs (variant_construct E U c)"
| "perform E vs (Copy_of j) = (case variant_copy_construct E (vs ! j) of
     None \<Rightarrow> (Inr (), vs) | Some (r, x) \<Rightarrow> add_new vs (res_bind r (\<lambda>_. Inr x)))"
| "perform E vs (Move_of j) = (case variant_move_construct E (vs ! j) of
     (r, x, y) \<Rightarrow> add_new (vs[j := y]) (res_bind r (\<lambda>_. Inr x)))"
| "perform E vs (Emplace i I c) = update_at vs i (variant_emplace E I c (vs ! i))"
| "perform E vs (Assign i U c a) = update_at vs i (variant_assign E U c a (vs ! i))"
| "perform E vs (Move_assign i j) = (case variant_move_assign E (i = j) (vs ! j) (vs ! i) of
     None \<Rightarrow> (Inr (), vs) | Some p \<Rightarrow> update_at vs i p)"
| "perform E vs (Copy_assign i j) = (case variant_copy_assign E (i = j) (vs ! j) (vs ! i) of
     None \<Rightarrow> (Inr (), vs) | Some x \<Rightarrow> (Inr (), vs[i := x]))"
| "perform E vs (Swap i j) =
     (if i = j then update_at vs i (variant_swap_self E (vs ! i))
      else case variant_swap E (vs ! i) (vs ! j) of (r, x, y) \<Rightarrow> (r, vs[i := x, j := y]))"
| "perform E vs (Get i I) = (forget (get_at E I (vs ! i)), vs)"
| "perform E vs (Get_type i T) = (forget (get_type E T (vs ! i)), vs)"
| "perform E vs (Get_if i T) = (forget (get_if_type E T (vs ! i)), vs)"
| "perform E vs (Visit is f) = (visit E f (map ((!) vs) is), vs)"

text \<open>The program goes on after an exception, and stops at a failed assertion or at undefined behaviour.\<close>

fun run_commands :: "('t, 'v) alternatives \<Rightarrow> ('t, 'v) command list \<Rightarrow> ('t, 'v) variant list
    \<Rightarrow> unit res \<times> ('t, 'v) variant list" where
  "run_commands E [] vs = (Inr (), vs)"
| "run_commands E (c # cs) vs =
     (if list_all (\<lambda>i. i < length vs) (variables c) then
        (case perform E vs c of
           (r, vs') \<Rightarrow> if r \<in> {Inr (), Inl User_exception, Inl Bad_variant_access} then run_commands E cs vs' else (r, vs'))
      else run_commands E cs vs)"

text \<open>
  What the compiler checks of a command, and what it asks of the user code.
\<close>

fun command_ok :: "bool \<Rightarrow> ('t, 'v) alternatives \<Rightarrow> ('t, 'v) command \<Rightarrow> bool" where
  "command_ok q E (Default d) \<longleftrightarrow> types E \<noteq> [] \<and> user_result q d"
| "command_ok q E (Construct U c) \<longleftrightarrow> U \<in> set (types E) \<and> user_result q c"
| "command_ok q E (Emplace i I c) \<longleftrightarrow> I < length (types E) \<and> user_result q c"
| "command_ok q E (Assign i U c a) \<longleftrightarrow> U \<in> set (types E) \<and> user_result q c \<and> (\<forall>old. user_result q (fst (a old)))"
| "command_ok q E (Get i I) \<longleftrightarrow> I < length (types E)"
| "command_ok q E (Get_type i T) \<longleftrightarrow> T \<in> set (types E)"
| "command_ok q E (Get_if i T) \<longleftrightarrow> T \<in> set (types E)"
| "command_ok q E (Visit is f) \<longleftrightarrow> (\<forall>vs. user_result q (f vs))"
| "command_ok q E _ \<longleftrightarrow> True"

text \<open>Assignment of a variant that is an lvalue, which copies bytes (see \<open>variant_copy_assign_undefined\<close>).\<close>

fun assigns_lvalue :: "('t, 'v) command \<Rightarrow> bool" where
  "assigns_lvalue (Copy_assign i j) \<longleftrightarrow> True"
| "assigns_lvalue _ \<longleftrightarrow> False"

definition trivially_copyable :: "('t, 'v) alternatives \<Rightarrow> bool" where
  "trivially_copyable E = all_types (\<lambda>t. trivially_copy_constructible t \<and> trivially_copy_assignable t) E"

lemma ready_update:
  "list_all (ready q E) vs \<Longrightarrow> ready q E x \<Longrightarrow> list_all (ready q E) (vs[i := x])"
  by (auto simp: list_all_iff dest!: set_update_subset_insert [THEN subsetD])

lemma ready_nth: "list_all (ready q E) vs \<Longrightarrow> i < length vs \<Longrightarrow> ready q E (vs ! i)"
  by (simp add: list_all_length)

lemma forget_safe: "safe_result q r \<Longrightarrow> safe_result q (forget r)"
  by (cases r) (auto simp: forget_def)

context alternatives_contract
begin

lemma add_new_sound:
  assumes "list_all (ready q E) vs" "\<And>e. m = Inl e \<Longrightarrow> safe_result q (m :: ('t, 'v) variant res)"
    "\<And>x. m = Inr x \<Longrightarrow> ready q E x" "add_new vs m = (r, vs')"
  shows "safe_result q r \<and> list_all (ready q E) vs'"
  using assms by (cases m) (auto simp: add_new_def)

lemma update_at_sound:
  assumes "list_all (ready q E) vs" "update_at vs i p = (r, vs')"
    "\<And>r y. p = (r, y) \<Longrightarrow> safe_result q r \<and> ready q E y"
  shows "safe_result q r \<and> list_all (ready q E) vs'"
  using assms by (cases p) (auto simp: update_at_def ready_update)

lemma perform_sound:
  assumes vs: "list_all (ready q E) vs" and ok: "command_ok q E c" "assigns_lvalue c \<Longrightarrow> trivially_copyable E"
    and i: "list_all (\<lambda>i. i < length vs) (variables c)" and run: "perform E vs c = (r, vs')"
  shows "safe_result q r \<and> list_all (ready q E) vs'"
proof (cases c)
  case (Default d)
  have "safe_result q (Inl e)" if "variant_default_construct E d = Inl e" for e
    using that ok Default by (cases d) (auto simp: variant_default_construct_def split: if_splits)
  then show ?thesis
    using add_new_sound [OF vs, of "variant_default_construct E d"] run ok Default default_construct_ready by auto
next
  case (Construct U d)
  then show ?thesis
    using add_new_sound [OF vs, of "variant_construct E U d"] run ok construct_ready construct_error by force
next
  case (Copy_of j)
  show ?thesis
  proof (cases "variant_copy_construct E (vs ! j)")
    case None
    then show ?thesis
      using run vs Copy_of by auto
  next
    case (Some p)
    then obtain m x where m: "variant_copy_construct E (vs ! j) = Some (m, x)"
      by (cases p) simp
    show ?thesis
      using add_new_sound [OF vs, of "res_bind m (\<lambda>_. Inr x)"] run Copy_of m i
        copy_construct_sound [OF ready_nth [OF vs] m] by (cases m) auto
  qed
next
  case (Move_of j)
  obtain m x y where m: "variant_move_construct E (vs ! j) = (m, x, y)"
    by (cases "variant_move_construct E (vs ! j)") auto
  have "ready q E y \<and> (safe_result q m \<and> ready q E x \<or> m = Inl User_exception \<and> \<not> q)"
    using move_construct_sound [OF ready_nth [OF vs] m] i Move_of by simp
  then show ?thesis
    using add_new_sound [OF ready_update [OF vs, of y j], of "res_bind m (\<lambda>_. Inr x)"] run Move_of m
    by (cases m) auto
next
  case (Emplace k I d)
  then show ?thesis
    using update_at_sound [OF vs, of k "variant_emplace E I d (vs ! k)"] emplace_sound [OF ready_nth [OF vs, of k], of I d]
      run ok i by auto
next
  case (Assign k U d a)
  then show ?thesis
    using update_at_sound [OF vs, of k "variant_assign E U d a (vs ! k)"]
      assign_sound [OF ready_nth [OF vs, of k], of U d a] run ok i by auto
next
  case (Move_assign k j)
  then show ?thesis
    using update_at_sound [OF vs, of k] move_assign_sound [OF ready_nth [OF vs, of k] ready_nth [OF vs, of j]] run vs i
    by (auto split: option.splits)
next
  case (Copy_assign k j)
  then show ?thesis
    using copy_assign_sound [OF ready_nth [OF vs, of k] ready_nth [OF vs, of j]] ready_update [OF vs] run vs i ok
    by (auto simp: trivially_copyable_def split: option.splits)
next
  case (Swap k j)
  show ?thesis
  proof (cases "k = j")
    case True
    then show ?thesis
      using update_at_sound [OF vs, of k "variant_swap_self E (vs ! k)"] swap_self_sound [OF ready_nth [OF vs, of k]]
        run i Swap by auto
  next
    case False
    then show ?thesis
    using Swap swap_sound [OF ready_nth [OF vs, of k] ready_nth [OF vs, of j]] vs run i
    by (auto split: prod.splits intro!: ready_update)
  qed
next
  case (Visit ks f)
  have "list_all (ready q E) (map ((!) vs) ks)"
    using vs i Visit by (auto simp: list_all_iff)
  then show ?thesis
    using visit_safe [of "map ((!) vs) ks" f] user_safe run ok vs Visit by auto
qed (use assms ready_nth in \<open>auto intro!: forget_safe get_at_safe get_type_safe get_if_safe\<close>)

lemma run_commands_sound:
  assumes "list_all (command_ok q E) cs" "list_ex assigns_lvalue cs \<Longrightarrow> trivially_copyable E" "list_all (ready q E) vs"
  shows "(fst (run_commands E cs vs) = Inr () \<or> \<not> q \<and> fst (run_commands E cs vs) = Inl Assertion_failed) \<and>
    list_all (ready q E) (snd (run_commands E cs vs))"
  using assms
proof (induction cs arbitrary: vs)
  case (Cons c cs)
  obtain r vs' where run: "perform E vs c = (r, vs')"
    by fastforce
  show ?case
  proof (cases "list_all (\<lambda>i. i < length vs) (variables c)")
    case True
    then have "safe_result q r" "list_all (ready q E) vs'"
      using perform_sound [OF Cons.prems(3) _ _ True run] Cons.prems by auto
    then show ?thesis
      using Cons True run by (cases r) auto
  qed (use Cons in auto)
qed simp

end

section \<open>The result of a future\<close>

text \<open>
  The instance the library itself uses: \<open>shared_state<T>\<close> keeps its result in a
  \<open>variant<monostate, T, error_code>\<close>. The members of the value type are those of a type that does not
  throw, with arbitrary traits.
\<close>

datatype future_alternative = Monostate | Value_type | Error_code

definition monostate_eq :: "'v \<Rightarrow> 'v \<Rightarrow> bool" where
  "monostate_eq _ _ = True"

definition monostate_lt :: "'v \<Rightarrow> 'v \<Rightarrow> bool" where
  "monostate_lt _ _ = False"

definition trivial_traits :: type_traits where
  "trivial_traits = \<lparr>trivially_default_constructible = True, trivially_destructible = True, nothrow_destructible = True,
     trivially_move_constructible = True, trivially_copy_constructible = True,
     trivially_copy_assignable = True, trivially_move_assignable = True,
     move_constructible = True, move_assignable = True, copy_constructible = True, copy_assignable = True\<rparr>"

definition owning_traits :: type_traits where
  "owning_traits = trivial_traits\<lparr>trivially_default_constructible := False, trivially_destructible := False, trivially_move_constructible := False,
     trivially_copy_constructible := False, trivially_copy_assignable := False, trivially_move_assignable := False\<rparr>"

definition future_result :: "type_traits \<Rightarrow> (future_alternative, int) alternatives" where
  "future_result tr = \<lparr>types = [Monostate, Value_type, Error_code],
     traits_of = (\<lambda>t. if t = Value_type then tr else trivial_traits),
     copy_ctor = (\<lambda>_ v. Inr v), move_ctor = (\<lambda>_ v. (Inr v, v)),
     copy_asg = (\<lambda>_ _ v. (Inr (), v)), move_asg = (\<lambda>_ _ v. (Inr (), v)),
     swap_el = (\<lambda>_ a b. (Inr (), b, a)), swap_self = (\<lambda>_ a. (Inr (), a)),
     eq_el = (\<lambda>t. if t = Monostate then monostate_eq else (=)),
     less_el = (\<lambda>t. Some (if t = Monostate then monostate_lt else (<))),
     indeterminate = 0, msvc = False\<rparr>"

lemma length_future_result [simp]: "length (types (future_result tr)) = 3"
  by (simp add: future_result_def)

interpretation fr: alternatives_contract q "future_result tr"
  by unfold_locales (simp_all add: future_result_def few_types_def)

section \<open>Lifetimes\<close>

text \<open>The number of destructors that will not run if nothing more happens to the storage.\<close>

definition debt :: "('t, 'v) alternatives \<Rightarrow> ('t, 'v) variant \<Rightarrow> nat" where
  "debt E x = lost x + abandoned E (vstorage x)"

primrec emplace_all :: "('t, 'v) alternatives \<Rightarrow> (nat \<times> 'v res) list \<Rightarrow> ('t, 'v) variant \<Rightarrow> ('t, 'v) variant" where
  "emplace_all E [] x = x"
| "emplace_all E (p # ps) x = emplace_all E ps (snd (variant_emplace E (fst p) (snd p) x))"

definition owns :: "('t, 'v) alternatives \<Rightarrow> nat \<times> 'v res \<Rightarrow> bool" where
  "owns E p \<longleftrightarrow> \<not> isl (snd p) \<and> \<not> trivially_destructible (traits_of E (types E ! fst p))"

text \<open>Storage that destroys its content holds no object without an index that names it.\<close>

definition tidy :: "('t, 'v) alternatives \<Rightarrow> ('t, 'v) variant \<Rightarrow> bool" where
  "tidy E x \<longleftrightarrow> variant_wf E x \<and> (valueless x \<longrightarrow> storage_trivial E \<or> vstorage x = Dummy)"

lemma emplace_debt:
  assumes "few_types E" "tidy E x" "I < length (types E)"
  shows "tidy E (snd (variant_emplace E I c x)) \<and>
    (if storage_trivial E then debt E (snd (variant_emplace E I c x)) = debt E x + (if owns E (I, c) then 1 else 0)
     else lost (snd (variant_emplace E I c x)) = lost x)"
proof -
  have "variant_wf E x"
    using assms by (simp add: tidy_def)
  note reset = variant_reset_run [OF this]
  show ?thesis
    using assms
    by (cases c)
      (auto simp: variant_emplace_def construct_at_def reset set_index_run placement_new_def valueless_def tidy_def
        variant_wf_def holds_def debt_def owns_def abandoned_def)
qed

lemma emplace_all_debt:
  assumes "few_types E" "tidy E x" "list_all (\<lambda>p. fst p < length (types E)) ps"
  shows "tidy E (emplace_all E ps x) \<and>
    (if storage_trivial E then debt E (emplace_all E ps x) = debt E x + length (filter (owns E) ps)
     else lost (emplace_all E ps x) = lost x)"
  using assms(2,3)
proof (induction ps arbitrary: x)
  case (Cons p ps)
  then show ?case
    using emplace_debt [OF assms(1) Cons.prems(1), of "fst p" "snd p"] Cons.IH [of "snd (variant_emplace E (fst p) (snd p) x)"]
    by (auto split: if_splits)
qed simp

lemma destructor_debt:
  assumes "tidy E x"
  shows "lost (snd (variant_destructor E x)) = (if storage_trivial E then debt E x else lost x)"
proof -
  have "variant_wf E x"
    using assms by (simp add: tidy_def)
  then show ?thesis
  proof (cases rule: variant_wf_cases)
    case (holds i v)
    then have "destruct_helper E i (index_sequence E) x = (Inr (), x\<lparr>vstorage := Dummy\<rparr>)"
      by (intro destruct_helper_holds) (auto simp: holds_def)
    then show ?thesis
      using holds by (auto simp: variant_destructor_def debt_def holds_def abandoned_def)
  qed (use assms in \<open>auto simp: variant_destructor_def debt_def tidy_def valueless_def abandoned_def\<close>)
qed

section \<open>Properties\<close>

text \<open>
  C6. Type safety: take a program that creates variants (by default, from a value, by copying or moving a
  variant) and assigns values, moves variants into each other, exchanges them (also a variant with
  itself), constructs in place, reads and visits, in any order and with user code that may throw. If it
  assigns no variant that is an lvalue, or all alternatives are trivially copyable (see
  \<open>variant_copy_assign_undefined\<close> for what happens otherwise), then it never reads storage as a type that
  does not live there: it ends, or a failed assertion stops it, and every variant is well formed. If
  the user code does not throw, it ends and every variant holds a value.
\<close>

theorem variant_programs_type_safe:
  assumes "alternatives_contract q E" "list_all (command_ok q E) cs"
    and "list_ex assigns_lvalue cs \<Longrightarrow> trivially_copyable E"
  shows "(fst (run_commands E cs []) = Inr () \<or> \<not> q \<and> fst (run_commands E cs []) = Inl Assertion_failed) \<and>
    list_all (variant_wf E) (snd (run_commands E cs [])) \<and>
    (q \<longrightarrow> list_all (\<lambda>x. \<not> valueless x) (snd (run_commands E cs [])))"
  using alternatives_contract.run_commands_sound [OF assms, of "[]"]
  by (auto simp: list_all_iff ready_def)

theorem variant_programs_type_safe_witness:
  "fst (run_commands (future_result owning_traits)
     [Default (Inr 0), Construct Value_type (Inr 7), Move_assign 0 1, Emplace 1 2 (Inr 5), Swap 0 1, Swap 1 1, Get 0 2,
      Get_type 0 Value_type, Copy_of 0] [])
   = Inr ()"
  using variant_programs_type_safe [OF fr.alternatives_contract_axioms [where q = True and tr = owning_traits],
      of "[Default (Inr 0), Construct Value_type (Inr 7), Move_assign 0 1, Emplace 1 2 (Inr 5), Swap 0 1, Swap 1 1, Get 0 2,
        Get_type 0 Value_type, Copy_of 0]"]
  by (simp add: future_result_def)

lemma compare_run:
  assumes "few_types E" "holds E i v x" "holds E j w y"
  shows "compare E x y = Inr (if i < j then cmp_less else if j < i then cmp_greater
    else compare_values (eq_el E (types E ! i)) (less_el E (types E ! i)) v w)"
  using assms by (auto simp: compare_def compare_values_def [of "(=)"])

lemma compare_valueless:
  assumes "few_types E" "variant_wf E x" "valueless z"
  shows "compare E x z = Inl Assertion_failed" "compare E z x = Inl Assertion_failed"
  using assms by (auto simp: compare_def variant_wf_def)

text \<open>
  C22. Comparison: for alternatives with a linear order the six relational operators are those of the
  lexicographic order on index and value, and comparing with a valueless variant stops at a failed
  assertion.
\<close>

theorem variant_order:
  fixes E :: "('t, 'v :: linorder) alternatives"
  assumes "few_types E" "\<And>t. eq_el E t = (=)" "\<And>t. less_el E t = Some (<)"
    and "holds E i v x" "holds E j w y" "valueless z"
  shows "variant_eq E x y = Inr (i = j \<and> v = w) \<and> variant_ne E x y = Inr (i \<noteq> j \<or> v \<noteq> w) \<and>
    variant_lt E x y = Inr (i < j \<or> i = j \<and> v < w) \<and> variant_gt E x y = Inr (j < i \<or> i = j \<and> w < v) \<and>
    variant_le E x y = Inr (i < j \<or> i = j \<and> v \<le> w) \<and> variant_ge E x y = Inr (j < i \<or> i = j \<and> w \<le> v) \<and>
    compare E x z = Inl Assertion_failed \<and> compare E z x = Inl Assertion_failed"
  using compare_run [OF assms(1,4,5)] compare_valueless [OF assms(1) holds_wf [OF assms(4)] assms(6)]
  by (auto simp: variant_eq_def variant_ne_def variant_lt_def variant_gt_def variant_le_def variant_ge_def
      compare_values_def assms(2,3))

definition int_or_flag :: "(bool, int) alternatives" where
  "int_or_flag = \<lparr>types = [False, True], traits_of = (\<lambda>_. trivial_traits),
     copy_ctor = (\<lambda>_ v. Inr v), move_ctor = (\<lambda>_ v. (Inr v, v)),
     copy_asg = (\<lambda>_ _ v. (Inr (), v)), move_asg = (\<lambda>_ _ v. (Inr (), v)),
     swap_el = (\<lambda>_ a b. (Inr (), b, a)), swap_self = (\<lambda>_ a. (Inr (), a)),
     eq_el = (\<lambda>_. (=)), less_el = (\<lambda>_. Some (<)), indeterminate = 0, msvc = False\<rparr>"

theorem variant_order_witness:
  "variant_lt int_or_flag \<lparr>vstorage = Object False 9, vindex = 0, lost = 0\<rparr> \<lparr>vstorage = Object True 2, vindex = 1, lost = 0\<rparr>
   = Inr True"
  using variant_order [of int_or_flag 0 9 "\<lparr>vstorage = Object False 9, vindex = 0, lost = 0\<rparr>"
      1 2 "\<lparr>vstorage = Object True 2, vindex = 1, lost = 0\<rparr>" variant_storage_init]
  by (simp add: int_or_flag_def few_types_def holds_def valueless_def variant_storage_init_def)

lemma assign_moved_other:
  assumes "few_types E" "distinct (types E)" "fst (move_ctor E (types E ! i) v) = Inr v"
    and "holds E j w x" "i < length (types E)" "i \<noteq> j"
  shows "\<exists>y. assign_moved E (types E ! i, v) x = (Inr (), y) \<and> holds E i v y"
  using construct_at_run [OF assms(1) holds_wf [OF assms(4)] assms(5), of "Inr v"] assms
  by (auto simp: assign_moved_def variant_assign_def find_index_distinct moved_value_def)

text \<open>
  If moving an alternative gives its value and exchanging two gives the other's, swap
  exchanges the values of two variants that hold any alternatives, and their indices.
\<close>

lemma variant_swap_exchanges:
  assumes E: "few_types E" "distinct (types E)" and move: "\<And>t a. fst (move_ctor E t a) = Inr a"
    and swap: "\<And>t a b. swap_el E t a b = (Inr (), b, a)" and x: "holds E i v x" and y: "holds E j w y"
  shows "\<exists>x' y'. variant_swap E x y = (Inr (), x', y') \<and> holds E j w x' \<and> holds E i v y'"
proof (cases "i = j")
  case True
  then show ?thesis
    using put_back_holds [OF x] put_back_holds [OF y] by (simp add: variant_swap_run [OF E(1) x y] swap_same_def swap)
next
  case False
  let ?x = "put_back (moved_from E (types E ! i, v)) x" and ?y = "put_back (moved_from E (types E ! j, w)) y"
  have len: "i < length (types E)" "j < length (types E)"
    using x y by (auto simp: holds_def)
  obtain y' where y': "assign_moved E (types E ! i, v) ?y = (Inr (), y')" "holds E i v y'"
    using assign_moved_other [OF E move put_back_holds [OF y] len(1) False] by (auto simp: moved_from_def)
  obtain x' where x': "assign_moved E (types E ! j, w) ?x = (Inr (), x')" "holds E j w x'"
    using assign_moved_other [OF E move put_back_holds [OF x] len(2) False [symmetric]] by (auto simp: moved_from_def)
  have "moved_value E (types E ! j, w) = Inr w"
    by (simp add: moved_value_def move)
  then show ?thesis
    using False x' y' by (simp add: variant_swap_run [OF E(1) x y] swap_different_def)
qed

text \<open>
  C29. Lifetimes: after any constructions in place in a variant and its destruction, no destructor was
  left out if the storage class that destroys its content was inherited; with the other class every
  object with a destructor that was constructed is lost. The other class is inherited as soon as some
  alternative is not trivially movable and no destructor throws.
\<close>

theorem variant_leaks:
  assumes "few_types E" "list_all (\<lambda>p. fst p < length (types E)) ps"
  shows "lost (snd (variant_destructor E (emplace_all E ps variant_storage_init))) =
      (if storage_trivial E then length (filter (owns E) ps) else 0) \<and>
    (\<not> all_types trivially_move_constructible E \<longrightarrow> storage_trivial E = all_types nothrow_destructible E)"
proof -
  have "tidy E variant_storage_init" "debt E variant_storage_init = 0" "lost variant_storage_init = 0"
    by (simp_all add: tidy_def valueless_def variant_wf_def variant_storage_init_def debt_def abandoned_def)
  then show ?thesis
    using emplace_all_debt [OF assms(1) _ assms(2), of variant_storage_init]
      destructor_debt [of E "emplace_all E ps variant_storage_init"]
    by (auto simp: storage_trivial_def)
qed

theorem variant_leaks_witness:
  "lost (snd (variant_destructor (future_result owning_traits)
     (emplace_all (future_result owning_traits) [(1, Inr 7), (2, Inr 5), (1, Inr 8)] variant_storage_init))) = 2"
  using variant_leaks [of "future_result owning_traits" "[(1, Inr 7), (2, Inr 5), (1, Inr 8)]"]
  by (simp add: future_result_def few_types_def storage_trivial_def all_types_def owning_traits_def
      trivial_traits_def owns_def)

text \<open>
  A constructor that throws in emplace leaves the variant valueless, and then asking whether it is
  valueless, comparing, exchanging, visiting and assigning a value all stop at a failed assertion;
  only another emplace brings it back.
\<close>

lemma variant_valueless_unusable:
  assumes "few_types E" "variant_wf E x" "I < length (types E)" "J < length (types E)" "variant_wf E o'"
  shows "\<exists>y. variant_emplace E I (Inl User_exception) x = (Inl User_exception, y) \<and> valueless y \<and>
    valueless_by_exception y = Inl Assertion_failed \<and> get_at E J y = Inl Assertion_failed \<and>
    compare E y o' = Inl Assertion_failed \<and> fst (variant_swap E y o') = Inl Assertion_failed \<and>
    visit E f [y] = Inl Assertion_failed \<and> fst (variant_assign E U c a y) = Inl Assertion_failed \<and>
    (\<exists>z. variant_emplace E J (Inr v) y = (Inr (), z) \<and> get_at E J z = Inr v)"
proof -
  obtain y where y: "variant_emplace E I (Inl User_exception) x = (Inl User_exception, y)" "valueless y"
    using construct_at_run [OF assms(1-3), of "Inl User_exception"] by (auto simp: variant_emplace_def)
  note wf = valueless_wf [OF y(2)]
  have "\<exists>z. variant_emplace E J (Inr v) y = (Inr (), z) \<and> get_at E J z = Inr v"
    using construct_at_run [OF assms(1) wf assms(4), of "Inr v"] by (auto simp: variant_emplace_def)
  then show ?thesis
    using y compare_valueless(2) [OF assms(1,5) y(2)] variant_swap_valueless [OF assms(1) wf assms(5)]
      visit_valueless [OF assms(1), of "[y]" f] wf
    by (auto simp: get_at_def variant_assign_def)
qed

text \<open>
  Assigning from a variant that is an lvalue copies bytes: for an alternative whose copy is not
  trivial no object is created, reading the result is undefined behaviour, and the object that was
  in the target is lost.
\<close>

lemma variant_copy_assign_undefined:
  assumes "all_types (\<lambda>t. copy_constructible t \<and> copy_assignable t) E" "holds E i v y"
    "\<not> (trivially_copy_constructible (traits_of E (types E ! i)) \<and> trivially_copy_assignable (traits_of E (types E ! i)))"
  shows "\<exists>z. variant_copy_assign E False y x = Some z \<and> index z = Inr i \<and> get_at E i z = Inl Undefined_behaviour \<and>
    lost z = debt E x"
  using assms by (auto simp: variant_copy_assign_def copy_bytes_def holds_def get_at_def index_def unsafe_get_def debt_def)

end
