(* ===== verification/Offset_Ptr.thy ===== *)
theory Offset_Ptr
  imports Gpcl_Prelude
begin

text \<open>
  \<open>gpcl::offset_ptr\<close> (\<open>offset_ptr.hpp\<close>, \<open>impl/offset_ptr.hpp\<close>): a pointer for shared memory that stores the
  distance from its own address to its target, so that a segment works wherever it is mapped. An
  address is the \<open>intptr_t\<close> it converts to, null is 0. Signed arithmetic that leaves 64 bits is
  undefined behaviour; conversions and unsigned arithmetic wrap around.
\<close>

section \<open>64-bit integers\<close>

definition intptr_fits :: "int \<Rightarrow> bool" where
  "intptr_fits z \<longleftrightarrow> - (2 ^ 63) \<le> z \<and> z < 2 ^ 63"

definition signed_result :: "int \<Rightarrow> int res" where
  "signed_result z = (if intptr_fits z then Inr z else Inl Undefined_behaviour)"

definition to_signed :: "int \<Rightarrow> int" where
  "to_signed z = signed_take_bit 63 z"

definition to_unsigned :: "int \<Rightarrow> int" where
  "to_unsigned z = z mod 2 ^ 64"

lemma to_signed_fits [simp]: "intptr_fits z \<Longrightarrow> to_signed z = z"
  unfolding to_signed_def by (rule signed_take_bit_int_eq_self) (simp_all add: intptr_fits_def)

lemma to_signed_unsigned [simp]: "to_signed (to_unsigned z) = to_signed z"
proof -
  have "take_bit (Suc 63) (z mod 2 ^ 64) = take_bit (Suc 63) z"
    by (simp add: take_bit_eq_mod)
  then show ?thesis
    by (simp add: to_signed_def to_unsigned_def signed_take_bit_eq_iff_take_bit_eq)
qed

lemma signed_result_fits [simp]: "intptr_fits z \<Longrightarrow> signed_result z = Inr z"
  by (simp add: signed_result_def)

section \<open>Operations\<close>

text \<open>
  The object: its own address and the stored offset. What depends on the element type are its size
  and whether \<open>get\<close> checks for an offset of 0 (all types but \<open>void\<close> and the character types).
\<close>

record offset_ptr =
  self :: int
  offset :: int

record element_type =
  size_of :: int
  checked :: bool

definition invalid_offset :: int where
  "invalid_offset = 2 ^ 63 - 1"

definition offset_ptr_null :: "int \<Rightarrow> offset_ptr" where
  "offset_ptr_null this = \<lparr>self = this, offset = invalid_offset\<rparr>"

definition offset_of :: "int \<Rightarrow> int \<Rightarrow> int res" where
  "offset_of this ptr = (if ptr \<noteq> 0 then signed_result (ptr - this) else Inr invalid_offset)"

definition offset_ptr_new :: "int \<Rightarrow> int \<Rightarrow> offset_ptr res" where
  "offset_ptr_new this ptr = res_bind (offset_of this ptr) (\<lambda>d. Inr \<lparr>self = this, offset = d\<rparr>)"

definition offset_get :: "element_type \<Rightarrow> offset_ptr \<Rightarrow> int res" where
  "offset_get T p = (if checked T \<and> offset p = 0 then Inl Assertion_failed
     else if offset p \<noteq> invalid_offset then signed_result (self p + offset p) else Inr 0)"

definition offset_ptr_copy :: "element_type \<Rightarrow> int \<Rightarrow> offset_ptr \<Rightarrow> offset_ptr res" where
  "offset_ptr_copy T this other = res_bind (offset_get T other) (offset_ptr_new this)"

definition offset_assign :: "element_type \<Rightarrow> offset_ptr \<Rightarrow> offset_ptr \<Rightarrow> offset_ptr res" where
  "offset_assign T p other = res_bind (offset_get T other) (\<lambda>ptr.
     res_bind (offset_of (self p) ptr) (\<lambda>d. Inr (p\<lparr>offset := d\<rparr>)))"

text \<open>
  \<open>diff * sizeof(T)\<close> is computed without sign and narrowed to \<open>intptr_t\<close>; the assertion in
  \<open>narrow_cast\<close> compares after converting back, which always agrees.
\<close>

definition diff_to_offset :: "element_type \<Rightarrow> int \<Rightarrow> int" where
  "diff_to_offset T diff = to_signed (to_unsigned (diff * size_of T))"

definition offset_to_diff :: "element_type \<Rightarrow> int \<Rightarrow> int res" where
  "offset_to_diff T d = (if to_unsigned d mod size_of T = 0 then Inr (to_signed (to_unsigned d div size_of T))
     else Inl Assertion_failed)"

definition not_null :: "element_type \<Rightarrow> offset_ptr \<Rightarrow> int res" where
  "not_null T p = res_bind (offset_get T p) (\<lambda>a. if a \<noteq> 0 then Inr a else Inl Assertion_failed)"

definition offset_deref :: "element_type \<Rightarrow> offset_ptr \<Rightarrow> int res" where
  "offset_deref T p = res_bind (not_null T p) (\<lambda>_. offset_get T p)"

definition offset_inc :: "element_type \<Rightarrow> offset_ptr \<Rightarrow> offset_ptr res" where
  "offset_inc T p = res_bind (not_null T p) (\<lambda>_.
     Inr (p\<lparr>offset := to_signed (to_unsigned (offset p + size_of T))\<rparr>))"

definition offset_dec :: "element_type \<Rightarrow> offset_ptr \<Rightarrow> offset_ptr res" where
  "offset_dec T p = res_bind (not_null T p) (\<lambda>_.
     Inr (p\<lparr>offset := to_signed (to_unsigned (offset p - size_of T))\<rparr>))"

text \<open>The postfix forms return the old value, in an object at an address of its own.\<close>

definition offset_post_inc :: "element_type \<Rightarrow> int \<Rightarrow> offset_ptr \<Rightarrow> (offset_ptr \<times> offset_ptr) res" where
  "offset_post_inc T ret p = res_bind (not_null T p) (\<lambda>_. res_bind (offset_ptr_copy T ret p) (\<lambda>r.
     res_bind (offset_inc T p) (\<lambda>p'. Inr (r, p'))))"

definition offset_post_dec :: "element_type \<Rightarrow> int \<Rightarrow> offset_ptr \<Rightarrow> (offset_ptr \<times> offset_ptr) res" where
  "offset_post_dec T ret p = res_bind (not_null T p) (\<lambda>_. res_bind (offset_ptr_copy T ret p) (\<lambda>r.
     res_bind (offset_dec T p) (\<lambda>p'. Inr (r, p'))))"

definition offset_add_assign :: "element_type \<Rightarrow> int \<Rightarrow> offset_ptr \<Rightarrow> offset_ptr res" where
  "offset_add_assign T diff p = res_bind (not_null T p) (\<lambda>_.
     res_bind (signed_result (offset p + diff_to_offset T diff)) (\<lambda>d. Inr (p\<lparr>offset := d\<rparr>)))"

definition offset_sub_assign :: "element_type \<Rightarrow> int \<Rightarrow> offset_ptr \<Rightarrow> offset_ptr res" where
  "offset_sub_assign T diff p = res_bind (not_null T p) (\<lambda>_.
     res_bind (signed_result (offset p - diff_to_offset T diff)) (\<lambda>d. Inr (p\<lparr>offset := d\<rparr>)))"

definition offset_plus :: "element_type \<Rightarrow> int \<Rightarrow> int \<Rightarrow> offset_ptr \<Rightarrow> offset_ptr res" where
  "offset_plus T ret diff p = res_bind (not_null T p) (\<lambda>_.
     res_bind (offset_ptr_copy T ret p) (offset_add_assign T diff))"

definition offset_minus :: "element_type \<Rightarrow> int \<Rightarrow> int \<Rightarrow> offset_ptr \<Rightarrow> offset_ptr res" where
  "offset_minus T ret diff p = res_bind (not_null T p) (\<lambda>_.
     res_bind (offset_ptr_copy T ret p) (offset_sub_assign T diff))"

definition offset_difference :: "element_type \<Rightarrow> offset_ptr \<Rightarrow> offset_ptr \<Rightarrow> int res" where
  "offset_difference T p other = res_bind (not_null T p) (\<lambda>a. res_bind (not_null T other) (\<lambda>b.
     if (a - b) mod size_of T = 0 then Inr ((a - b) div size_of T) else Inl Undefined_behaviour))"

definition offset_eq :: "element_type \<Rightarrow> offset_ptr \<Rightarrow> offset_ptr \<Rightarrow> bool res" where
  "offset_eq T x y = res_bind (offset_get T x) (\<lambda>a. res_bind (offset_get T y) (\<lambda>b. Inr (a = b)))"

definition offset_ne :: "element_type \<Rightarrow> offset_ptr \<Rightarrow> offset_ptr \<Rightarrow> bool res" where
  "offset_ne T x y = res_bind (offset_eq T x y) (\<lambda>b. Inr (\<not> b))"

definition offset_lt :: "element_type \<Rightarrow> offset_ptr \<Rightarrow> offset_ptr \<Rightarrow> bool res" where
  "offset_lt T x y = res_bind (offset_get T x) (\<lambda>a. res_bind (offset_get T y) (\<lambda>b.
     Inr (to_unsigned a < to_unsigned b)))"

definition raw_ne_offset :: "element_type \<Rightarrow> int \<Rightarrow> offset_ptr \<Rightarrow> bool res" where
  "raw_ne_offset T x y = res_bind (offset_get T y) (\<lambda>b. Inr (x = b))"

definition raw_lt_offset :: "element_type \<Rightarrow> int \<Rightarrow> offset_ptr \<Rightarrow> bool res" where
  "raw_lt_offset T x y = res_bind (offset_get T y) (\<lambda>b. Inr (x = b))"

section \<open>Meaning of an offset pointer\<close>

text \<open>
  \<open>points p a\<close>: the pointer \<open>p\<close> represents the raw pointer \<open>a\<close>. All addresses are below \<open>2 ^ 62\<close>, as those
  of user space are. A pointer of a checked type that represents its own address cannot be read.
\<close>

definition address :: "int \<Rightarrow> bool" where
  "address a \<longleftrightarrow> 0 < a \<and> a < 2 ^ 62"

definition target_ok :: "int \<Rightarrow> bool" where
  "target_ok a \<longleftrightarrow> a = 0 \<or> address a"

definition points :: "offset_ptr \<Rightarrow> int \<Rightarrow> bool" where
  "points p a \<longleftrightarrow> address (self p) \<and> target_ok a \<and>
     offset p = (if a = 0 then invalid_offset else a - self p)"

lemma address_diff: "address a \<Longrightarrow> address b \<Longrightarrow> intptr_fits (a - b) \<and> a - b \<noteq> invalid_offset"
  by (auto simp: address_def intptr_fits_def invalid_offset_def)

lemma address_fits: "address a \<Longrightarrow> intptr_fits a"
  by (simp add: address_def intptr_fits_def)

definition readable :: "element_type \<Rightarrow> offset_ptr \<Rightarrow> int \<Rightarrow> bool" where
  "readable T p a \<longleftrightarrow> \<not> (checked T \<and> a = self p)"

lemma offset_get_points: "points p a \<Longrightarrow> offset_get T p = (if readable T p a then Inr a else Inl Assertion_failed)"
  using address_diff [of a "self p"]
  by (auto simp: points_def readable_def offset_get_def target_ok_def address_fits address_def invalid_offset_def)

lemma offset_get_readable [simp]: "points p a \<Longrightarrow> readable T p a \<Longrightarrow> offset_get T p = Inr a"
  by (simp add: offset_get_points)

lemma not_null_unreadable [simp]: "points p a \<Longrightarrow> \<not> readable T p a \<Longrightarrow> not_null T p = Inl Assertion_failed"
  by (simp add: not_null_def offset_get_points)

lemma not_null_points [simp]: "points p a \<Longrightarrow> readable T p a \<Longrightarrow> a \<noteq> 0 \<Longrightarrow> not_null T p = Inr a"
  by (simp add: not_null_def)

lemma offset_of_address: "address this \<Longrightarrow> target_ok a \<Longrightarrow>
    offset_of this a = Inr (if a = 0 then invalid_offset else a - this)"
  using address_diff [of a this] by (auto simp: offset_of_def target_ok_def)

lemma offset_ptr_new_points:
  assumes "address this" "target_ok a"
  shows "\<exists>p. offset_ptr_new this a = Inr p \<and> self p = this \<and> points p a"
  using assms by (simp add: offset_ptr_new_def offset_of_address points_def)

lemma offset_assign_points:
  assumes "points q b" "readable T q b" "address (self p)" "target_ok b"
  shows "\<exists>p'. offset_assign T p q = Inr p' \<and> self p' = self p \<and> points p' b"
  using assms(3,4) offset_get_readable [OF assms(1,2)] by (simp add: offset_assign_def offset_of_address points_def)

lemma moved_points:
  assumes "points p a" "a \<noteq> 0" "a + k \<noteq> 0" "target_ok (a + k)"
  shows "intptr_fits (offset p + k)" "points (p\<lparr>offset := offset p + k\<rparr>) (a + k)"
  using assms address_diff [of "a + k" "self p"]
  by (auto simp: points_def target_ok_def algebra_simps)

lemma offset_inc_points:
  assumes "points p a" "a \<noteq> 0" "a + size_of T \<noteq> 0" "target_ok (a + size_of T)" "readable T p a"
  shows "\<exists>p'. offset_inc T p = Inr p' \<and> self p' = self p \<and> points p' (a + size_of T)"
  using moved_points [OF assms(1-4)] assms by (simp add: offset_inc_def)

lemma offset_dec_points:
  assumes "points p a" "a \<noteq> 0" "a - size_of T \<noteq> 0" "target_ok (a - size_of T)" "readable T p a"
  shows "\<exists>p'. offset_dec T p = Inr p' \<and> self p' = self p \<and> points p' (a - size_of T)"
  using moved_points [of p a "- size_of T"] assms by (simp add: offset_dec_def)

lemma diff_to_offset_address:
  assumes "address a" "address (a + diff * size_of T) \<or> address (a - diff * size_of T)"
  shows "diff_to_offset T diff = diff * size_of T"
  using assms by (auto simp: diff_to_offset_def address_def intptr_fits_def)

lemma offset_add_points:
  assumes "points p a" "a \<noteq> 0" "a + diff * size_of T \<noteq> 0" "target_ok (a + diff * size_of T)" "readable T p a"
  shows "\<exists>p'. offset_add_assign T diff p = Inr p' \<and> self p' = self p \<and> points p' (a + diff * size_of T)"
proof -
  have "diff_to_offset T diff = diff * size_of T"
    using assms by (intro diff_to_offset_address [of a]) (auto simp: points_def target_ok_def)
  then show ?thesis
    using moved_points [OF assms(1-4)] assms by (simp add: offset_add_assign_def)
qed

lemma offset_sub_points:
  assumes "points p a" "a \<noteq> 0" "a - diff * size_of T \<noteq> 0" "target_ok (a - diff * size_of T)" "readable T p a"
  shows "\<exists>p'. offset_sub_assign T diff p = Inr p' \<and> self p' = self p \<and> points p' (a - diff * size_of T)"
proof -
  have "diff_to_offset T diff = diff * size_of T"
    using assms by (intro diff_to_offset_address [of a]) (auto simp: points_def target_ok_def)
  then show ?thesis
    using moved_points [of p a "- (diff * size_of T)"] assms by (simp add: offset_sub_assign_def)
qed

lemma offset_difference_points:
  assumes "points p (b + k * size_of T)" "points q b" "b \<noteq> 0" "b + k * size_of T \<noteq> 0" "0 < size_of T"
    and "readable T p (b + k * size_of T)" "readable T q b"
  shows "offset_difference T p q = Inr k"
  using assms by (simp add: offset_difference_def)

text \<open>The order of non-null pointers is that of the addresses, and equality that of the raw pointers.\<close>

lemma offset_compare_points:
  assumes "points p a" "points q b" "readable T p a" "readable T q b"
  shows "offset_eq T p q = Inr (a = b)" "offset_ne T p q = Inr (a \<noteq> b)" "offset_lt T p q = Inr (a < b)"
proof -
  have "to_unsigned a = a" "to_unsigned b = b"
    using assms by (auto simp: points_def target_ok_def address_def to_unsigned_def)
  then show "offset_eq T p q = Inr (a = b)" "offset_ne T p q = Inr (a \<noteq> b)" "offset_lt T p q = Inr (a < b)"
    using assms by (simp_all add: offset_eq_def offset_ne_def offset_lt_def)
qed

text \<open>
  Two of the mixed comparisons test for equality, and turning a negative offset into a difference
  divides it as an unsigned number.
\<close>

lemma raw_compare_wrong:
  "points p a \<Longrightarrow> readable T p a \<Longrightarrow> raw_ne_offset T a p = Inr True \<and> raw_lt_offset T a p = Inr True"
  by (simp add: raw_ne_offset_def raw_lt_offset_def)

lemma offset_to_diff_negative:
  "offset_to_diff \<lparr>size_of = 8, checked = True\<rparr> (-8) = Inr (2 ^ 61 - 1)"
  by (simp add: offset_to_diff_def to_unsigned_def to_signed_def intptr_fits_def signed_take_bit_int_eq_self)

section \<open>Programs in a segment that moves\<close>

text \<open>
  A segment of shared memory with pointer variables at fixed positions \<open>pos\<close>, which a program sets,
  assigns and advances; between the steps the segment may be mapped at another address, where its
  bytes are unchanged.
\<close>

record segment =
  base :: int
  cells :: "int list"

datatype pointer_command =
    Point nat int | Nullify nat | Assign nat nat | Advance nat int | Retreat nat int | Incr nat | Decr nat | Remap int

definition variable :: "int list \<Rightarrow> segment \<Rightarrow> nat \<Rightarrow> offset_ptr" where
  "variable pos s i = \<lparr>self = base s + pos ! i, offset = cells s ! i\<rparr>"

definition store :: "nat \<Rightarrow> segment \<Rightarrow> offset_ptr \<Rightarrow> segment" where
  "store i s p = s\<lparr>cells := (cells s)[i := offset p]\<rparr>"

primrec segment_step :: "element_type \<Rightarrow> int list \<Rightarrow> segment \<Rightarrow> pointer_command \<Rightarrow> segment res" where
  "segment_step T pos s (Point i r) = res_bind (offset_ptr_new (base s + pos ! i) (base s + r)) (\<lambda>p. Inr (store i s p))"
| "segment_step T pos s (Nullify i) = Inr (store i s (offset_ptr_null (base s + pos ! i)))"
| "segment_step T pos s (Assign i j) =
     res_bind (offset_assign T (variable pos s i) (variable pos s j)) (\<lambda>p. Inr (store i s p))"
| "segment_step T pos s (Advance i k) = res_bind (offset_add_assign T k (variable pos s i)) (\<lambda>p. Inr (store i s p))"
| "segment_step T pos s (Retreat i k) = res_bind (offset_sub_assign T k (variable pos s i)) (\<lambda>p. Inr (store i s p))"
| "segment_step T pos s (Incr i) = res_bind (offset_inc T (variable pos s i)) (\<lambda>p. Inr (store i s p))"
| "segment_step T pos s (Decr i) = res_bind (offset_dec T (variable pos s i)) (\<lambda>p. Inr (store i s p))"
| "segment_step T pos s (Remap b) = Inr (s\<lparr>base := b\<rparr>)"

primrec segment_run :: "element_type \<Rightarrow> int list \<Rightarrow> pointer_command list \<Rightarrow> segment \<Rightarrow> segment res" where
  "segment_run T pos [] s = Inr s"
| "segment_run T pos (c # cs) s = res_bind (segment_step T pos s c) (segment_run T pos cs)"

text \<open>
  The specification: the same program with raw pointers, which a remapping adjusts. It is defined as
  long as the program advances no null pointer and all addresses are valid.
\<close>

record raw_segment =
  raw_base :: int
  raws :: "int list"

primrec raw_step :: "element_type \<Rightarrow> raw_segment \<Rightarrow> pointer_command \<Rightarrow> raw_segment" where
  "raw_step T r (Point i d) = r\<lparr>raws := (raws r)[i := raw_base r + d]\<rparr>"
| "raw_step T r (Nullify i) = r\<lparr>raws := (raws r)[i := 0]\<rparr>"
| "raw_step T r (Assign i j) = r\<lparr>raws := (raws r)[i := raws r ! j]\<rparr>"
| "raw_step T r (Advance i k) = r\<lparr>raws := (raws r)[i := raws r ! i + k * size_of T]\<rparr>"
| "raw_step T r (Retreat i k) = r\<lparr>raws := (raws r)[i := raws r ! i - k * size_of T]\<rparr>"
| "raw_step T r (Incr i) = r\<lparr>raws := (raws r)[i := raws r ! i + size_of T]\<rparr>"
| "raw_step T r (Decr i) = r\<lparr>raws := (raws r)[i := raws r ! i - size_of T]\<rparr>"
| "raw_step T r (Remap b) = r\<lparr>raw_base := b, raws := map (\<lambda>a. if a = 0 then 0 else a - raw_base r + b) (raws r)\<rparr>"

fun raw_guard :: "element_type \<Rightarrow> raw_segment \<Rightarrow> pointer_command \<Rightarrow> bool" where
  "raw_guard T r (Point i d) \<longleftrightarrow> i < length (raws r) \<and> raw_base r + d \<noteq> 0"
| "raw_guard T r (Nullify i) \<longleftrightarrow> i < length (raws r)"
| "raw_guard T r (Assign i j) \<longleftrightarrow> i < length (raws r) \<and> j < length (raws r)"
| "raw_guard T r (Advance i k) \<longleftrightarrow> i < length (raws r) \<and> raws r ! i \<noteq> 0 \<and> raws r ! i + k * size_of T \<noteq> 0"
| "raw_guard T r (Retreat i k) \<longleftrightarrow> i < length (raws r) \<and> raws r ! i \<noteq> 0 \<and> raws r ! i - k * size_of T \<noteq> 0"
| "raw_guard T r (Incr i) \<longleftrightarrow> i < length (raws r) \<and> raws r ! i \<noteq> 0 \<and> raws r ! i + size_of T \<noteq> 0"
| "raw_guard T r (Decr i) \<longleftrightarrow> i < length (raws r) \<and> raws r ! i \<noteq> 0 \<and> raws r ! i - size_of T \<noteq> 0"
| "raw_guard T r (Remap b) \<longleftrightarrow> list_all (\<lambda>a. a = 0 \<or> a - raw_base r + b \<noteq> 0) (raws r)"

definition raw_valid :: "int list \<Rightarrow> raw_segment \<Rightarrow> bool" where
  "raw_valid pos r \<longleftrightarrow> length (raws r) = length pos \<and>
     list_all (\<lambda>i. address (raw_base r + pos ! i) \<and> target_ok (raws r ! i)) [0..<length pos]"

primrec raw_run :: "element_type \<Rightarrow> int list \<Rightarrow> pointer_command list \<Rightarrow> raw_segment \<Rightarrow> raw_segment option" where
  "raw_run T pos [] r = Some r"
| "raw_run T pos (c # cs) r = (if raw_guard T r c \<and> raw_valid pos (raw_step T r c)
     then raw_run T pos cs (raw_step T r c) else None)"

text \<open>
  What \<open>offset_ptr\<close> adds to that: the command that reads a variable of a checked type trips over the
  assertion in \<open>get\<close> if the variable points to itself.
\<close>

primrec read_by :: "pointer_command \<Rightarrow> nat option" where
  "read_by (Point i d) = None"
| "read_by (Nullify i) = None"
| "read_by (Assign i j) = Some j"
| "read_by (Advance i k) = Some i"
| "read_by (Retreat i k) = Some i"
| "read_by (Incr i) = Some i"
| "read_by (Decr i) = Some i"
| "read_by (Remap b) = None"

definition points_to_itself :: "int list \<Rightarrow> raw_segment \<Rightarrow> nat \<Rightarrow> bool" where
  "points_to_itself pos r i \<longleftrightarrow> raws r ! i = raw_base r + pos ! i"

definition trips_at :: "element_type \<Rightarrow> int list \<Rightarrow> raw_segment \<Rightarrow> pointer_command \<Rightarrow> bool" where
  "trips_at T pos r c \<longleftrightarrow> checked T \<and> (case read_by c of None \<Rightarrow> False | Some i \<Rightarrow> points_to_itself pos r i)"

primrec trips :: "element_type \<Rightarrow> int list \<Rightarrow> pointer_command list \<Rightarrow> raw_segment \<Rightarrow> bool" where
  "trips T pos [] r \<longleftrightarrow> False"
| "trips T pos (c # cs) r \<longleftrightarrow> trips_at T pos r c \<or> trips T pos cs (raw_step T r c)"

definition raw_read :: "element_type \<Rightarrow> int list \<Rightarrow> raw_segment \<Rightarrow> nat \<Rightarrow> int res" where
  "raw_read T pos r i = (if checked T \<and> points_to_itself pos r i then Inl Assertion_failed else Inr (raws r ! i))"

definition simulates :: "int list \<Rightarrow> segment \<Rightarrow> raw_segment \<Rightarrow> bool" where
  "simulates pos s r \<longleftrightarrow> base s = raw_base r \<and> length (cells s) = length pos \<and> length (raws r) = length pos \<and>
     (\<forall>i<length pos. points (variable pos s i) (raws r ! i))"

lemma variable_store:
  "i < length (cells s) \<Longrightarrow> self p = base s + pos ! i \<Longrightarrow>
    variable pos (store i s p) j = (if j = i then p else variable pos s j)"
  by (simp add: variable_def store_def)

lemma simulates_store:
  assumes "simulates pos s r" "i < length pos" "self p = base s + pos ! i" "points p a"
  shows "simulates pos (store i s p) (r\<lparr>raws := (raws r)[i := a]\<rparr>)"
  using assms by (auto simp: simulates_def variable_store nth_list_update) (simp_all add: store_def)

lemma raw_valid_at:
  "raw_valid pos (r\<lparr>raws := (raws r)[i := a]\<rparr>) \<Longrightarrow> i < length pos \<Longrightarrow>
    address (raw_base r + pos ! i) \<and> target_ok a"
  by (auto simp: raw_valid_def list_all_length nth_list_update dest!: spec [of _ i])

lemma step_store:
  assumes "simulates pos s r" "i < length pos" "\<exists>p. m = Inr p \<and> self p = base s + pos ! i \<and> points p a"
  shows "\<exists>s'. res_bind m (\<lambda>p. Inr (store i s p)) = Inr s' \<and> simulates pos s' (r\<lparr>raws := (raws r)[i := a]\<rparr>)"
  using assms simulates_store [OF assms(1,2)] by auto

lemma simulates_remap:
  assumes "simulates pos s r" "raw_guard T r (Remap b)" "raw_valid pos (raw_step T r (Remap b))"
  shows "simulates pos (s\<lparr>base := b\<rparr>) (raw_step T r (Remap b))"
  using assms
  by (auto simp: simulates_def raw_valid_def list_all_length points_def variable_def)

lemma segment_step_trips:
  assumes sim: "simulates pos s r" and guard: "raw_guard T r c" and trip: "trips_at T pos r c"
  shows "segment_step T pos s c = Inl Assertion_failed"
proof -
  have pts: "i < length (raws r) \<Longrightarrow> points (variable pos s i) (raws r ! i)" for i
    using sim by (simp add: simulates_def)
  have self: "\<not> readable T (variable pos s i) (raws r ! i)" if "points_to_itself pos r i" for i
    using that trip sim by (simp add: readable_def trips_at_def points_to_itself_def variable_def simulates_def)
  have "offset_get T (variable pos s i) = Inl Assertion_failed" "not_null T (variable pos s i) = Inl Assertion_failed"
    if "i < length (raws r)" "points_to_itself pos r i" for i
    using offset_get_points [OF pts [OF that(1)], of T] not_null_unreadable [OF pts [OF that(1)]] self [OF that(2)]
    by simp_all
  then show ?thesis
    using guard trip
    by (cases c) (auto simp: trips_at_def offset_assign_def offset_add_assign_def offset_sub_assign_def offset_inc_def
        offset_dec_def)
qed

lemma segment_step_simulates:
  assumes sim: "simulates pos s r" and guard: "raw_guard T r c" and valid: "raw_valid pos (raw_step T r c)"
    and free: "\<not> trips_at T pos r c"
  shows "\<exists>s'. segment_step T pos s c = Inr s' \<and> simulates pos s' (raw_step T r c)"
proof -
  have len: "length (raws r) = length pos" and base: "base s = raw_base r"
    and pts: "i < length pos \<Longrightarrow> points (variable pos s i) (raws r ! i)" for i
    using sim by (auto simp: simulates_def)
  note at = raw_valid_at [of pos r]
  have self [simp]: "self (variable pos s i) = raw_base r + pos ! i" for i
    using base by (simp add: variable_def)
  have rd: "read_by c = Some i \<Longrightarrow> readable T (variable pos s i) (raws r ! i)" for i
    using free by (simp add: trips_at_def readable_def points_to_itself_def)
  show ?thesis
  proof (cases c)
    case (Point i d)
    then show ?thesis
      using step_store [OF sim] offset_ptr_new_points [of "raw_base r + pos ! i" "raw_base r + d"] at guard valid len base by simp
  next
    case (Nullify i)
    have "points (offset_ptr_null (base s + pos ! i)) 0"
      using Nullify at [of i 0] guard valid len base by (simp add: points_def offset_ptr_null_def)
    then show ?thesis
      using simulates_store [OF sim, of i] Nullify guard len by (simp add: offset_ptr_null_def)
  next
    case (Assign i j)
    then show ?thesis
      using step_store [OF sim] offset_assign_points [OF pts [of j] rd, of "variable pos s i"] at guard valid len base by simp
  next
    case (Advance i k)
    then show ?thesis
      using step_store [OF sim] offset_add_points [OF pts [of i], of k] rd [of i] at guard valid len base by simp
  next
    case (Retreat i k)
    then show ?thesis
      using step_store [OF sim] offset_sub_points [OF pts [of i], of k] rd [of i] at guard valid len base by simp
  next
    case (Incr i)
    then show ?thesis
      using step_store [OF sim] offset_inc_points [OF pts [of i]] rd [of i] at guard valid len base by simp
  next
    case (Decr i)
    then show ?thesis
      using step_store [OF sim] offset_dec_points [OF pts [of i]] rd [of i] at guard valid len base by simp
  next
    case (Remap b)
    then show ?thesis
      using simulates_remap [OF sim] guard valid by simp
  qed
qed

lemma segment_run_simulates:
  "simulates pos s r \<Longrightarrow> raw_run T pos cs r = Some r' \<Longrightarrow>
    (if trips T pos cs r then segment_run T pos cs s = Inl Assertion_failed
     else \<exists>s'. segment_run T pos cs s = Inr s' \<and> simulates pos s' r')"
proof (induction cs arbitrary: s r)
  case (Cons c cs)
  then have step: "raw_guard T r c" "raw_valid pos (raw_step T r c)" "raw_run T pos cs (raw_step T r c) = Some r'"
    by (auto split: if_splits)
  show ?case
  proof (cases "trips_at T pos r c")
    case True
    then show ?thesis
      using segment_step_trips [OF Cons.prems(1) step(1)] by simp
  next
    case False
    then obtain s1 where "segment_step T pos s c = Inr s1" "simulates pos s1 (raw_step T r c)"
      using segment_step_simulates [OF Cons.prems(1) step(1,2)] by blast
    then show ?thesis
      using Cons.IH [OF _ step(3)] False by simp
  qed
qed simp

section \<open>Properties\<close>

definition new_segment :: "int list \<Rightarrow> int \<Rightarrow> segment" where
  "new_segment pos b = \<lparr>base = b, cells = map (\<lambda>p. offset (offset_ptr_null (b + p))) pos\<rparr>"

definition new_raw_segment :: "int list \<Rightarrow> int \<Rightarrow> raw_segment" where
  "new_raw_segment pos b = \<lparr>raw_base = b, raws = map (\<lambda>_. 0) pos\<rparr>"

text \<open>
  C11. Offset pointers refine raw pointers: take a program that sets, assigns and advances pointer
  variables of a segment, which is mapped elsewhere any number of times in between, and that is defined
  with raw pointers (addresses are valid, null is not advanced). If it never reads a variable of a
  checked type while that variable points to itself, it runs with offset pointers without a failed
  assertion or an overflow, and then every variable gives the address that the raw pointer has, adjusted
  to where the segment is now (except that a variable of a checked type pointing to itself cannot be
  read). Otherwise it ends with the failed assertion of \<open>get\<close>.
\<close>

theorem offset_ptr_refines:
  assumes "list_all (\<lambda>p. address (b + p)) pos" "raw_run T pos cs (new_raw_segment pos b) = Some r"
  shows "if trips T pos cs (new_raw_segment pos b) then segment_run T pos cs (new_segment pos b) = Inl Assertion_failed
    else \<exists>s. segment_run T pos cs (new_segment pos b) = Inr s \<and> base s = raw_base r \<and>
      map (\<lambda>i. offset_get T (variable pos s i)) [0..<length pos] = map (raw_read T pos r) [0..<length pos]"
proof -
  have init: "simulates pos (new_segment pos b) (new_raw_segment pos b)"
    using assms(1)
    by (auto simp: simulates_def new_segment_def new_raw_segment_def points_def variable_def target_ok_def
        offset_ptr_null_def list_all_length)
  note run = segment_run_simulates [OF init assms(2)]
  have "map (\<lambda>i. offset_get T (variable pos s i)) [0..<length pos] = map (raw_read T pos r) [0..<length pos] \<and>
      base s = raw_base r" if "simulates pos s r" for s
    using that by (auto simp: simulates_def offset_get_points readable_def raw_read_def points_to_itself_def variable_def)
  then show ?thesis
    using run by (auto split: if_splits)
qed

theorem offset_ptr_refines_witness:
  "(\<exists>s. segment_run \<lparr>size_of = 8, checked = True\<rparr> [0, 8] [Point 0 64, Assign 1 0, Remap 20480, Advance 1 (-3), Incr 0]
      (new_segment [0, 8] 4096) = Inr s \<and> base s = 20480 \<and>
    map (\<lambda>i. offset_get \<lparr>size_of = 8, checked = True\<rparr> (variable [0, 8] s i)) [0..<2] = [Inr 20552, Inr 20520]) \<and>
   segment_run \<lparr>size_of = 8, checked = True\<rparr> [0, 8] [Point 0 8, Decr 0, Assign 1 0] (new_segment [0, 8] 4096) =
     Inl Assertion_failed"
  using offset_ptr_refines [of 4096 "[0, 8]" "\<lparr>size_of = 8, checked = True\<rparr>"
      "[Point 0 64, Assign 1 0, Remap 20480, Advance 1 (-3), Incr 0]" "\<lparr>raw_base = 20480, raws = [20552, 20520]\<rparr>"]
    offset_ptr_refines [of 4096 "[0, 8]" "\<lparr>size_of = 8, checked = True\<rparr>"
      "[Point 0 8, Decr 0, Assign 1 0]" "\<lparr>raw_base = 4096, raws = [4096, 4096]\<rparr>"]
  by (simp add: address_def new_raw_segment_def raw_valid_def target_ok_def upt_rec nth_Cons' trips_at_def
      points_to_itself_def raw_read_def)

end
